(* ===== verification/Prelude.thy ===== *)
theory Prelude
  imports Main "HOL-Library.Word" "HOL-Library.Monad_Syntax"
begin

text \<open>
  Shared vocabulary of the development: bytes and machine integers, the accesses that C code makes
  to a buffer, and the generic lemmas on lists, options and words that the component theories use.

  A C function that can perform an access outside its buffer, or fail an \<^verbatim>\<open>assert\<close>, is modelled in
  the option monad: \<open>None\<close> is the faulting execution, \<open>Some r\<close> a normal return with result \<open>r\<close>.
  That a function is free of such faults is then a theorem (\<open>f x \<noteq> None\<close>), never an assumption.
  An \<open>int\<close> of the code that cannot overflow is a mathematical integer; where wrap-around matters
  the value is a \<open>32 word\<close>.
\<close>

unbundle bit_operations_syntax

named_theorems safe_reads \<open>facts that turn a buffer access into its value\<close>

type_synonym byte = "8 word"
type_synonym bytes = "8 word list"
type_synonym u32 = "32 word"

text \<open>A client address as connections carry it: the IPv4 address, or \<open>0\<close> and an IPv6 address.\<close>

type_synonym addr_key = "32 word \<times> 8 word list"

definition zero_ipv6 :: bytes where
  "zero_ipv6 = replicate 16 0"

subsection \<open>Buffer accesses\<close>

text \<open>\<open>rd buf i\<close> is the C expression \<^verbatim>\<open>buf[i]\<close> on a buffer of \<open>length buf\<close> bytes.\<close>

definition rd :: "bytes \<Rightarrow> int \<Rightarrow> byte option" where
  "rd buf i = (if 0 \<le> i \<and> i < int (length buf) then Some (buf ! nat i) else None)"

text \<open>The bytes \<^verbatim>\<open>buf[i .. i+n)\<close>, as \<^verbatim>\<open>memcpy\<close> or \<^verbatim>\<open>memcmp\<close> read them.\<close>

definition rd_block :: "bytes \<Rightarrow> int \<Rightarrow> nat \<Rightarrow> bytes option" where
  "rd_block buf i n =
     (if 0 \<le> i \<and> i + int n \<le> int (length buf) then Some (take n (drop (nat i) buf)) else None)"

text \<open>\<^verbatim>\<open>memcmp (buf + i, str, sizeof (str) - 1) == 0\<close>.\<close>

definition memeq :: "bytes \<Rightarrow> int \<Rightarrow> bytes \<Rightarrow> bool option" where
  "memeq buf i str = map_option (\<lambda>b. b = str) (rd_block buf i (length str))"

lemma rd_Some [safe_reads]:
  "0 \<le> i \<Longrightarrow> i < int (length buf) \<Longrightarrow> rd buf i = Some (buf ! nat i)"
  by (simp add: rd_def)

lemma rd_eq_Some:
  "rd buf i = Some b \<longleftrightarrow> 0 \<le> i \<and> i < int (length buf) \<and> b = buf ! nat i"
  by (auto simp: rd_def)

lemma rd_block_Some [safe_reads]:
  "0 \<le> i \<Longrightarrow> i + int n \<le> int (length buf) \<Longrightarrow> rd_block buf i n = Some (take n (drop (nat i) buf))"
  by (simp add: rd_block_def)

lemma memeq_Some [safe_reads]:
  "0 \<le> i \<Longrightarrow> i + int (length str) \<le> int (length buf)
   \<Longrightarrow> memeq buf i str = Some (take (length str) (drop (nat i) buf) = str)"
  by (simp add: memeq_def rd_block_Some)

lemma length_rd_block: "rd_block buf i n = Some b \<Longrightarrow> length b = n"
  by (auto simp: rd_block_def split: if_splits)

subsection \<open>Reads in a buffer given by its parts\<close>

text \<open>
  A buffer written front to back is an append of its parts. A read at a numeral offset is resolved
  by walking over the parts.
\<close>

lemma rd_append:
  "rd (xs @ ys) i =
     (if i < int (length xs) then rd xs i else rd ys (i - int (length xs)))"
  by (auto simp: rd_def nth_append nat_diff_distrib le_nat_iff)

lemma rd_Cons: "rd (x # xs) i = (if i = 0 then Some x else rd xs (i - 1))"
  by (auto simp: rd_def nth_Cons' nat_diff_distrib)

lemma rd_block_append_skip:
  "int (length xs) \<le> i \<Longrightarrow> rd_block (xs @ ys) i n = rd_block ys (i - int (length xs)) n"
  by (auto simp: rd_block_def nat_diff_distrib)

lemma rd_block_append_exact:
  "length xs = n \<Longrightarrow> rd_block (xs @ ys) 0 n = Some xs"
  by (simp add: rd_block_def)

subsection \<open>Words as C values\<close>

lemma uint_byte_bounds [simp]: "0 \<le> uint (b :: byte)" "uint (b :: byte) < 256"
  using uint_bounded [of b] by simp_all

lemma uint_byte_le [simp]: "uint (b :: byte) \<le> 255"
  using uint_byte_bounds(2) [of b] by linarith

text \<open>\<^verbatim>\<open>(unsigned char) n\<close> for a non-negative \<open>n\<close>, and the two bytes of a big-endian length.\<close>

definition byte_of_int :: "int \<Rightarrow> byte" where
  "byte_of_int n = word_of_int n"

lemma uint_byte_of_int: "uint (byte_of_int n) = n mod 256"
  by (simp add: byte_of_int_def uint_word_of_int)

lemma be16_bytes:
  assumes "0 \<le> n" "n < 65536"
  shows "uint (byte_of_int (n div 256)) * 256 + uint (byte_of_int (n mod 256)) = n"
proof -
  from assms have "n div 256 < 256" "0 \<le> n div 256" by auto
  then show ?thesis by (simp add: uint_byte_of_int)
qed

subsection \<open>Executions without a fault\<close>

text \<open>
  \<open>no_fault m\<close>: the modelled call returns. The rules below follow the structure of a definition in
  the option monad; applied with \<open>intro\<close> they leave one goal per buffer access.
\<close>

definition no_fault :: "'a option \<Rightarrow> bool" where
  "no_fault m \<longleftrightarrow> m \<noteq> None"

named_theorems no_fault_intros \<open>structural rules for executions without a fault\<close>

lemma no_fault_Some [no_fault_intros, simp]: "no_fault (Some x)"
  by (simp add: no_fault_def)

lemma no_fault_None [simp]: "\<not> no_fault None"
  by (simp add: no_fault_def)

lemma no_fault_bind [no_fault_intros]:
  "no_fault m \<Longrightarrow> (\<And>x. m = Some x \<Longrightarrow> no_fault (f x)) \<Longrightarrow> no_fault (Option.bind m f)"
  by (cases m) (auto simp: no_fault_def)

lemma no_fault_if [no_fault_intros]:
  "(b \<Longrightarrow> no_fault x) \<Longrightarrow> (\<not> b \<Longrightarrow> no_fault y) \<Longrightarrow> no_fault (if b then x else y)"
  by simp

lemma no_fault_let [no_fault_intros]:
  "(\<And>x. x = t \<Longrightarrow> no_fault (f x)) \<Longrightarrow> no_fault (Let t f)"
  by (simp add: Let_def)

lemma no_fault_case_prod [no_fault_intros]:
  "(\<And>a b. p = (a, b) \<Longrightarrow> no_fault (f a b)) \<Longrightarrow> no_fault (case p of (a, b) \<Rightarrow> f a b)"
  by (cases p) simp

lemma no_fault_case_sum [no_fault_intros]:
  "(\<And>a. s = Inl a \<Longrightarrow> no_fault (f a)) \<Longrightarrow> (\<And>b. s = Inr b \<Longrightarrow> no_fault (g b))
   \<Longrightarrow> no_fault (case s of Inl a \<Rightarrow> f a | Inr b \<Rightarrow> g b)"
  by (cases s) simp_all

lemma no_fault_case_option [no_fault_intros]:
  "(m = None \<Longrightarrow> no_fault a) \<Longrightarrow> (\<And>x. m = Some x \<Longrightarrow> no_fault (f x))
   \<Longrightarrow> no_fault (case m of None \<Rightarrow> a | Some x \<Rightarrow> f x)"
  by (cases m) simp_all

lemma no_fault_rd [no_fault_intros]: "0 \<le> i \<Longrightarrow> i < int (length buf) \<Longrightarrow> no_fault (rd buf i)"
  by (simp add: safe_reads)

lemma no_fault_rd_block [no_fault_intros]:
  "0 \<le> i \<Longrightarrow> i + int n \<le> int (length buf) \<Longrightarrow> no_fault (rd_block buf i n)"
  by (simp add: safe_reads)

lemma no_fault_memeq [no_fault_intros]:
  "0 \<le> i \<Longrightarrow> i + int (length str) \<le> int (length buf) \<Longrightarrow> no_fault (memeq buf i str)"
  by (simp add: safe_reads)

lemma no_faultE:
  assumes "no_fault m"
  obtains x where "m = Some x"
  using assms by (auto simp: no_fault_def)

lemma bind_SomeE:
  assumes "Option.bind m f = Some y"
  obtains x where "m = Some x" "f x = Some y"
  using assms by (cases m) auto

subsection \<open>Tables\<close>

text \<open>
  The contract of a table whose entries carry their key and where a later entry shadows or replaces
  an earlier one: what a lookup returns after an insertion. \<open>tbl_inv\<close> is the representation invariant.
\<close>

locale keyed_table =
  fixes tbl_inv :: "'s \<Rightarrow> bool"
    and key_of :: "'v \<Rightarrow> 'k"
    and ins :: "'v \<Rightarrow> 's \<Rightarrow> 's"
    and lookup :: "'s \<Rightarrow> 'k \<Rightarrow> 'v option"
  assumes inv_ins: "tbl_inv s \<Longrightarrow> tbl_inv (ins v s)"
    and lookup_ins: "tbl_inv s \<Longrightarrow> lookup (ins v s) k = (if k = key_of v then Some v else lookup s k)"
begin

lemma inv_fold: "tbl_inv s \<Longrightarrow> tbl_inv (fold ins vs s)"
  by (induction vs arbitrary: s) (simp_all add: inv_ins)

text \<open>After any sequence of insertions a lookup returns the last entry with the key.\<close>

lemma lookup_fold:
  "tbl_inv s \<Longrightarrow> lookup (fold ins vs s) k =
     (case find (\<lambda>v. key_of v = k) (rev vs) of Some v \<Rightarrow> Some v | None \<Rightarrow> lookup s k)"
  by (induction vs rule: rev_induct) (auto simp: lookup_ins inv_fold)

end

lemma find_rev_snoc: "find P (rev (xs @ [x])) = (if P x then Some x else find P (rev xs))"
  by simp

lemma list_all_update: "list_all P xs \<Longrightarrow> P x \<Longrightarrow> list_all P (xs[i := x])"
  using set_update_subset_insert [of xs i x] by (auto simp: list_all_iff)

lemma find_SomeD: "find P xs = Some x \<Longrightarrow> x \<in> set xs \<and> P x"
  by (induction xs) (auto split: if_splits)

lemma find_filter: "find P (filter Q xs) = find (\<lambda>x. Q x \<and> P x) xs"
  by (induction xs) auto

subsection \<open>Simulations\<close>

text \<open>
  Runs of a component over a list of inputs: the detailed step may fault, the abstract step is a
  total function. \<open>run_pre\<close> collects what the environment has to respect before each step.
\<close>

primrec run :: "('i \<Rightarrow> 's \<Rightarrow> ('o \<times> 's) option) \<Rightarrow> 'i list \<Rightarrow> 's \<Rightarrow> ('o list \<times> 's) option" where
  "run cstep [] s = Some ([], s)"
| "run cstep (i # is) s = do {
     (out, s) \<leftarrow> cstep i s;
     (outs, s) \<leftarrow> run cstep is s;
     Some (out # outs, s)
   }"

primrec arun :: "('i \<Rightarrow> 'a \<Rightarrow> 'o \<times> 'a) \<Rightarrow> 'i list \<Rightarrow> 'a \<Rightarrow> 'o list \<times> 'a" where
  "arun astep [] a = ([], a)"
| "arun astep (i # is) a =
     (let (out, a) = astep i a; (outs, a) = arun astep is a in (out # outs, a))"

primrec run_pre :: "('i \<Rightarrow> 's \<Rightarrow> ('o \<times> 's) option) \<Rightarrow> ('i \<Rightarrow> 's \<Rightarrow> bool) \<Rightarrow> 'i list \<Rightarrow> 's \<Rightarrow> bool" where
  "run_pre cstep pre [] s = True"
| "run_pre cstep pre (i # is) s =
     (pre i s \<and> (case cstep i s of None \<Rightarrow> True | Some (out, s) \<Rightarrow> run_pre cstep pre is s))"

locale simulation =
  fixes rel :: "'s \<Rightarrow> 'a \<Rightarrow> bool"
    and cstep :: "'i \<Rightarrow> 's \<Rightarrow> ('o \<times> 's) option"
    and astep :: "'i \<Rightarrow> 'a \<Rightarrow> 'o \<times> 'a"
    and pre :: "'i \<Rightarrow> 's \<Rightarrow> bool"
  assumes sim: "rel s a \<Longrightarrow> pre i s \<Longrightarrow> \<exists>s'. cstep i s = Some (fst (astep i a), s') \<and> rel s' (snd (astep i a))"
begin

lemma run_sim:
  "rel s a \<Longrightarrow> run_pre cstep pre is s \<Longrightarrow>
   \<exists>s'. run cstep is s = Some (fst (arun astep is a), s') \<and> rel s' (snd (arun astep is a))"
proof (induction "is" arbitrary: s a)
  case (Cons i rest)
  from Cons.prems sim [of s a i] obtain s' where s':
    "cstep i s = Some (fst (astep i a), s')" "rel s' (snd (astep i a))" by auto
  with Cons.IH [OF s'(2)] Cons.prems(2) show ?case by (auto simp: case_prod_beta)
qed simp

end

subsection \<open>Invariants of machines\<close>

text \<open>
  A machine with initial states and a step relation; what holds initially and is kept by every step
  holds in every reachable state.
\<close>

locale invariant_machine =
  fixes init :: "'s \<Rightarrow> bool"
    and step :: "'s \<Rightarrow> 's \<Rightarrow> bool"
    and inv :: "'s \<Rightarrow> bool"
  assumes inv_init: "init s \<Longrightarrow> inv s"
    and inv_step: "inv s \<Longrightarrow> step s s' \<Longrightarrow> inv s'"
begin

lemma inv_steps: "step\<^sup>*\<^sup>* s s' \<Longrightarrow> inv s \<Longrightarrow> inv s'"
  by (induction rule: rtranclp_induct) (auto intro: inv_step)

lemma inv_reachable: "init s \<Longrightarrow> step\<^sup>*\<^sup>* s s' \<Longrightarrow> inv s'"
  using inv_steps inv_init by blast

end

end
