(* ===== verification/Uniq_Bloom.thy ===== *)
theory Uniq_Bloom
  imports Prelude
begin

text \<open>
  The Bloom filter of \<^verbatim>\<open>src/src/net/net-tcp-rpc-ext-uniq-bloom.c\<close> that counts the distinct client
  addresses of a secret. One row of \<^verbatim>\<open>uniq_bloom\<close> is the function from byte index to byte; the index
  computed by the code is shown to stay below \<^verbatim>\<open>BLOOM_BYTES\<close>. Addresses are as the connections carry
  them: an IPv4 address as a word, or \<open>0\<close> and the sixteen bytes of an IPv6 address.
\<close>

subsection \<open>The contract of a novelty filter\<close>

text \<open>
  A filter with a test-and-set operation: a key that has been set is never reported as new again,
  and no other operation makes it new. The number of reports of "new" is then at most the number of
  distinct keys, and no key is counted twice.
\<close>

text \<open>The keys of a sequence that are reported as new.\<close>

primrec novel_keys :: "('k \<Rightarrow> 's \<Rightarrow> bool \<times> 's) \<Rightarrow> 'k list \<Rightarrow> 's \<Rightarrow> 'k list" where
  "novel_keys tas [] s = []"
| "novel_keys tas (k # ks) s = (if fst (tas k s) then [k] else []) @ novel_keys tas ks (snd (tas k s))"

locale novelty_filter =
  fixes tas :: "'k \<Rightarrow> 's \<Rightarrow> bool \<times> 's"
  assumes set_known: "\<not> fst (tas k (snd (tas k s)))"
    and known_stays: "\<not> fst (tas k s) \<Longrightarrow> \<not> fst (tas k (snd (tas j s)))"
begin

lemma known_not_novel: "\<not> fst (tas k s) \<Longrightarrow> k \<notin> set (novel_keys tas ks s)"
  by (induction ks arbitrary: s) (auto simp: known_stays)

lemma novel_keys_distinct: "distinct (novel_keys tas ks s)"
  by (induction ks arbitrary: s) (auto simp: known_not_novel set_known)

lemma novel_keys_subset: "set (novel_keys tas ks s) \<subseteq> set ks"
  by (induction ks arbitrary: s) auto

lemma novel_count: "length (novel_keys tas ks s) \<le> card (set ks)"
  using novel_keys_distinct [of ks s] novel_keys_subset [of ks s]
  by (metis card_mono distinct_card finite_set)

end

subsection \<open>The filter\<close>

definition BLOOM_BITS :: u32 where "BLOOM_BITS = 0x10000"
definition BLOOM_MASK :: u32 where "BLOOM_MASK = BLOOM_BITS - 1"
definition BLOOM_BYTES :: nat where "BLOOM_BYTES = 8192"

type_synonym bloom_row = "nat \<Rightarrow> byte"

definition uniq_bloom_clear_row :: bloom_row where
  "uniq_bloom_clear_row = (\<lambda>_. 0)"

definition be32_at :: "bytes \<Rightarrow> nat \<Rightarrow> u32" where
  "be32_at b i = push_bit 24 (ucast (b ! i)) OR push_bit 16 (ucast (b ! (i + 1))) OR
     push_bit 8 (ucast (b ! (i + 2))) OR ucast (b ! (i + 3))"

definition bloom_hashes :: "u32 \<Rightarrow> bytes \<Rightarrow> u32 list" where
  "bloom_hashes ip ipv6 =
     (if ip \<noteq> 0 then
        let x = ip in
        [(x * 2654435761) AND BLOOM_MASK,
         (x * 40503 + 0x9e3779b9) AND BLOOM_MASK,
         ((x XOR drop_bit 16 x) * 0x85ebca6b) AND BLOOM_MASK,
         ((x XOR drop_bit 13 x) * 0xc2b2ae35) AND BLOOM_MASK]
      else
        let a = be32_at ipv6 0; b = be32_at ipv6 4; c = be32_at ipv6 8; d = be32_at ipv6 12 in
        [(a XOR (b * 2654435761)) AND BLOOM_MASK,
         (b XOR (c * 40503)) AND BLOOM_MASK,
         (c XOR (d * 0x85ebca6b)) AND BLOOM_MASK,
         (d XOR (a * 0xc2b2ae35)) AND BLOOM_MASK])"

text \<open>One round of the loop: byte index \<^verbatim>\<open>bit >> 3\<close>, mask \<^verbatim>\<open>1u << (bit & 7)\<close>.\<close>

definition bloom_index :: "u32 \<Rightarrow> nat" where
  "bloom_index h = unat (drop_bit 3 h)"

definition bloom_mask :: "u32 \<Rightarrow> byte" where
  "bloom_mask h = push_bit (unat (h AND 7)) 1"

definition bloom_step :: "u32 \<Rightarrow> bool \<times> bloom_row \<Rightarrow> bool \<times> bloom_row" where
  "bloom_step h nr =
     (let (novel, row) = nr; p = bloom_index h; m = bloom_mask h in
      if row p AND m = 0 then (True, row(p := row p OR m)) else (novel, row))"

definition uniq_bloom_test_and_set :: "u32 \<times> bytes \<Rightarrow> bloom_row \<Rightarrow> bool \<times> bloom_row" where
  "uniq_bloom_test_and_set addr row =
     fold bloom_step (bloom_hashes (fst addr) (snd addr)) (False, row)"

subsection \<open>Correctness\<close>

definition bit_set :: "u32 \<Rightarrow> bloom_row \<Rightarrow> bool" where
  "bit_set h row \<longleftrightarrow> row (bloom_index h) AND bloom_mask h \<noteq> 0"

lemma unat_and_7: "unat ((h :: u32) AND 7) < 8"
proof -
  have "h AND 7 \<le> 7" by (rule word_and_le1)
  then show ?thesis by (simp add: word_le_nat_alt)
qed

lemma bloom_mask_nonzero: "bloom_mask h \<noteq> 0"
proof
  assume "bloom_mask h = 0"
  then have "bit (bloom_mask h) (unat (h AND 7)) = False" by simp
  then show False using unat_and_7 [of h] by (simp add: bloom_mask_def bit_simps)
qed

lemma and_or_nonzero: "(x AND m \<noteq> 0) \<Longrightarrow> ((x OR y) AND m \<noteq> (0 :: byte))"
  by (metis bit.conj_disj_distrib2 or_eq_0_iff)

lemma bloom_step_sets: "bit_set h (snd (bloom_step h nr))"
proof -
  have "(x OR m) AND m = m" for x m :: byte by (rule bit_word_eqI) (auto simp: bit_simps)
  then show ?thesis
    by (auto simp: bloom_step_def bit_set_def Let_def case_prod_beta bloom_mask_nonzero)
qed

lemma bloom_step_keeps: "bit_set h (snd nr) \<Longrightarrow> bit_set h (snd (bloom_step j nr))"
  by (auto simp: bloom_step_def bit_set_def Let_def case_prod_beta and_or_nonzero)

lemma fold_bloom_keeps: "bit_set h (snd nr) \<Longrightarrow> bit_set h (snd (fold bloom_step hs nr))"
  by (induction hs arbitrary: nr) (auto simp: bloom_step_keeps)

lemma fold_bloom_sets: "h \<in> set hs \<Longrightarrow> bit_set h (snd (fold bloom_step hs nr))"
proof (induction hs arbitrary: nr)
  case (Cons j hs)
  then show ?case using fold_bloom_keeps [OF bloom_step_sets] by (cases "h = j") simp_all
qed simp

lemma fold_bloom_novel:
  "fst (fold bloom_step hs nr) \<longleftrightarrow> fst nr \<or> (\<exists>h \<in> set hs. \<not> bit_set h (snd nr))"
proof (induction hs arbitrary: nr)
  case (Cons h hs)
  show ?case
  proof (cases "bit_set h (snd nr)")
    case True
    then have "bloom_step h nr = nr" by (simp add: bloom_step_def bit_set_def Let_def case_prod_beta)
    with Cons True show ?thesis by simp
  next
    case False
    then have "fst (bloom_step h nr)" by (simp add: bloom_step_def bit_set_def Let_def case_prod_beta)
    with Cons False show ?thesis by simp
  qed
qed simp

lemma test_and_set_novel:
  "fst (uniq_bloom_test_and_set a row) \<longleftrightarrow> (\<exists>h \<in> set (bloom_hashes (fst a) (snd a)). \<not> bit_set h row)"
  by (simp add: uniq_bloom_test_and_set_def fold_bloom_novel)

interpretation bloom: novelty_filter uniq_bloom_test_and_set
proof
  fix k s
  show "\<not> fst (uniq_bloom_test_and_set k (snd (uniq_bloom_test_and_set k s)))"
    unfolding test_and_set_novel by (auto simp: uniq_bloom_test_and_set_def fold_bloom_sets)
next
  fix k s j
  assume "\<not> fst (uniq_bloom_test_and_set k s)"
  then show "\<not> fst (uniq_bloom_test_and_set k (snd (uniq_bloom_test_and_set j s)))"
    unfolding test_and_set_novel by (auto simp: uniq_bloom_test_and_set_def fold_bloom_keeps)
qed

lemma bloom_index_less: "bloom_index (x AND BLOOM_MASK) < BLOOM_BYTES"
proof -
  have "x AND BLOOM_MASK \<le> 0xFFFF"
    unfolding BLOOM_MASK_def BLOOM_BITS_def by (simp add: word_and_le1)
  then have "unat (x AND BLOOM_MASK) \<le> 0xFFFF" by (simp add: word_le_nat_alt)
  then show ?thesis
    unfolding bloom_index_def unat_drop_bit_eq BLOOM_BYTES_def by (simp add: drop_bit_eq_div)
qed

text \<open>
  C33: The cumulative count of unique addresses is sound: over any sequence of connections since the
  filter was cleared, no address is counted twice, only addresses that connected are counted, and so
  the count never exceeds the number of distinct addresses; the byte written for any address lies in
  the row.
\<close>

theorem uniq_bloom_counts_once:
  "distinct (novel_keys uniq_bloom_test_and_set addrs uniq_bloom_clear_row) \<and>
   set (novel_keys uniq_bloom_test_and_set addrs uniq_bloom_clear_row) \<subseteq> set addrs \<and>
   length (novel_keys uniq_bloom_test_and_set addrs uniq_bloom_clear_row) \<le> card (set addrs) \<and>
   list_all (\<lambda>h. bloom_index h < BLOOM_BYTES) (bloom_hashes ip ipv6)"
proof -
  have "list_all (\<lambda>h. bloom_index h < BLOOM_BYTES) (bloom_hashes ip ipv6)"
    by (simp add: bloom_hashes_def Let_def bloom_index_less)
  then show ?thesis
    by (intro conjI bloom.novel_keys_distinct bloom.novel_keys_subset bloom.novel_count)
qed

end
