(* ===== verification/Secrets.thy ===== *)
theory Secrets
  imports Complex_Main C_String Uniq_Bloom
begin

text \<open>
  The secrets of the proxy: the \<^verbatim>\<open>ext_secret_*\<close> and \<^verbatim>\<open>per_secret_*\<close> arrays of
  \<^verbatim>\<open>src/src/net/net-tcp-rpc-ext-server.c\<close> with the limit checks, the per-address tracking and the token
  bucket, and the slot state machine of \<^verbatim>\<open>src/src/net/net-tcp-rpc-ext-drain.c\<close> (reload, draining,
  release).

  The parallel arrays are one list of \<open>slot\<close> records. \<^verbatim>\<open>workers\<close>, \<^verbatim>\<open>now\<close> and \<^verbatim>\<open>precise_now\<close> are arguments;
  times in \<^verbatim>\<open>double\<close> seconds are real numbers and counters are integers.
\<close>

subsection \<open>Data\<close>

definition EXT_SECRET_MAX_ACTIVE :: nat where "EXT_SECRET_MAX_ACTIVE = 16"
definition EXT_SECRET_MAX_SLOTS :: nat where "EXT_SECRET_MAX_SLOTS = 32"
definition EXT_SECRET_LABEL_MAX :: nat where "EXT_SECRET_LABEL_MAX = 32"
definition SECRET_MAX_TRACKED_IPS :: nat where "SECRET_MAX_TRACKED_IPS = 256"

datatype slot_state = SLOT_FREE | SLOT_ACTIVE | SLOT_DRAINING

record tracked_ip =
  tip_ip :: u32
  tip_ipv6 :: bytes
  tip_connections :: int
  tip_tokens :: int
  tip_last_refill :: real

record slot_stats =
  per_secret_connections :: int
  per_secret_connections_created :: int
  per_secret_connections_rejected :: int
  per_secret_bytes_received :: int
  per_secret_bytes_sent :: int
  per_secret_rejected_quota :: int
  per_secret_rejected_ips :: int
  per_secret_rejected_expired :: int
  per_secret_unique_ips :: int
  per_secret_rate_limited :: int
  per_secret_rejected_draining :: int
  per_secret_drain_forced :: int

record slot =
  ext_secret :: bytes
  ext_secret_label :: bytes
  ext_secret_limit :: int
  ext_secret_quota :: int
  ext_secret_rate_limit :: int
  ext_secret_max_ips :: int
  ext_secret_expires :: int
  ext_secret_state :: slot_state
  ext_secret_drain_started_at :: real
  per_secret_ips :: "tracked_ip list"
  per_secret_unique_ip_count :: int
  uniq_bloom_row :: bloom_row
  stats :: slot_stats

record secrets =
  slots :: "slot list"
  ext_secret_cnt :: nat
  ext_secret_pinned :: nat

definition zero_tip :: tracked_ip where
  "zero_tip = \<lparr>tip_ip = 0, tip_ipv6 = zero_ipv6, tip_connections = 0, tip_tokens = 0, tip_last_refill = 0\<rparr>"

definition zero_stats :: slot_stats where
  "zero_stats = \<lparr>per_secret_connections = 0, per_secret_connections_created = 0,
     per_secret_connections_rejected = 0, per_secret_bytes_received = 0, per_secret_bytes_sent = 0,
     per_secret_rejected_quota = 0, per_secret_rejected_ips = 0, per_secret_rejected_expired = 0,
     per_secret_unique_ips = 0, per_secret_rate_limited = 0, per_secret_rejected_draining = 0,
     per_secret_drain_forced = 0\<rparr>"

definition zero_slot :: slot where
  "zero_slot = \<lparr>ext_secret = replicate 16 0, ext_secret_label = [], ext_secret_limit = 0, ext_secret_quota = 0,
     ext_secret_rate_limit = 0, ext_secret_max_ips = 0, ext_secret_expires = 0,
     ext_secret_state = SLOT_FREE, ext_secret_drain_started_at = 0,
     per_secret_ips = replicate SECRET_MAX_TRACKED_IPS zero_tip, per_secret_unique_ip_count = 0,
     uniq_bloom_row = uniq_bloom_clear_row, stats = zero_stats\<rparr>"

definition secrets_init :: secrets where
  "secrets_init = \<lparr>slots = replicate EXT_SECRET_MAX_SLOTS zero_slot, ext_secret_cnt = 0, ext_secret_pinned = 0\<rparr>"

text \<open>What the configuration says about one secret (an absent array counts as zeros).\<close>

record secret_cfg =
  cfg_key :: bytes
  cfg_label :: bytes
  cfg_limit :: int
  cfg_quota :: int
  cfg_rate_limit :: int
  cfg_max_ips :: int
  cfg_expires :: int

subsection \<open>Adding a secret\<close>

text \<open>\<^verbatim>\<open>snprintf (ext_secret_label[idx], ...)\<close>: the given label, or \<^verbatim>\<open>secret_<idx>\<close>.\<close>

definition set_label :: "bytes \<Rightarrow> nat \<Rightarrow> bytes" where
  "set_label label idx =
     take EXT_SECRET_LABEL_MAX
       (if label \<noteq> [] then label else [0x73, 0x65, 0x63, 0x72, 0x65, 0x74, 0x5f] @ decimal idx)"

text \<open>\<^verbatim>\<open>memset\<close> of the address table, \<^verbatim>\<open>uniq_bloom_clear_slot\<close> and the unique count.\<close>

definition tcp_rpcs_ip_track_clear_slot :: "slot \<Rightarrow> slot" where
  "tcp_rpcs_ip_track_clear_slot s =
     s\<lparr>per_secret_ips := replicate SECRET_MAX_TRACKED_IPS zero_tip, uniq_bloom_row := uniq_bloom_clear_row,
       per_secret_unique_ip_count := 0\<rparr>"

text \<open>The metadata part that adding and reloading share.\<close>

definition set_metadata :: "secret_cfg \<Rightarrow> nat \<Rightarrow> slot \<Rightarrow> slot" where
  "set_metadata c idx s =
     s\<lparr>ext_secret_label := set_label (cfg_label c) idx, ext_secret_limit := cfg_limit c,
       ext_secret_quota := cfg_quota c, ext_secret_rate_limit := cfg_rate_limit c,
       ext_secret_max_ips := cfg_max_ips c, ext_secret_expires := cfg_expires c,
       ext_secret_state := SLOT_ACTIVE, ext_secret_drain_started_at := 0\<rparr>"

definition tcp_rpcs_set_ext_secret :: "secret_cfg \<Rightarrow> secrets \<Rightarrow> secrets option" where
  "tcp_rpcs_set_ext_secret c st =
     (if ext_secret_cnt st < EXT_SECRET_MAX_ACTIVE then
        let idx = ext_secret_cnt st;
            s = set_metadata c idx ((slots st ! idx)\<lparr>ext_secret := cfg_key c\<rparr>)
        in Some (st\<lparr>slots := (slots st)[idx := tcp_rpcs_ip_track_clear_slot s],
                    ext_secret_cnt := idx + 1\<rparr>)
      else None)"

definition tcp_rpcs_pin_ext_secrets :: "secrets \<Rightarrow> secrets" where
  "tcp_rpcs_pin_ext_secrets st = st\<lparr>ext_secret_pinned := ext_secret_cnt st\<rparr>"

subsection \<open>Limits\<close>

text \<open>A limit divided among the workers, at least one.\<close>

definition eff_limit :: "int \<Rightarrow> int \<Rightarrow> int" where
  "eff_limit workers limit =
     (let eff = (if workers > 1 then limit div workers else limit) in if eff < 1 then 1 else eff)"

definition secret_over_limit :: "int \<Rightarrow> slot \<Rightarrow> bool" where
  "secret_over_limit workers s =
     (if ext_secret_limit s \<le> 0 then False
      else per_secret_connections (stats s) \<ge> eff_limit workers (ext_secret_limit s))"

definition secret_expired :: "int \<Rightarrow> slot \<Rightarrow> bool" where
  "secret_expired now s \<longleftrightarrow> ext_secret_expires s > 0 \<and> now \<ge> ext_secret_expires s"

definition secret_over_quota :: "int \<Rightarrow> slot \<Rightarrow> bool" where
  "secret_over_quota workers s =
     (if ext_secret_quota s \<le> 0 then False
      else per_secret_bytes_received (stats s) + per_secret_bytes_sent (stats s)
             \<ge> eff_limit workers (ext_secret_quota s))"

subsection \<open>Tracked addresses\<close>

definition tip_matches :: "addr_key \<Rightarrow> tracked_ip \<Rightarrow> bool" where
  "tip_matches a e \<longleftrightarrow>
     tip_connections e > 0 \<and>
     (if fst a \<noteq> 0 then tip_ip e = fst a
      else tip_ip e = 0 \<and> tip_ipv6 e \<noteq> zero_ipv6 \<and> tip_ipv6 e = snd a)"

fun find_index :: "('a \<Rightarrow> bool) \<Rightarrow> 'a list \<Rightarrow> nat option" where
  "find_index P [] = None"
| "find_index P (x # xs) = (if P x then Some 0 else map_option Suc (find_index P xs))"

definition ip_over_limit :: "int \<Rightarrow> addr_key \<Rightarrow> slot \<Rightarrow> bool" where
  "ip_over_limit workers a s =
     (if ext_secret_max_ips s \<le> 0 then False
      else if find_index (tip_matches a) (per_secret_ips s) \<noteq> None then False
      else per_secret_unique_ip_count s \<ge> eff_limit workers (ext_secret_max_ips s))"

definition new_tip :: "int \<Rightarrow> real \<Rightarrow> int \<Rightarrow> addr_key \<Rightarrow> tracked_ip \<Rightarrow> tracked_ip" where
  "new_tip workers precise_now rl a e =
     (let e = e\<lparr>tip_ip := fst a, tip_ipv6 := snd a, tip_connections := 1\<rparr> in
      if rl > 0 then e\<lparr>tip_tokens := eff_limit workers rl, tip_last_refill := precise_now\<rparr> else e)"

definition ip_track_connect :: "int \<Rightarrow> real \<Rightarrow> addr_key \<Rightarrow> slot \<Rightarrow> slot" where
  "ip_track_connect workers precise_now a s =
     (let (novel, row) = uniq_bloom_test_and_set a (uniq_bloom_row s);
          s = s\<lparr>uniq_bloom_row := row\<rparr>;
          s = (if novel then s\<lparr>stats := (stats s)\<lparr>per_secret_unique_ips := per_secret_unique_ips (stats s) + 1\<rparr>\<rparr> else s)
      in
      if ext_secret_max_ips s \<le> 0 \<and> ext_secret_rate_limit s \<le> 0 then s else
      case find_index (tip_matches a) (per_secret_ips s) of
        Some i \<Rightarrow>
          let e = per_secret_ips s ! i
          in s\<lparr>per_secret_ips := (per_secret_ips s)[i := e\<lparr>tip_connections := tip_connections e + 1\<rparr>]\<rparr>
      | None \<Rightarrow>
          (case find_index (\<lambda>e. tip_connections e \<le> 0) (per_secret_ips s) of
             Some i \<Rightarrow>
               s\<lparr>per_secret_ips := (per_secret_ips s)[i :=
                   new_tip workers precise_now (ext_secret_rate_limit s) a (per_secret_ips s ! i)],
                 per_secret_unique_ip_count := per_secret_unique_ip_count s + 1\<rparr>
           | None \<Rightarrow> s))"

definition ip_track_disconnect_impl :: "addr_key \<Rightarrow> slot \<Rightarrow> slot" where
  "ip_track_disconnect_impl a s =
     (case find_index (tip_matches a) (per_secret_ips s) of
        None \<Rightarrow> s
      | Some i \<Rightarrow>
          let e = per_secret_ips s ! i;
              e = e\<lparr>tip_connections := tip_connections e - 1\<rparr>
          in if tip_connections e \<le> 0
             then s\<lparr>per_secret_ips := (per_secret_ips s)[i := e\<lparr>tip_ip := 0, tip_ipv6 := zero_ipv6, tip_connections := 0\<rparr>],
                    per_secret_unique_ip_count := per_secret_unique_ip_count s - 1\<rparr>
             else s\<lparr>per_secret_ips := (per_secret_ips s)[i := e]\<rparr>)"

subsection \<open>Rate limiting\<close>

definition rate_bucket_refill :: "real \<Rightarrow> int \<Rightarrow> tracked_ip \<Rightarrow> tracked_ip" where
  "rate_bucket_refill precise_now eff_rate tip =
     (let elapsed = precise_now - tip_last_refill tip in
      if elapsed > 0 then
        let refill = \<lfloor>elapsed * of_int eff_rate\<rfloor>;
            tokens = tip_tokens tip + refill;
            tokens = (if tokens > eff_rate then eff_rate else tokens)
        in tip\<lparr>tip_tokens := tokens, tip_last_refill := precise_now\<rparr>
      else tip)"

text \<open>The delay for an overdrawn bucket.\<close>

definition pause_delay :: "int \<Rightarrow> int \<Rightarrow> real" where
  "pause_delay tokens eff =
     (let delay = of_int (- tokens) / of_int eff;
          delay = (if delay < 1 / 1000 then 1 / 1000 else delay)
      in if delay > 5 then 5 else delay)"

text \<open>
  The result is the slot and, when the connection is paused, the delay after which the timer resumes
  it.
\<close>

definition rate_limit_after_relay :: "int \<Rightarrow> real \<Rightarrow> int \<Rightarrow> addr_key \<Rightarrow> slot \<Rightarrow> slot \<times> real option" where
  "rate_limit_after_relay workers precise_now n a s =
     (let rl = ext_secret_rate_limit s in
      if rl \<le> 0 then (s, None) else
      case find_index (tip_matches a) (per_secret_ips s) of
        None \<Rightarrow> (s, None)
      | Some i \<Rightarrow>
          let eff = eff_limit workers rl;
              tip = rate_bucket_refill precise_now eff (per_secret_ips s ! i);
              tip = tip\<lparr>tip_tokens := tip_tokens tip - n\<rparr>;
              s = s\<lparr>per_secret_ips := (per_secret_ips s)[i := tip]\<rparr>
          in if tip_tokens tip < 0 then
               (s\<lparr>stats := (stats s)\<lparr>per_secret_rate_limited := per_secret_rate_limited (stats s) + 1\<rparr>\<rparr>,
                Some (pause_delay (tip_tokens tip) eff))
             else (s, None))"

subsection \<open>The table of tracked addresses\<close>

lemma find_index_Some: "find_index P xs = Some i \<Longrightarrow> i < length xs \<and> P (xs ! i)"
  by (induction xs arbitrary: i) (auto split: if_splits)

lemma find_index_None: "find_index P xs = None \<longleftrightarrow> (\<forall>x \<in> set xs. \<not> P x)"
  by (induction xs) auto

text \<open>
  An address identifies a client by its IPv4 part if that is not zero, and by its IPv6 part
  otherwise. The code cannot track the address that is zero in both.
\<close>

definition addr_id :: "addr_key \<Rightarrow> addr_key" where
  "addr_id a = (if fst a \<noteq> 0 then (fst a, []) else (0, snd a))"

definition addr_ok :: "addr_key \<Rightarrow> bool" where
  "addr_ok a \<longleftrightarrow> fst a \<noteq> 0 \<or> snd a \<noteq> zero_ipv6"

definition tip_live :: "tracked_ip \<Rightarrow> bool" where
  "tip_live e \<longleftrightarrow> tip_connections e > 0"

definition tip_id :: "tracked_ip \<Rightarrow> addr_key" where
  "tip_id e = addr_id (tip_ip e, tip_ipv6 e)"

lemma tip_matches_iff: "addr_ok a \<Longrightarrow> tip_matches a e \<longleftrightarrow> tip_live e \<and> tip_id e = addr_id a"
  by (auto simp: tip_matches_def tip_live_def tip_id_def addr_id_def addr_ok_def)

text \<open>The addresses with an open connection.\<close>

definition live_ids :: "tracked_ip list \<Rightarrow> addr_key set" where
  "live_ids es = tip_id ` set (filter tip_live es)"

text \<open>
  The invariant: the live entries carry distinct addresses, no count is negative, and the counter of
  unique addresses is the number of live entries.
\<close>

definition ips_ok :: "slot \<Rightarrow> bool" where
  "ips_ok s \<longleftrightarrow> length (per_secret_ips s) = SECRET_MAX_TRACKED_IPS \<and>
     (\<forall>e \<in> set (per_secret_ips s). 0 \<le> tip_connections e) \<and>
     distinct (map tip_id (filter tip_live (per_secret_ips s))) \<and>
     per_secret_unique_ip_count s = int (length (filter tip_live (per_secret_ips s)))"

lemma ips_ok_card: "ips_ok s \<Longrightarrow> per_secret_unique_ip_count s = int (card (live_ids (per_secret_ips s)))"
  unfolding ips_ok_def live_ids_def by (metis distinct_card length_map set_map)

text \<open>Replacing one entry, seen through the filtered list.\<close>

lemma filter_update:
  "i < length es \<Longrightarrow> filter P (es[i := e]) =
     filter P (take i es) @ (if P e then [e] else []) @ filter P (drop (Suc i) es)"
  by (simp add: upd_conv_take_nth_drop)

lemma filter_split:
  "i < length es \<Longrightarrow> filter P es = filter P (take i es) @ (if P (es ! i) then [es ! i] else []) @ filter P (drop (Suc i) es)"
  using filter_update [of i es P "es ! i"] by simp

definition others :: "nat \<Rightarrow> tracked_ip list \<Rightarrow> tracked_ip list" where
  "others i es = filter tip_live (take i es) @ filter tip_live (drop (Suc i) es)"

lemma ips_ok_update:
  assumes "i < length (per_secret_ips s)" "ips_ok s" "0 \<le> tip_connections e"
    and "tip_live e \<Longrightarrow> tip_id e \<notin> tip_id ` set (others i (per_secret_ips s))"
    and "n = per_secret_unique_ip_count s - (if tip_live (per_secret_ips s ! i) then 1 else 0) + (if tip_live e then 1 else 0)"
  shows "ips_ok (s\<lparr>per_secret_ips := (per_secret_ips s)[i := e], per_secret_unique_ip_count := n\<rparr>)"
proof -
  let ?es = "per_secret_ips s"
  from assms(2) have d: "distinct (map tip_id (filter tip_live ?es))"
    and c: "per_secret_unique_ip_count s = int (length (filter tip_live ?es))" by (simp_all add: ips_ok_def)
  have "distinct (map tip_id (filter tip_live (?es[i := e])))"
    using d assms(4) unfolding filter_update [OF assms(1)] filter_split [OF assms(1), of tip_live] others_def
    by (auto split: if_splits)
  moreover have "n = int (length (filter tip_live (?es[i := e])))"
    using c assms(5) unfolding filter_update [OF assms(1)] filter_split [OF assms(1), of tip_live]
    by (auto split: if_splits)
  moreover have "\<forall>e' \<in> set (?es[i := e]). 0 \<le> tip_connections e'"
    using assms(2,3) set_update_subset_insert [of ?es i e] by (auto simp: ips_ok_def)
  ultimately show ?thesis using assms(2) by (simp add: ips_ok_def)
qed

lemma live_ids_update:
  "i < length es \<Longrightarrow> live_ids (es[i := e]) = tip_id ` set (others i es) \<union> (if tip_live e then {tip_id e} else {})"
  by (auto simp: live_ids_def others_def filter_update)

lemma live_ids_split:
  "i < length es \<Longrightarrow> live_ids es = tip_id ` set (others i es) \<union> (if tip_live (es ! i) then {tip_id (es ! i)} else {})"
  using live_ids_update [of i es "es ! i"] by simp

lemma ips_ok_others:
  assumes "ips_ok s" "i < length (per_secret_ips s)" "tip_live (per_secret_ips s ! i)"
  shows "tip_id (per_secret_ips s ! i) \<notin> tip_id ` set (others i (per_secret_ips s))"
  using assms unfolding ips_ok_def filter_split [OF assms(2), of tip_live] others_def by auto

lemma find_match:
  assumes "addr_ok a" "find_index (tip_matches a) es = Some i"
  shows "i < length es" "tip_live (es ! i)" "tip_id (es ! i) = addr_id a"
  using find_index_Some [OF assms(2)] tip_matches_iff [OF assms(1)] by auto

lemma find_no_match:
  "addr_ok a \<Longrightarrow> find_index (tip_matches a) es = None \<longleftrightarrow> addr_id a \<notin> live_ids es"
  unfolding find_index_None live_ids_def by (auto simp: tip_matches_iff image_iff)

text \<open>The slot after the Bloom filter has been updated: the table is untouched.\<close>

definition bloomed :: "addr_key \<Rightarrow> slot \<Rightarrow> slot" where
  "bloomed a s =
     (let (novel, row) = uniq_bloom_test_and_set a (uniq_bloom_row s); s = s\<lparr>uniq_bloom_row := row\<rparr>
      in if novel then s\<lparr>stats := (stats s)\<lparr>per_secret_unique_ips := per_secret_unique_ips (stats s) + 1\<rparr>\<rparr> else s)"

lemma bloomed_same [simp]:
  "per_secret_ips (bloomed a s) = per_secret_ips s"
  "per_secret_unique_ip_count (bloomed a s) = per_secret_unique_ip_count s"
  "ext_secret_max_ips (bloomed a s) = ext_secret_max_ips s"
  "ext_secret_rate_limit (bloomed a s) = ext_secret_rate_limit s"
  "ips_ok (bloomed a s) = ips_ok s"
  by (simp_all add: bloomed_def Let_def case_prod_beta ips_ok_def)

lemma ip_track_connect_cases:
  "ip_track_connect w t a s =
     (let s = bloomed a s in
      if ext_secret_max_ips s \<le> 0 \<and> ext_secret_rate_limit s \<le> 0 then s else
      case find_index (tip_matches a) (per_secret_ips s) of
        Some i \<Rightarrow>
          let e = per_secret_ips s ! i
          in s\<lparr>per_secret_ips := (per_secret_ips s)[i := e\<lparr>tip_connections := tip_connections e + 1\<rparr>]\<rparr>
      | None \<Rightarrow>
          (case find_index (\<lambda>e. tip_connections e \<le> 0) (per_secret_ips s) of
             Some i \<Rightarrow>
               s\<lparr>per_secret_ips := (per_secret_ips s)[i :=
                   new_tip w t (ext_secret_rate_limit s) a (per_secret_ips s ! i)],
                 per_secret_unique_ip_count := per_secret_unique_ip_count s + 1\<rparr>
           | None \<Rightarrow> s))"
  by (simp add: ip_track_connect_def bloomed_def Let_def case_prod_beta)

lemma new_tip_simps [simp]:
  "tip_connections (new_tip w t rl a e) = 1" "tip_live (new_tip w t rl a e)" "tip_id (new_tip w t rl a e) = addr_id a"
  by (simp_all add: new_tip_def Let_def tip_live_def tip_id_def addr_id_def)

lemma ip_track_connect_ok:
  assumes "ips_ok s" "addr_ok a"
  shows "ips_ok (ip_track_connect w t a s) \<and>
    live_ids (per_secret_ips (ip_track_connect w t a s)) \<subseteq> insert (addr_id a) (live_ids (per_secret_ips s))"
proof -
  let ?s = "bloomed a s" and ?es = "per_secret_ips s"
  have ok: "ips_ok ?s" using assms(1) by simp
  consider (off) "ext_secret_max_ips s \<le> 0 \<and> ext_secret_rate_limit s \<le> 0"
    | (old) i where "\<not> (ext_secret_max_ips s \<le> 0 \<and> ext_secret_rate_limit s \<le> 0)" "find_index (tip_matches a) ?es = Some i"
    | (new) i where "\<not> (ext_secret_max_ips s \<le> 0 \<and> ext_secret_rate_limit s \<le> 0)" "find_index (tip_matches a) ?es = None"
        "find_index (\<lambda>e. tip_connections e \<le> 0) ?es = Some i"
    | (full) "\<not> (ext_secret_max_ips s \<le> 0 \<and> ext_secret_rate_limit s \<le> 0)" "find_index (tip_matches a) ?es = None"
        "find_index (\<lambda>e. tip_connections e \<le> 0) ?es = None"
    by (metis option.exhaust)
  then show ?thesis
  proof cases
    case off
    with ok show ?thesis by (simp add: ip_track_connect_cases Let_def subset_insertI)
  next
    case old
    note m = find_match [OF assms(2) old(2)]
    let ?e = "(?es ! i)\<lparr>tip_connections := tip_connections (?es ! i) + 1\<rparr>"
    have e: "tip_live ?e" "tip_id ?e = tip_id (?es ! i)" using m(2) by (simp_all add: tip_live_def tip_id_def)
    have "ips_ok (?s\<lparr>per_secret_ips := ?es[i := ?e], per_secret_unique_ip_count := per_secret_unique_ip_count ?s\<rparr>)"
      using ips_ok_update [of i ?s ?e] ok m e ips_ok_others [of ?s i]
      by (simp add: tip_live_def)
    then have "ips_ok (?s\<lparr>per_secret_ips := ?es[i := ?e]\<rparr>)" by (simp add: ips_ok_def)
    moreover have "ip_track_connect w t a s = ?s\<lparr>per_secret_ips := ?es[i := ?e]\<rparr>"
      using old by (auto simp: ip_track_connect_cases Let_def)
    ultimately show ?thesis
      using m e live_ids_split [of i ?es] by (simp add: live_ids_update)
  next
    case new
    note f = find_index_Some [OF new(3)]
    have "\<not> tip_live (?es ! i)" using f by (simp add: tip_live_def)
    moreover have "addr_id a \<notin> tip_id ` set (others i ?es)"
      using find_no_match [OF assms(2)] new(2) live_ids_split [of i ?es] f by auto
    ultimately show ?thesis
      using new f ips_ok_update [of i ?s "new_tip w t (ext_secret_rate_limit s) a (?es ! i)"] ok
        live_ids_split [of i ?es]
      by (auto simp: ip_track_connect_cases Let_def live_ids_update)
  next
    case full
    with ok show ?thesis by (simp add: ip_track_connect_cases Let_def subset_insertI)
  qed
qed

lemma ip_track_disconnect_ok:
  assumes "ips_ok s" "addr_ok a"
  shows "ips_ok (ip_track_disconnect_impl a s) \<and>
    live_ids (per_secret_ips (ip_track_disconnect_impl a s)) \<subseteq> live_ids (per_secret_ips s)"
proof (cases "find_index (tip_matches a) (per_secret_ips s)")
  case None
  with assms show ?thesis by (simp add: ip_track_disconnect_impl_def)
next
  case (Some i)
  let ?es = "per_secret_ips s"
  let ?e = "(?es ! i)\<lparr>tip_connections := tip_connections (?es ! i) - 1\<rparr>"
  note m = find_match [OF assms(2) Some]
  have id: "tip_id ?e = tip_id (?es ! i)" by (simp add: tip_id_def)
  show ?thesis
  proof (cases "tip_connections ?e \<le> 0")
    case True
    let ?z = "?e\<lparr>tip_ip := 0, tip_ipv6 := zero_ipv6, tip_connections := 0\<rparr>"
    have z: "\<not> tip_live ?z" by (simp add: tip_live_def)
    have "ips_ok (s\<lparr>per_secret_ips := ?es[i := ?z], per_secret_unique_ip_count := per_secret_unique_ip_count s - 1\<rparr>)"
      using ips_ok_update [of i s ?z] assms(1) m z by simp
    with Some True z m show ?thesis
      using live_ids_split [of i ?es] by (auto simp: ip_track_disconnect_impl_def Let_def live_ids_update)
  next
    case False
    then have e: "tip_live ?e" by (simp add: tip_live_def)
    have "ips_ok (s\<lparr>per_secret_ips := ?es[i := ?e], per_secret_unique_ip_count := per_secret_unique_ip_count s\<rparr>)"
      using ips_ok_update [of i s ?e] assms(1) m e id ips_ok_others [of s i] False by simp
    with Some False e id m show ?thesis
      using live_ids_split [of i ?es] by (simp add: ip_track_disconnect_impl_def Let_def live_ids_update ips_ok_def)
  qed
qed

subsection \<open>The limit on unique addresses\<close>

text \<open>Connections as the accept gate treats them: one over the limit is turned away.\<close>

datatype ip_event = Ip_connect real addr_key | Ip_disconnect addr_key

fun ip_event_addr :: "ip_event \<Rightarrow> addr_key" where
  "ip_event_addr (Ip_connect t a) = a"
| "ip_event_addr (Ip_disconnect a) = a"

fun ip_gate :: "int \<Rightarrow> ip_event \<Rightarrow> slot \<Rightarrow> slot" where
  "ip_gate workers (Ip_connect t a) s = (if ip_over_limit workers a s then s else ip_track_connect workers t a s)"
| "ip_gate workers (Ip_disconnect a) s = ip_track_disconnect_impl a s"

lemma ip_track_max_ips [simp]:
  "ext_secret_max_ips (ip_track_connect w t a s) = ext_secret_max_ips s"
  "ext_secret_max_ips (ip_track_disconnect_impl a s) = ext_secret_max_ips s"
  by (simp_all add: ip_track_connect_cases ip_track_disconnect_impl_def Let_def split: option.split)

definition within_limit :: "int \<Rightarrow> slot \<Rightarrow> bool" where
  "within_limit workers s \<longleftrightarrow> ips_ok s \<and>
     int (card (live_ids (per_secret_ips s))) \<le> eff_limit workers (ext_secret_max_ips s)"

lemma finite_live_ids [simp]: "finite (live_ids es)"
  by (simp add: live_ids_def)

lemma ip_gate_within:
  assumes "within_limit w s" "addr_ok (ip_event_addr ev)" "0 < ext_secret_max_ips s"
  shows "within_limit w (ip_gate w ev s) \<and> ext_secret_max_ips (ip_gate w ev s) = ext_secret_max_ips s"
proof (cases ev)
  case (Ip_disconnect a)
  then show ?thesis
    using ip_track_disconnect_ok [of s a] assms
      card_mono [OF finite_live_ids, of "live_ids (per_secret_ips (ip_track_disconnect_impl a s))" "per_secret_ips s"]
    by (auto simp: within_limit_def)
next
  case (Ip_connect t a)
  show ?thesis
  proof (cases "ip_over_limit w a s")
    case True
    then show ?thesis using assms by (simp add: Ip_connect)
  next
    case False
    let ?l = "live_ids (per_secret_ips s)"
    from assms have ok: "ips_ok s" "addr_ok a" by (simp_all add: within_limit_def Ip_connect)
    have le: "card (live_ids (per_secret_ips (ip_track_connect w t a s))) \<le> card (insert (addr_id a) ?l)"
      using ip_track_connect_ok [OF ok] by (intro card_mono) auto
    have "int (card (insert (addr_id a) ?l)) \<le> eff_limit w (ext_secret_max_ips s)"
    proof (cases "addr_id a \<in> ?l")
      case True
      then show ?thesis using assms(1) by (simp add: within_limit_def insert_absorb)
    next
      case new: False
      with False assms(3) find_no_match [OF ok(2)] have "per_secret_unique_ip_count s < eff_limit w (ext_secret_max_ips s)"
        by (simp add: ip_over_limit_def)
      with new ips_ok_card [OF ok(1)] show ?thesis by simp
    qed
    with le False ip_track_connect_ok [OF ok] show ?thesis by (simp add: Ip_connect within_limit_def)
  qed
qed


lemma ips_ok_zero: "ips_ok (zero_slot\<lparr>ext_secret_max_ips := n\<rparr>)"
  by (simp add: ips_ok_def zero_slot_def zero_tip_def tip_live_def)


subsection \<open>The token bucket\<close>

lemma eff_limit_pos: "0 < eff_limit workers limit"
  by (simp add: eff_limit_def Let_def)

lemma refill_last:
  "tip_last_refill (rate_bucket_refill now eff tip) = max now (tip_last_refill tip)"
  by (auto simp: rate_bucket_refill_def Let_def)

lemma refill_cap: "tip_tokens (rate_bucket_refill now eff tip) \<le> max eff (tip_tokens tip)"
  by (auto simp: rate_bucket_refill_def Let_def)

lemma refill_gain:
  assumes "0 < eff" "tip_last_refill tip \<le> now"
  shows "of_int (tip_tokens (rate_bucket_refill now eff tip)) \<le>
     of_int (tip_tokens tip) + (now - tip_last_refill tip) * of_int eff"
proof (cases "now - tip_last_refill tip > 0")
  case True
  let ?g = "\<lfloor>(now - tip_last_refill tip) * of_int eff\<rfloor>"
  have "tip_tokens (rate_bucket_refill now eff tip) \<le> tip_tokens tip + ?g"
    using True by (simp add: rate_bucket_refill_def Let_def)
  then have "real_of_int (tip_tokens (rate_bucket_refill now eff tip)) \<le> of_int (tip_tokens tip + ?g)"
    by (simp only: of_int_le_iff)
  also have "\<dots> \<le> of_int (tip_tokens tip) + (now - tip_last_refill tip) * of_int eff"
    by (simp add: of_int_floor_le)
  finally show ?thesis .
next
  case False
  then show ?thesis using assms by (simp add: rate_bucket_refill_def Let_def)
qed

text \<open>Successive relays of one client: the times and the numbers of bytes.\<close>

primrec relay_run :: "int \<Rightarrow> addr_key \<Rightarrow> (real \<times> int) list \<Rightarrow> slot \<Rightarrow> slot" where
  "relay_run workers a [] s = s"
| "relay_run workers a (r # rs) s =
     relay_run workers a rs (fst (rate_limit_after_relay workers (fst r) (snd r) a s))"

text \<open>One relay changes the entry of the client and nothing else that later relays depend on.\<close>

lemma rate_limit_after_relay_entry:
  fixes s :: slot and workers n :: int and t :: real
  assumes "0 < ext_secret_rate_limit s" "find_index (tip_matches a) (per_secret_ips s) = Some i"
  defines "s' \<equiv> fst (rate_limit_after_relay workers t n a s)"
    and "eff \<equiv> eff_limit workers (ext_secret_rate_limit s)"
  shows "per_secret_ips s' ! i = (let tip = rate_bucket_refill t eff (per_secret_ips s ! i)
      in tip\<lparr>tip_tokens := tip_tokens tip - n\<rparr>)"
    and "ext_secret_rate_limit s' = ext_secret_rate_limit s"
    and "find_index (tip_matches a) (per_secret_ips s') = Some i"
proof -
  let ?tip = "rate_bucket_refill t eff (per_secret_ips s ! i)"
  let ?e = "?tip\<lparr>tip_tokens := tip_tokens ?tip - n\<rparr>"
  have i: "i < length (per_secret_ips s)" using find_index_Some [OF assms(2)] by simp
  have ips: "per_secret_ips s' = (per_secret_ips s)[i := ?e]"
    using assms(1,2) by (simp add: s'_def eff_def rate_limit_after_relay_def Let_def)
  have same: "tip_matches a ?e = tip_matches a (per_secret_ips s ! i)"
    by (simp add: tip_matches_def rate_bucket_refill_def Let_def)
  have "find_index P (xs[i := e]) = find_index P xs" if "i < length xs" "P e = P (xs ! i)"
    for P :: "tracked_ip \<Rightarrow> bool" and xs e i
    using that by (induction xs arbitrary: i) (auto split: nat.splits)
  with i same ips assms(2) show "find_index (tip_matches a) (per_secret_ips s') = Some i" by metis
  show "per_secret_ips s' ! i = (let tip = ?tip in tip\<lparr>tip_tokens := tip_tokens tip - n\<rparr>)"
    using i by (simp add: ips Let_def)
  show "ext_secret_rate_limit s' = ext_secret_rate_limit s"
    by (simp add: s'_def rate_limit_after_relay_def Let_def split: option.split)
qed

lemma relay_run_bound:
  assumes "0 < ext_secret_rate_limit s" "find_index (tip_matches a) (per_secret_ips s) = Some i"
    and "sorted (tip_last_refill (per_secret_ips s ! i) # map fst rs)"
  shows "of_int (sum_list (map snd rs)) + of_int (tip_tokens (per_secret_ips (relay_run workers a rs s) ! i)) \<le>
    of_int (tip_tokens (per_secret_ips s ! i)) +
    (last (tip_last_refill (per_secret_ips s ! i) # map fst rs) - tip_last_refill (per_secret_ips s ! i)) *
      of_int (eff_limit workers (ext_secret_rate_limit s))"
  using assms
proof (induction rs arbitrary: s)
  case (Cons r rs)
  obtain t n where r: "r = (t, n)" by (cases r)
  let ?s = "fst (rate_limit_after_relay workers t n a s)" and ?e = "per_secret_ips s ! i"
  let ?eff = "eff_limit workers (ext_secret_rate_limit s)"
  note entry = rate_limit_after_relay_entry [OF Cons.prems(1,2), where workers = workers and t = t and n = n]
  have t: "tip_last_refill ?e \<le> t" "sorted (t # map fst rs)" using Cons.prems(3) by (simp_all add: r)
  have e': "per_secret_ips ?s ! i = (rate_bucket_refill t ?eff ?e)\<lparr>tip_tokens := tip_tokens (rate_bucket_refill t ?eff ?e) - n\<rparr>"
    using entry(1) by (simp add: Let_def)
  then have last': "tip_last_refill (per_secret_ips ?s ! i) = t" using t(1) by (simp add: refill_last)
  have IH: "of_int (sum_list (map snd rs)) + of_int (tip_tokens (per_secret_ips (relay_run workers a rs ?s) ! i)) \<le>
    of_int (tip_tokens (per_secret_ips ?s ! i)) + (last (t # map fst rs) - t) * real_of_int ?eff"
    using Cons.IH [of ?s] entry(2,3) Cons.prems(1) t(2) last' by simp
  have "of_int (tip_tokens (rate_bucket_refill t ?eff ?e)) \<le> of_int (tip_tokens ?e) + (t - tip_last_refill ?e) * real_of_int ?eff"
    by (rule refill_gain [OF eff_limit_pos t(1)])
  with IH e' show ?case by (simp add: r algebra_simps)
qed simp

text \<open>
  C24: The token bucket bounds the traffic of a client. Over any sequence of relays of one address at
  non-decreasing times, starting from at most one second of credit, the bytes relayed exceed the
  debt left in the bucket by at most the rate times one second plus the elapsed time.
\<close>

theorem rate_limit_bounds_traffic:
  assumes "0 < ext_secret_rate_limit s" and "find_index (tip_matches a) (per_secret_ips s) = Some i"
    and "sorted (tip_last_refill (per_secret_ips s ! i) # map fst rs)"
    and "tip_tokens (per_secret_ips s ! i) \<le> eff_limit workers (ext_secret_rate_limit s)"
  shows "of_int (sum_list (map snd rs)) \<le>
    (1 + (last (tip_last_refill (per_secret_ips s ! i) # map fst rs) - tip_last_refill (per_secret_ips s ! i))) *
      of_int (eff_limit workers (ext_secret_rate_limit s))
    - of_int (tip_tokens (per_secret_ips (relay_run workers a rs s) ! i))"
proof -
  from assms(4) have "real_of_int (tip_tokens (per_secret_ips s ! i)) \<le> of_int (eff_limit workers (ext_secret_rate_limit s))"
    by simp
  then show ?thesis using relay_run_bound [OF assms(1-3), of workers] by (simp add: algebra_simps)
qed

lemma pause_delay_bounds:
  assumes "0 < eff"
  shows "1 / 1000 \<le> pause_delay tokens eff" "pause_delay tokens eff \<le> 5"
    and "pause_delay tokens eff < 5 \<Longrightarrow> of_int (- tokens) \<le> pause_delay tokens eff * of_int eff"
proof -
  define d where "d = real_of_int (- tokens) / of_int eff"
  have p: "pause_delay tokens eff = (let d' = if d < 1 / 1000 then 1 / 1000 else d in if d' > 5 then 5 else d')"
    by (simp add: pause_delay_def d_def)
  show "1 / 1000 \<le> pause_delay tokens eff" "pause_delay tokens eff \<le> 5" by (auto simp: p Let_def)
  assume "pause_delay tokens eff < 5"
  then have "d \<le> pause_delay tokens eff" by (auto simp: p Let_def split: if_splits)
  then show "of_int (- tokens) \<le> pause_delay tokens eff * of_int eff"
    using assms unfolding d_def by (subst (asm) pos_divide_le_eq) simp_all
qed

text \<open>
  A pause imposed by the rate limit is short and ends the debt: the delay lies between one
  millisecond and five seconds, it is only imposed when the bucket is overdrawn, and unless it was
  clipped at five seconds a refill after it leaves no debt.
\<close>

theorem rate_limit_delay:
  assumes "rate_limit_after_relay workers precise_now n a s = (s', Some delay)"
    and "find_index (tip_matches a) (per_secret_ips s) = Some i"
    and "tip_last_refill (per_secret_ips s ! i) \<le> precise_now"
  shows "1 / 1000 \<le> delay \<and> delay \<le> 5 \<and> tip_tokens (per_secret_ips s' ! i) < 0 \<and>
    (delay < 5 \<longrightarrow> 0 \<le> tip_tokens (rate_bucket_refill (precise_now + delay)
       (eff_limit workers (ext_secret_rate_limit s)) (per_secret_ips s' ! i)))"
proof -
  let ?eff = "eff_limit workers (ext_secret_rate_limit s)" and ?e' = "per_secret_ips s' ! i"
  have rl: "0 < ext_secret_rate_limit s"
    using assms(1) by (auto simp: rate_limit_after_relay_def Let_def split: if_splits)
  note entry = rate_limit_after_relay_entry [OF rl assms(2), where workers = workers and t = precise_now and n = n]
  have e': "?e' = (let tip = rate_bucket_refill precise_now ?eff (per_secret_ips s ! i)
      in tip\<lparr>tip_tokens := tip_tokens tip - n\<rparr>)" using entry(1) assms(1) by simp
  then have last: "tip_last_refill ?e' = precise_now" using assms(3) by (simp add: Let_def refill_last)
  have neg: "tip_tokens ?e' < 0" and delay: "delay = pause_delay (tip_tokens ?e') ?eff"
    using assms(1,2) rl find_index_Some [OF assms(2)]
    by (auto simp: rate_limit_after_relay_def Let_def split: if_splits)
  note b = pause_delay_bounds [of ?eff "tip_tokens ?e'", folded delay, OF eff_limit_pos]
  have "0 \<le> tip_tokens (rate_bucket_refill (precise_now + delay) ?eff ?e')" if "delay < 5"
  proof -
    have "- tip_tokens ?e' \<le> \<lfloor>delay * of_int ?eff\<rfloor>" using b(3) that by (simp add: le_floor_iff)
    then show ?thesis
      using last b(1) eff_limit_pos [of workers "ext_secret_rate_limit s"]
      by (simp add: rate_bucket_refill_def Let_def)
  qed
  with neg b show ?thesis by auto
qed

definition sample_slot :: slot where
  "sample_slot = zero_slot\<lparr>ext_secret_rate_limit := 1000,
     per_secret_ips := [zero_tip\<lparr>tip_ip := 5, tip_connections := 1, tip_tokens := 1000, tip_last_refill := 10\<rparr>]\<rparr>"

lemma sample_slot_find: "find_index (tip_matches (5, zero_ipv6)) (per_secret_ips sample_slot) = Some 0"
  by (simp add: sample_slot_def tip_matches_def)

lemma sample_slot_tip:
  "ext_secret_rate_limit sample_slot = 1000" "tip_last_refill (per_secret_ips sample_slot ! 0) = 10"
  "tip_tokens (per_secret_ips sample_slot ! 0) = 1000"
  by (simp_all add: sample_slot_def)

theorem rate_limit_bounds_traffic_witness:
  "real_of_int (sum_list (map snd [(11, 700), (12, 900)])) \<le> (1 + (12 - 10)) * 1000
    - of_int (tip_tokens (per_secret_ips (relay_run 1 (5, zero_ipv6) [(11, 700), (12, 900)] sample_slot) ! 0))"
  using rate_limit_bounds_traffic [OF _ sample_slot_find, of "[(11, 700), (12, 900)]" 1]
  by (simp add: sample_slot_tip eff_limit_def)

theorem rate_limit_delay_witness:
  "\<exists>s'. rate_limit_after_relay 1 10 3000 (5, zero_ipv6) sample_slot = (s', Some 2) \<and>
     (1 :: real) / 1000 \<le> 2 \<and> tip_tokens (per_secret_ips s' ! 0) < 0"
proof -
  obtain s' where run: "rate_limit_after_relay 1 10 3000 (5, zero_ipv6) sample_slot = (s', Some 2)"
    by (simp add: rate_limit_after_relay_def Let_def sample_slot_find sample_slot_tip eff_limit_def
        rate_bucket_refill_def pause_delay_def)
  from rate_limit_delay [OF run sample_slot_find] run show ?thesis by (auto simp: sample_slot_tip)
qed

end
