(* ===== verification/Drain.thy ===== *)
theory Drain
  imports Secrets
begin

text \<open>
  Reloading and draining of secrets, \<^verbatim>\<open>src/src/net/net-tcp-rpc-ext-drain.c\<close>: the four passes of
  \<^verbatim>\<open>tcp_rpcs_reload_ext_secrets\<close>, the release of an empty draining slot and the forced closing of its
  connections, and the state machine they form together with accepting and closing connections.
\<close>

subsection \<open>Reload\<close>

text \<open>The first slot from \<^verbatim>\<open>ext_secret_pinned\<close> on that satisfies a condition.\<close>

definition find_slot :: "nat \<Rightarrow> (slot \<Rightarrow> bool) \<Rightarrow> slot list \<Rightarrow> nat option" where
  "find_slot pinned P sl = find (\<lambda>s. P (sl ! s)) [pinned..<EXT_SECRET_MAX_SLOTS]"

text \<open>Collisions with pinned slots: the config entry counts as placed.\<close>

definition mark_pinned :: "secrets \<Rightarrow> secret_cfg list \<Rightarrow> (secret_cfg \<times> bool) list" where
  "mark_pinned st cfgs =
     map (\<lambda>c. (c, list_ex (\<lambda>s. ext_secret s = cfg_key c) (take (ext_secret_pinned st) (slots st)))) cfgs"

definition pass_a :: "secrets \<Rightarrow> bool list" where
  "pass_a st = map (\<lambda>s. ext_secret_pinned st \<le> s \<and> ext_secret_state (slots st ! s) = SLOT_ACTIVE)
     [0..<EXT_SECRET_MAX_SLOTS]"

text \<open>
  Pass B with the arrays \<^verbatim>\<open>placed\<close> (paired with the config entries), the slots and \<^verbatim>\<open>candidate\<close>.
\<close>

fun pass_b :: "nat \<Rightarrow> (secret_cfg \<times> bool) list \<Rightarrow> slot list \<Rightarrow> bool list
    \<Rightarrow> (secret_cfg \<times> bool) list \<times> slot list \<times> bool list" where
  "pass_b pinned [] sl cand = ([], sl, cand)"
| "pass_b pinned ((c, True) # cs) sl cand =
     (let (cs, sl, cand) = pass_b pinned cs sl cand in ((c, True) # cs, sl, cand))"
| "pass_b pinned ((c, False) # cs) sl cand =
     (case find_slot pinned (\<lambda>s. ext_secret_state s \<noteq> SLOT_FREE \<and> ext_secret s = cfg_key c) sl of
        None \<Rightarrow> let (cs, sl, cand) = pass_b pinned cs sl cand in ((c, False) # cs, sl, cand)
      | Some s \<Rightarrow>
          let (cs, sl, cand) = pass_b pinned cs (sl[s := set_metadata c s (sl ! s)]) (cand[s := False])
          in ((c, True) # cs, sl, cand))"

definition start_drain :: "real \<Rightarrow> slot \<Rightarrow> slot" where
  "start_drain precise_now s = s\<lparr>ext_secret_state := SLOT_DRAINING, ext_secret_drain_started_at := precise_now\<rparr>"

definition pass_c :: "real \<Rightarrow> bool list \<Rightarrow> slot list \<Rightarrow> slot list" where
  "pass_c precise_now cand sl = map (\<lambda>(c, s). if c then start_drain precise_now s else s) (zip cand sl)"

definition fresh_slot :: "secret_cfg \<Rightarrow> nat \<Rightarrow> slot \<Rightarrow> slot" where
  "fresh_slot c idx s =
     tcp_rpcs_ip_track_clear_slot ((set_metadata c idx (s\<lparr>ext_secret := cfg_key c\<rparr>))\<lparr>stats := zero_stats\<rparr>)"

text \<open>Pass D; \<open>False\<close> when it ran out of slots and the function returned \<open>-1\<close>.\<close>

fun pass_d :: "nat \<Rightarrow> (secret_cfg \<times> bool) list \<Rightarrow> slot list \<Rightarrow> bool \<times> slot list" where
  "pass_d pinned [] sl = (True, sl)"
| "pass_d pinned ((c, True) # cs) sl = pass_d pinned cs sl"
| "pass_d pinned ((c, False) # cs) sl =
     (case find_slot pinned (\<lambda>s. ext_secret_state s = SLOT_FREE) sl of
        None \<Rightarrow> (False, sl)
      | Some s \<Rightarrow> pass_d pinned cs (sl[s := fresh_slot c s (sl ! s)]))"

definition high_water :: "nat \<Rightarrow> slot list \<Rightarrow> nat" where
  "high_water pinned sl =
     fold (\<lambda>s hw. if ext_secret_state (sl ! s) \<noteq> SLOT_FREE \<and> s + 1 > hw then s + 1 else hw)
       [pinned..<EXT_SECRET_MAX_SLOTS] pinned"

definition active_total :: "nat \<Rightarrow> slot list \<Rightarrow> nat" where
  "active_total pinned sl =
     pinned + length (filter (\<lambda>s. ext_secret_state (sl ! s) = SLOT_ACTIVE) [pinned..<EXT_SECRET_MAX_SLOTS])"

text \<open>The result \<open>True\<close> is the return value 0, \<open>False\<close> is \<open>-1\<close>.\<close>

definition tcp_rpcs_reload_ext_secrets :: "real \<Rightarrow> secret_cfg list \<Rightarrow> secrets \<Rightarrow> bool \<times> secrets" where
  "tcp_rpcs_reload_ext_secrets precise_now cfgs st =
     (let pinned = ext_secret_pinned st;
          (cs, sl, cand) = pass_b pinned (mark_pinned st cfgs) (slots st) (pass_a st);
          sl = pass_c precise_now cand sl;
          (ok, sl) = pass_d pinned cs sl;
          st = st\<lparr>slots := sl\<rparr>
      in if \<not> ok then (False, st)
         else if active_total pinned sl > EXT_SECRET_MAX_ACTIVE then (False, st)
         else (True, st\<lparr>ext_secret_cnt := high_water pinned sl\<rparr>))"

subsection \<open>Release and forced close\<close>

definition tcp_rpcs_drain_release_slot_if_empty :: "nat \<Rightarrow> secrets \<Rightarrow> secrets" where
  "tcp_rpcs_drain_release_slot_if_empty slot_id st =
     (if slot_id < ext_secret_pinned st \<or> slot_id \<ge> EXT_SECRET_MAX_SLOTS then st
      else if ext_secret_state (slots st ! slot_id) \<noteq> SLOT_DRAINING then st
      else if per_secret_connections (stats (slots st ! slot_id)) \<noteq> 0 then st
      else let sl = (slots st)[slot_id := zero_slot]
           in st\<lparr>slots := sl, ext_secret_cnt := high_water (ext_secret_pinned st) sl\<rparr>)"

datatype conn_type =
    Ct_tcp_rpc_ext_server_mtfront | Ct_tcp_rpc_ext_server | Ct_tcp_rpc_ext_server_drs
  | Ct_direct_client | Ct_direct_client_drs | Ct_other

record conn =
  conn_listening :: bool
  conn_kind :: conn_type
  extra_int2 :: int

fun conn_carries_secret_id :: "conn \<Rightarrow> bool" where
  "conn_carries_secret_id ci = (conn_kind ci \<noteq> Ct_other)"

text \<open>
  The connections by file descriptor (\<open>None\<close> where there is none). The result are the descriptors of
  the connections that were failed, and the secrets with the counter updated.
\<close>

definition tcp_rpcs_drain_force_close_for_slot :: "conn option list \<Rightarrow> nat \<Rightarrow> secrets \<Rightarrow> nat list \<times> secrets" where
  "tcp_rpcs_drain_force_close_for_slot conns slot_id st =
     (if slot_id < ext_secret_pinned st \<or> slot_id \<ge> EXT_SECRET_MAX_SLOTS then ([], st)
      else
        let fds = filter (\<lambda>fd. case conns ! fd of
                    None \<Rightarrow> False
                  | Some ci \<Rightarrow> \<not> conn_listening ci \<and> conn_carries_secret_id ci \<and> extra_int2 ci = int slot_id + 1)
                  [0..<length conns];
            s = slots st ! slot_id
        in (fds, st\<lparr>slots := (slots st)[slot_id := s\<lparr>stats := (stats s)
              \<lparr>per_secret_drain_forced := per_secret_drain_forced (stats s) + int (length fds)\<rparr>\<rparr>]\<rparr>))"

subsection \<open>What the passes do to a slot\<close>

text \<open>What in-flight connections of a slot rely on: its key, counters and address tables.\<close>

definition same_secret :: "slot \<Rightarrow> slot \<Rightarrow> bool" where
  "same_secret s s' \<longleftrightarrow> ext_secret s' = ext_secret s \<and> stats s' = stats s \<and> per_secret_ips s' = per_secret_ips s \<and>
     per_secret_unique_ip_count s' = per_secret_unique_ip_count s \<and> uniq_bloom_row s' = uniq_bloom_row s"

lemma same_secret_refl [simp]: "same_secret s s"
  by (simp add: same_secret_def)

lemma same_secret_trans: "same_secret s s' \<Longrightarrow> same_secret s' s'' \<Longrightarrow> same_secret s s''"
  by (simp add: same_secret_def)

lemma set_metadata_simps [simp]:
  "same_secret s (set_metadata c i s)" "ext_secret_state (set_metadata c i s) = SLOT_ACTIVE"
  "ext_secret (set_metadata c i s) = ext_secret s"
  by (simp_all add: set_metadata_def same_secret_def)

lemma start_drain_simps [simp]:
  "same_secret s (start_drain t s)" "ext_secret_state (start_drain t s) = SLOT_DRAINING"
  "ext_secret (start_drain t s) = ext_secret s"
  by (simp_all add: start_drain_def same_secret_def)

lemma fresh_slot_simps [simp]:
  "ext_secret_state (fresh_slot c i s) = SLOT_ACTIVE" "ext_secret (fresh_slot c i s) = cfg_key c"
  "stats (fresh_slot c i s) = zero_stats"
  by (simp_all add: fresh_slot_def tcp_rpcs_ip_track_clear_slot_def set_metadata_def)

lemma find_upt_Some:
  "find P [a..<b] = Some s \<Longrightarrow> a \<le> s \<and> s < b \<and> P s"
  by (auto simp: find_Some_iff)

lemma find_slot_Some:
  "find_slot pinned P sl = Some s \<Longrightarrow> pinned \<le> s \<and> s < EXT_SECRET_MAX_SLOTS \<and> P (sl ! s)"
  unfolding find_slot_def by (rule find_upt_Some)

lemma find_slot_None:
  "find_slot pinned P sl = None \<Longrightarrow> pinned \<le> s \<Longrightarrow> s < EXT_SECRET_MAX_SLOTS \<Longrightarrow> \<not> P (sl ! s)"
  unfolding find_slot_def find_None_iff by auto

text \<open>
  Pass B on slot \<open>i\<close>: it is refreshed (then it carries the key of an entry to place, is active and no
  longer a candidate) or left alone.
\<close>

definition refreshed :: "nat \<Rightarrow> bytes set \<Rightarrow> slot list \<Rightarrow> slot list \<Rightarrow> bool list \<Rightarrow> nat \<Rightarrow> bool" where
  "refreshed pinned ks sl sl' cand' i \<longleftrightarrow>
     pinned \<le> i \<and> ext_secret_state (sl ! i) \<noteq> SLOT_FREE \<and> ext_secret (sl ! i) \<in> ks \<and>
     same_secret (sl ! i) (sl' ! i) \<and> ext_secret_state (sl' ! i) = SLOT_ACTIVE \<and> \<not> cand' ! i"

definition todo_keys :: "(secret_cfg \<times> bool) list \<Rightarrow> bytes set" where
  "todo_keys cs = set (map (cfg_key \<circ> fst) (filter (Not \<circ> snd) cs))"

lemma todo_keys_simps [simp]:
  "todo_keys [] = {}" "todo_keys ((c, True) # cs) = todo_keys cs"
  "todo_keys ((c, False) # cs) = insert (cfg_key c) (todo_keys cs)"
  by (auto simp: todo_keys_def)

lemma refreshed_mono: "refreshed pinned ks sl sl' cand' i \<Longrightarrow> ks \<subseteq> ks' \<Longrightarrow> refreshed pinned ks' sl sl' cand' i"
  by (auto simp: refreshed_def)

lemma pass_b_slots:
  assumes "pass_b pinned cs sl cand = (cs', sl', cand')"
    and "length sl = EXT_SECRET_MAX_SLOTS" "length cand = EXT_SECRET_MAX_SLOTS" "i < EXT_SECRET_MAX_SLOTS"
  shows "length sl' = EXT_SECRET_MAX_SLOTS \<and> length cand' = EXT_SECRET_MAX_SLOTS \<and>
    (refreshed pinned (todo_keys cs) sl sl' cand' i \<or> sl' ! i = sl ! i \<and> cand' ! i = cand ! i)"
  using assms
proof (induction pinned cs sl cand arbitrary: cs' sl' cand' rule: pass_b.induct)
  case (2 pinned c cs sl cand)
  then show ?case by (auto simp: Let_def split: prod.splits)
next
  case (3 pinned c cs sl cand)
  let ?P = "\<lambda>s. ext_secret_state s \<noteq> SLOT_FREE \<and> ext_secret s = cfg_key c"
  show ?case
  proof (cases "find_slot pinned ?P sl")
    case None
    obtain cs'' where rec: "pass_b pinned cs sl cand = (cs'', sl', cand')"
      using "3.prems"(1) None by (auto simp: Let_def split: prod.splits)
    from "3.IH"(1) [OF None rec "3.prems"(2-4)] show ?thesis
      using refreshed_mono [of pinned "todo_keys cs" sl sl' cand' i "todo_keys ((c, False) # cs)"] by auto
  next
    case (Some s)
    note f = find_slot_Some [OF Some]
    let ?sl = "sl[s := set_metadata c s (sl ! s)]" and ?cand = "cand[s := False]"
    obtain cs'' where rec: "pass_b pinned cs ?sl ?cand = (cs'', sl', cand')"
      using "3.prems"(1) Some by (auto simp: Let_def split: prod.splits)
    have IH: "length sl' = EXT_SECRET_MAX_SLOTS \<and> length cand' = EXT_SECRET_MAX_SLOTS \<and>
        (refreshed pinned (todo_keys cs) ?sl sl' cand' i \<or> sl' ! i = ?sl ! i \<and> cand' ! i = ?cand ! i)"
      using "3.IH"(2) [OF Some rec] "3.prems" by simp
    show ?thesis
    proof (cases "i = s")
      case True
      with IH f "3.prems" show ?thesis
        by (auto simp: refreshed_def same_secret_def set_metadata_def)
    next
      case False
      with IH f "3.prems" show ?thesis by (auto simp: refreshed_def)
    qed
  qed
qed auto

text \<open>Pass B on the entries: which of them it places.\<close>

lemma pass_b_entries:
  assumes "pass_b pinned cs sl cand = (cs', sl', cand')"
    and "length sl = EXT_SECRET_MAX_SLOTS" "length cand = EXT_SECRET_MAX_SLOTS"
  shows "map fst cs' = map fst cs \<and> todo_keys cs' \<subseteq> todo_keys cs \<and>
    (\<forall>k \<in> todo_keys cs - todo_keys cs'. \<exists>i < EXT_SECRET_MAX_SLOTS. refreshed pinned (todo_keys cs) sl sl' cand' i \<and>
       ext_secret (sl ! i) = k) \<and>
    (\<forall>k \<in> todo_keys cs'. \<forall>i. pinned \<le> i \<longrightarrow> i < EXT_SECRET_MAX_SLOTS \<longrightarrow>
       ext_secret_state (sl ! i) \<noteq> SLOT_FREE \<longrightarrow> ext_secret (sl ! i) \<noteq> k)"
  using assms
proof (induction pinned cs sl cand arbitrary: cs' sl' cand' rule: pass_b.induct)
  case (2 pinned c cs sl cand)
  then obtain cs'' where rec: "pass_b pinned cs sl cand = (cs'', sl', cand')" "cs' = (c, True) # cs''"
    by (auto simp: Let_def split: prod.splits)
  from "2.IH" [OF rec(1) "2.prems"(2,3)] rec(2) show ?case by auto
next
  case (3 pinned c cs sl cand)
  let ?P = "\<lambda>s. ext_secret_state s \<noteq> SLOT_FREE \<and> ext_secret s = cfg_key c"
  show ?case
  proof (cases "find_slot pinned ?P sl")
    case None
    then obtain cs'' where rec: "pass_b pinned cs sl cand = (cs'', sl', cand')" "cs' = (c, False) # cs''"
      using "3.prems"(1) by (auto simp: Let_def split: prod.splits)
    have none: "ext_secret (sl ! i) \<noteq> cfg_key c"
      if "pinned \<le> i" "i < EXT_SECRET_MAX_SLOTS" "ext_secret_state (sl ! i) \<noteq> SLOT_FREE" for i
      using find_slot_None [OF None that(1,2)] that(3) by blast
    have mono: "refreshed pinned (insert (cfg_key c) (todo_keys cs)) sl sl' cand' i"
      if "refreshed pinned (todo_keys cs) sl sl' cand' i" for i
      using that by (auto simp: refreshed_def)
    from "3.IH"(1) [OF None rec(1) "3.prems"(2,3)] rec(2) none mono show ?thesis
      by (simp, blast)
  next
    case (Some s)
    note f = find_slot_Some [OF Some]
    let ?sl = "sl[s := set_metadata c s (sl ! s)]" and ?cand = "cand[s := False]"
    obtain cs'' where rec: "pass_b pinned cs ?sl ?cand = (cs'', sl', cand')" "cs' = (c, True) # cs''"
      using "3.prems"(1) Some by (auto simp: Let_def split: prod.splits)
    have key: "ext_secret (?sl ! i) = ext_secret (sl ! i)"
      "ext_secret_state (?sl ! i) \<noteq> SLOT_FREE \<longleftrightarrow> ext_secret_state (sl ! i) \<noteq> SLOT_FREE" if "i < EXT_SECRET_MAX_SLOTS" for i
      using that f "3.prems"(2) by (auto simp: nth_list_update)
    have bk: "refreshed pinned (insert (cfg_key c) (todo_keys cs)) sl sl' cand' i"
      if "refreshed pinned (todo_keys cs) ?sl sl' cand' i" "i < EXT_SECRET_MAX_SLOTS" for i
      using that f "3.prems"(2) by (cases "i = s") (auto simp: refreshed_def same_secret_def set_metadata_def)
    have "refreshed pinned (insert (cfg_key c) (todo_keys cs)) sl sl' cand' s"
      using f pass_b_slots [OF rec(1), of s] "3.prems"(2,3)
      by (auto simp: refreshed_def same_secret_def set_metadata_def)
    moreover from "3.IH"(2) [OF Some rec(1)] "3.prems"(2,3) have IH:
      "map fst cs'' = map fst cs" "todo_keys cs'' \<subseteq> todo_keys cs"
      "\<forall>k \<in> todo_keys cs - todo_keys cs''. \<exists>i < EXT_SECRET_MAX_SLOTS. refreshed pinned (todo_keys cs) ?sl sl' cand' i \<and>
         ext_secret (?sl ! i) = k"
      "\<forall>k \<in> todo_keys cs''. \<forall>i. pinned \<le> i \<longrightarrow> i < EXT_SECRET_MAX_SLOTS \<longrightarrow>
         ext_secret_state (?sl ! i) \<noteq> SLOT_FREE \<longrightarrow> ext_secret (?sl ! i) \<noteq> k" by auto
    ultimately show ?thesis using rec(2) f key bk by (auto 0 4)
  qed
qed simp


lemma pass_c_nth:
  "length cand = length sl \<Longrightarrow> i < length sl \<Longrightarrow>
   pass_c t cand sl ! i = (if cand ! i then start_drain t (sl ! i) else sl ! i)"
  by (simp add: pass_c_def)

lemma pass_c_length: "length cand = length sl \<Longrightarrow> length (pass_c t cand sl) = length sl"
  by (simp add: pass_c_def)

text \<open>Pass D only turns free slots into fresh active ones, and on success every entry has one.\<close>

lemma pass_d_slots:
  assumes "pass_d pinned cs sl = (ok, sl')" "length sl = EXT_SECRET_MAX_SLOTS" "i < EXT_SECRET_MAX_SLOTS"
  shows "length sl' = EXT_SECRET_MAX_SLOTS \<and>
    (sl' ! i = sl ! i \<or>
     pinned \<le> i \<and> ext_secret_state (sl ! i) = SLOT_FREE \<and> ext_secret_state (sl' ! i) = SLOT_ACTIVE \<and>
     stats (sl' ! i) = zero_stats \<and> ext_secret (sl' ! i) \<in> todo_keys cs)"
  using assms
proof (induction pinned cs sl rule: pass_d.induct)
  case (3 pinned c cs sl)
  show ?case
  proof (cases "find_slot pinned (\<lambda>s. ext_secret_state s = SLOT_FREE) sl")
    case None
    with "3.prems" show ?thesis by simp
  next
    case (Some s)
    note f = find_slot_Some [OF Some]
    from "3.IH" [OF Some] "3.prems" Some have
      "length sl' = EXT_SECRET_MAX_SLOTS \<and>
       (sl' ! i = sl[s := fresh_slot c s (sl ! s)] ! i \<or>
        pinned \<le> i \<and> ext_secret_state (sl[s := fresh_slot c s (sl ! s)] ! i) = SLOT_FREE \<and>
        ext_secret_state (sl' ! i) = SLOT_ACTIVE \<and> stats (sl' ! i) = zero_stats \<and>
        ext_secret (sl' ! i) \<in> todo_keys cs)" by simp
    with f "3.prems"(2) show ?thesis by (cases "i = s") auto
  qed
qed auto

lemma pass_d_places:
  assumes "pass_d pinned cs sl = (True, sl')" "length sl = EXT_SECRET_MAX_SLOTS" "k \<in> todo_keys cs"
  shows "\<exists>i < EXT_SECRET_MAX_SLOTS. pinned \<le> i \<and> ext_secret_state (sl' ! i) = SLOT_ACTIVE \<and> ext_secret (sl' ! i) = k"
  using assms
proof (induction pinned cs sl rule: pass_d.induct)
  case (3 pinned c cs sl)
  then obtain s where Some: "find_slot pinned (\<lambda>s. ext_secret_state s = SLOT_FREE) sl = Some s"
    and rec: "pass_d pinned cs (sl[s := fresh_slot c s (sl ! s)]) = (True, sl')"
    by (auto split: option.splits)
  note f = find_slot_Some [OF Some]
  show ?case
  proof (cases "k = cfg_key c")
    case True
    from pass_d_slots [OF rec, of s] f "3.prems"(2) have "sl' ! s = fresh_slot c s (sl ! s)" by simp
    with f True show ?thesis by (intro exI [of _ s]) simp
  next
    case False
    with "3.IH" [OF Some rec] "3.prems"(2,3) show ?thesis by simp
  qed
qed auto

subsection \<open>Reload as a whole\<close>

text \<open>The arrays have their sizes and the pinned slots lie within them.\<close>

definition secrets_wf :: "secrets \<Rightarrow> bool" where
  "secrets_wf st \<longleftrightarrow> length (slots st) = EXT_SECRET_MAX_SLOTS \<and>
     ext_secret_pinned st \<le> ext_secret_cnt st \<and> ext_secret_cnt st \<le> EXT_SECRET_MAX_SLOTS"

lemma todo_keys_mark_pinned:
  "todo_keys (mark_pinned st cfgs) =
   {k \<in> cfg_key ` set cfgs. k \<notin> ext_secret ` set (take (ext_secret_pinned st) (slots st))}"
  by (auto simp: todo_keys_def mark_pinned_def list_ex_iff filter_map o_def image_iff) metis

lemma pass_a_nth:
  "i < EXT_SECRET_MAX_SLOTS \<Longrightarrow>
   pass_a st ! i \<longleftrightarrow> ext_secret_pinned st \<le> i \<and> ext_secret_state (slots st ! i) = SLOT_ACTIVE"
  by (simp add: pass_a_def)

lemma length_pass_a [simp]: "length (pass_a st) = EXT_SECRET_MAX_SLOTS"
  by (simp add: pass_a_def)

lemma reloadE:
  assumes "tcp_rpcs_reload_ext_secrets t cfgs st = (ok, st')"
  obtains cs slb cand okd sld where
    "pass_b (ext_secret_pinned st) (mark_pinned st cfgs) (slots st) (pass_a st) = (cs, slb, cand)"
    "pass_d (ext_secret_pinned st) cs (pass_c t cand slb) = (okd, sld)"
    "slots st' = sld" "ext_secret_pinned st' = ext_secret_pinned st"
    "ok \<longleftrightarrow> okd \<and> active_total (ext_secret_pinned st) sld \<le> EXT_SECRET_MAX_ACTIVE"
    "ext_secret_cnt st' = (if ok then high_water (ext_secret_pinned st) sld else ext_secret_cnt st)"
  using assms that by (auto simp: tcp_rpcs_reload_ext_secrets_def Let_def split: prod.splits if_splits)

text \<open>Every slot after a reload, whatever its outcome.\<close>

definition reloaded_slot :: "bytes set \<Rightarrow> nat \<Rightarrow> slot \<Rightarrow> slot \<Rightarrow> bool" where
  "reloaded_slot ks i s s' \<longleftrightarrow>
     (if ext_secret_state s = SLOT_FREE
      then s' = s \<or> ext_secret_state s' = SLOT_ACTIVE \<and> ext_secret s' \<in> ks \<and> stats s' = zero_stats
      else same_secret s s' \<and> ext_secret_state s' \<noteq> SLOT_FREE \<and>
           (ext_secret_state s' = SLOT_ACTIVE \<longrightarrow> ext_secret s' \<in> ks))"

lemma reload_slot:
  assumes "tcp_rpcs_reload_ext_secrets t cfgs st = (ok, st')" "secrets_wf st" "i < EXT_SECRET_MAX_SLOTS"
  shows "length (slots st') = EXT_SECRET_MAX_SLOTS \<and>
    (if i < ext_secret_pinned st then slots st' ! i = slots st ! i
     else reloaded_slot (cfg_key ` set cfgs) i (slots st ! i) (slots st' ! i))"
proof -
  from assms(1) obtain cs slb cand okd sld where r:
    "pass_b (ext_secret_pinned st) (mark_pinned st cfgs) (slots st) (pass_a st) = (cs, slb, cand)"
    "pass_d (ext_secret_pinned st) cs (pass_c t cand slb) = (okd, sld)" "slots st' = sld" by (rule reloadE)
  have L: "length (slots st) = EXT_SECRET_MAX_SLOTS" using assms(2) by (simp add: secrets_wf_def)
  note b = pass_b_slots [OF r(1) L length_pass_a assms(3)]
  note e = pass_b_entries [OF r(1) L length_pass_a]
  have c: "length (pass_c t cand slb) = EXT_SECRET_MAX_SLOTS"
    "pass_c t cand slb ! i = (if cand ! i then start_drain t (slb ! i) else slb ! i)"
    using b assms(3) by (simp_all add: pass_c_length pass_c_nth)
  note d = pass_d_slots [OF r(2) c(1) assms(3)]
  have ks: "todo_keys (mark_pinned st cfgs) \<subseteq> cfg_key ` set cfgs" "todo_keys cs \<subseteq> cfg_key ` set cfgs"
    using e by (auto simp: todo_keys_mark_pinned)
  show ?thesis
  proof (cases "refreshed (ext_secret_pinned st) (todo_keys (mark_pinned st cfgs)) (slots st) slb cand i")
    case True
    with c d r(3) ks show ?thesis
      by (auto simp: refreshed_def reloaded_slot_def same_secret_def)
  next
    case False
    with b have b': "slb ! i = slots st ! i"
      "cand ! i \<longleftrightarrow> ext_secret_pinned st \<le> i \<and> ext_secret_state (slots st ! i) = SLOT_ACTIVE"
      using assms(3) by (auto simp: pass_a_nth)
    show ?thesis
    proof (cases "cand ! i")
      case True
      with b' c d r(3) show ?thesis by (auto simp: reloaded_slot_def)
    next
      case False
      with b' c d r(3) ks show ?thesis
        by (cases "ext_secret_state (slots st ! i)") (auto simp: reloaded_slot_def)
    qed
  qed
qed

text \<open>The loop that computes the high-water mark, on an arbitrary list of slots.\<close>

definition raise_mark :: "(nat \<Rightarrow> bool) \<Rightarrow> nat \<Rightarrow> nat \<Rightarrow> nat" where
  "raise_mark P s hw = (if P s \<and> s + 1 > hw then s + 1 else hw)"

lemma fold_raise_mark_ge: "h \<le> fold (raise_mark P) xs h"
proof (induction xs arbitrary: h)
  case (Cons a xs)
  have "h \<le> raise_mark P a h" by (simp add: raise_mark_def)
  also have "\<dots> \<le> fold (raise_mark P) xs (raise_mark P a h)" by (rule Cons)
  finally show ?case by simp
qed simp

lemma fold_raise_mark_above: "s \<in> set xs \<Longrightarrow> P s \<Longrightarrow> s < fold (raise_mark P) xs h"
proof (induction xs arbitrary: h)
  case (Cons a xs)
  show ?case
  proof (cases "s = a")
    case True
    with Cons.prems have "s < raise_mark P a h" by (simp add: raise_mark_def)
    also have "\<dots> \<le> fold (raise_mark P) xs (raise_mark P a h)" by (rule fold_raise_mark_ge)
    finally show ?thesis by simp
  qed (use Cons in auto)
qed simp

lemma fold_raise_mark_le: "h \<le> b \<Longrightarrow> list_all (\<lambda>s. s < b) xs \<Longrightarrow> fold (raise_mark P) xs h \<le> b"
  by (induction xs arbitrary: h) (auto simp: raise_mark_def Suc_le_eq)

lemma high_water_eq:
  "high_water pinned sl =
   fold (raise_mark (\<lambda>s. ext_secret_state (sl ! s) \<noteq> SLOT_FREE)) [pinned..<EXT_SECRET_MAX_SLOTS] pinned"
  unfolding high_water_def by (rule fold_cong) (auto simp: raise_mark_def)

lemma high_water_bounds:
  assumes "pinned \<le> EXT_SECRET_MAX_SLOTS"
  shows "pinned \<le> high_water pinned sl" "high_water pinned sl \<le> EXT_SECRET_MAX_SLOTS"
  unfolding high_water_eq using assms by (auto intro!: fold_raise_mark_le fold_raise_mark_ge simp: list_all_iff)

lemma high_water_above:
  "pinned \<le> i \<Longrightarrow> i < EXT_SECRET_MAX_SLOTS \<Longrightarrow> ext_secret_state (sl ! i) \<noteq> SLOT_FREE \<Longrightarrow> i < high_water pinned sl"
  unfolding high_water_eq by (rule fold_raise_mark_above) auto

lemma reload_wf:
  assumes "tcp_rpcs_reload_ext_secrets t cfgs st = (ok, st')" "secrets_wf st"
  shows "secrets_wf st'"
proof -
  have "0 < EXT_SECRET_MAX_SLOTS" by (simp add: EXT_SECRET_MAX_SLOTS_def)
  from reload_slot [OF assms this] have "length (slots st') = EXT_SECRET_MAX_SLOTS" by simp
  moreover from assms(1) have "ext_secret_pinned st' = ext_secret_pinned st"
    "ext_secret_cnt st' = (if ok then high_water (ext_secret_pinned st) (slots st') else ext_secret_cnt st)"
    by (auto elim: reloadE)
  ultimately show ?thesis using assms(2) high_water_bounds [of "ext_secret_pinned st" "slots st'"]
    by (auto simp: secrets_wf_def)
qed


text \<open>
  C14: A reload, successful or not, leaves pinned slots as they are, and every slot in use keeps its key,
  its counters and its address tables and stays in use: connections that hold the slot number go on being
  accounted to the same secret.
\<close>

theorem reload_keeps_connections:
  assumes "secrets_wf st" "tcp_rpcs_reload_ext_secrets t cfgs st = (ok, st')" "i < EXT_SECRET_MAX_SLOTS"
  shows "(i < ext_secret_pinned st \<longrightarrow> slots st' ! i = slots st ! i) \<and>
    (ext_secret_state (slots st ! i) \<noteq> SLOT_FREE \<longrightarrow>
       same_secret (slots st ! i) (slots st' ! i) \<and> ext_secret_state (slots st' ! i) \<noteq> SLOT_FREE)"
  using reload_slot [OF assms(2,1,3)] by (auto simp: reloaded_slot_def split: if_splits)

lemma reload_places:
  assumes "tcp_rpcs_reload_ext_secrets t cfgs st = (True, st')" "secrets_wf st" "c \<in> set cfgs"
    and "cfg_key c \<notin> ext_secret ` set (take (ext_secret_pinned st) (slots st))"
  shows "\<exists>i < EXT_SECRET_MAX_SLOTS. ext_secret_pinned st \<le> i \<and> ext_secret_state (slots st' ! i) = SLOT_ACTIVE \<and>
    ext_secret (slots st' ! i) = cfg_key c"
proof -
  from assms(1) obtain cs slb cand sld where r:
    "pass_b (ext_secret_pinned st) (mark_pinned st cfgs) (slots st) (pass_a st) = (cs, slb, cand)"
    "pass_d (ext_secret_pinned st) cs (pass_c t cand slb) = (True, sld)" "slots st' = sld" by (auto elim!: reloadE)
  have L: "length (slots st) = EXT_SECRET_MAX_SLOTS" using assms(2) by (simp add: secrets_wf_def)
  have "0 < EXT_SECRET_MAX_SLOTS" by (simp add: EXT_SECRET_MAX_SLOTS_def)
  with pass_b_slots [OF r(1) L length_pass_a] have len: "length slb = EXT_SECRET_MAX_SLOTS" "length cand = EXT_SECRET_MAX_SLOTS"
    by auto
  have c: "length (pass_c t cand slb) = EXT_SECRET_MAX_SLOTS" using len by (simp add: pass_c_length)
  have k: "cfg_key c \<in> todo_keys (mark_pinned st cfgs)" using assms(3,4) by (auto simp: todo_keys_mark_pinned)
  show ?thesis
  proof (cases "cfg_key c \<in> todo_keys cs")
    case True
    from pass_d_places [OF r(2) c True] r(3) show ?thesis by auto
  next
    case False
    with k pass_b_entries [OF r(1) L length_pass_a] obtain i where i: "i < EXT_SECRET_MAX_SLOTS"
      "refreshed (ext_secret_pinned st) (todo_keys (mark_pinned st cfgs)) (slots st) slb cand i"
      "ext_secret (slots st ! i) = cfg_key c" by blast
    then have "pass_c t cand slb ! i = slb ! i" "ext_secret_state (slb ! i) = SLOT_ACTIVE"
      using len by (simp_all add: pass_c_nth refreshed_def)
    with pass_d_slots [OF r(2) c i(1)] have "sld ! i = slb ! i" by auto
    with i r(3) show ?thesis by (auto simp: refreshed_def same_secret_def)
  qed
qed

lemma active_total_eq:
  "active_total p sl = p + card {i. p \<le> i \<and> i < EXT_SECRET_MAX_SLOTS \<and> ext_secret_state (sl ! i) = SLOT_ACTIVE}"
  unfolding active_total_def
  by (subst distinct_card [symmetric]) (auto intro!: arg_cong [where f = card])

text \<open>
  C15: After a successful reload every configured key is held by a pinned or an active slot below
  \<^verbatim>\<open>ext_secret_cnt\<close>, every active slot that is not pinned holds a configured key, slots from
  \<^verbatim>\<open>ext_secret_cnt\<close> on are free, and pinned and active slots together number at most
  \<^verbatim>\<open>EXT_SECRET_MAX_ACTIVE\<close>.
\<close>

theorem reload_installs_config:
  assumes "secrets_wf st" "tcp_rpcs_reload_ext_secrets t cfgs st = (True, st')"
    and "\<And>i. i < ext_secret_pinned st \<Longrightarrow> ext_secret_state (slots st ! i) = SLOT_ACTIVE"
  shows "(\<forall>c \<in> set cfgs. \<exists>i < ext_secret_cnt st'. ext_secret_state (slots st' ! i) = SLOT_ACTIVE \<and>
            ext_secret (slots st' ! i) = cfg_key c) \<and>
    (\<forall>i. ext_secret_pinned st \<le> i \<and> i < EXT_SECRET_MAX_SLOTS \<and> ext_secret_state (slots st' ! i) = SLOT_ACTIVE \<longrightarrow>
       ext_secret (slots st' ! i) \<in> cfg_key ` set cfgs) \<and>
    (\<forall>i. ext_secret_cnt st' \<le> i \<and> i < EXT_SECRET_MAX_SLOTS \<longrightarrow> ext_secret_state (slots st' ! i) = SLOT_FREE) \<and>
    ext_secret_pinned st + card {i. ext_secret_pinned st \<le> i \<and> i < EXT_SECRET_MAX_SLOTS \<and>
       ext_secret_state (slots st' ! i) = SLOT_ACTIVE} \<le> EXT_SECRET_MAX_ACTIVE"
proof (intro conjI ballI allI impI)
  note r = reload_slot [OF assms(2,1)] and wf = assms(1) [unfolded secrets_wf_def]
  from assms(2) have cnt: "ext_secret_cnt st' = high_water (ext_secret_pinned st) (slots st')"
    and tot: "active_total (ext_secret_pinned st) (slots st') \<le> EXT_SECRET_MAX_ACTIVE"
    by (auto elim!: reloadE)
  have pin: "ext_secret_pinned st \<le> ext_secret_cnt st'" using wf high_water_bounds by (simp add: cnt)
  show "\<exists>i < ext_secret_cnt st'. ext_secret_state (slots st' ! i) = SLOT_ACTIVE \<and> ext_secret (slots st' ! i) = cfg_key c"
    if "c \<in> set cfgs" for c
  proof (cases "cfg_key c \<in> ext_secret ` set (take (ext_secret_pinned st) (slots st))")
    case True
    then obtain i where i: "i < ext_secret_pinned st" "i < EXT_SECRET_MAX_SLOTS" "ext_secret (slots st ! i) = cfg_key c"
      using wf by (auto simp: in_set_conv_nth)
    with r [OF i(2)] assms(3) [OF i(1)] pin show ?thesis by (intro exI [of _ i]) auto
  next
    case False
    from reload_places [OF assms(2,1) that False] show ?thesis
      using high_water_above [of "ext_secret_pinned st" _ "slots st'"] by (force simp: cnt)
  qed
  show "ext_secret (slots st' ! i) \<in> cfg_key ` set cfgs"
    if "ext_secret_pinned st \<le> i \<and> i < EXT_SECRET_MAX_SLOTS \<and> ext_secret_state (slots st' ! i) = SLOT_ACTIVE" for i
    using that r [of i] by (auto simp: reloaded_slot_def split: if_splits)
  show "ext_secret_state (slots st' ! i) = SLOT_FREE" if "ext_secret_cnt st' \<le> i \<and> i < EXT_SECRET_MAX_SLOTS" for i
    using that high_water_above [of "ext_secret_pinned st" i "slots st'"] pin by (auto simp: cnt)
  show "ext_secret_pinned st + card {i. ext_secret_pinned st \<le> i \<and> i < EXT_SECRET_MAX_SLOTS \<and>
       ext_secret_state (slots st' ! i) = SLOT_ACTIVE} \<le> EXT_SECRET_MAX_ACTIVE"
    using tot by (simp add: active_total_eq)
qed


subsection \<open>A reload that replaces one secret\<close>

definition sample_cfg :: "byte \<Rightarrow> secret_cfg" where
  "sample_cfg b = \<lparr>cfg_key = replicate 16 b, cfg_label = [], cfg_limit = 0, cfg_quota = 0, cfg_rate_limit = 0,
     cfg_max_ips = 0, cfg_expires = 0\<rparr>"

text \<open>Slot 0 is active with the first key.\<close>

definition sample_secrets :: secrets where
  "sample_secrets = secrets_init\<lparr>slots := (replicate EXT_SECRET_MAX_SLOTS zero_slot)[0 := fresh_slot (sample_cfg 1) 0 zero_slot],
     ext_secret_cnt := 1\<rparr>"

definition sample_reloaded :: secrets where
  "sample_reloaded = secrets_init\<lparr>slots := (replicate EXT_SECRET_MAX_SLOTS zero_slot)
       [0 := start_drain 5 (fresh_slot (sample_cfg 1) 0 zero_slot), 1 := fresh_slot (sample_cfg 2) 1 zero_slot],
     ext_secret_cnt := 2\<rparr>"

lemma upt_32: "[0..<EXT_SECRET_MAX_SLOTS] = [0,1,2,3,4,5,6,7,8,9,10,11,12,13,14,15,16,17,18,19,20,21,22,23,24,25,26,27,28,29,30,31]"
  unfolding EXT_SECRET_MAX_SLOTS_def by code_simp

lemma sample_reload: "tcp_rpcs_reload_ext_secrets 5 [sample_cfg 2] sample_secrets = (True, sample_reloaded)"
proof -
  let ?sl = "slots sample_secrets"
  have free: "ext_secret_state zero_slot = SLOT_FREE" by (simp add: zero_slot_def)
  have nth: "?sl ! i = (if i = 0 then fresh_slot (sample_cfg 1) 0 zero_slot else zero_slot)" if "i < EXT_SECRET_MAX_SLOTS" for i
    using that by (simp add: sample_secrets_def nth_list_update)
  have "find_slot 0 (\<lambda>s. ext_secret_state s \<noteq> SLOT_FREE \<and> ext_secret s = cfg_key (sample_cfg 2)) ?sl = None"
    unfolding find_slot_def find_None_iff by (auto simp: nth free sample_cfg_def)
  then have b: "pass_b 0 [(sample_cfg 2, False)] ?sl (pass_a sample_secrets) = ([(sample_cfg 2, False)], ?sl, pass_a sample_secrets)"
    by simp
  have c: "pass_c 5 (pass_a sample_secrets) ?sl = (replicate EXT_SECRET_MAX_SLOTS zero_slot)[0 := start_drain 5 (fresh_slot (sample_cfg 1) 0 zero_slot)]"
    (is "?c = ?c'")
  proof (rule nth_equalityI)
    fix i assume "i < length ?c"
    then have i: "i < EXT_SECRET_MAX_SLOTS" by (simp add: pass_c_def)
    then show "?c ! i = ?c' ! i"
      using nth [OF i] free
      by (simp add: pass_c_nth pass_a_nth sample_secrets_def secrets_init_def nth_list_update)
  qed (simp add: pass_c_def sample_secrets_def)
  have f: "find_slot 0 (\<lambda>s. ext_secret_state s = SLOT_FREE) ?c' = Some 1"
    unfolding find_slot_def upt_32 by (simp add: EXT_SECRET_MAX_SLOTS_def free)
  have d: "pass_d 0 [(sample_cfg 2, False)] ?c' = (True, slots sample_reloaded)"
    using f by (simp add: sample_reloaded_def EXT_SECRET_MAX_SLOTS_def)
  have a: "active_total 0 (slots sample_reloaded) = 1" "high_water 0 (slots sample_reloaded) = 2"
    unfolding active_total_def high_water_def upt_32
    by (simp_all add: sample_reloaded_def EXT_SECRET_MAX_SLOTS_def free)
  have m: "mark_pinned sample_secrets [sample_cfg 2] = [(sample_cfg 2, False)]" "ext_secret_pinned sample_secrets = 0"
    by (simp_all add: mark_pinned_def sample_secrets_def secrets_init_def)
  show ?thesis
    unfolding tcp_rpcs_reload_ext_secrets_def Let_def m b prod.case c d secrets.simps a
    by (simp add: EXT_SECRET_MAX_ACTIVE_def sample_secrets_def sample_reloaded_def)
qed

lemma sample_secrets_wf: "secrets_wf sample_secrets"
  by (simp add: secrets_wf_def sample_secrets_def secrets_init_def EXT_SECRET_MAX_SLOTS_def)

theorem reload_keeps_connections_witness:
  "same_secret (slots sample_secrets ! 0) (slots sample_reloaded ! 0) \<and>
   ext_secret_state (slots sample_reloaded ! 0) = SLOT_DRAINING"
  using reload_keeps_connections [OF sample_secrets_wf sample_reload, of 0]
  by (simp add: sample_secrets_def sample_reloaded_def EXT_SECRET_MAX_SLOTS_def)

theorem reload_installs_config_witness:
  "\<exists>i < 2. ext_secret_state (slots sample_reloaded ! i) = SLOT_ACTIVE \<and> ext_secret (slots sample_reloaded ! i) = replicate 16 2"
proof -
  have "ext_secret_pinned sample_secrets = 0" by (simp add: sample_secrets_def secrets_init_def)
  with reload_installs_config [OF sample_secrets_wf sample_reload] show ?thesis
    by (simp add: sample_cfg_def sample_reloaded_def)
qed

end
