(* ===== verification/Top_Ips.thy ===== *)
theory Top_Ips
  imports Complex_Main Prelude
begin

text \<open>
  The per-address volume table of \<^verbatim>\<open>src/src/net/net-tcp-rpc-ext-top-ips.c\<close>. Each of the 16 rows of
  \<^verbatim>\<open>ip_volume\<close> is the list of its 64 entries; a pointer to an entry is its index in the row. Times
  (\<^verbatim>\<open>double\<close> seconds) are real numbers, byte counters are integers.
\<close>

subsection \<open>Data\<close>

definition IP_VOLUME_TABLE_SIZE :: nat where "IP_VOLUME_TABLE_SIZE = 64"
definition IP_VOLUME_STALE_SEC :: real where "IP_VOLUME_STALE_SEC = 5"
definition WORKER_TOP_IPS_MAX :: int where "WORKER_TOP_IPS_MAX = 32"

record ip_volume_entry =
  ip :: u32
  ipv6 :: bytes
  connections :: int
  bytes_in :: int
  bytes_out :: int
  last_seen :: real

definition zero_entry :: ip_volume_entry where
  "zero_entry = \<lparr>ip = 0, ipv6 = zero_ipv6, connections = 0, bytes_in = 0, bytes_out = 0, last_seen = 0\<rparr>"

record ip_volume_state =
  ip_volume :: "nat \<Rightarrow> ip_volume_entry list"
  top_ips_per_secret_runtime :: int

definition ip_volume_init :: ip_volume_state where
  "ip_volume_init = \<lparr>ip_volume = (\<lambda>_. replicate IP_VOLUME_TABLE_SIZE zero_entry),
     top_ips_per_secret_runtime = 0\<rparr>"

subsection \<open>Operations\<close>

definition tcp_rpcs_set_top_ips_per_secret :: "int \<Rightarrow> ip_volume_state \<Rightarrow> ip_volume_state" where
  "tcp_rpcs_set_top_ips_per_secret n st =
     (let n = (if n < 0 then 0 else n);
          n = (if n > WORKER_TOP_IPS_MAX then WORKER_TOP_IPS_MAX else n)
      in st\<lparr>top_ips_per_secret_runtime := n\<rparr>)"

text \<open>The first index of a row that satisfies a condition, as the search loops find it.\<close>

fun first_index :: "('a \<Rightarrow> bool) \<Rightarrow> 'a list \<Rightarrow> nat option" where
  "first_index P [] = None"
| "first_index P (x # xs) = (if P x then Some 0 else map_option Suc (first_index P xs))"

definition entry_matches :: "u32 \<Rightarrow> bytes \<Rightarrow> ip_volume_entry \<Rightarrow> bool" where
  "entry_matches a a6 e =
     (if a \<noteq> 0 then ip e = a
      else if a6 \<noteq> zero_ipv6 then ip e = 0 \<and> ipv6 e = a6 \<and> ipv6 e \<noteq> zero_ipv6
      else False)"

definition ip_volume_lookup :: "u32 \<Rightarrow> bytes \<Rightarrow> ip_volume_entry list \<Rightarrow> nat option" where
  "ip_volume_lookup a a6 row = first_index (entry_matches a a6) row"

definition entry_empty :: "ip_volume_entry \<Rightarrow> bool" where
  "entry_empty e \<longleftrightarrow> ip e = 0 \<and> ipv6 e = zero_ipv6"

definition entry_total :: "ip_volume_entry \<Rightarrow> int" where
  "entry_total e = bytes_in e + bytes_out e"

text \<open>The scan for a victim: \<open>i\<close> is the index, \<open>v\<close> the best candidate so far with its total.\<close>

fun victim_scan :: "real \<Rightarrow> ip_volume_entry list \<Rightarrow> nat \<Rightarrow> (nat \<times> int) option \<Rightarrow> (nat \<times> int) option" where
  "victim_scan cutoff [] i v = v"
| "victim_scan cutoff (e # es) i v =
     (if connections e > 0 then victim_scan cutoff es (i + 1) v
      else if last_seen e \<ge> cutoff then victim_scan cutoff es (i + 1) v
      else if (case v of None \<Rightarrow> True | Some (j, b) \<Rightarrow> entry_total e < b)
      then victim_scan cutoff es (i + 1) (Some (i, entry_total e))
      else victim_scan cutoff es (i + 1) v)"

definition ip_volume_acquire_slot :: "real \<Rightarrow> ip_volume_entry list \<Rightarrow> (nat \<times> ip_volume_entry list) option" where
  "ip_volume_acquire_slot precise_now row =
     (case first_index entry_empty row of
        Some i \<Rightarrow> Some (i, row)
      | None \<Rightarrow>
          (case victim_scan (precise_now - IP_VOLUME_STALE_SEC) row 0 None of
             Some (i, b) \<Rightarrow> Some (i, row[i := zero_entry])
           | None \<Rightarrow> None))"

definition ip_volume_get_or_create ::
  "real \<Rightarrow> u32 \<Rightarrow> bytes \<Rightarrow> ip_volume_entry list \<Rightarrow> (nat \<times> ip_volume_entry list) option" where
  "ip_volume_get_or_create precise_now a a6 row =
     (case ip_volume_lookup a a6 row of
        Some i \<Rightarrow> Some (i, row)
      | None \<Rightarrow>
          (case ip_volume_acquire_slot precise_now row of
             None \<Rightarrow> None
           | Some (i, row) \<Rightarrow>
               Some (i, row[i := \<lparr>ip = a, ipv6 = (if a = 0 then a6 else zero_ipv6), connections = 0,
                                  bytes_in = 0, bytes_out = 0, last_seen = precise_now\<rparr>])))"

definition tcp_rpcs_account_connect :: "real \<Rightarrow> int \<Rightarrow> u32 \<Rightarrow> bytes \<Rightarrow> ip_volume_state \<Rightarrow> ip_volume_state" where
  "tcp_rpcs_account_connect precise_now sid a a6 st =
     (if top_ips_per_secret_runtime st \<le> 0 then st else
      if sid < 0 \<or> sid \<ge> 16 then st else
      case ip_volume_get_or_create precise_now a a6 (ip_volume st (nat sid)) of
        None \<Rightarrow> st
      | Some (i, row) \<Rightarrow>
          st\<lparr>ip_volume := (ip_volume st)(nat sid :=
               row[i := (row ! i)\<lparr>connections := connections (row ! i) + 1, last_seen := precise_now\<rparr>])\<rparr>)"

definition tcp_rpcs_account_disconnect :: "real \<Rightarrow> int \<Rightarrow> u32 \<Rightarrow> bytes \<Rightarrow> ip_volume_state \<Rightarrow> ip_volume_state" where
  "tcp_rpcs_account_disconnect precise_now sid a a6 st =
     (if top_ips_per_secret_runtime st \<le> 0 then st else
      if sid < 0 \<or> sid \<ge> 16 then st else
      let row = ip_volume st (nat sid) in
      case ip_volume_lookup a a6 row of
        None \<Rightarrow> st
      | Some i \<Rightarrow>
          let e = row ! i;
              e = (if connections e > 0 then e\<lparr>connections := connections e - 1\<rparr> else e)
          in st\<lparr>ip_volume := (ip_volume st)(nat sid := row[i := e\<lparr>last_seen := precise_now\<rparr>])\<rparr>)"

definition tcp_rpcs_account_bytes ::
  "real \<Rightarrow> int \<Rightarrow> u32 \<Rightarrow> bytes \<Rightarrow> int \<Rightarrow> int \<Rightarrow> ip_volume_state \<Rightarrow> ip_volume_state" where
  "tcp_rpcs_account_bytes precise_now sid a a6 n direction st =
     (if top_ips_per_secret_runtime st \<le> 0 then st else
      if sid < 0 \<or> sid \<ge> 16 \<or> n \<le> 0 then st else
      case ip_volume_get_or_create precise_now a a6 (ip_volume st (nat sid)) of
        None \<Rightarrow> st
      | Some (i, row) \<Rightarrow>
          let e = row ! i;
              e = (if direction = 0 then e\<lparr>bytes_in := bytes_in e + n\<rparr>
                   else e\<lparr>bytes_out := bytes_out e + n\<rparr>)
          in st\<lparr>ip_volume := (ip_volume st)(nat sid := row[i := e\<lparr>last_seen := precise_now\<rparr>])\<rparr>)"

subsection \<open>The snapshot\<close>

text \<open>An entry that the inner loop does not skip (apart from those already picked).\<close>

definition reportable :: "ip_volume_entry \<Rightarrow> bool" where
  "reportable e \<longleftrightarrow> \<not> entry_empty e \<and> \<not> (entry_total e = 0 \<and> connections e = 0)"

text \<open>The inner loop: the first index with the largest total among the reportable entries not picked.\<close>

fun best_scan :: "nat list \<Rightarrow> ip_volume_entry list \<Rightarrow> nat \<Rightarrow> nat option \<Rightarrow> int \<Rightarrow> nat option" where
  "best_scan picked [] i best best_total = best"
| "best_scan picked (e # es) i best best_total =
     (if i \<in> set picked then best_scan picked es (i + 1) best best_total
      else if \<not> reportable e then best_scan picked es (i + 1) best best_total
      else if entry_total e > best_total then best_scan picked es (i + 1) (Some i) (entry_total e)
      else best_scan picked es (i + 1) best best_total)"

text \<open>The outer loop; the result are the indices in the order of \<^verbatim>\<open>out\<close>.\<close>

fun pick_top :: "nat \<Rightarrow> ip_volume_entry list \<Rightarrow> nat list \<Rightarrow> nat list" where
  "pick_top 0 row picked = picked"
| "pick_top (Suc n) row picked =
     (case best_scan picked row 0 None (-1) of
        None \<Rightarrow> picked
      | Some i \<Rightarrow> pick_top n row (picked @ [i]))"

definition tcp_rpcs_snapshot_top_ips :: "int \<Rightarrow> int \<Rightarrow> ip_volume_state \<Rightarrow> ip_volume_entry list" where
  "tcp_rpcs_snapshot_top_ips sid max_n st =
     (if top_ips_per_secret_runtime st \<le> 0 then [] else
      if sid < 0 \<or> sid \<ge> 16 \<or> max_n \<le> 0 then [] else
      let row = ip_volume st (nat sid) in map ((!) row) (pick_top (nat max_n) row []))"

subsection \<open>The table invariant\<close>

definition entry_ok :: "ip_volume_entry \<Rightarrow> bool" where
  "entry_ok e \<longleftrightarrow> 0 \<le> connections e \<and> 0 \<le> bytes_in e \<and> 0 \<le> bytes_out e"

definition row_ok :: "ip_volume_entry list \<Rightarrow> bool" where
  "row_ok row \<longleftrightarrow> length row = IP_VOLUME_TABLE_SIZE \<and> (\<forall>e \<in> set row. entry_ok e)"

definition vol_ok :: "ip_volume_state \<Rightarrow> bool" where
  "vol_ok st \<longleftrightarrow> (\<forall>sid. row_ok (ip_volume st sid))"

lemma row_ok_update: "row_ok row \<Longrightarrow> entry_ok e \<Longrightarrow> row_ok (row[i := e])"
  unfolding row_ok_def using set_update_subset_insert [of row i e] by auto

lemma first_index_Some: "first_index P xs = Some i \<Longrightarrow> i < length xs \<and> P (xs ! i)"
  by (induction xs arbitrary: i) (auto split: if_splits)

lemma first_index_None: "first_index P xs = None \<longleftrightarrow> (\<forall>x \<in> set xs. \<not> P x)"
  by (induction xs) auto

lemma victim_scan_Some:
  "victim_scan cutoff es i v = Some (k, b) \<Longrightarrow>
     v = Some (k, b) \<or>
     (\<exists>j < length es. k = i + j \<and> \<not> connections (es ! j) > 0 \<and> last_seen (es ! j) < cutoff)"
proof (induction cutoff es i v rule: victim_scan.induct)
  case (2 cutoff e es i v)
  have shift: "(\<exists>j < length es. k = i + 1 + j \<and> \<not> connections (es ! j) > 0 \<and> last_seen (es ! j) < cutoff) \<Longrightarrow>
    \<exists>j < length (e # es). k = i + j \<and> \<not> connections ((e # es) ! j) > 0 \<and> last_seen ((e # es) ! j) < cutoff"
    by (metis (no_types, lifting) Suc_eq_plus1_left add.assoc length_Cons nth_Cons_Suc not_less_eq plus_1_eq_Suc)
  have here: "\<not> connections e > 0 \<Longrightarrow> \<not> last_seen e \<ge> cutoff \<Longrightarrow> k = i \<Longrightarrow>
    \<exists>j < length (e # es). k = i + j \<and> \<not> connections ((e # es) ! j) > 0 \<and> last_seen ((e # es) ! j) < cutoff"
    by (intro exI [of _ 0]) simp
  from 2 shift here show ?case by (auto split: if_splits option.splits)
qed simp

lemma acquire_slot_Some:
  assumes "ip_volume_acquire_slot now row = Some (i, row')"
  shows "i < length row"
    and "entry_empty (row ! i) \<or> \<not> connections (row ! i) > 0 \<and> last_seen (row ! i) < now - IP_VOLUME_STALE_SEC"
    and "row' = row \<or> row' = row[i := zero_entry]"
  using assms first_index_Some [of entry_empty row]
    victim_scan_Some [of "now - IP_VOLUME_STALE_SEC" row 0 None]
  by (fastforce simp: ip_volume_acquire_slot_def split: option.splits)+

lemma zero_entry_ok [simp]: "entry_ok zero_entry"
  by (simp add: entry_ok_def zero_entry_def)

lemma get_or_create_ok:
  assumes "ip_volume_get_or_create now a a6 row = Some (i, row')" "row_ok row"
  shows "row_ok row'" "i < length row'"
proof -
  show "row_ok row'" "i < length row'"
    using assms acquire_slot_Some [of now row] first_index_Some [of "entry_matches a a6" row]
    by (auto simp: ip_volume_get_or_create_def ip_volume_lookup_def entry_ok_def zero_entry_def intro!: row_ok_update
        split: option.splits)
qed

text \<open>What other code does to the table, as a sequence of calls.\<close>

datatype vol_event =
    Set_top int
  | Connect real int u32 bytes
  | Disconnect real int u32 bytes
  | Bytes real int u32 bytes int int

fun vol_apply :: "vol_event \<Rightarrow> ip_volume_state \<Rightarrow> ip_volume_state" where
  "vol_apply (Set_top n) st = tcp_rpcs_set_top_ips_per_secret n st"
| "vol_apply (Connect now sid a a6) st = tcp_rpcs_account_connect now sid a a6 st"
| "vol_apply (Disconnect now sid a a6) st = tcp_rpcs_account_disconnect now sid a a6 st"
| "vol_apply (Bytes now sid a a6 n d) st = tcp_rpcs_account_bytes now sid a a6 n d st"

lemma vol_ok_row: "vol_ok st \<Longrightarrow> row_ok row \<Longrightarrow> vol_ok (st\<lparr>ip_volume := (ip_volume st)(sid := row)\<rparr>)"
  by (simp add: vol_ok_def)

lemma row_ok_nth: "row_ok row \<Longrightarrow> i < length row \<Longrightarrow> entry_ok (row ! i)"
  by (simp add: row_ok_def)

text \<open>Every call rewrites at most one entry of one row, by a function that keeps it well formed.\<close>

lemma vol_ok_entry_update:
  assumes "vol_ok st" "row_ok row" "i < length row" "entry_ok (row ! i) \<Longrightarrow> entry_ok e"
  shows "vol_ok (st\<lparr>ip_volume := (ip_volume st)(sid := row[i := e])\<rparr>)"
  using assms by (intro vol_ok_row row_ok_update) (simp_all add: row_ok_nth)

lemma vol_ok_get_or_create:
  assumes "vol_ok st" "ip_volume_get_or_create now a a6 (ip_volume st sid) = Some (i, row)"
    "entry_ok (row ! i) \<Longrightarrow> entry_ok e"
  shows "vol_ok (st\<lparr>ip_volume := (ip_volume st)(sid := row[i := e])\<rparr>)"
  using assms get_or_create_ok [OF assms(2)] by (intro vol_ok_entry_update) (auto simp: vol_ok_def)

lemma vol_ok_lookup:
  assumes "vol_ok st" "ip_volume_lookup a a6 (ip_volume st sid) = Some i"
    "entry_ok (ip_volume st sid ! i) \<Longrightarrow> entry_ok e"
  shows "vol_ok (st\<lparr>ip_volume := (ip_volume st)(sid := (ip_volume st sid)[i := e])\<rparr>)"
  using assms first_index_Some [of "entry_matches a a6" "ip_volume st sid" i]
  by (intro vol_ok_entry_update) (auto simp: vol_ok_def ip_volume_lookup_def)

lemma vol_ok_apply: "vol_ok st \<Longrightarrow> vol_ok (vol_apply ev st)"
proof (cases ev)
  case (Set_top n)
  then show "vol_ok st \<Longrightarrow> ?thesis" by (simp add: tcp_rpcs_set_top_ips_per_secret_def vol_ok_def Let_def)
next
  case (Connect now sid a a6)
  then show "vol_ok st \<Longrightarrow> ?thesis"
    by (auto simp: tcp_rpcs_account_connect_def entry_ok_def intro!: vol_ok_get_or_create split: option.splits)
next
  case (Disconnect now sid a a6)
  show "vol_ok st \<Longrightarrow> ?thesis"
    unfolding Disconnect vol_apply.simps tcp_rpcs_account_disconnect_def Let_def
    by (auto simp: entry_ok_def intro!: vol_ok_lookup split: option.splits)
next
  case (Bytes now sid a a6 n d)
  then show "vol_ok st \<Longrightarrow> ?thesis"
    by (auto simp: tcp_rpcs_account_bytes_def Let_def entry_ok_def intro!: vol_ok_get_or_create
        split: option.splits)
qed

lemma vol_ok_run: "vol_ok (fold vol_apply evs ip_volume_init)"
proof -
  have "vol_ok st \<Longrightarrow> vol_ok (fold vol_apply evs st)" for st
    by (induction evs arbitrary: st) (simp_all add: vol_ok_apply)
  moreover have "vol_ok ip_volume_init" by (simp add: vol_ok_def row_ok_def ip_volume_init_def)
  ultimately show ?thesis by blast
qed

subsection \<open>The snapshot is the top of the table\<close>

lemma best_scan_spec:
  "\<exists>T \<ge> bt. (best_scan picked es i best bt = best \<and> T = bt \<or>
      (\<exists>j < length es. best_scan picked es i best bt = Some (i + j) \<and> i + j \<notin> set picked \<and>
         reportable (es ! j) \<and> T = entry_total (es ! j) \<and> bt < T)) \<and>
    (\<forall>j < length es. i + j \<notin> set picked \<longrightarrow> reportable (es ! j) \<longrightarrow> entry_total (es ! j) \<le> T)"
proof (induction picked es i best bt rule: best_scan.induct)
  case (2 picked e es i best bt)
  let ?take = "i \<notin> set picked \<and> reportable e \<and> bt < entry_total e"
  define best' bt' where "best' = (if ?take then Some i else best)" and "bt' = (if ?take then entry_total e else bt)"
  have rec: "best_scan picked (e # es) i best bt = best_scan picked es (i + 1) best' bt'"
    by (auto simp: best'_def bt'_def)
  have "\<exists>T \<ge> bt'. (best_scan picked es (i + 1) best' bt' = best' \<and> T = bt' \<or>
      (\<exists>j < length es. best_scan picked es (i + 1) best' bt' = Some (i + 1 + j) \<and> i + 1 + j \<notin> set picked \<and>
         reportable (es ! j) \<and> T = entry_total (es ! j) \<and> bt' < T)) \<and>
    (\<forall>j < length es. i + 1 + j \<notin> set picked \<longrightarrow> reportable (es ! j) \<longrightarrow> entry_total (es ! j) \<le> T)"
    using 2 unfolding best'_def bt'_def by (cases "i \<in> set picked"; cases "reportable e") auto
  then obtain T where T: "bt' \<le> T" and
    res: "best_scan picked es (i + 1) best' bt' = best' \<and> T = bt' \<or>
      (\<exists>j < length es. best_scan picked es (i + 1) best' bt' = Some (i + 1 + j) \<and> i + 1 + j \<notin> set picked \<and>
         reportable (es ! j) \<and> T = entry_total (es ! j) \<and> bt' < T)" and
    all: "\<forall>j < length es. i + 1 + j \<notin> set picked \<longrightarrow> reportable (es ! j) \<longrightarrow> entry_total (es ! j) \<le> T"
    by blast
  have bt: "bt \<le> bt'" by (simp add: bt'_def)
  have all': "entry_total ((e # es) ! j) \<le> T"
    if "j < length (e # es)" "i + j \<notin> set picked" "reportable ((e # es) ! j)" for j
  proof (cases j)
    case 0
    with that T show ?thesis by (auto simp: bt'_def split: if_splits)
  next
    case (Suc k)
    with that all show ?thesis by auto
  qed
  from res show ?case
  proof
    assume r: "best_scan picked es (i + 1) best' bt' = best' \<and> T = bt'"
    show ?case
    proof (cases ?take)
      case True
      with r rec T bt all' show ?thesis
        by (intro exI [of _ T] conjI disjI2 exI [of _ 0]) (auto simp: best'_def bt'_def)
    next
      case False
      with r rec T bt all' show ?thesis
        by (intro exI [of _ T]) (auto simp: best'_def bt'_def)
    qed
  next
    assume "\<exists>j < length es. best_scan picked es (i + 1) best' bt' = Some (i + 1 + j) \<and> i + 1 + j \<notin> set picked \<and>
         reportable (es ! j) \<and> T = entry_total (es ! j) \<and> bt' < T"
    then obtain j where "j < length es" "best_scan picked es (i + 1) best' bt' = Some (i + 1 + j)"
      "i + 1 + j \<notin> set picked" "reportable (es ! j)" "T = entry_total (es ! j)" "bt' < T" by blast
    with rec T bt all' show ?case
      by (intro exI [of _ T] conjI disjI2 exI [of _ "Suc j"]) auto
  qed
qed simp

lemma best_scan_top:
  assumes "\<forall>e \<in> set row. entry_ok e"
  shows "case best_scan picked row 0 None (-1) of
      None \<Rightarrow> \<forall>j < length row. reportable (row ! j) \<longrightarrow> j \<in> set picked
    | Some i \<Rightarrow> i < length row \<and> i \<notin> set picked \<and> reportable (row ! i) \<and>
        (\<forall>j < length row. j \<notin> set picked \<longrightarrow> reportable (row ! j) \<longrightarrow> entry_total (row ! j) \<le> entry_total (row ! i))"
proof -
  have pos: "0 \<le> entry_total (row ! j)" if "j < length row" for j
    using assms nth_mem [OF that] by (auto simp: entry_ok_def entry_total_def)
  obtain T where res: "best_scan picked row 0 None (-1) = None \<and> T = -1 \<or>
      (\<exists>j < length row. best_scan picked row 0 None (-1) = Some j \<and> j \<notin> set picked \<and>
         reportable (row ! j) \<and> T = entry_total (row ! j))" and
    all: "\<And>j. j < length row \<Longrightarrow> j \<notin> set picked \<Longrightarrow> reportable (row ! j) \<Longrightarrow> entry_total (row ! j) \<le> T"
    using best_scan_spec [of "-1" picked row 0 None] by auto
  show ?thesis
  proof (cases "best_scan picked row 0 None (-1)")
    case None
    with res have "T = -1" by auto
    then have "j \<in> set picked" if "j < length row" "reportable (row ! j)" for j
      using all [of j] pos [of j] that by force
    then show ?thesis unfolding None option.case by blast
  next
    case (Some i)
    with res have "i < length row" "i \<notin> set picked" "reportable (row ! i)" "T = entry_total (row ! i)" by auto
    moreover from this(4) have "\<forall>j < length row. j \<notin> set picked \<longrightarrow> reportable (row ! j) \<longrightarrow>
        entry_total (row ! j) \<le> entry_total (row ! i)" using all by blast
    ultimately show ?thesis unfolding Some option.case by blast
  qed
qed

text \<open>What holds of the indices picked so far.\<close>

definition picks_ok :: "ip_volume_entry list \<Rightarrow> nat list \<Rightarrow> bool" where
  "picks_ok row p \<longleftrightarrow> distinct p \<and> (\<forall>i \<in> set p. i < length row \<and> reportable (row ! i)) \<and>
     sorted_wrt (\<lambda>i j. entry_total (row ! j) \<le> entry_total (row ! i)) p \<and>
     (\<forall>i \<in> set p. \<forall>j < length row. j \<notin> set p \<longrightarrow> reportable (row ! j) \<longrightarrow> entry_total (row ! j) \<le> entry_total (row ! i))"

definition reportables :: "ip_volume_entry list \<Rightarrow> nat set" where
  "reportables row = {i. i < length row \<and> reportable (row ! i)}"

lemma finite_reportables: "finite (reportables row)"
  by (rule finite_subset [of _ "{..<length row}"]) (auto simp: reportables_def)

lemma picks_ok_card:
  assumes "picks_ok row p"
  shows "length p \<le> card (reportables row)"
proof -
  from assms have "distinct p" "set p \<subseteq> reportables row" by (auto simp: picks_ok_def reportables_def)
  then show ?thesis using card_mono [OF finite_reportables] distinct_card by metis
qed

lemma pick_top_ok:
  assumes "\<forall>e \<in> set row. entry_ok e" "picks_ok row p"
  shows "picks_ok row (pick_top n row p) \<and> length (pick_top n row p) = min (length p + n) (card (reportables row))"
  using assms(2)
proof (induction n arbitrary: p)
  case 0
  with picks_ok_card [of row p] show ?case by simp
next
  case (Suc n)
  show ?case
  proof (cases "best_scan p row 0 None (-1)")
    case None
    with best_scan_top [OF assms(1), of p] have "reportables row \<subseteq> set p" by (auto simp: reportables_def)
    then have "card (reportables row) \<le> length p" by (meson card_length card_mono finite_set order_trans)
    with None Suc.prems picks_ok_card [OF Suc.prems] show ?thesis by simp
  next
    case (Some i)
    with best_scan_top [OF assms(1), of p] have i: "i < length row" "i \<notin> set p" "reportable (row ! i)"
      "\<forall>j < length row. j \<notin> set p \<longrightarrow> reportable (row ! j) \<longrightarrow> entry_total (row ! j) \<le> entry_total (row ! i)" by auto
    with Suc.prems have "picks_ok row (p @ [i])"
      by (auto simp: picks_ok_def sorted_wrt_append)
    from Suc.IH [OF this] Some show ?thesis by simp
  qed
qed

text \<open>
  C32: After any sequence of accounting calls, the snapshot for a secret lists distinct reportable
  table entries in descending order of their byte totals; it has as many as asked for or as there
  are, and no reportable entry left out has more bytes than one that is listed.
\<close>

theorem snapshot_top_ips_correct:
  assumes "st = fold vol_apply evs ip_volume_init" and "0 < top_ips_per_secret_runtime st"
    and "0 \<le> sid" and "sid < 16" and "0 < n"
  shows "\<exists>p. tcp_rpcs_snapshot_top_ips sid n st = map ((!) (ip_volume st (nat sid))) p \<and>
    picks_ok (ip_volume st (nat sid)) p \<and>
    length p = min (nat n) (card (reportables (ip_volume st (nat sid))))"
proof -
  have "\<forall>e \<in> set (ip_volume st (nat sid)). entry_ok e"
    using vol_ok_run [of evs] assms(1) by (simp add: vol_ok_def row_ok_def)
  from pick_top_ok [OF this, of "[]" "nat n"] assms(2-5) show ?thesis
    by (auto simp: tcp_rpcs_snapshot_top_ips_def Let_def picks_ok_def)
qed

definition sample_vol_events :: "vol_event list" where
  "sample_vol_events = [Set_top 5, Connect 1 0 7 zero_ipv6, Bytes 2 0 7 zero_ipv6 100 0,
     Bytes 2 0 8 zero_ipv6 500 1]"

lemma sample_vol_runtime: "top_ips_per_secret_runtime (fold vol_apply sample_vol_events ip_volume_init) = 5"
  by code_simp

theorem snapshot_top_ips_correct_witness:
  "\<exists>p. tcp_rpcs_snapshot_top_ips 0 3 (fold vol_apply sample_vol_events ip_volume_init) =
      map ((!) (ip_volume (fold vol_apply sample_vol_events ip_volume_init) 0)) p \<and>
    picks_ok (ip_volume (fold vol_apply sample_vol_events ip_volume_init) 0) p"
  using snapshot_top_ips_correct [OF refl, of sample_vol_events 0 3] by (auto simp: sample_vol_runtime)

text \<open>
  When a full row recycles an entry for a new address, the entry has no open connection and has
  been idle for more than five seconds; the other entries of the row are untouched.
\<close>

theorem acquire_slot_evicts_idle:
  assumes "ip_volume_acquire_slot precise_now row = Some (i, row')"
  shows "i < length row \<and> length row' = length row \<and>
    (entry_empty (row ! i) \<or>
     connections (row ! i) \<le> 0 \<and> last_seen (row ! i) < precise_now - IP_VOLUME_STALE_SEC) \<and>
    (\<forall>j. j \<noteq> i \<longrightarrow> row' ! j = row ! j)"
  using acquire_slot_Some [OF assms] by auto

theorem acquire_slot_evicts_idle_witness:
  "ip_volume_acquire_slot 10 [zero_entry\<lparr>ip := 1, last_seen := 9\<rparr>, zero_entry\<lparr>ip := 2, bytes_in := 3\<rparr>] =
     Some (1, [zero_entry\<lparr>ip := 1, last_seen := 9\<rparr>, zero_entry]) \<and>
   last_seen (zero_entry\<lparr>ip := 2, bytes_in := 3\<rparr>) < 10 - IP_VOLUME_STALE_SEC"
proof -
  have run: "ip_volume_acquire_slot 10 [zero_entry\<lparr>ip := 1, last_seen := 9\<rparr>, zero_entry\<lparr>ip := 2, bytes_in := 3\<rparr>] =
     Some (1, [zero_entry\<lparr>ip := 1, last_seen := 9\<rparr>, zero_entry])"
    by (simp add: ip_volume_acquire_slot_def entry_empty_def zero_entry_def IP_VOLUME_STALE_SEC_def entry_total_def)
  from acquire_slot_evicts_idle [OF run] run show ?thesis
    by (simp add: entry_empty_def zero_entry_def)
qed

end
