(* ===== verification/Obfs2.thy ===== *)
theory Obfs2
  imports Prelude
begin

text \<open>
  The obfuscated2 transport: the handshake header and the frame lengths of
  \<^verbatim>\<open>src/src/net/net-obfs2-parse.c\<close>, the frame writers of \<^verbatim>\<open>src/src/net/net-tcp-rpc-common.c\<close>, and the frame
  reader inlined in \<^verbatim>\<open>tcp_rpcs_compact_parse_execute\<close> (\<^verbatim>\<open>src/src/net/net-tcp-rpc-ext-server.c\<close>).

  \<^verbatim>\<open>int\<close> values that are masked and shifted are \<open>32 word\<close>s, read with \<open>sint\<close> where the code compares
  them as signed. A raw message is the list of its bytes. SHA-256 and AES-256-CTR are arguments.
\<close>

subsection \<open>Constants and little-endian integers\<close>

definition RPC_F_PAD :: u32 where "RPC_F_PAD = 0x8000000"
definition RPC_F_MEDIUM :: u32 where "RPC_F_MEDIUM = 0x20000000"
definition RPC_F_COMPACT :: u32 where "RPC_F_COMPACT = 0x40000000"
definition RPC_F_QUICKACK :: u32 where "RPC_F_QUICKACK = 0x80000000"

definition OBFS2_TAG_PAD :: u32 where "OBFS2_TAG_PAD = 0xdddddddd"
definition OBFS2_TAG_MEDIUM :: u32 where "OBFS2_TAG_MEDIUM = 0xeeeeeeee"
definition OBFS2_TAG_COMPACT :: u32 where "OBFS2_TAG_COMPACT = 0xefefefef"

text \<open>The four bytes of an \<^verbatim>\<open>int\<close> in memory and \<^verbatim>\<open>*(unsigned *) p\<close>.\<close>

definition le32 :: "u32 \<Rightarrow> bytes" where
  "le32 w = [ucast w, ucast (drop_bit 8 w), ucast (drop_bit 16 w), ucast (drop_bit 24 w)]"

definition of_le32 :: "bytes \<Rightarrow> u32" where
  "of_le32 bs =
     ucast (bs ! 0) OR push_bit 8 (ucast (bs ! 1)) OR push_bit 16 (ucast (bs ! 2)) OR push_bit 24 (ucast (bs ! 3))"

text \<open>\<^verbatim>\<open>*(short *) p\<close>.\<close>

definition of_le16s :: "bytes \<Rightarrow> int" where
  "of_le16s bs = sint (ucast (bs ! 0) OR push_bit 8 (ucast (bs ! 1)) :: 16 word)"

subsection \<open>The handshake header\<close>

record aes_key_data =
  read_key :: bytes
  read_iv :: bytes
  write_key :: bytes
  write_iv :: bytes

record obfs2_parse_result =
  tag :: u32
  dc :: int
  secret_id :: nat
  keys :: aes_key_data

text \<open>The key material derived from a header; \<open>None\<close> is the mode without secrets.\<close>

definition derive_keys :: "(bytes \<Rightarrow> bytes) \<Rightarrow> bytes \<Rightarrow> bytes option \<Rightarrow> aes_key_data" where
  "derive_keys sha256 header secret =
     (let rk = take 32 (drop 8 header);
          wk = map (\<lambda>i. header ! (55 - i)) [0..<32]
      in \<lparr>read_key = (case secret of Some s \<Rightarrow> sha256 (rk @ s) | None \<Rightarrow> rk),
          read_iv = take 16 (drop 40 header),
          write_key = (case secret of Some s \<Rightarrow> sha256 (wk @ s) | None \<Rightarrow> wk),
          write_iv = map (\<lambda>i. header ! (23 - i)) [0..<16]\<rparr>)"

definition tag_ok :: "u32 \<Rightarrow> bool \<Rightarrow> bool" where
  "tag_ok t rand_pad_only \<longleftrightarrow>
     t = OBFS2_TAG_PAD \<or> (t = OBFS2_TAG_MEDIUM \<or> t = OBFS2_TAG_COMPACT) \<and> \<not> rand_pad_only"

text \<open>
  The loop over the secrets, from index \<open>sid\<close>. The buffer is decrypted in place and restored when the
  tag does not match; the result is the outcome and the buffer afterwards.
\<close>

fun try_secrets ::
  "(bytes \<Rightarrow> bytes) \<Rightarrow> (bytes \<Rightarrow> bytes \<Rightarrow> bytes \<Rightarrow> bytes) \<Rightarrow> bytes \<Rightarrow> bool \<Rightarrow> bytes option list \<Rightarrow> nat \<Rightarrow> bytes
   \<Rightarrow> obfs2_parse_result option \<times> bytes" where
  "try_secrets sha256 ctr saved rand_pad_only [] sid header = (None, header)"
| "try_secrets sha256 ctr saved rand_pad_only (secret # rest) sid header =
     (let kd = derive_keys sha256 header secret;
          header = ctr (read_key kd) (read_iv kd) header;
          t = of_le32 (drop 56 header)
      in if tag_ok t rand_pad_only
         then (Some \<lparr>tag = t, dc = of_le16s (drop 60 header), secret_id = sid, keys = kd\<rparr>, header)
         else try_secrets sha256 ctr saved rand_pad_only rest (sid + 1) saved)"

definition obfs2_parse_header ::
  "(bytes \<Rightarrow> bytes) \<Rightarrow> (bytes \<Rightarrow> bytes \<Rightarrow> bytes \<Rightarrow> bytes) \<Rightarrow> bytes \<Rightarrow> bytes list \<Rightarrow> bool
   \<Rightarrow> obfs2_parse_result option \<times> bytes" where
  "obfs2_parse_header sha256 ctr header secrets rand_pad_only =
     try_secrets sha256 ctr header rand_pad_only
       (if secrets = [] then [None] else map Some secrets) 0 header"

subsection \<open>Frame lengths\<close>

record obfs2_frame_result =
  packet_len :: u32
  header_bytes :: nat
  quickack :: bool

text \<open>The two checks that follow both branches; \<open>max_len\<close> is \<^verbatim>\<open>max_packet_len\<close>.\<close>

definition frame_checks :: "u32 \<Rightarrow> int \<Rightarrow> u32 \<Rightarrow> bool" where
  "frame_checks flags max_len len \<longleftrightarrow>
     \<not> (sint len \<le> 0 \<or> len AND 0xc0000000 \<noteq> 0) \<and>
     \<not> (flags AND RPC_F_PAD = 0 \<and> len AND 3 \<noteq> 0) \<and>
     \<not> (max_len > 0 \<and> sint len > max_len)"

definition obfs2_parse_frame_length :: "u32 \<Rightarrow> u32 \<Rightarrow> int \<Rightarrow> obfs2_frame_result option" where
  "obfs2_parse_frame_length raw4 flags max_len =
     (let fin = (\<lambda>len n q. if frame_checks flags max_len len
                 then Some \<lparr>packet_len = len, header_bytes = n, quickack = q\<rparr> else None) in
      if flags AND RPC_F_MEDIUM \<noteq> 0 then
        (if sint raw4 < 0 \<and> sint raw4 > -1000 then None
         else fin (raw4 AND NOT RPC_F_QUICKACK) 4 (raw4 AND RPC_F_QUICKACK \<noteq> 0))
      else
        (let q = (raw4 AND 0x80 \<noteq> 0);
             len = (if q then raw4 AND NOT 0x80 else raw4)
         in if len AND 0xff = 0x7f then
              (let len = drop_bit 8 len in
               if sint len < 0x7f then None else fin (push_bit 2 len) 4 q)
            else fin (push_bit 2 (len AND 0x7f)) 1 q))"

subsection \<open>Writing a frame\<close>

text \<open>
  \<^verbatim>\<open>tcp_rpc_write_packet\<close>, the full mode: length, sequence number, payload, checksum. The result is what
  is appended to \<^verbatim>\<open>out\<close>, and the next sequence number. \<open>crc\<close> is \<^verbatim>\<open>custom_crc_partial\<close> over the message.
\<close>

definition tcp_rpc_write_packet :: "(bytes \<Rightarrow> u32) \<Rightarrow> u32 \<Rightarrow> u32 \<Rightarrow> bytes \<Rightarrow> bytes \<times> u32" where
  "tcp_rpc_write_packet crc flags out_packet_num raw =
     (if flags AND (RPC_F_COMPACT OR RPC_F_MEDIUM) = 0 then
        let body = le32 (word_of_nat (length raw) + 12) @ le32 out_packet_num @ raw
        in (body @ le32 (crc body), out_packet_num + 1)
      else ([], out_packet_num))"

text \<open>The length prefix of compact and medium frames.\<close>

definition frame_header :: "u32 \<Rightarrow> u32 \<Rightarrow> bytes" where
  "frame_header flags len =
     (if flags AND RPC_F_MEDIUM \<noteq> 0 then le32 len
      else if sint len \<le> 0x7e * 4 then take 1 (le32 (drop_bit 2 len))
      else le32 (push_bit 6 len OR 0x7f))"

text \<open>
  \<^verbatim>\<open>tcp_rpc_write_packet_compact\<close>. \<open>uninited_tls\<close> is its second condition, \<open>rnd\<close> are the bytes of the
  random \<^verbatim>\<open>x\<close> and \<open>y\<close> is \<^verbatim>\<open>lrand48_j () & 3\<close>. A failed assert is \<open>None\<close>.
\<close>

definition tcp_rpc_write_packet_compact ::
  "(bytes \<Rightarrow> u32) \<Rightarrow> u32 \<Rightarrow> bool \<Rightarrow> bytes \<Rightarrow> nat \<Rightarrow> u32 \<Rightarrow> bytes \<Rightarrow> (bytes \<times> u32) option" where
  "tcp_rpc_write_packet_compact crc flags uninited_tls rnd y out_packet_num raw =
     (if length raw = 5 then (if hd raw = 0xdd then Some (tl raw, out_packet_num) else None)
      else if uninited_tls then Some (raw, out_packet_num)
      else if flags AND (RPC_F_COMPACT OR RPC_F_MEDIUM) = 0
      then Some (tcp_rpc_write_packet crc flags out_packet_num raw)
      else
        let raw = (if flags AND RPC_F_PAD \<noteq> 0 then raw @ take y rnd else raw);
            len = word_of_nat (length raw) :: u32
        in if len AND 0xfc000000 \<noteq> 0 then None
           else if flags AND RPC_F_PAD = 0 \<and> len AND 3 \<noteq> 0 then None
           else Some (frame_header flags len @ raw, out_packet_num))"

subsection \<open>Reading a frame in the server\<close>

datatype frame_outcome =
    Fail_connection
  | Need_bytes int
  | Packet u32 bytes bytes  \<comment> \<open>type, payload, rest of the input\<close>

record frame_state =
  fs_flags :: u32
  fs_quickacks :: nat
  fs_transport_errors :: nat

text \<open>
  The length of the next frame with the update of the connection flags and counters. \<open>None\<close> when the
  connection is failed, otherwise the length and the number of header bytes.
\<close>

definition server_frame_length :: "u32 \<Rightarrow> frame_state \<Rightarrow> (u32 \<times> nat) option \<times> frame_state" where
  "server_frame_length raw4 D =
     (if fs_flags D AND RPC_F_MEDIUM \<noteq> 0 then
        (if sint raw4 < 0 \<and> sint raw4 > -1000
         then (None, D\<lparr>fs_transport_errors := fs_transport_errors D + 1\<rparr>)
         else
           let D = D\<lparr>fs_flags := (fs_flags D AND NOT RPC_F_QUICKACK) OR (raw4 AND RPC_F_QUICKACK)\<rparr>;
               len = raw4 AND NOT RPC_F_QUICKACK;
               D = (if fs_flags D AND RPC_F_QUICKACK \<noteq> 0 then D\<lparr>fs_quickacks := fs_quickacks D + 1\<rparr> else D)
           in (Some (len, 4), D))
      else
        (let q = (raw4 AND 0x80 \<noteq> 0);
             D = (if q then D\<lparr>fs_flags := fs_flags D OR RPC_F_QUICKACK, fs_quickacks := fs_quickacks D + 1\<rparr>
                  else D\<lparr>fs_flags := fs_flags D AND NOT RPC_F_QUICKACK\<rparr>);
             len = (if q then raw4 AND NOT 0x80 else raw4)
         in if len AND 0xff = 0x7f then
              (let len = drop_bit 8 len in
               if sint len < 0x7f then (None, D) else (Some (push_bit 2 len, 4), D))
            else (Some (push_bit 2 (len AND 0x7f), 1), D)))"

text \<open>The condition of the "bad packet length" failure.\<close>

definition server_len_bad :: "u32 \<Rightarrow> u32 \<Rightarrow> bool" where
  "server_len_bad flags len \<longleftrightarrow>
     sint len \<le> 0 \<or> len AND 0xc0000000 \<noteq> 0 \<or> flags AND RPC_F_PAD = 0 \<and> len AND 3 \<noteq> 0"

definition server_read_frame :: "int \<Rightarrow> bytes \<Rightarrow> frame_state \<Rightarrow> (frame_outcome \<times> frame_state) option" where
  "server_read_frame max_len inp D =
     (let len = int (length inp);
          (r, D) = server_frame_length (of_le32 inp) D
      in case r of
        None \<Rightarrow> Some (Fail_connection, D)
      | Some (plen, hdr) \<Rightarrow>
          if server_len_bad (fs_flags D) plen then Some (Fail_connection, D)
          else if sint plen > max_len \<and> max_len > 0 then Some (Fail_connection, D)
          else if len < sint plen + int hdr then Some (Need_bytes (sint plen + int hdr - len), D)
          else
            let inp = drop hdr inp;
                msg = take (unat plen) inp;
                rest = drop (unat plen) inp;
                msg = (if fs_flags D AND RPC_F_PAD \<noteq> 0 then take (unat (plen AND - 4)) msg else msg)
            in if length msg < 4 then None
               else Some (Packet (of_le32 msg) msg rest, D))"

subsection \<open>Integers in memory\<close>

lemma length_le32 [simp]: "length (le32 w) = 4"
  by (simp add: le32_def)

lemma of_le32_le32 [simp]: "of_le32 (le32 w @ xs) = w"
proof (rule bit_word_eqI)
  fix n assume "n < LENGTH(32)"
  then have n: "n < 32" by simp
  consider "n < 8" | "8 \<le> n" "n < 16" | "16 \<le> n" "n < 24" | "24 \<le> n" "n < 32" using n by linarith
  then show "bit (of_le32 (le32 w @ xs)) n = bit w n"
    by cases (auto simp: of_le32_def le32_def bit_simps)
qed

lemma of_le32_append [simp]: "4 \<le> length xs \<Longrightarrow> of_le32 (xs @ ys) = of_le32 xs"
  by (auto simp: of_le32_def nth_append)

lemma of_le32_low: "of_le32 (b # xs) AND 0xff = ucast b"
proof (rule bit_word_eqI)
  fix n assume "n < LENGTH(32)"
  have m: "(0xff :: u32) = mask 8" by (simp add: mask_eq_exp_minus_1)
  show "bit (of_le32 (b # xs) AND 0xff) n = bit (ucast b :: u32) n"
    unfolding m by (auto simp: of_le32_def bit_simps dest: bit_imp_le_length)
qed

subsection \<open>Masks\<close>

text \<open>A value below \<open>2 ^ n\<close> is not changed by the mask, so every other mask meets only its low bits.\<close>

lemma and_mask_below:
  fixes w :: u32
  assumes "unat w < 2 ^ n"
  shows "w AND mask n = w"
proof -
  have "take_bit n w = w" using assms
    by (metis take_bit_nat_eq_self unsigned_take_bit_eq unsigned_word_eqI)
  then show ?thesis by (simp add: take_bit_eq_mask)
qed

lemma and_below:
  fixes w c :: u32
  assumes "unat w < 2 ^ n"
  shows "w AND c = w AND (mask n AND c)"
  using and_mask_below [OF assms] by (metis and.assoc)

lemma small_masks:
  fixes w :: u32
  assumes "unat w < 2 ^ 26"
  shows "w AND 0xfc000000 = 0" "w AND 0xc0000000 = 0" "w AND 0x80000000 = 0" "w AND NOT 0x80000000 = w"
    and "sint w = int (unat w)"
proof -
  show "w AND 0xfc000000 = 0" "w AND 0xc0000000 = 0" and q: "w AND 0x80000000 = 0"
    using assms by (subst and_below [where n = 26]; simp add: mask_eq_exp_minus_1)+
  show "w AND NOT 0x80000000 = w"
    using q by (metis (no_types) and.right_neutral bit.conj_cancel_left bit.conj_disj_distrib bit.disj_cancel_right or.left_neutral)
  have u: "uint w = int (unat w)" by (rule uint_nat)
  from assms have "int (unat w) < int (2 ^ 26)" by (simp only: of_nat_less_iff)
  then have "uint w < 2 ^ 26" by simp
  moreover have "- (2 ^ 31) \<le> uint w" by (rule order_trans [OF _ uint_ge_0]) simp
  ultimately have "sint w = uint w"
    unfolding sint_uint by (intro signed_take_bit_int_eq_self) simp_all
  with u show "sint w = int (unat w)" by (simp only:)
qed

lemma and_3_zero:
  fixes w :: u32
  assumes "unat w mod 4 = 0"
  shows "w AND 3 = 0"
proof -
  have "unat (take_bit 2 w) = take_bit 2 (unat w)" by (rule unsigned_take_bit_eq)
  with assms have "unat (take_bit 2 w) = 0" by (simp only: take_bit_eq_mod) simp
  then show ?thesis by (simp add: take_bit_eq_mask mask_eq_exp_minus_1 unat_eq_0)
qed

lemma unat_and_minus_4:
  fixes w :: u32
  shows "unat (w AND - 4) = unat w div 4 * 4"
proof -
  have minus_2: "2 \<le> n \<Longrightarrow> Suc (Suc (n - 2)) = n" for n :: nat by simp
  have m: "(- 4 :: u32) = NOT (mask 2)" by (simp add: mask_eq_exp_minus_1 not_eq_complement)
  have "w AND - 4 = push_bit 2 (drop_bit 2 w)"
    unfolding m by (rule bit_word_eqI) (auto simp: bit_simps minus_2 not_less dest: bit_imp_le_length)
  then have "unat (w AND - 4) = take_bit 32 (push_bit 2 (drop_bit 2 (unat w)))"
    by (simp add: unsigned_push_bit_eq unat_drop_bit_eq)
  also have "\<dots> = push_bit 2 (drop_bit 2 (unat w))"
  proof (rule take_bit_nat_eq_self)
    have "unat w div 4 * 4 \<le> unat w" by simp
    moreover have "unat w < 2 ^ 32" using unsigned_less [of w, where 'a = nat] by simp
    ultimately show "push_bit 2 (drop_bit 2 (unat w)) < 2 ^ 32"
      by (simp add: push_bit_eq_mult drop_bit_eq_div)
  qed
  finally show ?thesis by (simp add: push_bit_eq_mult drop_bit_eq_div)
qed

subsection \<open>Writer and reader agree\<close>

text \<open>A length of \<open>n\<close> bytes, as the writer stores it and the reader recovers it.\<close>

lemma len_word:
  assumes "n < 2 ^ 26"
  shows "unat (word_of_nat n :: u32) = n"
  using assms by (simp add: unat_of_nat)

lemma server_frame_length_medium:
  assumes "fs_flags D AND RPC_F_MEDIUM \<noteq> 0" "n < 2 ^ 26"
  shows "fst (server_frame_length (word_of_nat n) D) = Some (word_of_nat n, 4)"
  using assms small_masks [of "word_of_nat n"] len_word [OF assms(2)]
  by (simp add: server_frame_length_def RPC_F_QUICKACK_def Let_def)

lemma word_of_nat_4: "(word_of_nat (4 * k) :: u32) = push_bit 2 (word_of_nat k)"
  by (simp add: push_bit_eq_mult)

lemma server_frame_length_short:
  assumes "fs_flags D AND RPC_F_MEDIUM = 0" "k \<le> 0x7e"
  shows "fst (server_frame_length (of_le32 (word_of_nat k # xs)) D) = Some (word_of_nat (4 * k), 1)"
proof -
  let ?w = "of_le32 (word_of_nat k # xs)"
  have low: "?w AND 0xff = word_of_nat k"
    unfolding of_le32_low using assms(2)
    by (intro unsigned_word_eqI [where 'a = nat]) (simp add: unsigned_ucast_eq unat_of_nat take_bit_eq_mod)
  have k: "unat (word_of_nat k :: u32) = k" using assms(2) by (intro len_word) simp
  have "?w AND 0x80 = (?w AND 0xff) AND 0x80" by (simp add: and.assoc)
  also have "\<dots> = 0" unfolding low using assms(2) k by (subst and_below [where n = 7]) (simp_all add: mask_eq_exp_minus_1)
  finally have q: "?w AND 0x80 = 0" .
  have "?w AND 0x7f = (?w AND 0xff) AND 0x7f" by (simp add: and.assoc)
  also have "\<dots> = word_of_nat k" unfolding low
    using and_mask_below [of "word_of_nat k" 7] assms(2) k by (simp add: mask_eq_exp_minus_1)
  finally have l: "?w AND 0x7f = word_of_nat k" .
  have "word_of_nat k \<noteq> (0x7f :: u32)"
  proof
    assume "word_of_nat k = (0x7f :: u32)"
    then have "unat (word_of_nat k :: u32) = unat (0x7f :: u32)" by (simp only:)
    with k assms(2) show False by simp
  qed
  with assms(1) q l low show ?thesis
    by (simp add: server_frame_length_def Let_def push_bit_eq_mult)
qed

lemma server_frame_length_long:
  assumes "fs_flags D AND RPC_F_MEDIUM = 0" "0x7f \<le> k" "k < 2 ^ 24"
  shows "fst (server_frame_length (push_bit 6 (word_of_nat (4 * k)) OR 0x7f) D) = Some (word_of_nat (4 * k), 4)"
proof -
  let ?k = "word_of_nat k :: u32"
  let ?w = "push_bit 6 (word_of_nat (4 * k)) OR 0x7f :: u32"
  have k: "unat ?k = k" using assms(3) by (intro len_word) simp
  have m7: "(0x7f :: u32) = mask 7" and m8: "(0xff :: u32) = mask 8" by (simp_all add: mask_eq_exp_minus_1)
  have w: "?w = push_bit 8 ?k OR mask 7" unfolding word_of_nat_4 m7 by simp
  have "?w AND mask 8 = mask 7"
    unfolding w by (simp add: take_bit_or take_bit_push_bit flip: take_bit_eq_mask)
  then have low: "?w AND 0xff = 0x7f" unfolding m7 m8 .
  have "?w AND 0x80 = (?w AND 0xff) AND 0x80" by (simp add: and.assoc)
  also have "\<dots> = 0" unfolding low by simp
  finally have q: "?w AND 0x80 = 0" .
  have "drop_bit 8 ?w = take_bit 24 ?k" unfolding w
    by (rule bit_word_eqI) (auto simp: bit_simps)
  also have "\<dots> = ?k" using and_mask_below [of ?k 24] k assms(3) by (simp add: take_bit_eq_mask)
  finally have d: "drop_bit 8 ?w = ?k" .
  have "\<not> sint ?k < 0x7f" using small_masks(5) [of ?k] k assms(2,3) by simp
  with assms(1) q d low show ?thesis
    unfolding server_frame_length_def Let_def by (simp add: push_bit_eq_mult)
qed

text \<open>The three forms of the prefix under one statement.\<close>

lemma frame_header_read:
  assumes "fs_flags D = flags" "0 < n" "n < 2 ^ 26" "flags AND RPC_F_MEDIUM = 0 \<longrightarrow> n mod 4 = 0"
  shows "fst (server_frame_length (of_le32 (frame_header flags (word_of_nat n) @ xs)) D)
    = Some (word_of_nat n, length (frame_header flags (word_of_nat n)))"
proof (cases "flags AND RPC_F_MEDIUM = 0")
  case False
  then show ?thesis using assms by (simp add: frame_header_def server_frame_length_medium)
next
  case True
  with assms(4) obtain k where n: "n = 4 * k" by auto
  have len: "unat (word_of_nat n :: u32) = n" by (rule len_word [OF assms(3)])
  have s: "sint (word_of_nat n :: u32) = int n" using small_masks(5) [of "word_of_nat n"] len assms(3) by simp
  show ?thesis
  proof (cases "n \<le> 0x7e * 4")
    case short: True
    have "drop_bit 2 (word_of_nat n :: u32) = word_of_nat k"
    proof (rule unsigned_word_eqI [where 'a = nat])
      have "unat (drop_bit 2 (word_of_nat n :: u32)) = drop_bit 2 n" by (simp only: unat_drop_bit_eq len)
      moreover have "drop_bit 2 n = k" by (simp add: n drop_bit_eq_div)
      moreover have "unat (word_of_nat k :: u32) = k" using assms(3) n by (intro len_word) simp
      ultimately show "unat (drop_bit 2 (word_of_nat n :: u32)) = unat (word_of_nat k :: u32)" by (simp only:)
    qed
    then have "take 1 (le32 (drop_bit 2 (word_of_nat n))) = [word_of_nat k]"
      using short n by (simp add: le32_def unsigned_of_nat take_bit_nat_eq_self)
    then have "frame_header flags (word_of_nat n) = [word_of_nat k]"
      using True short s by (simp add: frame_header_def)
    then show ?thesis
      using server_frame_length_short [of D k xs] True assms(1) short n by simp
  next
    case False
    then have "frame_header flags (word_of_nat n) = le32 (push_bit 6 (word_of_nat n) OR 0x7f)"
      using True s by (simp add: frame_header_def)
    then show ?thesis
      using server_frame_length_long [of D k] True assms(1,3) False n by simp
  qed
qed

text \<open>The padding mode is only ever set together with the medium framing.\<close>

definition client_mode :: "u32 \<Rightarrow> bool" where
  "client_mode flags \<longleftrightarrow>
     flags AND (RPC_F_COMPACT OR RPC_F_MEDIUM) \<noteq> 0 \<and>
     (flags AND RPC_F_PAD \<noteq> 0 \<longrightarrow> flags AND RPC_F_MEDIUM \<noteq> 0)"

lemma server_frame_length_flags:
  "fs_flags (snd (server_frame_length raw4 D)) AND RPC_F_PAD = fs_flags D AND RPC_F_PAD"
proof -
  have q: "(f AND NOT RPC_F_QUICKACK) AND RPC_F_PAD = f AND RPC_F_PAD" for f
    by (simp add: and.assoc RPC_F_QUICKACK_def RPC_F_PAD_def)
  have z: "(f AND RPC_F_QUICKACK) AND RPC_F_PAD = 0" for f
    by (simp add: and.assoc RPC_F_QUICKACK_def RPC_F_PAD_def)
  have o: "RPC_F_QUICKACK AND RPC_F_PAD = 0" by (simp add: RPC_F_QUICKACK_def RPC_F_PAD_def)
  show ?thesis
    by (simp add: server_frame_length_def Let_def bit.conj_disj_distrib2 q z o)
qed

text \<open>What the server does with a complete frame whose length was recovered.\<close>

lemma server_read_frame_complete:
  assumes "server_frame_length (of_le32 (hdr @ body @ rest)) D = (Some (word_of_nat n, length hdr), D')"
    and "length body = n" "4 \<le> n" "n < 2 ^ 26" "fs_flags D' AND RPC_F_PAD = 0 \<longrightarrow> n mod 4 = 0"
    and "max_len \<le> 0 \<or> int n \<le> max_len"
  shows "server_read_frame max_len (hdr @ body @ rest) D =
    Some (Packet (of_le32 body)
      (if fs_flags D' AND RPC_F_PAD = 0 then body else take (n div 4 * 4) body) rest, D')"
proof -
  have n: "unat (word_of_nat n :: u32) = n" by (rule len_word [OF assms(4)])
  note m = small_masks [of "word_of_nat n", unfolded n, OF assms(4)]
  have "n mod 4 = 0 \<Longrightarrow> (word_of_nat n :: u32) AND 3 = 0" using and_3_zero [of "word_of_nat n"] n by simp
  moreover have "3 < n div 4 * 4" using assms(3) by presburger
  then have "of_le32 (take (n div 4 * 4) body) = of_le32 body"
    by (simp add: of_le32_def)
  ultimately show ?thesis
    using assms n m unat_and_minus_4 [of "word_of_nat n", unfolded n]
    by (auto simp: server_read_frame_def server_len_bad_def Let_def)
qed



subsection \<open>The two frame parsers\<close>

lemma quickack_masks:
  "((f AND NOT RPC_F_QUICKACK) OR (w AND RPC_F_QUICKACK)) AND RPC_F_QUICKACK = w AND RPC_F_QUICKACK"
  "(f OR RPC_F_QUICKACK) AND RPC_F_QUICKACK = RPC_F_QUICKACK"
  "(f AND NOT RPC_F_QUICKACK) AND RPC_F_QUICKACK = 0"
  "RPC_F_QUICKACK \<noteq> 0"
  by (simp_all add: bit.conj_disj_distrib2 and.assoc RPC_F_QUICKACK_def)

lemma obfs2_via_server:
  "obfs2_parse_frame_length raw4 (fs_flags D) max_len =
     (case fst (server_frame_length raw4 D) of
        None \<Rightarrow> None
      | Some (len, hdr) \<Rightarrow>
          if frame_checks (fs_flags D) max_len len
          then Some \<lparr>packet_len = len, header_bytes = hdr,
            quickack = (fs_flags (snd (server_frame_length raw4 D)) AND RPC_F_QUICKACK \<noteq> 0)\<rparr>
          else None)"
  by (cases "fs_flags D AND RPC_F_MEDIUM = 0"; cases "raw4 AND 0x80 = 0")
     (simp_all add: obfs2_parse_frame_length_def server_frame_length_def Let_def quickack_masks)

text \<open>
  C31: The frame-length parser of \<^verbatim>\<open>net-obfs2-parse.c\<close> and the copy inlined in the server agree on every
  input word, mode and limit: the same frames are accepted, with the same length, header size and
  quick-ack flag, and the connection is failed exactly when the other returns \<open>-1\<close>.
\<close>

theorem frame_parsers_agree:
  "obfs2_parse_frame_length raw4 (fs_flags D) max_len =
     (case server_frame_length raw4 D of
        (None, D') \<Rightarrow> None
      | (Some (len, hdr), D') \<Rightarrow>
          if server_len_bad (fs_flags D') len then None
          else if sint len > max_len \<and> max_len > 0 then None
          else Some \<lparr>packet_len = len, header_bytes = hdr, quickack = (fs_flags D' AND RPC_F_QUICKACK \<noteq> 0)\<rparr>)"
proof -
  obtain r D' where sfl: "server_frame_length raw4 D = (r, D')" by (cases "server_frame_length raw4 D")
  then have "fs_flags D' AND RPC_F_PAD = fs_flags D AND RPC_F_PAD"
    using server_frame_length_flags [of raw4 D] by simp
  then have "frame_checks (fs_flags D) max_len len \<longleftrightarrow>
    \<not> server_len_bad (fs_flags D') len \<and> \<not> (sint len > max_len \<and> max_len > 0)" for len
    by (auto simp: frame_checks_def server_len_bad_def)
  then show ?thesis
    unfolding obfs2_via_server by (auto simp: sfl split: option.splits)
qed

text \<open>
  In the padded mode a client can make the proxy abort: a frame whose announced length is 1, 2 or
  3 bytes passes every check, is truncated to an empty message, and the assert on the message type
  that follows fails.
\<close>

theorem padded_short_frame_aborts:
  assumes "fs_flags D AND RPC_F_MEDIUM \<noteq> 0" and "fs_flags D AND RPC_F_PAD \<noteq> 0"
    and "n \<in> {1, 2, 3}" and "length body = n" and "max_len \<le> 0 \<or> 3 \<le> max_len"
  shows "server_read_frame max_len (le32 (word_of_nat n) @ body @ rest) D = None"
proof -
  have n: "n < 2 ^ 26" using assms(3) by auto
  have w: "unat (word_of_nat n :: u32) = n" by (rule len_word [OF n])
  obtain D' where D': "server_frame_length (word_of_nat n) D = (Some (word_of_nat n, 4), D')"
    using server_frame_length_medium [OF assms(1) n] by (auto simp: prod_eq_iff)
  have "fs_flags D' AND RPC_F_PAD \<noteq> 0"
    using server_frame_length_flags [of "word_of_nat n" D] D' assms(2) by simp
  moreover have "unat ((word_of_nat n :: u32) AND - 4) = 0"
    using unat_and_minus_4 [of "word_of_nat n"] w assms(3) by auto
  ultimately show ?thesis
    using assms(3-5) small_masks [of "word_of_nat n", unfolded w, OF n] D' w
    by (auto simp: server_read_frame_def server_len_bad_def Let_def)
qed

theorem padded_short_frame_aborts_witness:
  "server_read_frame 0 (le32 (word_of_nat 1) @ [7] @ [])
     \<lparr>fs_flags = RPC_F_MEDIUM OR RPC_F_PAD, fs_quickacks = 0, fs_transport_errors = 0\<rparr> = None"
  by (rule padded_short_frame_aborts [where n = 1]) (simp_all add: RPC_F_MEDIUM_def RPC_F_PAD_def)

subsection \<open>The handshake header\<close>

text \<open>The tag found with one secret (or none): that of the header decrypted with the derived key.\<close>

definition tag_with :: "(bytes \<Rightarrow> bytes) \<Rightarrow> (bytes \<Rightarrow> bytes \<Rightarrow> bytes \<Rightarrow> bytes) \<Rightarrow> bytes \<Rightarrow> bytes option \<Rightarrow> u32" where
  "tag_with sha256 ctr header secret =
     (let kd = derive_keys sha256 header secret in of_le32 (drop 56 (ctr (read_key kd) (read_iv kd) header)))"

lemma try_secrets_cases:
  "case try_secrets sha ctr header pad secrets sid header of
     (Some r, header') \<Rightarrow> \<exists>k < length secrets. secret_id r = sid + k \<and>
        tag r = tag_with sha ctr header (secrets ! k) \<and> tag_ok (tag r) pad \<and>
        keys r = derive_keys sha header (secrets ! k) \<and>
        header' = ctr (read_key (keys r)) (read_iv (keys r)) header \<and>
        (\<forall>j < k. \<not> tag_ok (tag_with sha ctr header (secrets ! j)) pad)
   | (None, header') \<Rightarrow> header' = header \<and> (\<forall>s \<in> set secrets. \<not> tag_ok (tag_with sha ctr header s) pad)"
proof (induction secrets arbitrary: sid)
  case (Cons s secrets)
  show ?case
  proof (cases "tag_ok (tag_with sha ctr header s) pad")
    case True
    then show ?thesis by (auto simp: tag_with_def Let_def intro!: exI [of _ 0])
  next
    case False
    obtain r header' where t: "try_secrets sha ctr header pad secrets (sid + 1) header = (r, header')"
      by fastforce
    with False have t': "try_secrets sha ctr header pad (s # secrets) sid header = (r, header')"
      by (simp add: tag_with_def Let_def)
    show ?thesis
    proof (cases r)
      case None
      with Cons.IH [of "sid + 1"] t t' False show ?thesis by simp
    next
      case (Some p)
      with Cons.IH [of "sid + 1"] t obtain k where k: "k < length secrets" "secret_id p = sid + 1 + k"
        "tag p = tag_with sha ctr header (secrets ! k)" "tag_ok (tag p) pad"
        "keys p = derive_keys sha header (secrets ! k)"
        "header' = ctr (read_key (keys p)) (read_iv (keys p)) header"
        "\<forall>j < k. \<not> tag_ok (tag_with sha ctr header (secrets ! j)) pad" by auto
      have "\<not> tag_ok (tag_with sha ctr header ((s # secrets) ! j)) pad" if "j < Suc k" for j
        using that k(7) False by (cases j) auto
      with k t' Some show ?thesis by (auto intro!: exI [of _ "Suc k"])
    qed
  qed
qed simp

text \<open>
  \<^verbatim>\<open>obfs2_parse_header\<close> tries the secrets in order: on success it reports the first secret under
  which the header decrypts to an admissible transport tag, with the keys derived from the original
  header, and leaves the header decrypted with them; on failure no secret matches and the caller's
  header is unchanged.
\<close>

theorem obfs2_parse_header_first_match:
  "case obfs2_parse_header sha256 ctr header secrets pad of
     (Some r, header') \<Rightarrow>
        (let tried = (if secrets = [] then [None] else map Some secrets) in
         secret_id r < length tried \<and> tag r = tag_with sha256 ctr header (tried ! secret_id r) \<and>
         tag_ok (tag r) pad \<and> keys r = derive_keys sha256 header (tried ! secret_id r) \<and>
         header' = ctr (read_key (keys r)) (read_iv (keys r)) header \<and>
         list_all (\<lambda>s. \<not> tag_ok (tag_with sha256 ctr header s) pad) (take (secret_id r) tried))
   | (None, header') \<Rightarrow> header' = header \<and>
        list_all (\<lambda>s. \<not> tag_ok (tag_with sha256 ctr header s) pad) (if secrets = [] then [None] else map Some secrets)"
proof -
  let ?tried = "if secrets = [] then [None] else map Some secrets"
  note c = try_secrets_cases [where sha = sha256 and ctr = ctr and header = header and pad = pad and secrets = ?tried and sid = 0]
  obtain r h where t: "try_secrets sha256 ctr header pad ?tried 0 header = (r, h)" by fastforce
  have all: "\<forall>s \<in> set (take k ?tried). \<not> tag_ok (tag_with sha256 ctr header s) pad"
    if "k < length ?tried" "\<forall>j < k. \<not> tag_ok (tag_with sha256 ctr header (?tried ! j)) pad" for k
    using that by (auto simp: in_set_conv_nth simp del: nth_map)
  show ?thesis
    unfolding obfs2_parse_header_def t using c [unfolded t] all
    by (cases r) (auto simp: Let_def list_all_iff simp del: nth_map)
qed

end
