(* ===== verification/Accept.thy ===== *)
theory Accept
  imports Drain Top_Ips Obfs2
begin

text \<open>
  Accepting a client: the obfuscated2 branch of \<^verbatim>\<open>tcp_rpcs_compact_parse_execute\<close>
  (\<^verbatim>\<open>src/src/net/net-tcp-rpc-ext-server.c\<close>) with the checks of the matched secret, the per-secret part of
  \<^verbatim>\<open>mtproto_ext_rpc_close\<close> (\<^verbatim>\<open>src/src/mtproto/mtproto-proxy-http.c\<close>) and the sweeper of draining slots
  (\<^verbatim>\<open>src/src/mtproto/mtproto-proxy.c\<close>), and the machine they form with reloads.
\<close>

subsection \<open>State\<close>

record worker =
  secs :: secrets
  vols :: ip_volume_state

text \<open>The globals a handshake reads.\<close>

record accept_env =
  env_workers :: int
  env_now :: int
  env_precise_now :: real
  allow_only_tls :: bool
  ext_rand_pad_only :: bool

definition update_slot :: "nat \<Rightarrow> (slot \<Rightarrow> slot) \<Rightarrow> secrets \<Rightarrow> secrets" where
  "update_slot i f st = st\<lparr>slots := (slots st)[i := f (slots st ! i)]\<rparr>"

subsection \<open>The checks of a secret\<close>

datatype reject = Rej_draining | Rej_expired | Rej_limit | Rej_quota | Rej_ips

text \<open>The counter that a rejection increments.\<close>

fun count_reject :: "reject \<Rightarrow> slot \<Rightarrow> slot" where
  "count_reject Rej_draining s = s\<lparr>stats := (stats s)\<lparr>per_secret_rejected_draining := per_secret_rejected_draining (stats s) + 1\<rparr>\<rparr>"
| "count_reject Rej_expired s = s\<lparr>stats := (stats s)\<lparr>per_secret_rejected_expired := per_secret_rejected_expired (stats s) + 1\<rparr>\<rparr>"
| "count_reject Rej_limit s = s\<lparr>stats := (stats s)\<lparr>per_secret_connections_rejected := per_secret_connections_rejected (stats s) + 1\<rparr>\<rparr>"
| "count_reject Rej_quota s = s\<lparr>stats := (stats s)\<lparr>per_secret_rejected_quota := per_secret_rejected_quota (stats s) + 1\<rparr>\<rparr>"
| "count_reject Rej_ips s = s\<lparr>stats := (stats s)\<lparr>per_secret_rejected_ips := per_secret_rejected_ips (stats s) + 1\<rparr>\<rparr>"

definition secret_checks :: "accept_env \<Rightarrow> addr_key \<Rightarrow> slot \<Rightarrow> reject option" where
  "secret_checks env a s =
     (if ext_secret_state s = SLOT_DRAINING then Some Rej_draining
      else if secret_expired (env_now env) s then Some Rej_expired
      else if secret_over_limit (env_workers env) s then Some Rej_limit
      else if secret_over_quota (env_workers env) s then Some Rej_quota
      else if ip_over_limit (env_workers env) a s then Some Rej_ips
      else None)"

subsection \<open>The obfuscated2 header\<close>

text \<open>\<^verbatim>\<open>compact_to_slot\<close>: the numbers of the slots that are not free.\<close>

definition compact_to_slot :: "secrets \<Rightarrow> nat list" where
  "compact_to_slot st = filter (\<lambda>s. ext_secret_state (slots st ! s) \<noteq> SLOT_FREE) [0..<ext_secret_cnt st]"

definition RPC_F_EXTMODE2 :: u32 where "RPC_F_EXTMODE2 = 0x20000"

definition tag_flags :: "u32 \<Rightarrow> u32" where
  "tag_flags t =
     (if t = OBFS2_TAG_MEDIUM then RPC_F_MEDIUM OR RPC_F_EXTMODE2
      else if t = OBFS2_TAG_PAD then RPC_F_MEDIUM OR RPC_F_EXTMODE2 OR RPC_F_PAD
      else if t = OBFS2_TAG_COMPACT then RPC_F_COMPACT OR RPC_F_EXTMODE2
      else 0)"

definition count_connect :: "accept_env \<Rightarrow> addr_key \<Rightarrow> slot \<Rightarrow> slot" where
  "count_connect env a s =
     ip_track_connect (env_workers env) (env_precise_now env) a
       (s\<lparr>stats := (stats s)\<lparr>per_secret_connections := per_secret_connections (stats s) + 1,
                            per_secret_connections_created := per_secret_connections_created (stats s) + 1\<rparr>\<rparr>)"

text \<open>
  What becomes of the connection: handed to the default domain, failed by a check, failed because the
  bytes after the header do not decrypt, skipped, or accepted with \<^verbatim>\<open>extra_int2\<close>, \<^verbatim>\<open>extra_int4\<close>, the mode
  flags and the keys.
\<close>

datatype accept_outcome =
    Proxied_default | Rejected reject | Decrypt_failed | Skip_mode
  | Accepted int int u32 aes_key_data

text \<open>
  The branch for a header of 64 bytes. \<open>dec_ok\<close> tells whether \<^verbatim>\<open>crypto_decrypt_input\<close> succeeds on what
  follows the header. The result \<open>None\<close> is the read of an element of \<^verbatim>\<open>compact_to_slot\<close> that was never
  written.
\<close>

definition obfs2_accept ::
  "(bytes \<Rightarrow> bytes) \<Rightarrow> (bytes \<Rightarrow> bytes \<Rightarrow> bytes \<Rightarrow> bytes) \<Rightarrow> accept_env \<Rightarrow> bool \<Rightarrow> addr_key \<Rightarrow> bytes \<Rightarrow> bool
   \<Rightarrow> worker \<Rightarrow> (accept_outcome \<times> worker) option" where
  "obfs2_accept sha256 ctr env is_tls a random_header dec_ok w =
     (let st = secs w; idx = compact_to_slot st in
      case fst (obfs2_parse_header sha256 ctr random_header (map (\<lambda>s. ext_secret (slots st ! s)) idx) (ext_rand_pad_only env)) of
        None \<Rightarrow> Some (Skip_mode, w)
      | Some pr \<Rightarrow>
          if secret_id pr \<ge> length idx then None
          else let s = idx ! secret_id pr in
          if tag pr \<noteq> OBFS2_TAG_PAD \<and> allow_only_tls env then Some (Proxied_default, w)
          else if \<not> dec_ok then Some (Decrypt_failed, w)
          else
            case (if is_tls then None else secret_checks env a (slots st ! s)) of
              Some r \<Rightarrow> Some (Rejected r, w\<lparr>secs := update_slot s (count_reject r) st\<rparr>)
            | None \<Rightarrow> Some (Accepted (int s + 1) (dc pr) (tag_flags (tag pr)) (keys pr),
                w\<lparr>secs := update_slot s (count_connect env a) st,
                  vols := tcp_rpcs_account_connect (env_precise_now env) (int s) (fst a) (snd a) (vols w)\<rparr>))"

subsection \<open>Closing and sweeping\<close>

definition count_close :: "addr_key \<Rightarrow> slot \<Rightarrow> slot" where
  "count_close a s =
     ip_track_disconnect_impl a
       (s\<lparr>stats := (stats s)\<lparr>per_secret_connections := per_secret_connections (stats s) - 1\<rparr>\<rparr>)"

text \<open>The per-secret part of the close handler.\<close>

definition mtproto_ext_rpc_close :: "real \<Rightarrow> int \<Rightarrow> addr_key \<Rightarrow> worker \<Rightarrow> worker" where
  "mtproto_ext_rpc_close precise_now sid a w =
     (if sid > 0 \<and> sid \<le> int EXT_SECRET_MAX_SLOTS then
        w\<lparr>secs := update_slot (nat (sid - 1)) (count_close a) (secs w),
          vols := tcp_rpcs_account_disconnect precise_now (sid - 1) (fst a) (snd a) (vols w)\<rparr>
      else w)"

text \<open>The sweeper; its result are the failed file descriptors and the secrets.\<close>

definition sweep_slot :: "real \<Rightarrow> real \<Rightarrow> conn option list \<Rightarrow> nat \<Rightarrow> nat list \<times> secrets \<Rightarrow> nat list \<times> secrets" where
  "sweep_slot timeout precise_now conns s acc =
     (let st = snd acc in
      if ext_secret_state (slots st ! s) \<noteq> SLOT_DRAINING then acc
      else if per_secret_connections (stats (slots st ! s)) = 0 then
        (fst acc, tcp_rpcs_drain_release_slot_if_empty s st)
      else if timeout > 0 \<and> precise_now - ext_secret_drain_started_at (slots st ! s) \<ge> timeout then
        (let (fds, st) = tcp_rpcs_drain_force_close_for_slot conns s st in (fst acc @ fds, st))
      else acc)"

definition drain_sweep_gw :: "real \<Rightarrow> real \<Rightarrow> conn option list \<Rightarrow> secrets \<Rightarrow> nat list \<times> secrets" where
  "drain_sweep_gw timeout precise_now conns st =
     fold (sweep_slot timeout precise_now conns) [ext_secret_pinned st..<ext_secret_cnt st] ([], st)"

subsection \<open>The machine\<close>

text \<open>A counted connection, with the key that its secret had when it was accepted.\<close>

record client =
  cl_conn :: conn
  cl_addr :: addr_key
  cl_key :: bytes

definition MAX_CONNECTIONS :: nat where "MAX_CONNECTIONS = 65536"

type_synonym machine = "worker \<times> (nat \<Rightarrow> client option)"

definition conn_table :: "(nat \<Rightarrow> client option) \<Rightarrow> conn option list" where
  "conn_table tbl = map (\<lambda>fd. map_option cl_conn (tbl fd)) [0..<MAX_CONNECTIONS]"

definition new_client :: "bool \<Rightarrow> int \<Rightarrow> addr_key \<Rightarrow> worker \<Rightarrow> client" where
  "new_client is_tls sid a w =
     \<lparr>cl_conn = \<lparr>conn_listening = False,
        conn_kind = (if is_tls then Ct_tcp_rpc_ext_server_drs else Ct_tcp_rpc_ext_server_mtfront), extra_int2 = sid\<rparr>,
      cl_addr = a, cl_key = ext_secret (slots (secs w) ! nat (sid - 1))\<rparr>"

text \<open>At startup the secrets of the command line are registered and pinned.\<close>

fun register_secrets :: "secret_cfg list \<Rightarrow> secrets \<Rightarrow> secrets option" where
  "register_secrets [] st = Some st"
| "register_secrets (c # cs) st = do { st \<leftarrow> tcp_rpcs_set_ext_secret c st; register_secrets cs st }"

definition worker_init :: "machine \<Rightarrow> bool" where
  "worker_init m \<longleftrightarrow> (\<exists>cs st. register_secrets cs secrets_init = Some st \<and>
     secs (fst m) = tcp_rpcs_pin_ext_secrets st) \<and> snd m = Map.empty"

inductive worker_step :: "(bytes \<Rightarrow> bytes) \<Rightarrow> (bytes \<Rightarrow> bytes \<Rightarrow> bytes \<Rightarrow> bytes) \<Rightarrow> machine \<Rightarrow> machine \<Rightarrow> bool"
  for sha256 ctr where
  accept: "obfs2_accept sha256 ctr env is_tls a hdr dec_ok w = Some (Accepted sid d fl ks, w') \<Longrightarrow>
     fd < MAX_CONNECTIONS \<Longrightarrow> tbl fd = None \<Longrightarrow>
     worker_step sha256 ctr (w, tbl) (w', tbl(fd \<mapsto> new_client is_tls sid a w))"
| refuse: "obfs2_accept sha256 ctr env is_tls a hdr dec_ok w = Some (Rejected r, w') \<Longrightarrow>
     worker_step sha256 ctr (w, tbl) (w', tbl)"
| close: "tbl fd = Some c \<Longrightarrow>
     worker_step sha256 ctr (w, tbl)
       (mtproto_ext_rpc_close t (extra_int2 (cl_conn c)) (cl_addr c) w, tbl(fd := None))"
| reload: "tcp_rpcs_reload_ext_secrets t cfgs (secs w) = (ok, st) \<Longrightarrow>
     worker_step sha256 ctr (w, tbl) (w\<lparr>secs := st\<rparr>, tbl)"
| sweep: "drain_sweep_gw timeout t (conn_table tbl) (secs w) = (fds, st) \<Longrightarrow>
     worker_step sha256 ctr (w, tbl) (w\<lparr>secs := st\<rparr>, tbl)"

inductive_cases worker_stepE: "worker_step sha256 ctr m m'"

text \<open>The file descriptors of the connections counted for a slot.\<close>

definition conns_of :: "(nat \<Rightarrow> client option) \<Rightarrow> nat \<Rightarrow> nat set" where
  "conns_of tbl s = {fd. \<exists>c. tbl fd = Some c \<and> extra_int2 (cl_conn c) = int s + 1}"

text \<open>What the secrets promise to the open connections.\<close>

definition client_ok :: "secrets \<Rightarrow> client \<Rightarrow> bool" where
  "client_ok st c \<longleftrightarrow> (\<exists>s < EXT_SECRET_MAX_SLOTS. extra_int2 (cl_conn c) = int s + 1 \<and>
     ext_secret_state (slots st ! s) \<noteq> SLOT_FREE \<and> ext_secret (slots st ! s) = cl_key c)"

definition worker_inv :: "machine \<Rightarrow> bool" where
  "worker_inv m \<longleftrightarrow> (case m of (w, tbl) \<Rightarrow>
     secrets_wf (secs w) \<and> dom tbl \<subseteq> {..<MAX_CONNECTIONS} \<and>
     (\<forall>fd c. tbl fd = Some c \<longrightarrow> client_ok (secs w) c \<and> \<not> conn_listening (cl_conn c) \<and> conn_kind (cl_conn c) \<noteq> Ct_other) \<and>
     (\<forall>s < EXT_SECRET_MAX_SLOTS. per_secret_connections (stats (slots (secs w) ! s)) = int (card (conns_of tbl s))))"

lemma worker_invD:
  assumes "worker_inv (w, tbl)" "tbl fd = Some c"
  obtains s where "s < EXT_SECRET_MAX_SLOTS" "extra_int2 (cl_conn c) = int s + 1"
    "ext_secret_state (slots (secs w) ! s) \<noteq> SLOT_FREE" "ext_secret (slots (secs w) ! s) = cl_key c"
  using assms unfolding worker_inv_def client_ok_def by blast

subsection \<open>What the operations keep\<close>

text \<open>
  \<open>holds_conns n s s'\<close>: the slot keeps its key and stays in use, and \<open>n\<close> is added to its connection
  count.
\<close>

definition holds_conns :: "int \<Rightarrow> slot \<Rightarrow> slot \<Rightarrow> bool" where
  "holds_conns n s s' \<longleftrightarrow> ext_secret s' = ext_secret s \<and> (ext_secret_state s' = SLOT_FREE \<longleftrightarrow> ext_secret_state s = SLOT_FREE) \<and>
     per_secret_connections (stats s') = per_secret_connections (stats s) + n"

lemma ip_track_connect_holds: "holds_conns 0 s (ip_track_connect wk t a s)"
  by (simp add: holds_conns_def ip_track_connect_def Let_def split: prod.split option.split)

lemma ip_track_disconnect_holds: "holds_conns 0 s (ip_track_disconnect_impl a s)"
  by (simp add: holds_conns_def ip_track_disconnect_impl_def Let_def split: option.split)

lemma holds_conns_trans: "holds_conns m s s' \<Longrightarrow> holds_conns 0 s' s'' \<Longrightarrow> holds_conns m s s''"
  by (simp add: holds_conns_def)

lemma count_reject_holds: "holds_conns 0 s (count_reject r s)"
  by (cases r) (simp_all add: holds_conns_def)

lemma count_connect_holds: "holds_conns 1 s (count_connect env a s)"
  unfolding count_connect_def
  by (rule holds_conns_trans [OF _ ip_track_connect_holds]) (simp add: holds_conns_def)

lemma count_close_holds: "holds_conns (- 1) s (count_close a s)"
  unfolding count_close_def
  by (rule holds_conns_trans [OF _ ip_track_disconnect_holds]) (simp add: holds_conns_def)

lemmas holds_conns_ops = count_reject_holds count_connect_holds count_close_holds

lemma same_secret_holds:
  "same_secret s s' \<Longrightarrow> ext_secret_state s \<noteq> SLOT_FREE \<Longrightarrow> ext_secret_state s' \<noteq> SLOT_FREE \<Longrightarrow> holds_conns 0 s s'"
  by (simp add: same_secret_def holds_conns_def)

lemma update_slot_simps [simp]:
  "ext_secret_cnt (update_slot i f st) = ext_secret_cnt st" "ext_secret_pinned (update_slot i f st) = ext_secret_pinned st"
  "length (slots (update_slot i f st)) = length (slots st)"
  by (simp_all add: update_slot_def)

lemma update_slot_nth:
  "i < length (slots st) \<Longrightarrow> slots (update_slot i f st) ! j = (if j = i then f (slots st ! i) else slots st ! j)"
  by (simp add: update_slot_def nth_list_update)

lemma update_slot_wf [simp]: "secrets_wf (update_slot i f st) \<longleftrightarrow> secrets_wf st"
  by (simp add: secrets_wf_def)

text \<open>An operation that treats every slot as a step without a change of the counts does.\<close>

lemma worker_inv_keep:
  assumes "worker_inv (w, tbl)" "secrets_wf st'"
    and "\<And>s. s < EXT_SECRET_MAX_SLOTS \<Longrightarrow> conns_of tbl s \<noteq> {} \<Longrightarrow> holds_conns 0 (slots (secs w) ! s) (slots st' ! s)"
    and "\<And>s. s < EXT_SECRET_MAX_SLOTS \<Longrightarrow> conns_of tbl s = {} \<Longrightarrow> per_secret_connections (stats (slots st' ! s)) = 0"
  shows "worker_inv (w\<lparr>secs := st', vols := v\<rparr>, tbl)"
proof -
  have ok: "client_ok st' c" if "tbl fd = Some c" for fd c
  proof -
    from assms(1) that obtain s where s: "s < EXT_SECRET_MAX_SLOTS" "extra_int2 (cl_conn c) = int s + 1"
      "ext_secret_state (slots (secs w) ! s) \<noteq> SLOT_FREE" "ext_secret (slots (secs w) ! s) = cl_key c"
      by (rule worker_invD)
    with that have "conns_of tbl s \<noteq> {}" by (auto simp: conns_of_def)
    from assms(3) [OF s(1) this] s show ?thesis by (auto simp: client_ok_def holds_conns_def)
  qed
  have cnt: "per_secret_connections (stats (slots st' ! s)) = int (card (conns_of tbl s))" if "s < EXT_SECRET_MAX_SLOTS" for s
  proof (cases "conns_of tbl s = {}")
    case False
    from assms(3) [OF that False] assms(1) that show ?thesis by (simp add: worker_inv_def holds_conns_def)
  qed (simp add: assms(4) that)
  show ?thesis using ok cnt assms(1,2) by (simp add: worker_inv_def)
qed

lemma conns_of_used:
  assumes "worker_inv (w, tbl)" "conns_of tbl s \<noteq> {}"
  shows "ext_secret_state (slots (secs w) ! s) \<noteq> SLOT_FREE"
proof -
  from assms(2) obtain fd c where c: "tbl fd = Some c" "extra_int2 (cl_conn c) = int s + 1" by (auto simp: conns_of_def)
  with worker_invD [OF assms(1) c(1)] show ?thesis by auto
qed

lemma finite_conns_of: "dom tbl \<subseteq> {..<MAX_CONNECTIONS} \<Longrightarrow> finite (conns_of tbl s)"
  by (rule finite_subset [of _ "{..<MAX_CONNECTIONS}"]) (auto simp: conns_of_def)

lemma conns_of_count:
  assumes "worker_inv (w, tbl)" "s < EXT_SECRET_MAX_SLOTS"
  shows "per_secret_connections (stats (slots (secs w) ! s)) = 0 \<longleftrightarrow> conns_of tbl s = {}"
  using assms finite_conns_of [of tbl s] by (auto simp: worker_inv_def)

lemma worker_inv_reload:
  assumes "worker_inv (w, tbl)" "tcp_rpcs_reload_ext_secrets t cfgs (secs w) = (ok, st)"
  shows "worker_inv (w\<lparr>secs := st\<rparr>, tbl)"
proof -
  have wf: "secrets_wf (secs w)" using assms(1) by (simp add: worker_inv_def)
  have "worker_inv (w\<lparr>secs := st, vols := vols w\<rparr>, tbl)"
  proof (rule worker_inv_keep [OF assms(1) reload_wf [OF assms(2) wf]])
    fix s assume s: "s < EXT_SECRET_MAX_SLOTS"
    note r = reload_slot [OF assms(2) wf s]
    show "holds_conns 0 (slots (secs w) ! s) (slots st ! s)" if "conns_of tbl s \<noteq> {}"
      using r conns_of_used [OF assms(1) that]
      by (auto simp: reloaded_slot_def holds_conns_def same_secret_def split: if_splits)
    show "per_secret_connections (stats (slots st ! s)) = 0" if "conns_of tbl s = {}"
      using r conns_of_count [OF assms(1) s] that
      by (auto simp: reloaded_slot_def same_secret_def zero_stats_def split: if_splits)
  qed
  then show ?thesis by simp
qed

text \<open>Steps on a single slot.\<close>

lemma worker_inv_slot:
  assumes "worker_inv (w, tbl)" "s < EXT_SECRET_MAX_SLOTS" "holds_conns 0 (slots (secs w) ! s) (f (slots (secs w) ! s))"
  shows "worker_inv (w\<lparr>secs := update_slot s f (secs w), vols := v\<rparr>, tbl)"
proof (rule worker_inv_keep [OF assms(1)])
  show "secrets_wf (update_slot s f (secs w))" using assms(1) by (simp add: worker_inv_def)
  then have len: "s < length (slots (secs w))" using assms(2) by (simp add: secrets_wf_def)
  fix i assume i: "i < EXT_SECRET_MAX_SLOTS"
  show "holds_conns 0 (slots (secs w) ! i) (slots (update_slot s f (secs w)) ! i)"
    using assms(3) len by (simp add: update_slot_nth holds_conns_def)
  then show "per_secret_connections (stats (slots (update_slot s f (secs w)) ! i)) = 0" if "conns_of tbl i = {}"
    using conns_of_count [OF assms(1) i] that by (simp add: holds_conns_def)
qed

lemma conns_of_upd:
  assumes "tbl fd = None"
  shows "conns_of (tbl(fd \<mapsto> c)) s = (if extra_int2 (cl_conn c) = int s + 1 then insert fd (conns_of tbl s) else conns_of tbl s)"
  using assms by (auto simp: conns_of_def)

lemma conns_of_del:
  assumes "tbl fd = Some c"
  shows "conns_of (tbl(fd := None)) s = (if extra_int2 (cl_conn c) = int s + 1 then conns_of tbl s - {fd} else conns_of tbl s)"
  using assms by (auto simp: conns_of_def)

lemma client_ok_update:
  "client_ok st c \<Longrightarrow> secrets_wf st \<Longrightarrow> s < EXT_SECRET_MAX_SLOTS \<Longrightarrow> holds_conns n (slots st ! s) (f (slots st ! s)) \<Longrightarrow>
   client_ok (update_slot s f st) c"
  unfolding client_ok_def by (auto simp: update_slot_nth secrets_wf_def holds_conns_def)

lemma worker_inv_add:
  assumes inv: "worker_inv (w, tbl)" and s: "s < EXT_SECRET_MAX_SLOTS" "ext_secret_state (slots (secs w) ! s) \<noteq> SLOT_FREE"
    and f: "holds_conns 1 (slots (secs w) ! s) (f (slots (secs w) ! s))"
    and fd: "fd < MAX_CONNECTIONS" "tbl fd = None"
  shows "worker_inv (w\<lparr>secs := update_slot s f (secs w), vols := v\<rparr>, tbl(fd \<mapsto> new_client is_tls (int s + 1) a w))"
proof -
  note i = inv [unfolded worker_inv_def, simplified]
  have len: "s < length (slots (secs w))" using i s by (simp add: secrets_wf_def)
  have new: "client_ok (update_slot s f (secs w)) (new_client is_tls (int s + 1) a w)"
    using s f len by (auto simp: client_ok_def new_client_def update_slot_nth holds_conns_def)
  have fin: "finite (conns_of tbl j)" "fd \<notin> conns_of tbl j" for j
    using i fd finite_conns_of by (auto simp: conns_of_def)
  have "per_secret_connections (stats (slots (update_slot s f (secs w)) ! j)) =
      int (card (conns_of (tbl(fd \<mapsto> new_client is_tls (int s + 1) a w)) j))" if "j < EXT_SECRET_MAX_SLOTS" for j
    using i f that fin len by (auto simp: update_slot_nth holds_conns_def conns_of_upd [of tbl, OF fd(2)] new_client_def)
  with i fd new client_ok_update [of "secs w" _ s 1 f, OF _ _ s(1) f] show ?thesis
    by (auto simp: worker_inv_def new_client_def)
qed

lemma worker_inv_remove:
  assumes inv: "worker_inv (w, tbl)" and c: "tbl fd = Some c" "extra_int2 (cl_conn c) = int s + 1" and s: "s < EXT_SECRET_MAX_SLOTS"
    and f: "holds_conns (- 1) (slots (secs w) ! s) (f (slots (secs w) ! s))"
  shows "worker_inv (w\<lparr>secs := update_slot s f (secs w), vols := v\<rparr>, tbl(fd := None))"
proof -
  note i = inv [unfolded worker_inv_def, simplified]
  have len: "s < length (slots (secs w))" using i s by (simp add: secrets_wf_def)
  have fin: "finite (conns_of tbl j)" for j using i finite_conns_of by blast
  have mem: "fd \<in> conns_of tbl s" using c by (auto simp: conns_of_def)
  then have card: "int (card (conns_of tbl s - {fd})) = int (card (conns_of tbl s)) - 1"
    using fin [of s] card_gt_0_iff [of "conns_of tbl s"] by (auto simp: card_Diff_singleton of_nat_diff Suc_le_eq)
  have "per_secret_connections (stats (slots (update_slot s f (secs w)) ! j)) =
      int (card (conns_of (tbl(fd := None)) j))" if "j < EXT_SECRET_MAX_SLOTS" for j
    using i f that len card c by (auto simp: update_slot_nth holds_conns_def conns_of_del [of tbl, OF c(1)])
  with i client_ok_update [of "secs w" _ s "- 1" f, OF _ _ s f] show ?thesis by (auto simp: worker_inv_def)
qed

lemma worker_inv_vols: "worker_inv (w\<lparr>secs := st, vols := v\<rparr>, tbl) \<longleftrightarrow> worker_inv (w\<lparr>secs := st\<rparr>, tbl)"
  by (simp add: worker_inv_def)

lemma worker_inv_release:
  assumes "worker_inv (w, tbl)"
  shows "worker_inv (w\<lparr>secs := tcp_rpcs_drain_release_slot_if_empty s (secs w)\<rparr>, tbl)"
proof (cases "s < ext_secret_pinned (secs w) \<or> s \<ge> EXT_SECRET_MAX_SLOTS \<or> ext_secret_state (slots (secs w) ! s) \<noteq> SLOT_DRAINING \<or>
    per_secret_connections (stats (slots (secs w) ! s)) \<noteq> 0")
  case True
  then have "tcp_rpcs_drain_release_slot_if_empty s (secs w) = secs w"
    by (auto simp: tcp_rpcs_drain_release_slot_if_empty_def)
  with assms show ?thesis by simp
next
  case False
  let ?st = "tcp_rpcs_drain_release_slot_if_empty s (secs w)"
  have wf: "secrets_wf (secs w)" using assms by (simp add: worker_inv_def)
  have st: "?st = (secs w)\<lparr>slots := (slots (secs w))[s := zero_slot],
      ext_secret_cnt := high_water (ext_secret_pinned (secs w)) ((slots (secs w))[s := zero_slot])\<rparr>"
    using False by (simp add: tcp_rpcs_drain_release_slot_if_empty_def Let_def)
  have "worker_inv (w\<lparr>secs := ?st, vols := vols w\<rparr>, tbl)"
  proof (rule worker_inv_keep [OF assms])
    show "secrets_wf ?st" using wf by (auto simp: st secrets_wf_def high_water_bounds)
    fix i assume i: "i < EXT_SECRET_MAX_SLOTS"
    show "holds_conns 0 (slots (secs w) ! i) (slots ?st ! i)" if "conns_of tbl i \<noteq> {}"
      using conns_of_count [OF assms i] that False by (cases "i = s") (auto simp: st holds_conns_def)
    show "per_secret_connections (stats (slots ?st ! i)) = 0" if "conns_of tbl i = {}"
      using conns_of_count [OF assms i] that False wf
      by (cases "i = s") (auto simp: st secrets_wf_def zero_slot_def zero_stats_def)
  qed
  then show ?thesis by simp
qed

lemma force_close_update:
  "snd (tcp_rpcs_drain_force_close_for_slot conns s st) = st \<or>
   s < EXT_SECRET_MAX_SLOTS \<and> (\<exists>n. snd (tcp_rpcs_drain_force_close_for_slot conns s st) =
     update_slot s (\<lambda>x. x\<lparr>stats := (stats x)\<lparr>per_secret_drain_forced := per_secret_drain_forced (stats x) + n\<rparr>\<rparr>) st)"
  by (auto simp: tcp_rpcs_drain_force_close_for_slot_def update_slot_def Let_def)

lemma worker_inv_force:
  assumes "worker_inv (w, tbl)"
  shows "worker_inv (w\<lparr>secs := snd (tcp_rpcs_drain_force_close_for_slot conns s (secs w))\<rparr>, tbl)"
  using force_close_update [of conns s "secs w"] assms
    worker_inv_slot [OF assms, of s _ "vols w"] by (auto simp: holds_conns_def)

lemma worker_inv_sweep_slot:
  assumes "worker_inv (w\<lparr>secs := snd acc\<rparr>, tbl)"
  shows "worker_inv (w\<lparr>secs := snd (sweep_slot timeout t conns s acc)\<rparr>, tbl)"
  using worker_inv_release [OF assms, of s] worker_inv_force [OF assms, of conns s] assms
  by (auto simp: sweep_slot_def Let_def split: prod.split)

lemma worker_inv_sweep:
  assumes "worker_inv (w, tbl)"
  shows "worker_inv (w\<lparr>secs := snd (drain_sweep_gw timeout t conns (secs w))\<rparr>, tbl)"
proof -
  have "worker_inv (w\<lparr>secs := snd (fold (sweep_slot timeout t conns) xs acc)\<rparr>, tbl)"
    if "worker_inv (w\<lparr>secs := snd acc\<rparr>, tbl)" for xs acc
    using that
  proof (induction xs arbitrary: acc)
    case (Cons x xs)
    from Cons.IH [OF worker_inv_sweep_slot [OF Cons.prems]] show ?case by simp
  qed simp
  from this [of "([], secs w)"] assms show ?thesis by (simp add: drain_sweep_gw_def)
qed

lemma compact_to_slot_used:
  assumes "s \<in> set (compact_to_slot st)" "secrets_wf st"
  shows "s < EXT_SECRET_MAX_SLOTS" "ext_secret_state (slots st ! s) \<noteq> SLOT_FREE"
  using assms by (auto simp: compact_to_slot_def secrets_wf_def)

lemma guarded_case_Some:
  "(if a then None else if b then Some x else if c then Some y
    else case k of Some r \<Rightarrow> Some (f r) | None \<Rightarrow> Some z) = Some v \<Longrightarrow>
   \<not> a \<and> (v = x \<or> v = y \<or> (\<exists>r. k = Some r \<and> v = f r) \<or> k = None \<and> v = z)"
  by (auto split: if_splits option.splits)

lemma obfs2_accept_cases:
  assumes "obfs2_accept sha256 ctr env is_tls a hdr dec_ok w = Some (out, w')"
  obtains "w' = w" "\<nexists>r. out = Rejected r" "\<nexists>sid d fl ks. out = Accepted sid d fl ks"
  | s r where "s \<in> set (compact_to_slot (secs w))" "out = Rejected r" "\<not> is_tls" "secret_checks env a (slots (secs w) ! s) = Some r"
      "w' = w\<lparr>secs := update_slot s (count_reject r) (secs w)\<rparr>"
  | s d fl ks where "s \<in> set (compact_to_slot (secs w))" "out = Accepted (int s + 1) d fl ks"
      "\<not> is_tls \<Longrightarrow> secret_checks env a (slots (secs w) ! s) = None"
      "w' = w\<lparr>secs := update_slot s (count_connect env a) (secs w),
              vols := tcp_rpcs_account_connect (env_precise_now env) (int s) (fst a) (snd a) (vols w)\<rparr>"
proof -
  let ?idx = "compact_to_slot (secs w)"
  let ?parse = "fst (obfs2_parse_header sha256 ctr hdr (map (\<lambda>s. ext_secret (slots (secs w) ! s)) ?idx) (ext_rand_pad_only env))"
  show ?thesis
  proof (cases ?parse)
    case None
    with assms that(1) show ?thesis by (auto simp: obfs2_accept_def)
  next
    case (Some pr)
    let ?s = "?idx ! secret_id pr"
    define chk where "chk = (if is_tls then None else secret_checks env a (slots (secs w) ! ?s))"
    have eq: "(if secret_id pr \<ge> length ?idx then None
          else if tag pr \<noteq> OBFS2_TAG_PAD \<and> allow_only_tls env then Some (Proxied_default, w)
          else if \<not> dec_ok then Some (Decrypt_failed, w)
          else case chk of
              Some r \<Rightarrow> Some (Rejected r, w\<lparr>secs := update_slot ?s (count_reject r) (secs w)\<rparr>)
            | None \<Rightarrow> Some (Accepted (int ?s + 1) (dc pr) (tag_flags (tag pr)) (keys pr),
                w\<lparr>secs := update_slot ?s (count_connect env a) (secs w),
                  vols := tcp_rpcs_account_connect (env_precise_now env) (int ?s) (fst a) (snd a) (vols w)\<rparr>)) = Some (out, w')"
      using assms unfolding obfs2_accept_def Let_def Some option.case chk_def .
    note out = guarded_case_Some [OF eq]
    then have mem: "?s \<in> set ?idx" by simp
    from out consider (same) "w' = w" "out = Proxied_default \<or> out = Decrypt_failed"
      | (rej) r where "chk = Some r" "out = Rejected r" "w' = w\<lparr>secs := update_slot ?s (count_reject r) (secs w)\<rparr>"
      | (acc) "chk = None" "out = Accepted (int ?s + 1) (dc pr) (tag_flags (tag pr)) (keys pr)"
          "w' = w\<lparr>secs := update_slot ?s (count_connect env a) (secs w),
                  vols := tcp_rpcs_account_connect (env_precise_now env) (int ?s) (fst a) (snd a) (vols w)\<rparr>"
      unfolding prod.inject by blast
    then show ?thesis
    proof cases
      case same
      then show ?thesis by (intro that(1)) auto
    next
      case (rej r)
      with mem show ?thesis by (intro that(2)) (auto simp: chk_def split: if_splits)
    next
      case acc
      with mem show ?thesis by (intro that(3)) (auto simp: chk_def)
    qed
  qed
qed

lemma worker_inv_step:
  assumes "worker_inv m" "worker_step sha256 ctr m m'"
  shows "worker_inv m'"
  using assms(2,1)
proof (cases rule: worker_step.cases)
  case (accept env is_tls a hdr dec_ok w sid d fl ks w' fd tbl)
  note inv = assms(1) [unfolded accept(1)]
  then have wf: "secrets_wf (secs w)" by (simp add: worker_inv_def)
  from accept(3) obtain s where s: "s \<in> set (compact_to_slot (secs w))" "sid = int s + 1"
    "w' = w\<lparr>secs := update_slot s (count_connect env a) (secs w),
       vols := tcp_rpcs_account_connect (env_precise_now env) (int s) (fst a) (snd a) (vols w)\<rparr>"
    by (rule obfs2_accept_cases) auto
  show ?thesis unfolding accept(2) s(2,3)
    by (intro worker_inv_add inv compact_to_slot_used [OF s(1) wf] count_connect_holds accept(4,5))
next
  case (refuse env is_tls a hdr dec_ok w r w' tbl)
  note inv = assms(1) [unfolded refuse(1)]
  then have wf: "secrets_wf (secs w)" by (simp add: worker_inv_def)
  from refuse(3) obtain s r where s: "s \<in> set (compact_to_slot (secs w))"
    "w' = w\<lparr>secs := update_slot s (count_reject r) (secs w)\<rparr>"
    by (rule obfs2_accept_cases) auto
  have "worker_inv (w\<lparr>secs := update_slot s (count_reject r) (secs w), vols := vols w\<rparr>, tbl)"
    by (intro worker_inv_slot inv compact_to_slot_used(1) [OF s(1) wf] count_reject_holds)
  then show ?thesis unfolding refuse(2) s(2) by (simp add: worker_inv_vols)
next
  case (close tbl fd c w t)
  note inv = assms(1) [unfolded close(1)]
  from worker_invD [OF inv close(3)] obtain s where s: "s < EXT_SECRET_MAX_SLOTS" "extra_int2 (cl_conn c) = int s + 1" .
  have "mtproto_ext_rpc_close t (extra_int2 (cl_conn c)) (cl_addr c) w =
    w\<lparr>secs := update_slot s (count_close (cl_addr c)) (secs w),
      vols := tcp_rpcs_account_disconnect t (int s) (fst (cl_addr c)) (snd (cl_addr c)) (vols w)\<rparr>"
    using s by (simp add: mtproto_ext_rpc_close_def)
  then show ?thesis unfolding close(2) by (auto intro!: worker_inv_remove inv close(3) s count_close_holds)
next
  case (reload t cfgs w ok st tbl)
  with assms(1) worker_inv_reload show ?thesis by simp
next
  case (sweep timeout t tbl w fds st)
  with assms(1) worker_inv_sweep [of w tbl timeout t "conn_table tbl"] show ?thesis by simp
qed

lemma register_secrets_fresh:
  "register_secrets cs st = Some st' \<Longrightarrow> length (slots st) = EXT_SECRET_MAX_SLOTS \<Longrightarrow> ext_secret_cnt st \<le> EXT_SECRET_MAX_ACTIVE \<Longrightarrow>
   list_all (\<lambda>s. stats s = zero_stats) (slots st) \<Longrightarrow>
   length (slots st') = EXT_SECRET_MAX_SLOTS \<and> ext_secret_cnt st' \<le> EXT_SECRET_MAX_ACTIVE \<and>
   list_all (\<lambda>s. stats s = zero_stats) (slots st')"
proof (induction cs arbitrary: st)
  case (Cons c cs)
  from Cons.prems(1) obtain st1 where st1: "tcp_rpcs_set_ext_secret c st = Some st1" "register_secrets cs st1 = Some st'"
    by (auto simp: bind_eq_Some_conv)
  have "stats (slots st ! ext_secret_cnt st) = zero_stats"
    using Cons.prems(2-4) by (simp add: list_all_length EXT_SECRET_MAX_ACTIVE_def EXT_SECRET_MAX_SLOTS_def)
  then have "length (slots st1) = EXT_SECRET_MAX_SLOTS" "ext_secret_cnt st1 \<le> EXT_SECRET_MAX_ACTIVE"
    "list_all (\<lambda>s. stats s = zero_stats) (slots st1)"
    using st1(1) Cons.prems(2-4)
    by (auto simp: tcp_rpcs_set_ext_secret_def Let_def tcp_rpcs_ip_track_clear_slot_def set_metadata_def
        split: if_splits intro!: list_all_update)
  from Cons.IH [OF st1(2) this] show ?case .
qed simp

lemma worker_inv_init:
  assumes "worker_init m"
  shows "worker_inv m"
proof -
  obtain w tbl where m: "m = (w, tbl)" by (cases m)
  from assms m obtain cs st where st: "register_secrets cs secrets_init = Some st" "secs w = tcp_rpcs_pin_ext_secrets st" "tbl = Map.empty"
    by (auto simp: worker_init_def)
  have "list_all (\<lambda>s. stats s = zero_stats) (slots secrets_init)"
    by (simp add: secrets_init_def list_all_iff zero_slot_def)
  with register_secrets_fresh [OF st(1)] have
    "length (slots st) = EXT_SECRET_MAX_SLOTS" "ext_secret_cnt st \<le> EXT_SECRET_MAX_ACTIVE" "list_all (\<lambda>s. stats s = zero_stats) (slots st)"
    by (simp_all add: secrets_init_def)
  then show ?thesis
    by (simp add: m st worker_inv_def conns_of_def tcp_rpcs_pin_ext_secrets_def secrets_wf_def list_all_length zero_stats_def
        EXT_SECRET_MAX_ACTIVE_def EXT_SECRET_MAX_SLOTS_def)
qed

interpretation worker: invariant_machine worker_init "worker_step sha256 ctr" worker_inv for sha256 ctr
  by unfold_locales (auto intro: worker_inv_init worker_inv_step)


subsection \<open>Draining ends\<close>

lemma release_other: "j \<noteq> s \<Longrightarrow> slots (tcp_rpcs_drain_release_slot_if_empty j st) ! s = slots st ! s"
  by (simp add: tcp_rpcs_drain_release_slot_if_empty_def Let_def)

lemma force_other: "j \<noteq> s \<Longrightarrow> slots (snd (tcp_rpcs_drain_force_close_for_slot conns j st)) ! s = slots st ! s"
  by (simp add: tcp_rpcs_drain_force_close_for_slot_def Let_def)

lemma sweep_other: "s \<notin> set xs \<Longrightarrow> slots (snd (fold (sweep_slot timeout t conns) xs acc)) ! s = slots (snd acc) ! s"
proof (induction xs arbitrary: acc)
  case (Cons j xs)
  have "slots (snd (sweep_slot timeout t conns j acc)) ! s = slots (snd acc) ! s"
    using Cons.prems release_other [of j s "snd acc"] force_other [of j s conns "snd acc"]
    by (auto simp: sweep_slot_def Let_def split: prod.split)
  with Cons show ?case by simp
qed simp

lemma sweep_fds: "set (fst acc) \<subseteq> set (fst (fold (sweep_slot timeout t conns) xs acc))"
proof (induction xs arbitrary: acc)
  case (Cons j xs)
  have "set (fst acc) \<subseteq> set (fst (sweep_slot timeout t conns j acc))"
    by (auto simp: sweep_slot_def Let_def split: prod.split)
  also have "\<dots> \<subseteq> set (fst (fold (sweep_slot timeout t conns) xs (sweep_slot timeout t conns j acc)))" by (rule Cons)
  finally show ?case by simp
qed simp

lemma sweep_pinned: "ext_secret_pinned (snd (fold (sweep_slot timeout t conns) xs acc)) = ext_secret_pinned (snd acc)"
proof (induction xs arbitrary: acc)
  case (Cons j xs)
  have "ext_secret_pinned (snd (sweep_slot timeout t conns j acc)) = ext_secret_pinned (snd acc)"
    by (auto simp: sweep_slot_def Let_def tcp_rpcs_drain_release_slot_if_empty_def tcp_rpcs_drain_force_close_for_slot_def
        split: prod.split)
  with Cons show ?case by simp
qed simp

lemma upt_split: "a \<le> s \<Longrightarrow> s < b \<Longrightarrow> [a..<b] = [a..<s] @ s # [Suc s..<b]"
  by (metis le_Suc_ex upt_add_eq_append upt_conv_Cons less_imp_le_nat)

text \<open>The slot after a sweep is the slot after its own turn.\<close>

lemma sweep_turn:
  assumes "ext_secret_pinned st \<le> s" "s < ext_secret_cnt st"
  obtains acc where "slots (snd acc) ! s = slots st ! s" "ext_secret_pinned (snd acc) = ext_secret_pinned st"
    "slots (snd (drain_sweep_gw timeout t conns st)) ! s = slots (snd (sweep_slot timeout t conns s acc)) ! s"
    "set (fst (sweep_slot timeout t conns s acc)) \<subseteq> set (fst (drain_sweep_gw timeout t conns st))"
    "length (slots (snd acc)) = length (slots st)"
proof -
  let ?acc = "fold (sweep_slot timeout t conns) [ext_secret_pinned st..<s] ([], st)"
  have eq: "drain_sweep_gw timeout t conns st =
      fold (sweep_slot timeout t conns) [Suc s..<ext_secret_cnt st] (sweep_slot timeout t conns s ?acc)"
    by (simp add: drain_sweep_gw_def upt_split [OF assms])
  have len: "length (slots (snd (fold (sweep_slot timeout t conns) xs acc))) = length (slots (snd acc))" for xs acc
  proof (induction xs arbitrary: acc)
    case (Cons j xs)
    have "length (slots (snd (sweep_slot timeout t conns j acc))) = length (slots (snd acc))"
      by (auto simp: sweep_slot_def Let_def tcp_rpcs_drain_release_slot_if_empty_def tcp_rpcs_drain_force_close_for_slot_def
          split: prod.split)
    with Cons show ?case by simp
  qed simp
  show ?thesis
    by (rule that [of ?acc]) (simp_all add: sweep_other sweep_pinned eq sweep_fds len)
qed

lemma sweep_releases:
  assumes "secrets_wf st" "ext_secret_pinned st \<le> s" "s < ext_secret_cnt st" "ext_secret_state (slots st ! s) = SLOT_DRAINING"
    and "per_secret_connections (stats (slots st ! s)) = 0"
  shows "ext_secret_state (slots (snd (drain_sweep_gw timeout t conns st)) ! s) = SLOT_FREE"
proof -
  from assms(2,3) obtain acc where a: "slots (snd acc) ! s = slots st ! s" "ext_secret_pinned (snd acc) = ext_secret_pinned st"
    "slots (snd (drain_sweep_gw timeout t conns st)) ! s = slots (snd (sweep_slot timeout t conns s acc)) ! s"
    "length (slots (snd acc)) = length (slots st)"
    by (rule sweep_turn)
  show ?thesis
    using assms a by (simp add: sweep_slot_def tcp_rpcs_drain_release_slot_if_empty_def Let_def secrets_wf_def zero_slot_def)
qed

lemma sweep_not_draining:
  assumes "ext_secret_state (slots st ! s) \<noteq> SLOT_DRAINING"
  shows "slots (snd (drain_sweep_gw timeout t conns st)) ! s = slots st ! s"
proof (cases "ext_secret_pinned st \<le> s \<and> s < ext_secret_cnt st")
  case True
  then have "ext_secret_pinned st \<le> s" "s < ext_secret_cnt st" by auto
  then obtain acc where "slots (snd acc) ! s = slots st ! s"
    "slots (snd (drain_sweep_gw timeout t conns st)) ! s = slots (snd (sweep_slot timeout t conns s acc)) ! s"
    by (rule sweep_turn)
  with assms show ?thesis by (simp add: sweep_slot_def)
next
  case False
  then show ?thesis unfolding drain_sweep_gw_def by (subst sweep_other) auto
qed

text \<open>A slot past its deadline: every connection of it is failed, and the slot stays as it is otherwise.\<close>

lemma sweep_forces:
  assumes inv: "worker_inv (w, tbl)" and s: "ext_secret_pinned (secs w) \<le> s" "s < ext_secret_cnt (secs w)"
    and d: "ext_secret_state (slots (secs w) ! s) = SLOT_DRAINING" "conns_of tbl s \<noteq> {}"
    and t: "0 < timeout" "timeout \<le> t - ext_secret_drain_started_at (slots (secs w) ! s)"
  shows "conns_of tbl s \<subseteq> set (fst (drain_sweep_gw timeout t (conn_table tbl) (secs w)))"
    and "ext_secret_state (slots (snd (drain_sweep_gw timeout t (conn_table tbl) (secs w))) ! s) = SLOT_DRAINING"
proof -
  note i = inv [unfolded worker_inv_def, simplified]
  have s32: "s < EXT_SECRET_MAX_SLOTS" using i s by (simp add: secrets_wf_def)
  from s obtain acc where a: "slots (snd acc) ! s = slots (secs w) ! s" "ext_secret_pinned (snd acc) = ext_secret_pinned (secs w)"
    "slots (snd (drain_sweep_gw timeout t (conn_table tbl) (secs w))) ! s = slots (snd (sweep_slot timeout t (conn_table tbl) s acc)) ! s"
    "set (fst (sweep_slot timeout t (conn_table tbl) s acc)) \<subseteq> set (fst (drain_sweep_gw timeout t (conn_table tbl) (secs w)))"
    "length (slots (snd acc)) = length (slots (secs w))"
    by (rule sweep_turn)
  have "per_secret_connections (stats (slots (secs w) ! s)) \<noteq> 0" using conns_of_count [OF inv s32] d(2) by simp
  then have turn: "sweep_slot timeout t (conn_table tbl) s acc =
      (let (fds, st) = tcp_rpcs_drain_force_close_for_slot (conn_table tbl) s (snd acc) in (fst acc @ fds, st))"
    using d t a by (simp add: sweep_slot_def)
  have "conns_of tbl s \<subseteq> set (fst (tcp_rpcs_drain_force_close_for_slot (conn_table tbl) s (snd acc)))"
  proof
    fix fd assume "fd \<in> conns_of tbl s"
    then obtain c where c: "tbl fd = Some c" "extra_int2 (cl_conn c) = int s + 1" by (auto simp: conns_of_def)
    with i have "fd < MAX_CONNECTIONS" "\<not> conn_listening (cl_conn c)" "conn_kind (cl_conn c) \<noteq> Ct_other" by (auto intro: domI)
    with c s s32 a show "fd \<in> set (fst (tcp_rpcs_drain_force_close_for_slot (conn_table tbl) s (snd acc)))"
      by (simp add: tcp_rpcs_drain_force_close_for_slot_def Let_def conn_table_def)
  qed
  with a(4) show "conns_of tbl s \<subseteq> set (fst (drain_sweep_gw timeout t (conn_table tbl) (secs w)))"
    by (auto simp: turn split: prod.splits)
  from a d i s s32 show "ext_secret_state (slots (snd (drain_sweep_gw timeout t (conn_table tbl) (secs w))) ! s) = SLOT_DRAINING"
    by (simp add: turn tcp_rpcs_drain_force_close_for_slot_def Let_def secrets_wf_def)
qed

text \<open>The connections that the sweeper failed are closed, one after the other.\<close>

fun close_fds :: "real \<Rightarrow> nat list \<Rightarrow> machine \<Rightarrow> machine" where
  "close_fds t [] m = m"
| "close_fds t (fd # fds) (w, tbl) =
     (case tbl fd of
        None \<Rightarrow> close_fds t fds (w, tbl)
      | Some c \<Rightarrow> close_fds t fds (mtproto_ext_rpc_close t (extra_int2 (cl_conn c)) (cl_addr c) w, tbl(fd := None)))"

lemma close_fds_steps: "(worker_step sha256 ctr)\<^sup>*\<^sup>* m (close_fds t fds m)"
proof (induction t fds m rule: close_fds.induct)
  case (2 t fd fds w tbl)
  show ?case
  proof (cases "tbl fd")
    case (Some c)
    from worker_step.close [of tbl fd c sha256 ctr w t, OF Some] "2.IH"(2) [OF Some] show ?thesis
      by (simp add: Some converse_rtranclp_into_rtranclp)
  qed (use 2 in simp)
qed simp

lemma close_fds_table: "snd (close_fds t fds (w, tbl)) fd = (if fd \<in> set fds then None else tbl fd)"
  by (induction t fds "(w, tbl)" arbitrary: w tbl rule: close_fds.induct) (auto split: option.splits)

lemma count_close_state: "ext_secret_state (count_close a s) = ext_secret_state s"
  by (simp add: count_close_def ip_track_disconnect_impl_def Let_def split: option.split)

lemma close_state:
  "ext_secret_cnt (secs (mtproto_ext_rpc_close t sid a w)) = ext_secret_cnt (secs w)"
  "ext_secret_pinned (secs (mtproto_ext_rpc_close t sid a w)) = ext_secret_pinned (secs w)"
  "length (slots (secs w)) = EXT_SECRET_MAX_SLOTS \<Longrightarrow>
   ext_secret_state (slots (secs (mtproto_ext_rpc_close t sid a w)) ! s) = ext_secret_state (slots (secs w) ! s)"
  "length (slots (secs (mtproto_ext_rpc_close t sid a w))) = length (slots (secs w))"
  by (auto simp: mtproto_ext_rpc_close_def update_slot_nth count_close_state)

lemma close_fds_state:
  assumes "length (slots (secs (fst m))) = EXT_SECRET_MAX_SLOTS"
  shows "ext_secret_cnt (secs (fst (close_fds t fds m))) = ext_secret_cnt (secs (fst m)) \<and>
   ext_secret_pinned (secs (fst (close_fds t fds m))) = ext_secret_pinned (secs (fst m)) \<and>
   ext_secret_state (slots (secs (fst (close_fds t fds m))) ! s) = ext_secret_state (slots (secs (fst m)) ! s)"
  using assms by (induction t fds m rule: close_fds.induct) (auto simp: close_state split: option.splits)

lemma update_slot_proj: "(\<And>x. g (f x) = g x) \<Longrightarrow> g (slots (update_slot j f st) ! s) = g (slots st ! s)"
  by (cases "j < length (slots st)") (auto simp: update_slot_def nth_list_update not_less list_update_beyond)

lemma force_state:
  "ext_secret_state (slots (snd (tcp_rpcs_drain_force_close_for_slot conns j st)) ! s) = ext_secret_state (slots st ! s)"
  "ext_secret_cnt (snd (tcp_rpcs_drain_force_close_for_slot conns j st)) = ext_secret_cnt st"
  using force_close_update [of conns j st] by (auto simp: update_slot_proj [where g = ext_secret_state])

lemma sweep_slot_snd:
  "snd (sweep_slot timeout t conns j acc) \<in>
   {snd acc, tcp_rpcs_drain_release_slot_if_empty j (snd acc), snd (tcp_rpcs_drain_force_close_for_slot conns j (snd acc))}"
  by (simp add: sweep_slot_def Let_def case_prod_beta)

lemma sweep_slot_cnt:
  assumes "ext_secret_pinned (snd acc) \<le> s" "s < EXT_SECRET_MAX_SLOTS"
    and "ext_secret_state (slots (snd acc) ! s) \<noteq> SLOT_FREE \<Longrightarrow> s < ext_secret_cnt (snd acc)"
    and "ext_secret_state (slots (snd (sweep_slot timeout t conns j acc)) ! s) \<noteq> SLOT_FREE"
  shows "s < ext_secret_cnt (snd (sweep_slot timeout t conns j acc))"
proof -
  let ?r = "tcp_rpcs_drain_release_slot_if_empty j (snd acc)" and ?f = "snd (tcp_rpcs_drain_force_close_for_slot conns j (snd acc))"
  consider "snd (sweep_slot timeout t conns j acc) = snd acc" | "snd (sweep_slot timeout t conns j acc) = ?r"
    | "snd (sweep_slot timeout t conns j acc) = ?f"
    using sweep_slot_snd [of timeout t conns j acc] by blast
  then show ?thesis
  proof cases
    case 2
    with assms high_water_above [of "ext_secret_pinned (snd acc)" s] show ?thesis
      by (auto simp: tcp_rpcs_drain_release_slot_if_empty_def Let_def split: if_splits)
  next
    case 3
    with assms force_state [of conns j "snd acc"] show ?thesis by simp
  qed (use assms in simp)
qed

lemma sweep_cnt:
  assumes "ext_secret_pinned st \<le> s" "s < EXT_SECRET_MAX_SLOTS" "s < ext_secret_cnt st"
    and "ext_secret_state (slots (snd (drain_sweep_gw timeout t conns st)) ! s) \<noteq> SLOT_FREE"
  shows "s < ext_secret_cnt (snd (drain_sweep_gw timeout t conns st))"
proof -
  have "ext_secret_state (slots (snd (fold (sweep_slot timeout t conns) xs acc)) ! s) \<noteq> SLOT_FREE \<longrightarrow>
      s < ext_secret_cnt (snd (fold (sweep_slot timeout t conns) xs acc))"
    if "ext_secret_pinned (snd acc) \<le> s" "ext_secret_state (slots (snd acc) ! s) \<noteq> SLOT_FREE \<longrightarrow> s < ext_secret_cnt (snd acc)" for xs acc
    using that
  proof (induction xs arbitrary: acc)
    case (Cons j xs)
    have "ext_secret_pinned (snd (sweep_slot timeout t conns j acc)) \<le> s"
      using Cons.prems(1) sweep_pinned [of timeout t conns "[j]" acc] by simp
    with Cons.IH [of "sweep_slot timeout t conns j acc"] sweep_slot_cnt [of acc s timeout t conns j] Cons.prems assms(2)
    show ?case by simp
  qed simp
  from this [of "([], st)"] assms show ?thesis by (simp add: drain_sweep_gw_def)
qed


subsection \<open>A run\<close>

text \<open>
  One secret is configured, replaced by another, and a TLS client of the first one, whose slot is draining,
  completes its handshake.
\<close>

lemma sample_first: "tcp_rpcs_reload_ext_secrets 0 [sample_cfg 1] secrets_init = (True, sample_secrets)"
proof -
  have free: "ext_secret_state zero_slot = SLOT_FREE" by (simp add: zero_slot_def)
  let ?sl = "replicate EXT_SECRET_MAX_SLOTS zero_slot"
  have sl: "slots secrets_init = ?sl" "ext_secret_pinned secrets_init = 0" by (simp_all add: secrets_init_def)
  have "find_slot 0 (\<lambda>s. ext_secret_state s \<noteq> SLOT_FREE \<and> ext_secret s = cfg_key (sample_cfg 1)) ?sl = None"
    unfolding find_slot_def find_None_iff by (auto simp: free)
  then have b: "pass_b 0 [(sample_cfg 1, False)] ?sl (pass_a secrets_init) = ([(sample_cfg 1, False)], ?sl, pass_a secrets_init)"
    by simp
  have "\<not> pass_a secrets_init ! i" if "i < EXT_SECRET_MAX_SLOTS" for i using that free by (simp add: pass_a_nth sl)
  then have c: "pass_c 0 (pass_a secrets_init) ?sl = ?sl"
    by (intro nth_equalityI) (auto simp: pass_c_nth pass_c_length)
  have f: "find_slot 0 (\<lambda>s. ext_secret_state s = SLOT_FREE) ?sl = Some 0"
    unfolding find_slot_def upt_32 by (simp add: EXT_SECRET_MAX_SLOTS_def free)
  have d: "pass_d 0 [(sample_cfg 1, False)] ?sl = (True, slots sample_secrets)"
    using f by (simp add: sample_secrets_def EXT_SECRET_MAX_SLOTS_def)
  have a: "active_total 0 (slots sample_secrets) = 1" "high_water 0 (slots sample_secrets) = 1"
    unfolding active_total_def high_water_def upt_32
    by (simp_all add: sample_secrets_def EXT_SECRET_MAX_SLOTS_def free)
  have m: "mark_pinned secrets_init [sample_cfg 1] = [(sample_cfg 1, False)]"
    by (simp add: mark_pinned_def sl)
  show ?thesis
    unfolding tcp_rpcs_reload_ext_secrets_def Let_def m sl b prod.case c d secrets.simps a
    by (simp add: EXT_SECRET_MAX_ACTIVE_def sample_secrets_def secrets_init_def)
qed

definition sample_env :: accept_env where
  "sample_env = \<lparr>env_workers = 1, env_now = 6, env_precise_now = 6, allow_only_tls = True, ext_rand_pad_only = False\<rparr>"

definition sample_header :: bytes where
  "sample_header = replicate 56 0 @ [0xdd, 0xdd, 0xdd, 0xdd, 2, 0, 0, 0]"

definition sample_worker :: worker where
  "sample_worker = \<lparr>secs = sample_reloaded, vols = ip_volume_init\<rparr>"

definition sample_accepted :: worker where
  "sample_accepted = sample_worker\<lparr>
     secs := update_slot 0 (count_connect sample_env (5, zero_ipv6)) sample_reloaded,
     vols := tcp_rpcs_account_connect 6 0 5 zero_ipv6 ip_volume_init\<rparr>"

lemma sample_accept:
  "\<exists>d fl ks. obfs2_accept (\<lambda>_. []) (\<lambda>_ _ x. x) sample_env True (5, zero_ipv6) sample_header True sample_worker =
     Some (Accepted 1 d fl ks, sample_accepted)"
proof -
  have idx: "compact_to_slot sample_reloaded = [0, 1]"
    by (simp add: compact_to_slot_def sample_reloaded_def upt_rec EXT_SECRET_MAX_SLOTS_def)
  have tag: "of_le32 [0xdd, 0xdd, 0xdd, 0xdd, 2, 0, 0, 0] = OBFS2_TAG_PAD" by code_simp
  show ?thesis
    by (simp add: obfs2_accept_def Let_def sample_worker_def idx obfs2_parse_header_def sample_header_def tag tag_ok_def
        sample_env_def sample_accepted_def)
qed

definition sample_machine :: machine where
  "sample_machine = (sample_accepted, [7 \<mapsto> new_client True 1 (5, zero_ipv6) sample_worker])"

definition sample_start :: machine where
  "sample_start = (\<lparr>secs = secrets_init, vols = ip_volume_init\<rparr>, Map.empty)"

lemma sample_start_init: "worker_init sample_start"
  unfolding worker_init_def sample_start_def
  by (auto intro!: exI [of _ "[]"] simp: tcp_rpcs_pin_ext_secrets_def secrets_init_def)

lemma sample_run: "(worker_step (\<lambda>_. []) (\<lambda>_ _ x. x))\<^sup>*\<^sup>* sample_start sample_machine"
proof -
  let ?step = "worker_step (\<lambda>_. []) (\<lambda>_ _ x. x)"
  let ?w = "\<lparr>secs = secrets_init, vols = ip_volume_init\<rparr>"
  have "?step sample_start (?w\<lparr>secs := sample_secrets\<rparr>, Map.empty)"
    unfolding sample_start_def by (rule worker_step.reload [where t = 0 and cfgs = "[sample_cfg 1]" and ok = True]) (simp add: sample_first)
  moreover have "?step (?w\<lparr>secs := sample_secrets\<rparr>, Map.empty) (?w\<lparr>secs := sample_secrets, secs := sample_reloaded\<rparr>, Map.empty)"
    by (rule worker_step.reload [where t = 5 and cfgs = "[sample_cfg 2]" and ok = True]) (simp add: sample_reload)
  moreover have "?step (sample_worker, Map.empty) sample_machine"
    using sample_accept unfolding sample_machine_def
    by (auto intro!: worker_step.accept simp: MAX_CONNECTIONS_def)
  ultimately show ?thesis
    by (auto simp: sample_worker_def intro: converse_rtranclp_into_rtranclp)
qed


lemma sample_accepted_slot:
  "ext_secret_pinned (secs sample_accepted) = 0" "ext_secret_cnt (secs sample_accepted) = 2"
  "ext_secret_state (slots (secs sample_accepted) ! 0) = SLOT_DRAINING"
  "ext_secret_drain_started_at (slots (secs sample_accepted) ! 0) = 5"
  by (simp_all add: sample_accepted_def sample_reloaded_def secrets_init_def update_slot_nth EXT_SECRET_MAX_SLOTS_def
      count_connect_def ip_track_connect_def Let_def start_drain_def split: prod.split option.split)


subsection \<open>Limits at the handshake\<close>

lemma secret_checks_None:
  "secret_checks env a s = None \<longleftrightarrow> ext_secret_state s \<noteq> SLOT_DRAINING \<and> \<not> secret_expired (env_now env) s \<and>
     \<not> secret_over_limit (env_workers env) s \<and> \<not> secret_over_quota (env_workers env) s \<and> \<not> ip_over_limit (env_workers env) a s"
  by (simp add: secret_checks_def)

text \<open>
  C16: A connection without TLS is accepted only for a slot that is active, whose secret has not expired,
  whose quota is not used up and whose address limit leaves room; with the new connection counted, the
  slot is still within its connection limit for this worker.
\<close>

theorem obfs2_accept_within_limits:
  assumes "obfs2_accept sha256 ctr env False a hdr dec_ok w = Some (Accepted sid d fl ks, w')" "secrets_wf (secs w)"
  shows "\<exists>s < EXT_SECRET_MAX_SLOTS. sid = int s + 1 \<and> ext_secret_state (slots (secs w) ! s) = SLOT_ACTIVE \<and>
    \<not> secret_expired (env_now env) (slots (secs w) ! s) \<and> \<not> secret_over_quota (env_workers env) (slots (secs w) ! s) \<and>
    \<not> ip_over_limit (env_workers env) a (slots (secs w) ! s) \<and>
    per_secret_connections (stats (slots (secs w') ! s)) = per_secret_connections (stats (slots (secs w) ! s)) + 1 \<and>
    (0 < ext_secret_limit (slots (secs w) ! s) \<longrightarrow>
       per_secret_connections (stats (slots (secs w') ! s)) \<le> eff_limit (env_workers env) (ext_secret_limit (slots (secs w) ! s)))"
proof -
  from assms(1) obtain s where s: "s \<in> set (compact_to_slot (secs w))" "sid = int s + 1"
    "secret_checks env a (slots (secs w) ! s) = None" "secs w' = update_slot s (count_connect env a) (secs w)"
    by (rule obfs2_accept_cases) auto
  note u = compact_to_slot_used [OF s(1) assms(2)]
  have cnt: "per_secret_connections (stats (slots (secs w') ! s)) = per_secret_connections (stats (slots (secs w) ! s)) + 1"
    using u assms(2) count_connect_holds by (simp add: s(4) update_slot_nth secrets_wf_def holds_conns_def)
  have "ext_secret_state (slots (secs w) ! s) = SLOT_ACTIVE"
    using u s(3) by (cases "ext_secret_state (slots (secs w) ! s)") (auto simp: secret_checks_None)
  with u s(2,3) cnt show ?thesis
    by (intro exI [of _ s]) (auto simp: secret_checks_None secret_over_limit_def)
qed

definition sample_plain_env :: accept_env where
  "sample_plain_env = sample_env\<lparr>allow_only_tls := False\<rparr>"

theorem obfs2_accept_within_limits_witness:
  "\<exists>d fl ks w'. obfs2_accept (\<lambda>_. []) (\<lambda>_ _ x. x) sample_plain_env False (5, zero_ipv6) sample_header True
      \<lparr>secs = sample_secrets, vols = ip_volume_init\<rparr> = Some (Accepted 1 d fl ks, w') \<and>
    per_secret_connections (stats (slots (secs w') ! 0)) = per_secret_connections (stats (slots sample_secrets ! 0)) + 1"
proof -
  have idx: "compact_to_slot sample_secrets = [0]"
    by (simp add: compact_to_slot_def sample_secrets_def EXT_SECRET_MAX_SLOTS_def)
  have tag: "of_le32 [0xdd, 0xdd, 0xdd, 0xdd, 2, 0, 0, 0] = OBFS2_TAG_PAD" by code_simp
  have "slots sample_secrets ! 0 = fresh_slot (sample_cfg 1) 0 zero_slot"
    by (simp add: sample_secrets_def EXT_SECRET_MAX_SLOTS_def)
  then have chk: "secret_checks sample_plain_env (5, zero_ipv6) (slots sample_secrets ! 0) = None"
    by (simp add: secret_checks_def fresh_slot_def set_metadata_def sample_cfg_def secret_expired_def secret_over_limit_def
        secret_over_quota_def ip_over_limit_def tcp_rpcs_ip_track_clear_slot_def)
  obtain d fl ks w' where run: "obfs2_accept (\<lambda>_. []) (\<lambda>_ _ x. x) sample_plain_env False (5, zero_ipv6) sample_header True
      \<lparr>secs = sample_secrets, vols = ip_volume_init\<rparr> = Some (Accepted 1 d fl ks, w')"
    using chk by (simp add: obfs2_accept_def Let_def idx obfs2_parse_header_def sample_header_def tag tag_ok_def sample_plain_env_def)
  with obfs2_accept_within_limits [OF run] sample_secrets_wf show ?thesis by auto
qed



end
