(* ===== verification/Replay.thy ===== *)
theory Replay
  imports Prelude
begin

text \<open>
  The replay protection of the TLS handshake in \<^verbatim>\<open>src/src/net/net-tcp-rpc-ext-server.c\<close>: the cache of
  client randoms (a queue by arrival time whose entries are also chained in hash buckets), its
  expiry, the timestamp rule, and the part of \<^verbatim>\<open>tcp_rpcs_compact_parse_execute\<close> that uses them.

  The entries live in an explicit heap, a map from addresses to \<open>client_random\<close> records, because the
  two linked structures share them. A dereference of an unallocated address and a failed assert
  give \<open>None\<close>; so does a traversal that does not end.
\<close>

subsection \<open>State\<close>

type_synonym addr = nat

record client_random =
  random :: bytes
  next_by_time :: "addr option"
  next_by_hash :: "addr option"
  time :: int

record cr_state =
  heap :: "addr \<Rightarrow> client_random option"
  client_randoms :: "nat \<Rightarrow> addr option"
  first_client_random :: "addr option"
  last_client_random :: "addr option"

definition cr_init :: cr_state where
  "cr_init = \<lparr>heap = (\<lambda>_. None), client_randoms = (\<lambda>_. None),
     first_client_random = None, last_client_random = None\<rparr>"

definition RANDOM_HASH_BITS :: nat where
  "RANDOM_HASH_BITS = 14"

definition MAX_CLIENT_RANDOM_CACHE_TIME :: int where
  "MAX_CLIENT_RANDOM_CACHE_TIME = 2 * 86400"

definition MAX_ALLOWED_TIMESTAMP_ERROR :: int where
  "MAX_ALLOWED_TIMESTAMP_ERROR = 2 * 60"

subsection \<open>Operations\<close>

text \<open>\<^verbatim>\<open>id = (id << bits) | (random[pos++] & ((1 << bits) - 1))\<close>, eight bits at a time.\<close>

function bucket_id :: "bytes \<Rightarrow> nat \<Rightarrow> nat \<Rightarrow> nat \<Rightarrow> nat" where
  "bucket_id rnd i pos v =
     (if i > 0 then
        let bits = (if i < 8 then i else 8) in
        bucket_id rnd (i - bits) (pos + 1) (push_bit bits v OR (unat (rnd ! pos) AND mask bits))
      else v)"
  by pat_completeness auto
termination
  by (relation "measure (\<lambda>(rnd, i, pos, v). i)") auto

declare bucket_id.simps [simp del]

definition get_client_random_bucket :: "bytes \<Rightarrow> nat" where
  "get_client_random_bucket rnd = bucket_id rnd RANDOM_HASH_BITS 0 0"

partial_function (option) find_random ::
  "(addr \<Rightarrow> client_random option) \<Rightarrow> addr option \<Rightarrow> bytes \<Rightarrow> bool option" where
  "find_random h cur rnd =
     (case cur of
        None \<Rightarrow> Some False
      | Some a \<Rightarrow>
          (case h a of
             None \<Rightarrow> None
           | Some e \<Rightarrow> if rnd = random e then Some True else find_random h (next_by_hash e) rnd))"

definition have_client_random :: "bytes \<Rightarrow> cr_state \<Rightarrow> bool option" where
  "have_client_random rnd s = find_random (heap s) (client_randoms s (get_client_random_bucket rnd)) rnd"

text \<open>\<open>a\<close> is the address that \<^verbatim>\<open>malloc\<close> returned.\<close>

definition add_client_random :: "int \<Rightarrow> addr \<Rightarrow> bytes \<Rightarrow> cr_state \<Rightarrow> cr_state option" where
  "add_client_random now a rnd s =
     (let entry = \<lparr>random = rnd, next_by_time = None, next_by_hash = None, time = now\<rparr> in do {
      s \<leftarrow> (case last_client_random s of
              None \<Rightarrow>
                if first_client_random s \<noteq> None then None
                else Some (s\<lparr>heap := (heap s)(a \<mapsto> entry), first_client_random := Some a,
                             last_client_random := Some a\<rparr>)
            | Some l \<Rightarrow>
                (case heap s l of
                   None \<Rightarrow> None
                 | Some le \<Rightarrow>
                     Some (s\<lparr>heap := (heap s)(l \<mapsto> le\<lparr>next_by_time := Some a\<rparr>, a \<mapsto> entry),
                             last_client_random := Some a\<rparr>)));
      let bucket = get_client_random_bucket rnd;
      Some (s\<lparr>heap := (heap s)(a \<mapsto> entry\<lparr>next_by_hash := client_randoms s bucket\<rparr>),
              client_randoms := (client_randoms s)(bucket := Some a)\<rparr>)
      })"

text \<open>The pointer variable \<^verbatim>\<open>cur\<close> of type \<^verbatim>\<open>struct client_random **\<close>: a bucket or a \<^verbatim>\<open>next_by_hash\<close> field.\<close>

datatype hash_loc = Bucket nat | Next_of addr

fun load_loc :: "cr_state \<Rightarrow> hash_loc \<Rightarrow> addr option option" where
  "load_loc s (Bucket b) = Some (client_randoms s b)"
| "load_loc s (Next_of a) = map_option next_by_hash (heap s a)"

fun store_null :: "hash_loc \<Rightarrow> cr_state \<Rightarrow> cr_state" where
  "store_null (Bucket b) s = s\<lparr>client_randoms := (client_randoms s)(b := None)\<rparr>"
| "store_null (Next_of a) s =
     s\<lparr>heap := (heap s)(a := map_option (\<lambda>e. e\<lparr>next_by_hash := None\<rparr>) (heap s a))\<rparr>"

partial_function (option) find_loc :: "cr_state \<Rightarrow> hash_loc \<Rightarrow> addr \<Rightarrow> hash_loc option" where
  "find_loc s cur entry =
     (case load_loc s cur of
        None \<Rightarrow> None
      | Some None \<Rightarrow> None
      | Some (Some p) \<Rightarrow> if p = entry then Some cur else find_loc s (Next_of p) entry)"

text \<open>The body of the loop of \<^verbatim>\<open>delete_old_client_randoms\<close> for the entry at address \<open>a\<close>.\<close>

definition delete_first :: "addr \<Rightarrow> client_random \<Rightarrow> cr_state \<Rightarrow> cr_state option" where
  "delete_first a e s =
     (if next_by_hash e \<noteq> None then None else do {
      let s = s\<lparr>first_client_random := next_by_time e\<rparr>;
      cur \<leftarrow> find_loc s (Bucket (get_client_random_bucket (random e))) a;
      let s = store_null cur s;
      Some (s\<lparr>heap := (heap s)(a := None)\<rparr>)
      })"

partial_function (option) delete_old_client_randoms :: "int \<Rightarrow> cr_state \<Rightarrow> cr_state option" where
  "delete_old_client_randoms now s =
     (if first_client_random s = last_client_random s then Some s else
      case first_client_random s of
        None \<Rightarrow> None
      | Some a \<Rightarrow>
          (case heap s a of
             None \<Rightarrow> None
           | Some e \<Rightarrow>
               if time e > now - MAX_CLIENT_RANDOM_CACHE_TIME then Some s
               else Option.bind (delete_first a e s) (delete_old_client_randoms now)))"

definition is_allowed_timestamp :: "int \<Rightarrow> int \<Rightarrow> cr_state \<Rightarrow> bool option" where
  "is_allowed_timestamp now timestamp s =
     (if timestamp > now + 3 then Some False else
      let recent = Some (timestamp > now - MAX_ALLOWED_TIMESTAMP_ERROR) in
      case first_client_random s of
        None \<Rightarrow> recent
      | Some a \<Rightarrow>
          (case heap s a of
             None \<Rightarrow> None
           | Some e \<Rightarrow> if timestamp > time e + 3 then Some True else recent))"

text \<open>
  The use in the handshake: the check for a known random, the insertion, the expiry, and after the
  search for a matching secret the timestamp rule. \<open>matched\<close> is the timestamp recovered with the
  matching secret, if there is one. The result says whether the handshake goes on.
\<close>

definition replay_gate :: "int \<Rightarrow> addr \<Rightarrow> bytes \<Rightarrow> int option \<Rightarrow> cr_state \<Rightarrow> (bool \<times> cr_state) option" where
  "replay_gate now a client_random matched s = do {
     let rnd = take 16 client_random;
     seen \<leftarrow> have_client_random rnd s;
     if seen then Some (False, s) else do {
     s \<leftarrow> add_client_random now a rnd s;
     s \<leftarrow> delete_old_client_randoms now s;
     case matched of
       None \<Rightarrow> Some (False, s)
     | Some timestamp \<Rightarrow> do {
         ok \<leftarrow> is_allowed_timestamp now timestamp s;
         Some (ok, s)
       }
     }
   }"

subsection \<open>The two linked structures\<close>

text \<open>A list of addresses linked through a field, from a start pointer to \<^verbatim>\<open>NULL\<close>.\<close>

fun linked :: "(client_random \<Rightarrow> addr option) \<Rightarrow> (addr \<Rightarrow> client_random option) \<Rightarrow> addr option \<Rightarrow> addr list \<Rightarrow> bool" where
  "linked nxt h p [] = (p = None)"
| "linked nxt h p (a # as) = (p = Some a \<and> (\<exists>e. h a = Some e \<and> linked nxt h (nxt e) as))"

definition bucket_of :: "(addr \<Rightarrow> client_random option) \<Rightarrow> addr \<Rightarrow> nat" where
  "bucket_of h a = get_client_random_bucket (random (the (h a)))"

text \<open>
  The invariant: \<open>q\<close> are the addresses of all entries in order of arrival; every bucket chains, the
  newest first, the entries that hash to it.
\<close>

definition cr_inv :: "cr_state \<Rightarrow> addr list \<Rightarrow> bool" where
  "cr_inv s q \<longleftrightarrow>
     distinct q \<and> dom (heap s) = set q \<and>
     linked next_by_time (heap s) (first_client_random s) q \<and>
     last_client_random s = (if q = [] then None else Some (last q)) \<and>
     (\<forall>b. linked next_by_hash (heap s) (client_randoms s b)
            (rev (filter (\<lambda>a. bucket_of (heap s) a = b) q)))"

text \<open>The abstract cache: the pairs of random and arrival time, oldest first.\<close>

definition cr_abs :: "cr_state \<Rightarrow> addr list \<Rightarrow> (bytes \<times> int) list" where
  "cr_abs s q = map (\<lambda>a. (random (the (heap s a)), time (the (heap s a)))) q"

lemma linked_cong:
  "(\<And>a. a \<in> set as \<Longrightarrow> \<exists>e e'. h a = Some e \<and> h' a = Some e' \<and> nxt e = nxt e')
   \<Longrightarrow> linked nxt h p as = linked nxt h' p as"
  by (induction as arbitrary: p) fastforce+

lemma linked_append_one:
  "linked nxt h p (as @ [l]) \<Longrightarrow> distinct (as @ [l]) \<Longrightarrow> h l = Some e \<Longrightarrow> nxt e' = Some a
   \<Longrightarrow> nxt ne = None \<Longrightarrow> a \<notin> set (as @ [l])
   \<Longrightarrow> linked nxt (h(l \<mapsto> e', a \<mapsto> ne)) p (as @ [l, a])"
proof (induction as arbitrary: p)
  case (Cons x as)
  then obtain ex where "h x = Some ex" "linked nxt h (nxt ex) (as @ [l])" by auto
  with Cons show ?case by auto
qed auto

lemma find_random_linked:
  "linked next_by_hash h p as \<Longrightarrow> find_random h p rnd = Some (\<exists>a \<in> set as. random (the (h a)) = rnd)"
proof (induction as arbitrary: p)
  case Nil
  then show ?case by (simp add: find_random.simps)
next
  case (Cons a as)
  then obtain e where e: "p = Some a" "h a = Some e" "linked next_by_hash h (next_by_hash e) as" by auto
  with Cons.IH [OF e(3)] show ?case by (subst find_random.simps) auto
qed

text \<open>Heaps that agree on everything but the time links of the entries in \<open>A\<close>.\<close>

definition same_hash :: "addr set \<Rightarrow> (addr \<Rightarrow> client_random option) \<Rightarrow> (addr \<Rightarrow> client_random option) \<Rightarrow> bool" where
  "same_hash A h h' \<longleftrightarrow> (\<forall>x \<in> A. \<exists>e e'. h x = Some e \<and> h' x = Some e' \<and> random e' = random e \<and>
     time e' = time e \<and> next_by_hash e' = next_by_hash e)"

lemma same_hash_linked:
  "same_hash A h h' \<Longrightarrow> set as \<subseteq> A \<Longrightarrow> linked next_by_hash h p as = linked next_by_hash h' p as"
  by (rule linked_cong) (fastforce simp: same_hash_def)

lemma same_hash_bucket: "same_hash A h h' \<Longrightarrow> x \<in> A \<Longrightarrow> bucket_of h' x = bucket_of h x"
  unfolding same_hash_def bucket_of_def by (metis option.sel)

lemma same_hash_filter:
  "same_hash A h h' \<Longrightarrow> set q \<subseteq> A
   \<Longrightarrow> filter (\<lambda>x. bucket_of h' x = b) q = filter (\<lambda>x. bucket_of h x = b) q"
  by (rule filter_cong [OF refl]) (auto simp: same_hash_bucket)

lemma same_hash_abs:
  "same_hash (set q) (heap s) (heap s') \<Longrightarrow> cr_abs s' q = cr_abs s q"
  unfolding same_hash_def cr_abs_def by (rule map_cong [OF refl]) (metis option.sel)

lemma cr_invD:
  assumes "cr_inv s q"
  shows "distinct q" "dom (heap s) = set q"
    "linked next_by_time (heap s) (first_client_random s) q"
    "last_client_random s = (if q = [] then None else Some (last q))"
    "linked next_by_hash (heap s) (client_randoms s b) (rev (filter (\<lambda>a. bucket_of (heap s) a = b) q))"
  using assms by (simp_all add: cr_inv_def)

lemma have_client_random_eq:
  assumes "cr_inv s q"
  shows "have_client_random rnd s = Some (rnd \<in> fst ` set (cr_abs s q))"
  unfolding have_client_random_def find_random_linked [OF cr_invD(5) [OF assms]]
  by (auto simp: cr_abs_def image_image bucket_of_def image_iff)

lemma add_client_random_buckets:
  assumes inv: "cr_inv s q" and a: "a \<notin> set q" and sh: "same_hash (set q) (heap s) h'"
    and ha: "h' a = Some e" "random e = rnd" "next_by_hash e = client_randoms s (get_client_random_bucket rnd)"
  shows "linked next_by_hash h' (((client_randoms s)(get_client_random_bucket rnd := Some a)) b)
    (rev (filter (\<lambda>x. bucket_of h' x = b) (q @ [a])))"
proof -
  have "linked next_by_hash h' (client_randoms s b) (rev (filter (\<lambda>x. bucket_of h' x = b) q))" for b
    using cr_invD(5) [OF inv, of b] same_hash_linked [OF sh] by (subst same_hash_filter [OF sh]) auto
  moreover have "bucket_of h' a = get_client_random_bucket rnd" using ha by (simp add: bucket_of_def)
  ultimately show ?thesis using ha by auto
qed

lemma add_client_random_refines:
  assumes inv: "cr_inv s q" and a: "a \<notin> set q"
  shows "\<exists>s'. add_client_random now a rnd s = Some s' \<and> cr_inv s' (q @ [a]) \<and>
    cr_abs s' (q @ [a]) = cr_abs s q @ [(rnd, now)]"
proof -
  let ?b = "get_client_random_bucket rnd"
  let ?ne = "\<lparr>random = rnd, next_by_time = None, next_by_hash = client_randoms s ?b, time = now\<rparr>"
  obtain h' where add: "add_client_random now a rnd s = Some (s\<lparr>heap := h',
        first_client_random := (if q = [] then Some a else first_client_random s),
        last_client_random := Some a, client_randoms := (client_randoms s)(?b := Some a)\<rparr>)"
    and sh: "same_hash (set q) (heap s) h'" and ha: "h' a = Some ?ne" and dom: "dom h' = set (q @ [a])"
    and lt: "linked next_by_time h' (if q = [] then Some a else first_client_random s) (q @ [a])"
  proof (cases q rule: rev_cases)
    case Nil
    with cr_invD(2-4) [OF inv] show ?thesis
      by (intro that [of "(heap s)(a \<mapsto> ?ne)"])
         (auto simp: add_client_random_def Let_def same_hash_def)
  next
    case (snoc q0 l)
    with cr_invD(2) [OF inv] obtain le where le: "heap s l = Some le" by auto
    from snoc a have al: "a \<noteq> l" by auto
    show ?thesis
    proof (rule that [of "(heap s)(l \<mapsto> le\<lparr>next_by_time := Some a\<rparr>, a \<mapsto> ?ne)"])
      show "same_hash (set q) (heap s) ((heap s)(l \<mapsto> le\<lparr>next_by_time := Some a\<rparr>, a \<mapsto> ?ne))"
        using cr_invD(2) [OF inv] a le by (auto simp: same_hash_def) (metis domD)
      show "linked next_by_time ((heap s)(l \<mapsto> le\<lparr>next_by_time := Some a\<rparr>, a \<mapsto> ?ne))
          (if q = [] then Some a else first_client_random s) (q @ [a])"
        using linked_append_one [where as = q0 and l = l] cr_invD(1,3) [OF inv] snoc le a by simp
    qed (use cr_invD(2,4) [OF inv] snoc le al in \<open>auto simp: add_client_random_def Let_def\<close>)
  qed
  let ?s' = "s\<lparr>heap := h', first_client_random := (if q = [] then Some a else first_client_random s),
        last_client_random := Some a, client_randoms := (client_randoms s)(?b := Some a)\<rparr>"
  have "cr_inv ?s' (q @ [a])"
    unfolding cr_inv_def
    using add_client_random_buckets [OF inv a sh ha, of rnd] cr_invD(1) [OF inv] a dom lt by simp
  moreover have "cr_abs ?s' (q @ [a]) = cr_abs s q @ [(rnd, now)]"
    using same_hash_abs [of q s ?s'] sh ha by (simp add: cr_abs_def)
  ultimately show ?thesis using add by blast
qed

subsection \<open>Expiry\<close>

text \<open>The location that holds the pointer to the last element of a chain.\<close>

definition last_loc :: "nat \<Rightarrow> addr list \<Rightarrow> hash_loc" where
  "last_loc b as = (if as = [] then Bucket b else Next_of (last as))"

lemma find_loc_chain:
  "load_loc s cur = Some p \<Longrightarrow> linked next_by_hash (heap s) p (as @ [a]) \<Longrightarrow> a \<notin> set as
   \<Longrightarrow> find_loc s cur a = Some (if as = [] then cur else Next_of (last as))"
proof (induction as arbitrary: cur p)
  case Nil
  then show ?case by (subst find_loc.simps) auto
next
  case (Cons x as)
  then obtain e where p: "p = Some x" and e: "heap s x = Some e"
    and l: "linked next_by_hash (heap s) (next_by_hash e) (as @ [a])" by auto
  have "find_loc s (Next_of x) a = Some (if as = [] then Next_of x else Next_of (last as))"
    using Cons.IH [OF _ l, of "Next_of x"] Cons.prems(3) e by simp
  with Cons.prems p show ?case by (subst find_loc.simps) auto
qed

lemma linked_butlast:
  "linked next_by_hash h p (as @ [a]) \<Longrightarrow> distinct (as @ [a]) \<Longrightarrow> as \<noteq> [] \<Longrightarrow>
   linked next_by_hash (h(last as := map_option (\<lambda>e. e\<lparr>next_by_hash := None\<rparr>) (h (last as)), a := None)) p as"
proof (induction as arbitrary: p)
  case (Cons x as)
  then obtain e where e: "p = Some x" "h x = Some e" "linked next_by_hash h (next_by_hash e) (as @ [a])"
    by auto
  show ?case
  proof (cases "as = []")
    case True
    with e Cons.prems show ?thesis by auto
  next
    case False
    with e Cons have "x \<noteq> last as" "x \<noteq> a" by auto
    with e False Cons.IH [OF e(3)] Cons.prems show ?thesis by simp
  qed
qed simp

lemma linked_last_None: "linked nxt h p (as @ [a]) \<Longrightarrow> \<exists>e. h a = Some e \<and> nxt e = None"
  by (induction as arbitrary: p) auto

lemma delete_first_refines:
  assumes inv: "cr_inv s (a # q)" and q: "q \<noteq> []" and e: "heap s a = Some e"
  shows "\<exists>s'. delete_first a e s = Some s' \<and> cr_inv s' q \<and> cr_abs s' q = cr_abs s q"
proof -
  let ?h = "heap s"
  define b where "b = get_client_random_bucket (random e)"
  define as where "as = rev (filter (\<lambda>x. bucket_of ?h x = b) q)"
  define h' where "h' = (if as = [] then ?h else
      ?h(last as := map_option (\<lambda>e. e\<lparr>next_by_hash := None\<rparr>) (?h (last as))))"
  define s' where "s' = s\<lparr>heap := h'(a := None), first_client_random := next_by_time e,
      client_randoms := (if as = [] then (client_randoms s)(b := None) else client_randoms s)\<rparr>"
  have ba: "bucket_of ?h a = b" by (simp add: bucket_of_def b_def e)
  have chain: "linked next_by_hash ?h (client_randoms s b) (as @ [a])"
    using cr_invD(5) [OF inv, of b] ba by (simp add: as_def)
  then have hn: "next_by_hash e = None" using linked_last_None e by fastforce
  have dist: "distinct (as @ [a])" "set as \<subseteq> set q" "a \<notin> set q"
    using cr_invD(1) [OF inv] by (auto simp: as_def)
  have ex: "\<exists>e. ?h x = Some e" if "x \<in> set q" for x
    using cr_invD(2) [OF inv] that by (metis domD insertCI list.set(2))
  have la: "last as \<in> set q" if "as \<noteq> []" using that dist(2) last_in_set by blast
  have loc: "find_loc (s\<lparr>first_client_random := next_by_time e\<rparr>) (Bucket b) a = Some (last_loc b as)"
    using find_loc_chain [of "s\<lparr>first_client_random := next_by_time e\<rparr>" "Bucket b" "client_randoms s b" as a]
      chain dist(1) by (simp add: last_loc_def)
  have del: "delete_first a e s = Some s'"
    using hn loc by (auto simp: delete_first_def b_def [symmetric] last_loc_def s'_def h'_def)
  have fields: "\<exists>e e'. ?h x = Some e \<and> (h'(a := None)) x = Some e' \<and> random e' = random e \<and> time e' = time e \<and>
      next_by_time e' = next_by_time e \<and> (as = [] \<or> x \<noteq> last as \<longrightarrow> next_by_hash e' = next_by_hash e)"
    if "x \<in> set q" for x
    using ex [OF that] that dist(3) by (auto simp: h'_def)
  have bucket: "bucket_of (h'(a := None)) x = bucket_of ?h x" if "x \<in> set q" for x
    using fields [OF that] unfolding bucket_of_def by (metis option.sel)
  have dom: "dom (h'(a := None)) = set q"
  proof -
    have "dom h' = dom ?h" using la ex by (auto simp: h'_def)
    then show ?thesis using cr_invD(2) [OF inv] dist(3) by simp
  qed
  have time: "linked next_by_time (h'(a := None)) (next_by_time e) q"
  proof -
    have "linked next_by_time ?h (next_by_time e) q" using cr_invD(3) [OF inv] e by simp
    moreover have "linked next_by_time ?h (next_by_time e) q = linked next_by_time (h'(a := None)) (next_by_time e) q"
      by (rule linked_cong) (use fields in metis)
    ultimately show ?thesis by simp
  qed
  have chains: "linked next_by_hash (h'(a := None)) (client_randoms s' b')
      (rev (filter (\<lambda>x. bucket_of (h'(a := None)) x = b') q))" for b'
  proof -
    have filt: "filter (\<lambda>x. bucket_of (h'(a := None)) x = b') q = filter (\<lambda>x. bucket_of ?h x = b') q"
      by (rule filter_cong [OF refl]) (simp add: bucket)
    show ?thesis
    proof (cases "b' = b")
      case True
      then show ?thesis
        using linked_butlast [OF chain dist(1)] unfolding filt unfolding True as_def [symmetric]
        by (auto simp: s'_def h'_def)
    next
      case False
      have "linked next_by_hash ?h (client_randoms s b') (rev (filter (\<lambda>x. bucket_of ?h x = b') q))"
        using cr_invD(5) [OF inv, of b'] ba False by simp
      moreover have "\<exists>e e'. ?h x = Some e \<and> (h'(a := None)) x = Some e' \<and> next_by_hash e = next_by_hash e'"
        if "x \<in> set (rev (filter (\<lambda>x. bucket_of ?h x = b') q))" for x
      proof -
        from that False last_in_set [of as] have "as = [] \<or> x \<noteq> last as" "x \<in> set q"
          by (auto simp: as_def)
        then show ?thesis using fields [of x] by metis
      qed
      ultimately have "linked next_by_hash (h'(a := None)) (client_randoms s b')
          (rev (filter (\<lambda>x. bucket_of ?h x = b') q))"
        using linked_cong [where h = ?h and h' = "h'(a := None)"] by blast
      then show ?thesis unfolding filt using False by (simp add: s'_def)
    qed
  qed
  have "cr_inv s' q"
    unfolding cr_inv_def using cr_invD(1,4) [OF inv] q dom time chains by (simp add: s'_def)
  moreover have "cr_abs s' q = cr_abs s q"
    unfolding cr_abs_def by (rule map_cong [OF refl]) (use fields in \<open>auto simp: s'_def, (metis option.sel)+\<close>)
  ultimately show ?thesis using del by blast
qed

text \<open>Expiry on the abstract cache: the newest entry is never dropped.\<close>

fun expire :: "int \<Rightarrow> (bytes \<times> int) list \<Rightarrow> (bytes \<times> int) list" where
  "expire now (x # y # xs) =
     (if snd x > now - MAX_CLIENT_RANDOM_CACHE_TIME then x # y # xs else expire now (y # xs))"
| "expire now xs = xs"

lemma delete_old_refines:
  "cr_inv s q \<Longrightarrow> \<exists>s' q'. delete_old_client_randoms now s = Some s' \<and> cr_inv s' q' \<and>
     cr_abs s' q' = expire now (cr_abs s q) \<and> set q' \<subseteq> set q"
proof (induction q arbitrary: s)
  case Nil
  then have "first_client_random s = last_client_random s" by (simp add: cr_inv_def)
  with Nil show ?case
    by (subst delete_old_client_randoms.simps) (auto simp: cr_abs_def intro!: exI [of _ "[]"])
next
  case (Cons a q)
  from cr_invD(3) [OF Cons.prems] obtain e where first: "first_client_random s = Some a"
    and e: "heap s a = Some e" by auto
  show ?case
  proof (cases "q = []")
    case True
    with cr_invD(4) [OF Cons.prems] first have "first_client_random s = last_client_random s" by simp
    with Cons.prems True show ?thesis
      by (subst delete_old_client_randoms.simps) (auto simp: cr_abs_def intro!: exI [of _ "[a]"])
  next
    case False
    with cr_invD(1,4) [OF Cons.prems] first have ne: "first_client_random s \<noteq> last_client_random s"
      by (auto dest: last_in_set)
    from False obtain y ys where q: "q = y # ys" by (cases q) auto
    show ?thesis
    proof (cases "time e > now - MAX_CLIENT_RANDOM_CACHE_TIME")
      case True
      with Cons.prems ne first e q show ?thesis
        by (subst delete_old_client_randoms.simps) (auto simp: cr_abs_def intro!: exI [of _ "a # q"])
    next
      case old: False
      from delete_first_refines [OF Cons.prems False e] obtain s1 where
        s1: "delete_first a e s = Some s1" "cr_inv s1 q" "cr_abs s1 q = cr_abs s q" by blast
      from Cons.IH [OF s1(2)] obtain s' q' where "delete_old_client_randoms now s1 = Some s'"
        "cr_inv s' q'" "cr_abs s' q' = expire now (cr_abs s q)" "set q' \<subseteq> set q"
        using s1(3) by auto
      with ne first e old s1(1) q show ?thesis
        by (subst delete_old_client_randoms.simps) (auto simp: cr_abs_def)
    qed
  qed
qed

definition ts_allowed :: "int \<Rightarrow> int \<Rightarrow> (bytes \<times> int) list \<Rightarrow> bool" where
  "ts_allowed now ts c \<longleftrightarrow>
     ts \<le> now + 3 \<and> (c \<noteq> [] \<and> ts > snd (hd c) + 3 \<or> ts > now - MAX_ALLOWED_TIMESTAMP_ERROR)"

lemma is_allowed_timestamp_eq:
  assumes "cr_inv s q"
  shows "is_allowed_timestamp now ts s = Some (ts_allowed now ts (cr_abs s q))"
  using cr_invD(3) [OF assms]
  by (cases q) (auto simp: is_allowed_timestamp_def ts_allowed_def cr_abs_def Let_def)

subsection \<open>The gate against its specification\<close>

text \<open>A request: the current time, the address \<^verbatim>\<open>malloc\<close> would return, the client random, the timestamp.\<close>

type_synonym request = "int \<times> addr \<times> bytes \<times> int option"

definition gate_step :: "request \<Rightarrow> cr_state \<Rightarrow> (bool \<times> cr_state) option" where
  "gate_step r s = (case r of (now, a, rnd, matched) \<Rightarrow> replay_gate now a rnd matched s)"

definition gate_spec :: "request \<Rightarrow> (bytes \<times> int) list \<Rightarrow> bool \<times> (bytes \<times> int) list" where
  "gate_spec r c =
     (case r of (now, a, rnd, matched) \<Rightarrow>
        if take 16 rnd \<in> fst ` set c then (False, c)
        else let c = expire now (c @ [(take 16 rnd, now)]) in
          (case matched of None \<Rightarrow> False | Some ts \<Rightarrow> ts_allowed now ts c, c))"

definition malloc_fresh :: "request \<Rightarrow> cr_state \<Rightarrow> bool" where
  "malloc_fresh r s = (case r of (now, a, rnd, matched) \<Rightarrow> heap s a = None)"

definition cr_rel :: "cr_state \<Rightarrow> (bytes \<times> int) list \<Rightarrow> bool" where
  "cr_rel s c \<longleftrightarrow> (\<exists>q. cr_inv s q \<and> cr_abs s q = c)"

interpretation gate: simulation cr_rel gate_step gate_spec malloc_fresh
proof
  fix s c and r :: request
  assume rel: "cr_rel s c" and fresh: "malloc_fresh r s"
  obtain now a rnd m where r: "r = (now, a, rnd, m)" by (cases r) auto
  from rel obtain q where inv: "cr_inv s q" and c: "cr_abs s q = c" by (auto simp: cr_rel_def)
  note seen = have_client_random_eq [OF inv, of "take 16 rnd", unfolded c]
  show "\<exists>s'. gate_step r s = Some (fst (gate_spec r c), s') \<and> cr_rel s' (snd (gate_spec r c))"
  proof (cases "take 16 rnd \<in> fst ` set c")
    case True
    with seen rel show ?thesis by (simp add: r gate_step_def gate_spec_def replay_gate_def)
  next
    case False
    from fresh r cr_invD(2) [OF inv] have "a \<notin> set q" by (auto simp: malloc_fresh_def)
    from add_client_random_refines [OF inv this, of now "take 16 rnd"] obtain s1 where
      s1: "add_client_random now a (take 16 rnd) s = Some s1" "cr_inv s1 (q @ [a])"
      "cr_abs s1 (q @ [a]) = c @ [(take 16 rnd, now)]" unfolding c by blast
    from delete_old_refines [OF s1(2), of now] obtain s2 q2 where
      s2: "delete_old_client_randoms now s1 = Some s2" "cr_inv s2 q2"
      "cr_abs s2 q2 = expire now (c @ [(take 16 rnd, now)])" unfolding s1(3) by blast
    have "cr_rel s2 (expire now (c @ [(take 16 rnd, now)]))" using s2 by (auto simp: cr_rel_def)
    with False seen s1(1) s2(1) is_allowed_timestamp_eq [OF s2(2)] s2(3) show ?thesis
      by (cases m) (simp_all add: r gate_step_def gate_spec_def replay_gate_def Let_def)
  qed
qed

subsection \<open>No request is accepted twice\<close>

lemma expire_split:
  "\<exists>old. xs = old @ expire now xs \<and> (\<forall>x \<in> set old. snd x \<le> now - MAX_CLIENT_RANDOM_CACHE_TIME) \<and>
     (xs \<noteq> [] \<longrightarrow> expire now xs \<noteq> [] \<and> last (expire now xs) = last xs)"
proof (induction now xs rule: expire.induct)
  case (1 now x y xs)
  show ?case
  proof (cases "snd x > now - MAX_CLIENT_RANDOM_CACHE_TIME")
    case False
    with 1 obtain old where "y # xs = old @ expire now (y # xs)"
      "\<forall>x \<in> set old. snd x \<le> now - MAX_CLIENT_RANDOM_CACHE_TIME"
      "expire now (y # xs) \<noteq> []" "last (expire now (y # xs)) = last (y # xs)" by auto
    with False show ?thesis by (intro exI [of _ "x # old"]) auto
  qed simp
qed auto

text \<open>The cache is ordered by time, and no entry is from the future.\<close>

definition cache_ok :: "int \<Rightarrow> (bytes \<times> int) list \<Rightarrow> bool" where
  "cache_ok now c \<longleftrightarrow> sorted (map snd c) \<and> (\<forall>x \<in> set c. snd x \<le> now)"

text \<open>
  What protects an accepted request from being accepted again: its entry is still there, or it has
  been dropped, and then everything in the cache is younger than the request and the cache period
  has passed.
\<close>

definition remembered :: "int \<Rightarrow> (bytes \<times> int) list \<Rightarrow> bytes \<times> int \<Rightarrow> bool" where
  "remembered now c p \<longleftrightarrow>
     (\<exists>t. snd p \<le> t + 3 \<and>
        ((fst p, t) \<in> set c \<or>
         t + MAX_CLIENT_RANDOM_CACHE_TIME \<le> now \<and> c \<noteq> [] \<and> (\<forall>x \<in> set c. t \<le> snd x)))"

lemma cache_ok_suffix: "cache_ok now (xs @ ys) \<Longrightarrow> cache_ok now ys"
  by (simp add: cache_ok_def sorted_append)

lemma cache_ok_expire:
  assumes "cache_ok now c" "now \<le> now'"
  shows "cache_ok now' (expire now' (c @ [(rnd, now')]))"
proof -
  let ?c = "c @ [(rnd, now')]"
  have "cache_ok now' ?c" using assms by (fastforce simp: cache_ok_def sorted_append)
  moreover from expire_split [of ?c now'] obtain old where "?c = old @ expire now' ?c" by blast
  ultimately show ?thesis by (metis cache_ok_suffix)
qed

lemma remembered_expire:
  assumes ok: "cache_ok now c" and le: "now \<le> now'" and p: "remembered now c p"
  shows "remembered now' (expire now' (c @ [(rnd, now')])) p"
proof -
  let ?c = "c @ [(rnd, now')]"
  from expire_split [of ?c now'] obtain old where split: "?c = old @ expire now' ?c"
    and old: "\<forall>x \<in> set old. snd x \<le> now' - MAX_CLIENT_RANDOM_CACHE_TIME" and ne: "expire now' ?c \<noteq> []"
    by blast
  have srt: "sorted (map snd ?c)" using ok le by (fastforce simp: cache_ok_def sorted_append)
  from p obtain t where t: "snd p \<le> t + 3" and
    cs: "(fst p, t) \<in> set c \<or> t + MAX_CLIENT_RANDOM_CACHE_TIME \<le> now \<and> (\<forall>x \<in> set c. t \<le> snd x)"
    by (auto simp: remembered_def)
  show ?thesis
  proof (cases "(fst p, t) \<in> set (expire now' ?c)")
    case False
    have "t + MAX_CLIENT_RANDOM_CACHE_TIME \<le> now' \<and> (\<forall>x \<in> set (expire now' ?c). t \<le> snd x)"
    proof (cases "(fst p, t) \<in> set c")
      case True
      with False split have "(fst p, t) \<in> set old" by (metis Un_iff set_append)
      moreover have "sorted (map snd old @ map snd (expire now' ?c))"
        using srt split by (metis map_append)
      ultimately show ?thesis using old by (fastforce simp: sorted_append)
    next
      case notin: False
      with cs le have "\<forall>x \<in> set ?c. t \<le> snd x" by (auto simp: MAX_CLIENT_RANDOM_CACHE_TIME_def)
      moreover have "set (expire now' ?c) \<subseteq> set ?c" using split by (metis Un_iff set_append subsetI)
      ultimately show ?thesis using notin cs le by auto
    qed
    with t ne show ?thesis by (auto simp: remembered_def)
  qed (use t in \<open>auto simp: remembered_def\<close>)
qed

lemma remembered_later: "remembered now c p \<Longrightarrow> now \<le> now' \<Longrightarrow> remembered now' c p"
  unfolding remembered_def by force

lemma cache_ok_later: "cache_ok now c \<Longrightarrow> now \<le> now' \<Longrightarrow> cache_ok now' c"
  unfolding cache_ok_def by fastforce

lemma gate_spec_keeps:
  assumes "cache_ok now c" "now \<le> now'" "r = (now', a, rnd, m)"
  shows "cache_ok now' (snd (gate_spec r c))"
    and "remembered now c p \<Longrightarrow> remembered now' (snd (gate_spec r c)) p"
  using assms
  by (simp_all add: gate_spec_def Let_def cache_ok_later remembered_later cache_ok_expire remembered_expire)

lemma gate_spec_accept_remembered:
  assumes "fst (gate_spec (now, a, rnd, Some ts) c)"
  shows "remembered now (snd (gate_spec (now, a, rnd, Some ts) c)) (take 16 rnd, ts)"
proof -
  let ?c = "expire now (c @ [(take 16 rnd, now)])"
  from assms have ts: "ts \<le> now + 3" and c': "snd (gate_spec (now, a, rnd, Some ts) c) = ?c"
    by (auto simp: gate_spec_def Let_def ts_allowed_def split: if_splits)
  from expire_split [of "c @ [(take 16 rnd, now)]" now] have "?c \<noteq> []" "last ?c = (take 16 rnd, now)" by auto
  then have "(take 16 rnd, now) \<in> set ?c" by (metis last_in_set)
  with ts c' show ?thesis by (auto simp: remembered_def)
qed

lemma gate_spec_rejects_remembered:
  assumes "remembered now c (take 16 rnd, ts)" and "cache_ok now c"
  shows "\<not> fst (gate_spec (now, a, rnd, Some ts) c)"
proof (cases "take 16 rnd \<in> fst ` set c")
  case False
  let ?c = "expire now (c @ [(take 16 rnd, now)])"
  have notin: "(take 16 rnd, t) \<notin> set c" for t using False by force
  with assms(1) obtain t where t: "ts \<le> t + 3" "t + MAX_CLIENT_RANDOM_CACHE_TIME \<le> now"
    "\<forall>x \<in> set c. t \<le> snd x" by (auto simp: remembered_def)
  from expire_split [of "c @ [(take 16 rnd, now)]" now] obtain old where
    split: "c @ [(take 16 rnd, now)] = old @ ?c" and ne: "?c \<noteq> []" by auto
  have "hd ?c \<in> set (old @ ?c)" using ne by simp
  then have "hd ?c \<in> set (c @ [(take 16 rnd, now)])" by (simp only: split [symmetric])
  with t have "t \<le> snd (hd ?c)" by (auto simp: MAX_CLIENT_RANDOM_CACHE_TIME_def)
  with t False show ?thesis
    by (auto simp: gate_spec_def Let_def ts_allowed_def MAX_CLIENT_RANDOM_CACHE_TIME_def
        MAX_ALLOWED_TIMESTAMP_ERROR_def)
qed (simp add: gate_spec_def)

definition req_now :: "request \<Rightarrow> int" where
  "req_now r = fst r"

lemma req_now_simp [simp]: "req_now (now, r) = now"
  by (simp add: req_now_def)

definition req_key :: "request \<Rightarrow> bytes \<times> int option" where
  "req_key r = (case r of (now, a, rnd, matched) \<Rightarrow> (take 16 rnd, matched))"

lemma gate_spec_remembers_run:
  assumes "sorted (now # map req_now reqs)" "cache_ok now c" "remembered now c (rnd, ts)"
    and "j < length reqs" "req_key (reqs ! j) = (rnd, Some ts)"
  shows "\<not> fst (arun gate_spec reqs c) ! j"
  using assms
proof (induction reqs arbitrary: now c j)
  case (Cons r reqs)
  obtain now' a rnd' m where r: "r = (now', a, rnd', m)" by (cases r) auto
  have le: "now \<le> now'" and srt: "sorted (now' # map req_now reqs)"
    using Cons.prems(1) by (simp_all add: r)
  note keep = gate_spec_keeps [OF Cons.prems(2) le r]
  show ?case
  proof (cases j)
    case 0
    with Cons.prems(5) have "take 16 rnd' = rnd" "m = Some ts" by (simp_all add: r req_key_def)
    with gate_spec_rejects_remembered [OF remembered_later [OF _ le]] Cons.prems(2,3) cache_ok_later [OF _ le]
    have "\<not> fst (gate_spec r c)" unfolding r by blast
    with 0 show ?thesis by (simp add: case_prod_beta Let_def)
  next
    case (Suc k)
    with Cons.IH [OF srt keep(1) keep(2) [OF Cons.prems(3)], of k] Cons.prems(4,5) show ?thesis
      by (simp add: case_prod_beta Let_def)
  qed
qed simp

lemma gate_spec_no_replay:
  assumes "sorted (now # map req_now reqs)" "cache_ok now c" "i < j" "j < length reqs"
    and "req_key (reqs ! i) = req_key (reqs ! j)" "fst (arun gate_spec reqs c) ! i"
  shows "\<not> fst (arun gate_spec reqs c) ! j"
  using assms
proof (induction reqs arbitrary: now c i j)
  case (Cons r reqs)
  obtain now' a rnd m where r: "r = (now', a, rnd, m)" by (cases r) auto
  have le: "now \<le> now'" and srt: "sorted (now' # map req_now reqs)"
    using Cons.prems(1) by (simp_all add: r)
  note ok = gate_spec_keeps(1) [OF Cons.prems(2) le r]
  from Cons.prems(3) obtain k where j: "j = Suc k" by (cases j) auto
  show ?case
  proof (cases i)
    case 0
    with Cons.prems(6) have acc: "fst (gate_spec r c)" by (simp add: case_prod_beta Let_def)
    then obtain ts where m: "m = Some ts"
      by (cases m) (auto simp: r gate_spec_def Let_def split: if_splits)
    have "\<not> fst (arun gate_spec reqs (snd (gate_spec r c))) ! k"
      by (rule gate_spec_remembers_run [OF srt ok])
         (use gate_spec_accept_remembered [of now' a rnd ts c] acc Cons.prems(4,5) 0 j in
           \<open>auto simp: r m req_key_def\<close>)
    with j show ?thesis by (simp add: case_prod_beta Let_def)
  next
    case (Suc i')
    with Cons.IH [OF srt ok, of i' k] Cons.prems(3-6) j show ?thesis
      by (simp add: case_prod_beta Let_def)
  qed
qed simp

text \<open>
  C2: Replay protection. Let any sequence of TLS handshakes arrive at a non-decreasing clock, with
  \<^verbatim>\<open>malloc\<close> returning unused addresses. Then every call of the cache functions returns (no assert
  fails, no unallocated entry is read and no traversal runs forever), and of two requests with the
  same client random (its 16 cached bytes) and the same timestamp at most one is accepted, however
  far apart they are and whatever has been expired in between.
\<close>

theorem replay_gate_no_replay:
  assumes "sorted (map req_now reqs)" and "run_pre gate_step malloc_fresh reqs cr_init"
  shows "\<exists>outs s'. run gate_step reqs cr_init = Some (outs, s') \<and> length outs = length reqs \<and>
    (\<forall>i j. i < j \<longrightarrow> j < length reqs \<longrightarrow> req_key (reqs ! i) = req_key (reqs ! j) \<longrightarrow>
       \<not> (outs ! i \<and> outs ! j))"
proof -
  have "cr_rel cr_init []"
    by (auto simp: cr_rel_def cr_inv_def cr_abs_def cr_init_def intro: exI [of _ "[]"])
  from gate.run_sim [OF this assms(2)] obtain s' where
    run: "run gate_step reqs cr_init = Some (fst (arun gate_spec reqs []), s')" by auto
  have len: "length (fst (arun gate_spec rs c)) = length rs" for rs c
    by (induction rs arbitrary: c) (simp_all add: case_prod_beta Let_def)
  define n0 where "n0 = (case reqs of [] \<Rightarrow> 0 | r # _ \<Rightarrow> req_now r)"
  have "sorted (n0 # map req_now reqs)" "cache_ok n0 []"
    using assms(1) by (cases reqs; auto simp: n0_def cache_ok_def)+
  then have "\<not> (fst (arun gate_spec reqs []) ! i \<and> fst (arun gate_spec reqs []) ! j)"
    if "i < j" "j < length reqs" "req_key (reqs ! i) = req_key (reqs ! j)" for i j
    using gate_spec_no_replay that by blast
  with run len show ?thesis by blast
qed

declare find_random.simps [code] find_loc.simps [code] delete_old_client_randoms.simps [code]

definition sample_reqs :: "request list" where
  "sample_reqs = [(1000, 1, replicate 32 7, Some 990), (1001, 2, replicate 32 7, Some 990),
     (200000, 3, replicate 32 8, Some 199999), (200001, 1, replicate 32 7, Some 990)]"

lemma sample_reqs_pre: "run_pre gate_step malloc_fresh sample_reqs cr_init"
  by code_simp

lemma sample_reqs_run: "map_option fst (run gate_step sample_reqs cr_init) = Some [True, False, True, False]"
  by code_simp

theorem replay_gate_no_replay_witness:
  "\<exists>outs s'. run gate_step sample_reqs cr_init = Some (outs, s') \<and> length outs = 4 \<and> outs ! 0 \<and>
     \<not> (outs ! 0 \<and> outs ! 3)"
proof -
  have "sorted (map req_now sample_reqs)" by (simp add: sample_reqs_def)
  from replay_gate_no_replay [OF this sample_reqs_pre] obtain outs s' where
    run: "run gate_step sample_reqs cr_init = Some (outs, s')" and len: "length outs = 4"
    and nr: "\<And>i j. i < j \<Longrightarrow> j < 4 \<Longrightarrow> req_key (sample_reqs ! i) = req_key (sample_reqs ! j) \<Longrightarrow> \<not> (outs ! i \<and> outs ! j)"
    by (auto simp: sample_reqs_def)
  have "\<not> (outs ! 0 \<and> outs ! 3)" by (rule nr) (simp_all add: sample_reqs_def req_key_def)
  with run len sample_reqs_run show ?thesis by auto
qed

subsection \<open>The bucket index\<close>

lemma get_client_random_bucket_eq:
  "get_client_random_bucket rnd =
     push_bit 6 (unat (rnd ! 0) AND mask 8) OR (unat (rnd ! 1) AND mask 6)"
  by (simp add: get_client_random_bucket_def RANDOM_HASH_BITS_def bucket_id.simps)

text \<open>
  The bucket index of a client random lies in the table: the assert of
  \<^verbatim>\<open>get_client_random_bucket\<close> never fails.
\<close>

theorem get_client_random_bucket_less: "get_client_random_bucket rnd < 2 ^ RANDOM_HASH_BITS"
proof -
  have "take_bit 14 (get_client_random_bucket rnd) = get_client_random_bucket rnd"
    by (simp add: get_client_random_bucket_eq take_bit_or take_bit_push_bit flip: take_bit_eq_mask)
  then have "get_client_random_bucket rnd < 2 ^ 14" by (simp only: take_bit_nat_eq_self_iff)
  then show ?thesis by (simp add: RANDOM_HASH_BITS_def)
qed

end
