(* ===== verification/Tls_Parse.thy ===== *)
theory Tls_Parse
  imports Prelude
begin

text \<open>
  The TLS parsers of \<^verbatim>\<open>src/src/net/net-tls-parse.c\<close>: the two-byte length reader, the validator of an
  upstream ServerHello, the SNI extractor and the cipher-suite scan of a ClientHello.

  A buffer \<^verbatim>\<open>(data, len)\<close> of the code is the list of its \<open>len\<close> bytes. Every read is a checked
  read, so a result other than \<open>None\<close> means that the parser stayed inside the buffer.
\<close>

subsection \<open>Reading a length\<close>

definition tls_read_length :: "bytes \<Rightarrow> int \<Rightarrow> int option" where
  "tls_read_length data pos = do {
     hi \<leftarrow> rd data pos;
     lo \<leftarrow> rd data (pos + 1);
     Some (uint hi * 256 + uint lo)
   }"

lemma tls_read_length_bounds:
  "tls_read_length data pos = Some n \<Longrightarrow> 0 \<le> n \<and> n < 65536"
proof -
  assume "tls_read_length data pos = Some n"
  then obtain hi lo :: byte where "n = uint hi * 256 + uint lo"
    by (auto simp: tls_read_length_def split: bind_splits)
  then show ?thesis
    using uint_byte_bounds [of hi] uint_byte_bounds [of lo] by linarith
qed

subsection \<open>ServerHello validation\<close>

datatype sh_fail =
    Too_short | Non_TLS | Short_hello | Non_TLS_2 | Non_TLS_3 | Hello_retry | Empty_session_id
  | Non_TLS_4 | Short_hello_2 | Not_mirrored | Bad_cipher | Wrong_extensions_length
  | Unexpected_extension | Wrong_extension_length | Unexpected_extension_length
  | Duplicate_extensions | Wrong_extensions_list | No_change_cipher_spec | No_encrypted_records

text \<open>The three output parameters of \<^verbatim>\<open>tls_check_server_hello\<close>.\<close>

record sh_out =
  is_reversed_extension_order :: int
  encrypted_record_sizes :: "int list"
  encrypted_record_count :: int

definition MAX_ENCRYPTED_RECORDS :: int where
  "MAX_ENCRYPTED_RECORDS = 8"

definition hello_retry_random :: bytes where
  "hello_retry_random =
     [0xcf, 0x21, 0xad, 0x74, 0xe5, 0x9a, 0x61, 0x11, 0xbe, 0x1d, 0x8c, 0x02, 0x1e, 0x65, 0xb8, 0x91,
      0xc2, 0xa2, 0x11, 0x16, 0x7a, 0xbb, 0x8c, 0x5e, 0x07, 0x9e, 0x09, 0xe2, 0xc8, 0xa8, 0x33, 0x9c]"

text \<open>
  The loop over the extensions: \<open>ext_end\<close> is \<^verbatim>\<open>5 + server_hello_length\<close>. The result is the
  failure, or the position and the sum of the extension ids after the loop.
\<close>

function sh_extensions ::
  "bytes \<Rightarrow> int \<Rightarrow> int \<Rightarrow> int \<Rightarrow> sh_out \<Rightarrow> ((sh_fail + int \<times> int) \<times> sh_out) option" where
  "sh_extensions response ext_end pos ext_sum out =
     (if pos < ext_end - 4 then do {
        extension_id \<leftarrow> tls_read_length response pos;
        if extension_id \<noteq> 0x33 \<and> extension_id \<noteq> 0x2b then Some (Inl Unexpected_extension, out)
        else do {
          let out = (if pos + 2 = 83
                     then out\<lparr>is_reversed_extension_order := (if extension_id = 0x2b then 1 else 0)\<rparr>
                     else out);
          extension_length \<leftarrow> tls_read_length response (pos + 2);
          if pos + 4 + extension_length > ext_end then Some (Inl Wrong_extension_length, out)
          else if extension_length \<noteq> (if extension_id = 0x33 then 36 else 2)
          then Some (Inl Unexpected_extension_length, out)
          else sh_extensions response ext_end (pos + 4 + extension_length) (ext_sum + extension_id) out
        }
      }
      else Some (Inr (pos, ext_sum), out))"
  by pat_completeness auto
termination
  by (relation "measure (\<lambda>(response, ext_end, pos, ext_sum, out). nat (ext_end - pos))") auto

declare sh_extensions.simps [simp del]

text \<open>The loop over the application-data records after ChangeCipherSpec.\<close>

function sh_records :: "bytes \<Rightarrow> int \<Rightarrow> sh_out \<Rightarrow> sh_out option" where
  "sh_records response pos out =
     (if pos + 5 \<le> int (length response) then do {
        m \<leftarrow> memeq response pos [0x17, 0x03, 0x03];
        if \<not> m then Some out
        else do {
          rec_len \<leftarrow> tls_read_length response (pos + 3);
          if rec_len = 0 \<or> pos + 5 + rec_len > int (length response) then Some out
          else sh_records response (pos + 5 + rec_len)
            (out\<lparr>encrypted_record_sizes :=
                   (if encrypted_record_count out < MAX_ENCRYPTED_RECORDS
                    then (encrypted_record_sizes out)[nat (encrypted_record_count out) := rec_len]
                    else encrypted_record_sizes out),
                 encrypted_record_count := encrypted_record_count out + 1\<rparr>)
        }
      }
      else Some out)"
  by pat_completeness auto
termination
  by (relation "measure (\<lambda>(response, pos, out). nat (int (length response) - pos))")
     (auto dest: tls_read_length_bounds)

declare sh_records.simps [simp del]

text \<open>What follows the extension loop: the checks on its result, ChangeCipherSpec, the records.\<close>

definition sh_after_extensions ::
  "bytes \<Rightarrow> int \<Rightarrow> int \<Rightarrow> int \<Rightarrow> sh_out \<Rightarrow> ((sh_fail + unit) \<times> sh_out) option" where
  "sh_after_extensions response server_hello_length pos ext_sum out =
     (if ext_sum \<noteq> 0x33 + 0x2b then Some (Inl Duplicate_extensions, out) else
      if pos \<noteq> 5 + server_hello_length then Some (Inl Wrong_extensions_list, out) else
      if pos + 6 > int (length response) then Some (Inl Too_short, out) else do {
      ccs \<leftarrow> memeq response pos [0x14, 0x03, 0x03, 0x00, 0x01, 0x01];
      if \<not> ccs then Some (Inl No_change_cipher_spec, out) else do {
      out \<leftarrow> sh_records response (pos + 6) (out\<lparr>encrypted_record_count := 0\<rparr>);
      if encrypted_record_count out = 0 then Some (Inl No_encrypted_records, out)
      else Some (Inr (), out)
      }})"

definition tls_check_server_hello ::
  "bytes \<Rightarrow> bytes \<Rightarrow> sh_out \<Rightarrow> ((sh_fail + unit) \<times> sh_out) option" where
  "tls_check_server_hello response request_session_id out =
     (let len = int (length response) in
      if 0 + 3 > len then Some (Inl Too_short, out) else do {
      tls \<leftarrow> memeq response 0 [0x16, 0x03, 0x03];
      if \<not> tls then Some (Inl Non_TLS, out) else
      if 3 + 2 > len then Some (Inl Too_short, out) else do {
      server_hello_length \<leftarrow> tls_read_length response 3;
      if server_hello_length \<le> 39 then Some (Inl Short_hello, out) else
      if 5 + server_hello_length > len then Some (Inl Too_short, out) else do {
      tls2 \<leftarrow> memeq response 5 [0x02, 0x00];
      if \<not> tls2 then Some (Inl Non_TLS_2, out) else do {
      tls3 \<leftarrow> memeq response 9 [0x03, 0x03];
      if \<not> tls3 then Some (Inl Non_TLS_3, out) else do {
      retry \<leftarrow> memeq response 11 hello_retry_random;
      if retry then Some (Inl Hello_retry, out) else do {
      sid_len \<leftarrow> rd response 43;
      if sid_len = 0 then Some (Inl Empty_session_id, out) else do {
      tls4 \<leftarrow> memeq response 43 [0x20];
      if \<not> tls4 then Some (Inl Non_TLS_4, out) else
      if server_hello_length \<le> 75 then Some (Inl Short_hello_2, out) else do {
      mirrored \<leftarrow> memeq response 44 request_session_id;
      if \<not> mirrored then Some (Inl Not_mirrored, out) else do {
      cipher \<leftarrow> memeq response 76 [0x13, 0x01, 0x00];
      if \<not> cipher then Some (Inl Bad_cipher, out) else do {
      extensions_length \<leftarrow> tls_read_length response 79;
      if extensions_length + 76 \<noteq> server_hello_length then Some (Inl Wrong_extensions_length, out)
      else do {
      (res, out) \<leftarrow> sh_extensions response (5 + server_hello_length) 81 0 out;
      case res of
        Inl e \<Rightarrow> Some (Inl e, out)
      | Inr (pos, ext_sum) \<Rightarrow>
          sh_after_extensions response server_hello_length pos ext_sum out
      }}}}}}}}}}})"

subsection \<open>SNI extraction\<close>

text \<open>
  The extension loop of \<^verbatim>\<open>tls_parse_sni\<close>. \<open>Some None\<close> is the return value \<open>-1\<close>; \<open>Some (Some d)\<close> is
  success: \<open>d\<close> is what was copied to \<^verbatim>\<open>out_domain\<close> before the terminating NUL and its length is the
  value returned. The scan for NUL bytes and the copy read the block \<open>[pos, pos + domain_length)\<close>.
\<close>

function sni_extensions :: "bytes \<Rightarrow> int \<Rightarrow> int \<Rightarrow> bytes option option" where
  "sni_extensions client_hello pos max_domain_len =
     (let len = int (length client_hello) in
      if pos + 4 > len then Some None else do {
      extension_id \<leftarrow> tls_read_length client_hello pos;
      extension_length \<leftarrow> tls_read_length client_hello (pos + 2);
      if pos + 4 + extension_length > len then Some None else
      if extension_id = 0 then
        (if pos + 4 + 5 > len then Some None else do {
         inner_length \<leftarrow> tls_read_length client_hello (pos + 4);
         if inner_length \<noteq> extension_length - 2 then Some None else do {
         name_type \<leftarrow> rd client_hello (pos + 6);
         if name_type \<noteq> 0 then Some None else do {
         domain_length \<leftarrow> tls_read_length client_hello (pos + 7);
         if domain_length \<noteq> extension_length - 5 then Some None else do {
         domain \<leftarrow> rd_block client_hello (pos + 9) (nat domain_length);
         if 0 \<in> set domain then Some None else
         if domain_length \<ge> max_domain_len \<or> domain_length \<le> 0 then Some None
         else Some (Some domain)
         }}}})
      else sni_extensions client_hello (pos + 4 + extension_length) max_domain_len
      })"
  by pat_completeness auto
termination
  by (relation "measure (\<lambda>(client_hello, pos, m). nat (int (length client_hello) - pos))")
     (auto dest: tls_read_length_bounds)

declare sni_extensions.simps [simp del]

definition tls_parse_sni :: "bytes \<Rightarrow> int \<Rightarrow> bytes option option" where
  "tls_parse_sni client_hello max_domain_len =
     (let len = int (length client_hello); pos = 11 + 32 + 1 + 32 in
      if pos + 2 > len then Some None else do {
      cipher_suites_length \<leftarrow> tls_read_length client_hello pos;
      if pos + 2 + (cipher_suites_length + 4) > len then Some None
      else sni_extensions client_hello (pos + 2 + (cipher_suites_length + 4)) max_domain_len
      })"

subsection \<open>Cipher suites of a ClientHello\<close>

text \<open>The GREASE-skipping loop: the remaining length and the position it stops at.\<close>

function skip_grease :: "bytes \<Rightarrow> int \<Rightarrow> int \<Rightarrow> (int \<times> int) option" where
  "skip_grease client_hello cipher_suites_length pos =
     (if cipher_suites_length \<ge> 2 then do {
        b0 \<leftarrow> rd client_hello pos;
        if b0 AND 0x0F \<noteq> 0x0A then Some (cipher_suites_length, pos) else do {
        b1 \<leftarrow> rd client_hello (pos + 1);
        if b1 AND 0x0F \<noteq> 0x0A then Some (cipher_suites_length, pos)
        else skip_grease client_hello (cipher_suites_length - 2) (pos + 2)
        }}
      else Some (cipher_suites_length, pos))"
  by pat_completeness auto
termination
  by (relation "measure (\<lambda>(client_hello, n, pos). nat n)") auto

declare skip_grease.simps [simp del]

definition tls_parse_client_hello_ciphers :: "bytes \<Rightarrow> byte option option" where
  "tls_parse_client_hello_ciphers client_hello =
     (let len = int (length client_hello); pos = 76 in
      if pos + 2 > len then Some None else do {
      cipher_suites_length \<leftarrow> tls_read_length client_hello pos;
      if pos + 2 + cipher_suites_length > len then Some None else do {
      (cipher_suites_length, pos) \<leftarrow> skip_grease client_hello cipher_suites_length (pos + 2);
      if cipher_suites_length \<le> 1 then Some None else do {
      b0 \<leftarrow> rd client_hello pos;
      if b0 \<noteq> 0x13 then Some None else do {
      b1 \<leftarrow> rd client_hello (pos + 1);
      if b1 < 0x01 then Some None else
      if b1 > 0x03 then Some None
      else Some (Some b1)
      }}}})"

subsection \<open>Reads stay inside the buffer\<close>

lemma tls_read_length_Some [safe_reads]:
  "0 \<le> pos \<Longrightarrow> pos + 2 \<le> int (length data)
   \<Longrightarrow> tls_read_length data pos = Some (uint (data ! nat pos) * 256 + uint (data ! nat (pos + 1)))"
  by (simp add: tls_read_length_def safe_reads)

lemma no_fault_tls_read_length [no_fault_intros]:
  "0 \<le> pos \<Longrightarrow> pos + 2 \<le> int (length data) \<Longrightarrow> no_fault (tls_read_length data pos)"
  by (simp add: safe_reads)

lemma sh_extensions_no_fault:
  "0 \<le> pos \<Longrightarrow> ext_end \<le> int (length response)
   \<Longrightarrow> no_fault (sh_extensions response ext_end pos ext_sum out)"
proof (induction response ext_end pos ext_sum out rule: sh_extensions.induct)
  case (1 response ext_end pos ext_sum out)
  show ?case
    by (subst sh_extensions.simps, intro no_fault_intros "1.IH")
       (use "1.prems" in \<open>auto split: if_splits\<close>)
qed

lemma sh_records_no_fault: "0 \<le> pos \<Longrightarrow> no_fault (sh_records response pos out)"
proof (induction response pos out rule: sh_records.induct)
  case (1 response pos out)
  show ?case
    by (subst sh_records.simps, intro no_fault_intros "1.IH")
       (use "1.prems" in \<open>auto dest: tls_read_length_bounds\<close>)
qed

lemma sh_extensions_done:
  "\<not> pos < ext_end - 4
   \<Longrightarrow> sh_extensions response ext_end pos ext_sum out = Some (Inr (pos, ext_sum), out)"
  by (subst sh_extensions.simps) simp

lemma sh_extensions_stepE:
  assumes "sh_extensions response ext_end pos ext_sum out = Some (Inr r, out')"
    and "pos < ext_end - 4"
  obtains extension_id n where "extension_id \<in> {0x33, 0x2b}" "n \<in> {36, 2}"
    and "sh_extensions response ext_end (pos + 4 + n) (ext_sum + extension_id)
           (if pos + 2 = 83
            then out\<lparr>is_reversed_extension_order := if extension_id = 0x2b then 1 else 0\<rparr>
            else out) = Some (Inr r, out')"
proof -
  from assms obtain extension_id n where
    "tls_read_length response pos = Some extension_id"
    "tls_read_length response (pos + 2) = Some n"
    by (subst (asm) sh_extensions.simps) (simp add: Let_def split: bind_splits if_splits)
  with assms show thesis
    by (subst (asm) sh_extensions.simps)
       (rule that [of extension_id n]; simp add: Let_def split: if_splits)
qed

lemma sh_extensions_later:
  "sh_extensions response ext_end pos ext_sum out = Some (Inr (pos', s), out') \<Longrightarrow> 81 < pos
   \<Longrightarrow> pos \<le> pos' \<and> out' = out"
proof (induction "nat (ext_end - pos)" arbitrary: pos ext_sum rule: less_induct)
  case less
  show ?case
  proof (cases "pos < ext_end - 4")
    case True
    with less.prems show ?thesis
    proof (rule_tac sh_extensions_stepE [OF less.prems(1) True])
      fix extension_id n :: int
      assume n: "n \<in> {36, 2}"
        and "sh_extensions response ext_end (pos + 4 + n) (ext_sum + extension_id)
               (if pos + 2 = 83
                then out\<lparr>is_reversed_extension_order := if extension_id = 0x2b then 1 else 0\<rparr>
                else out) = Some (Inr (pos', s), out')"
      with True less.prems less.hyps [of "pos + 4 + n" "ext_sum + extension_id"]
      show ?thesis by auto
    qed
  next
    case False
    with less.prems show ?thesis by (simp add: sh_extensions_done)
  qed
qed

text \<open>The first extension (at offset 81) decides the order flag; an empty list leaves the sum at 0.\<close>

lemma sh_extensions_first:
  assumes "sh_extensions response ext_end 81 0 out = Some (Inr (pos', s), out')" and "s \<noteq> 0"
  shows "81 \<le> pos' \<and> (\<exists>r \<in> {0, 1}. out' = out\<lparr>is_reversed_extension_order := r\<rparr>)"
proof -
  from assms have "81 < ext_end - 4"
    by (rule_tac ccontr) (simp add: sh_extensions_done)
  from assms(1) this show ?thesis
    by (rule sh_extensions_stepE) (auto dest!: sh_extensions_later)
qed

lemma length_hello_retry_random: "length hello_retry_random = 32"
  by (simp add: hello_retry_random_def)

text \<open>
  whatever an upstream server sends, \<^verbatim>\<open>tls_check_server_hello\<close> returns without reading outside
  the \<open>len\<close> bytes of the response (the session id it compares with has its 32 bytes).
\<close>

theorem tls_check_server_hello_no_oob:
  assumes "length request_session_id = 32"
  shows "no_fault (tls_check_server_hello response request_session_id out)"
  unfolding tls_check_server_hello_def sh_after_extensions_def
  by (intro no_fault_intros sh_extensions_no_fault sh_records_no_fault)
     (use assms in \<open>simp_all add: length_hello_retry_random\<close>)

subsection \<open>What an accepted ServerHello guarantees\<close>

text \<open>
  The invariant of the record loop: the sizes noted so far are positive, and they and the record
  headers lie before the current position.
\<close>

definition noted :: "sh_out \<Rightarrow> int list" where
  "noted out = take (nat (min (encrypted_record_count out) MAX_ENCRYPTED_RECORDS))
                 (encrypted_record_sizes out)"

definition records_inv :: "int \<Rightarrow> sh_out \<Rightarrow> bool" where
  "records_inv pos out \<longleftrightarrow>
     length (encrypted_record_sizes out) = 8 \<and> 0 \<le> encrypted_record_count out \<and>
     (\<forall>n \<in> set (noted out). 0 < n) \<and>
     5 * encrypted_record_count out + sum_list (noted out) \<le> pos"

lemma noted_push:
  assumes "length (encrypted_record_sizes out) = 8" and "0 \<le> encrypted_record_count out"
    and "encrypted_record_count out < MAX_ENCRYPTED_RECORDS"
  shows "noted (out\<lparr>encrypted_record_sizes :=
                      (encrypted_record_sizes out)[nat (encrypted_record_count out) := n],
                    encrypted_record_count := encrypted_record_count out + 1\<rparr>)
         = noted out @ [n]"
proof -
  from assms obtain k where k: "encrypted_record_count out = int k" "k < 8"
    by (metis MAX_ENCRYPTED_RECORDS_def nonneg_int_cases of_nat_less_iff of_nat_numeral)
  then have "nat (int k + 1) = Suc k" by simp
  with k assms show ?thesis
    by (simp add: noted_def MAX_ENCRYPTED_RECORDS_def take_Suc_conv_app_nth)
qed

lemma records_inv_push:
  assumes "records_inv pos out" and "0 < n"
  shows "records_inv (pos + 5 + n)
           (out\<lparr>encrypted_record_sizes :=
                   (if encrypted_record_count out < MAX_ENCRYPTED_RECORDS
                    then (encrypted_record_sizes out)[nat (encrypted_record_count out) := n]
                    else encrypted_record_sizes out),
                encrypted_record_count := encrypted_record_count out + 1\<rparr>)"
proof (cases "encrypted_record_count out < MAX_ENCRYPTED_RECORDS")
  case True
  with assms show ?thesis
    by (auto simp: records_inv_def noted_push)
next
  case False
  then have "noted (out\<lparr>encrypted_record_count := encrypted_record_count out + 1\<rparr>) = noted out"
    by (simp add: noted_def)
  with False assms show ?thesis
    by (auto simp: records_inv_def)
qed

lemma sh_records_inv:
  "sh_records response pos out = Some out' \<Longrightarrow> records_inv pos out \<Longrightarrow> pos \<le> int (length response)
   \<Longrightarrow> records_inv (int (length response)) out' \<and>
       is_reversed_extension_order out' = is_reversed_extension_order out"
proof (induction response pos out rule: sh_records.induct)
  case (1 response pos out)
  have weaken: "records_inv (int (length response)) out"
    using "1.prems" by (auto simp: records_inv_def)
  show ?case
  proof (cases "sh_records response pos out = Some out")
    case True
    with "1.prems" weaken show ?thesis by simp
  next
    case False
    then obtain n where n: "tls_read_length response (pos + 3) = Some n" "n \<noteq> 0"
      and fits: "pos + 5 + n \<le> int (length response)"
      and m: "pos + 5 \<le> int (length response)" "memeq response pos [0x17, 0x03, 0x03] = Some True"
      using "1.prems"(1)
      by (subst (asm) (1 2) sh_records.simps) (auto split: bind_splits if_splits)
    from n have "0 < n" by (auto dest: tls_read_length_bounds)
    with "1.IH" [OF m(1) m(2) _ n(1)] n fits m "1.prems" show ?thesis
      by (subst (asm) (2) sh_records.simps) (auto simp: records_inv_push)
  qed
qed

lemma tls_check_server_hello_acceptE:
  assumes "tls_check_server_hello response request_session_id out = Some (Inr (), out')"
  obtains n out1 where
    "sh_extensions response (81 + n) 81 0 out = Some (Inr (81 + n, 0x33 + 0x2b), out1)"
    and "87 + n \<le> int (length response)"
    and "sh_records response (87 + n) (out1\<lparr>encrypted_record_count := 0\<rparr>) = Some out'"
    and "encrypted_record_count out' \<noteq> 0"
    and "0 \<le> n"
proof -
  from assms obtain n r out1 where n: "\<not> 1 + n \<le> 0"
    and ext: "sh_extensions response (81 + n) 81 0 out = Some (r, out1)"
    and after: "(case r of Inl e \<Rightarrow> Some (Inl e, out1)
                 | Inr (pos, s) \<Rightarrow> sh_after_extensions response (n + 76) pos s out1)
                = Some (Inr (), out')"
    by (auto simp: tls_check_server_hello_def Let_def bind_eq_Some_conv split: if_splits)
  then obtain pos s where r: "r = Inr (pos, s)" by (cases r) auto
  with after ext n show thesis
    by (rule_tac that [of n out1])
       (auto simp: sh_after_extensions_def bind_eq_Some_conv split: if_splits)
qed

text \<open>
  when \<^verbatim>\<open>tls_check_server_hello\<close> returns 1, the extension-order flag has been set to 0 or 1, at
  least one encrypted record was seen, every noted record size is positive, and the noted records
  with their 5-byte headers lie inside the response. The first two are what \<^verbatim>\<open>update_domain_info\<close>
  asserts after the call.
\<close>

theorem tls_check_server_hello_accept:
  assumes acc: "tls_check_server_hello response request_session_id out = Some (Inr (), out')"
    and "length (encrypted_record_sizes out) = 8"
  shows "is_reversed_extension_order out' \<in> {0, 1} \<and> 0 < encrypted_record_count out' \<and>
         (\<forall>n \<in> set (noted out'). 0 < n) \<and>
         5 * encrypted_record_count out' + sum_list (noted out') \<le> int (length response)"
proof -
  from acc obtain n out1 where
    ext: "sh_extensions response (81 + n) 81 0 out = Some (Inr (81 + n, 0x33 + 0x2b), out1)"
    and n: "87 + n \<le> int (length response)" "0 \<le> n"
    and recs: "sh_records response (87 + n) (out1\<lparr>encrypted_record_count := 0\<rparr>) = Some out'"
    and "encrypted_record_count out' \<noteq> 0"
    by (rule tls_check_server_hello_acceptE)
  from sh_extensions_first [OF ext] obtain r where r: "r \<in> {0, 1}"
    and out1: "out1 = out\<lparr>is_reversed_extension_order := r\<rparr>" by auto
  have "records_inv (87 + n) (out1\<lparr>encrypted_record_count := 0\<rparr>)"
    using assms(2) n by (simp add: records_inv_def noted_def out1)
  from sh_records_inv [OF recs this n(1)] r out1 \<open>encrypted_record_count out' \<noteq> 0\<close>
  show ?thesis
    by (auto simp: records_inv_def)
qed

subsection \<open>SNI and cipher suites\<close>

lemma sni_extensions_no_fault: "0 \<le> pos \<Longrightarrow> no_fault (sni_extensions client_hello pos m)"
proof (induction client_hello pos m rule: sni_extensions.induct)
  case (1 client_hello pos m)
  show ?case
    by (subst sni_extensions.simps, intro no_fault_intros "1.IH")
       (use "1.prems" in \<open>auto dest: tls_read_length_bounds\<close>)
qed

text \<open>
  \<^verbatim>\<open>tls_parse_sni\<close> never reads outside the ClientHello it is given.
\<close>

theorem tls_parse_sni_no_oob: "no_fault (tls_parse_sni client_hello max_domain_len)"
  unfolding tls_parse_sni_def
  by (intro no_fault_intros sni_extensions_no_fault) (auto dest: tls_read_length_bounds)

lemma sni_extensions_result:
  "sni_extensions client_hello pos m = Some (Some d) \<Longrightarrow>
     0 \<notin> set d \<and> 0 < length d \<and> int (length d) < m \<and>
     (\<exists>i. rd_block client_hello i (length d) = Some d)"
proof (induction client_hello pos m rule: sni_extensions.induct)
  case (1 client_hello pos m)
  from "1.prems" consider (here) n where
      "rd_block client_hello (pos + 9) (nat n) = Some d" "0 \<notin> set d" "n < m" "0 < n"
    | (later) i n where "\<not> pos + 4 > int (length client_hello)"
      "tls_read_length client_hello pos = Some i" "i \<noteq> 0"
      "tls_read_length client_hello (pos + 2) = Some n"
      "\<not> pos + 4 + n > int (length client_hello)"
      "sni_extensions client_hello (pos + 4 + n) m = Some (Some d)"
    by (subst (asm) sni_extensions.simps)
       (auto simp: Let_def bind_eq_Some_conv not_le split: if_splits)
  then show ?case
  proof cases
    case here
    moreover from here have "length d = nat n" by (auto dest: length_rd_block)
    ultimately show ?thesis by auto
  next
    case later
    then show ?thesis using "1.IH" by blast
  qed
qed

text \<open>
  a domain that \<^verbatim>\<open>tls_parse_sni\<close> returns is a non-empty block of the ClientHello without NUL
  bytes, and it is shorter than the output buffer, so the terminating NUL fits too.
\<close>

theorem tls_parse_sni_result:
  assumes "tls_parse_sni client_hello max_domain_len = Some (Some d)"
  shows "0 \<notin> set d \<and> 0 < length d \<and> int (length d) < max_domain_len \<and>
         (\<exists>i. rd_block client_hello i (length d) = Some d)"
  using assms
  by (auto simp: tls_parse_sni_def Let_def bind_eq_Some_conv split: if_splits
           dest!: sni_extensions_result)

lemma skip_grease_no_fault:
  "0 \<le> pos \<Longrightarrow> pos + n \<le> int (length client_hello) \<Longrightarrow> no_fault (skip_grease client_hello n pos)"
proof (induction client_hello n pos rule: skip_grease.induct)
  case (1 client_hello n pos)
  show ?case
    by (subst skip_grease.simps, intro no_fault_intros)
       (use "1.prems" in \<open>auto intro!: "1.IH"\<close>)
qed

lemma skip_grease_bounds:
  "skip_grease client_hello n pos = Some (n', pos') \<Longrightarrow> pos' + n' = pos + n \<and> pos \<le> pos'"
proof (induction client_hello n pos rule: skip_grease.induct)
  case (1 client_hello n pos)
  from "1.prems" consider "n' = n" "pos' = pos"
    | x y where "2 \<le> n" "rd client_hello pos = Some x" "\<not> x AND 15 \<noteq> 10"
      "rd client_hello (pos + 1) = Some y" "\<not> y AND 15 \<noteq> 10"
      "skip_grease client_hello (n - 2) (pos + 2) = Some (n', pos')"
    by (subst (asm) skip_grease.simps) (auto simp: bind_eq_Some_conv split: if_splits)
  then show ?case
    by cases (use "1.IH" in fastforce)+
qed

text \<open>
  \<^verbatim>\<open>tls_parse_client_hello_ciphers\<close> never reads outside the ClientHello it is given.
\<close>

theorem tls_parse_client_hello_ciphers_no_oob:
  "no_fault (tls_parse_client_hello_ciphers client_hello)"
  unfolding tls_parse_client_hello_ciphers_def
  by (intro no_fault_intros skip_grease_no_fault)
     (auto dest!: tls_read_length_bounds skip_grease_bounds)

theorem tls_parse_client_hello_ciphers_result:
  "tls_parse_client_hello_ciphers client_hello = Some (Some suite) \<Longrightarrow> 1 \<le> suite \<and> suite \<le> 3"
  by (auto simp: tls_parse_client_hello_ciphers_def Let_def bind_eq_Some_conv split: if_splits
           intro: not_less [THEN iffD1])


subsection \<open>Concrete runs\<close>

definition sample_session_id :: bytes where
  "sample_session_id = replicate 32 7"

definition sample_out :: sh_out where
  "sample_out = \<lparr>is_reversed_extension_order = - 1, encrypted_record_sizes = replicate 8 0,
                 encrypted_record_count = 0\<rparr>"

text \<open>A ServerHello with the key-share and version extensions and two application-data records.\<close>

definition sample_response :: bytes where
  "sample_response =
     [0x16, 0x03, 0x03, 0x00, 0x7a, 0x02, 0x00, 0x00, 0x76, 0x03, 0x03] @ replicate 32 1 @ [0x20] @
     sample_session_id @ [0x13, 0x01, 0x00, 0x00, 0x2e] @
     [0x00, 0x33, 0x00, 0x24] @ replicate 36 9 @ [0x00, 0x2b, 0x00, 0x02, 0x03, 0x04] @
     [0x14, 0x03, 0x03, 0x00, 0x01, 0x01] @
     [0x17, 0x03, 0x03, 0x00, 0x02, 5, 5] @ [0x17, 0x03, 0x03, 0x00, 0x01, 5]"

lemma sample_response_accepted:
  "tls_check_server_hello sample_response sample_session_id sample_out =
     Some (Inr (), \<lparr>is_reversed_extension_order = 0,
                    encrypted_record_sizes = [2, 1, 0, 0, 0, 0, 0, 0],
                    encrypted_record_count = 2\<rparr>)"
  by code_simp

theorem tls_check_server_hello_no_oob_witness:
  "no_fault (tls_check_server_hello sample_response sample_session_id sample_out)"
  by (rule tls_check_server_hello_no_oob) (simp add: sample_session_id_def)

theorem tls_check_server_hello_accept_witness:
  "5 * 2 + (2 + 1) \<le> int (length sample_response)"
  using tls_check_server_hello_accept [OF sample_response_accepted]
  by (simp add: sample_out_def noted_def MAX_ENCRYPTED_RECORDS_def)

definition sample_client_hello :: bytes where
  "sample_client_hello =
     [0x16, 0x03, 0x01, 0x02, 0x00, 0x01, 0x00, 0x01, 0xfc, 0x03, 0x03] @ replicate 32 1 @ [0x20] @
     replicate 32 7 @ [0x00, 0x04, 0x1a, 0x1a, 0x13, 0x02] @ [0x01, 0x00, 0x00, 0x0c] @
     [0x00, 0x00, 0x00, 0x08, 0x00, 0x06, 0x00, 0x00, 0x03, 0x61, 0x2e, 0x62]"

lemma sample_client_hello_sni:
  "tls_parse_sni sample_client_hello 256 = Some (Some [0x61, 0x2e, 0x62])"
  by code_simp

lemma sample_client_hello_cipher:
  "tls_parse_client_hello_ciphers sample_client_hello = Some (Some 2)"
  by code_simp

theorem tls_parse_sni_result_witness:
  "0 \<notin> set [0x61, 0x2e, 0x62 :: byte] \<and>
   (\<exists>i. rd_block sample_client_hello i 3 = Some [0x61, 0x2e, 0x62])"
  using tls_parse_sni_result [OF sample_client_hello_sni] by (simp add: numeral_3_eq_3)

end
