(* ===== verification/Public_Key.thy ===== *)
theory Public_Key
  imports Prelude
begin

text \<open>
  \<^verbatim>\<open>generate_public_key\<close> of \<^verbatim>\<open>src/src/net/net-tcp-rpc-ext-server.c\<close> with its helpers \<^verbatim>\<open>get_y2\<close> and
  \<^verbatim>\<open>get_double_x\<close>: a random x25519-like public key for the TLS messages that the proxy writes. OpenSSL's
  modular arithmetic is the record \<open>bn_ops\<close>; \<open>bn_spec\<close> is its documented behaviour. The outputs of
  \<^verbatim>\<open>RAND_bytes\<close> are an argument; a failed \<^verbatim>\<open>assert\<close> is \<open>None\<close>.
\<close>

subsection \<open>Public keys\<close>

record bn_ops =
  bn_mod_add :: "int \<Rightarrow> int \<Rightarrow> int \<Rightarrow> int"
  bn_mod_sub :: "int \<Rightarrow> int \<Rightarrow> int \<Rightarrow> int"
  bn_mod_mul :: "int \<Rightarrow> int \<Rightarrow> int \<Rightarrow> int"
  bn_mod_exp :: "int \<Rightarrow> int \<Rightarrow> int \<Rightarrow> int"
  bn_mod_inverse :: "int \<Rightarrow> int \<Rightarrow> int option"

definition bn_spec :: "bn_ops \<Rightarrow> bool" where
  "bn_spec bn \<longleftrightarrow>
     (\<forall>a b m. 0 < m \<longrightarrow>
        bn_mod_add bn a b m = (a + b) mod m \<and> bn_mod_sub bn a b m = (a - b) mod m \<and>
        bn_mod_mul bn a b m = (a * b) mod m) \<and>
     (\<forall>a e m. 0 < m \<longrightarrow> 0 \<le> e \<longrightarrow> bn_mod_exp bn a e m = (a ^ nat e) mod m) \<and>
     (\<forall>a m r. 0 < m \<longrightarrow> bn_mod_inverse bn a m = Some r \<longrightarrow>
        0 \<le> r \<and> r < m \<and> (a * r) mod m = 1 mod m)"

definition get_y2 :: "bn_ops \<Rightarrow> int \<Rightarrow> int \<Rightarrow> int" where
  "get_y2 bn x m =
     (let y = x;
          coef = 486662;
          y = bn_mod_add bn y coef m;
          y = bn_mod_mul bn y x m;
          coef = 1;
          y = bn_mod_add bn y coef m;
          y = bn_mod_mul bn y x m
      in y)"

definition get_double_x :: "bn_ops \<Rightarrow> int \<Rightarrow> int \<Rightarrow> int option" where
  "get_double_x bn x m =
     (let denominator = get_y2 bn x m;
          coef = 4;
          denominator = bn_mod_mul bn denominator coef m;
          numerator = bn_mod_mul bn x x m;
          coef = 1;
          numerator = bn_mod_sub bn numerator coef m;
          numerator = bn_mod_mul bn numerator numerator m
      in do {
        denominator \<leftarrow> bn_mod_inverse bn denominator m;
        let numerator = bn_mod_mul bn numerator denominator m;
        Some numerator
      })"

definition curve_mod :: int where
  "curve_mod = 0x7fffffffffffffffffffffffffffffffffffffffffffffffffffffffffffffed"

definition curve_pow :: int where
  "curve_pow = 0x3ffffffffffffffffffffffffffffffffffffffffffffffffffffffffffffff6"

text \<open>\<^verbatim>\<open>BN_bin2bn\<close> and \<^verbatim>\<open>BN_bn2bin\<close> (big endian), and \<^verbatim>\<open>BN_num_bytes\<close>.\<close>

definition bn_bin2bn :: "bytes \<Rightarrow> int" where
  "bn_bin2bn bs = foldl (\<lambda>acc b. acc * 256 + uint b) 0 bs"

function bn_bn2bin :: "int \<Rightarrow> bytes" where
  "bn_bn2bin x = (if x \<le> 0 then [] else bn_bn2bin (x div 256) @ [byte_of_int (x mod 256)])"
  by pat_completeness auto
termination
  by (relation "measure nat") auto

declare bn_bn2bin.simps [simp del]

text \<open>
  The rejection loop of \<^verbatim>\<open>generate_public_key\<close>. \<open>blocks\<close> are the successive 32-byte outputs of
  \<^verbatim>\<open>RAND_bytes\<close>; \<open>None\<close> when none of them is accepted.
\<close>

fun find_curve_point :: "bn_ops \<Rightarrow> bytes list \<Rightarrow> int option" where
  "find_curve_point bn [] = None"
| "find_curve_point bn (key # blocks) =
     (let key = key[31 := key ! 31 AND 127];
          x = bn_bin2bn key;
          x = bn_mod_mul bn x x curve_mod;
          y = get_y2 bn x curve_mod;
          r = bn_mod_exp bn y curve_pow curve_mod
      in if r = 1 then Some x else find_curve_point bn blocks)"

text \<open>\<^verbatim>\<open>memset\<close> of the leading bytes, \<^verbatim>\<open>BN_bn2bin\<close> behind them, and the byte reversal in place.\<close>

definition store_key :: "int \<Rightarrow> bytes option" where
  "store_key x =
     (let num_size = length (bn_bn2bin x) in
      if num_size \<le> 32 then Some (rev (replicate (32 - num_size) 0 @ bn_bn2bin x)) else None)"

definition generate_public_key :: "bn_ops \<Rightarrow> bytes list \<Rightarrow> bytes option" where
  "generate_public_key bn blocks = do {
     x \<leftarrow> find_curve_point bn blocks;
     x \<leftarrow> get_double_x bn x curve_mod;
     x \<leftarrow> get_double_x bn x curve_mod;
     x \<leftarrow> get_double_x bn x curve_mod;
     store_key x
   }"

subsection \<open>Key generation\<close>

lemma curve_mod_pos [simp]: "0 < curve_mod"
  by (simp add: curve_mod_def)

lemma bn_specD:
  assumes "bn_spec bn" "0 < m"
  shows "bn_mod_add bn a b m = (a + b) mod m"
    and "bn_mod_sub bn a b m = (a - b) mod m"
    and "bn_mod_mul bn a b m = (a * b) mod m"
  using assms by (auto simp: bn_spec_def)

lemma bn_spec_exp:
  "bn_spec bn \<Longrightarrow> 0 < m \<Longrightarrow> 0 \<le> e \<Longrightarrow> bn_mod_exp bn a e m = (a ^ nat e) mod m"
  by (simp add: bn_spec_def)

lemma bn_spec_inverse:
  assumes "bn_spec bn" "0 < m" "bn_mod_inverse bn a m = Some r"
  shows "0 \<le> r" "r < m" "(a * r) mod m = 1 mod m"
  using assms unfolding bn_spec_def by blast+

text \<open>\<^verbatim>\<open>get_y2\<close> evaluates the curve equation of its comment.\<close>

lemma get_y2_eq:
  assumes "bn_spec bn" "0 < m"
  shows "get_y2 bn x m = (x ^ 3 + 486662 * x ^ 2 + x) mod m"
proof -
  have "get_y2 bn x m = (((x + 486662) * x + 1) * x) mod m"
    by (simp add: get_y2_def Let_def bn_specD [OF assms] mod_simps)
       (metis mod_add_left_eq mod_mult_left_eq)
  also have "((x + 486662) * x + 1) * x = x ^ 3 + 486662 * x ^ 2 + x"
    by (simp add: algebra_simps power2_eq_square power3_eq_cube)
  finally show ?thesis .
qed

lemma bn_inverse_cancel:
  assumes "bn_spec bn" "0 < m" "bn_mod_inverse bn d m = Some r"
  shows "(d * ((n * r) mod m)) mod m = n mod m"
proof -
  have "(d * ((n * r) mod m)) mod m = (n * ((d * r) mod m)) mod m"
    by (simp add: mod_simps algebra_simps)
  then show ?thesis
    by (simp add: bn_spec_inverse(3) [OF assms] mod_simps)
qed

lemma get_double_x_eq:
  assumes "bn_spec bn" "0 < m" "get_double_x bn x m = Some x2"
  shows "0 \<le> x2 \<and> x2 < m \<and>
    (4 * (x ^ 3 + 486662 * x ^ 2 + x) * x2) mod m = ((x ^ 2 - 1) ^ 2) mod m"
proof -
  let ?d = "(get_y2 bn x m * 4) mod m"
  from assms(3) obtain r where r: "bn_mod_inverse bn ?d m = Some r"
    and x2: "x2 = (((x * x) mod m - 1) mod m * (((x * x) mod m - 1) mod m) mod m * r) mod m"
    by (auto simp: get_double_x_def Let_def bn_specD [OF assms(1,2)] bind_eq_Some_conv)
  have "(4 * (x ^ 3 + 486662 * x ^ 2 + x) * x2) mod m = (?d * x2) mod m"
    by (simp add: get_y2_eq [OF assms(1,2)] mod_simps mult.commute)
  also have "\<dots> = (((x * x) mod m - 1) mod m * (((x * x) mod m - 1) mod m) mod m) mod m"
    unfolding x2 by (rule bn_inverse_cancel [OF assms(1,2) r])
  also have "\<dots> = ((x ^ 2 - 1) ^ 2) mod m"
    by (simp add: mod_simps power2_eq_square)
  finally show ?thesis using assms(2) by (simp add: x2)
qed

lemma length_store_key: "store_key x = Some key \<Longrightarrow> length key = 32"
  by (auto simp: store_key_def Let_def split: if_splits)

lemma length_generate_public_key: "generate_public_key bn blocks = Some key \<Longrightarrow> length key = 32"
  by (auto simp: generate_public_key_def bind_eq_Some_conv length_store_key)

lemma length_bn_bn2bin: "x < 256 ^ n \<Longrightarrow> length (bn_bn2bin x) \<le> n"
proof (induction x arbitrary: n rule: bn_bn2bin.induct)
  case (1 x)
  show ?case
  proof (cases "x \<le> 0")
    case True
    then show ?thesis by (simp add: bn_bn2bin.simps)
  next
    case False
    with "1.prems" obtain k where n: "n = Suc k" by (cases n) auto
    with False "1.prems" have "x div 256 < 256 ^ k"
      by (simp add: div_less_iff_less_mult mult.commute)
    with False n "1.IH" [of k] show ?thesis by (simp add: bn_bn2bin.simps [of x])
  qed
qed

lemma bn_bin2bn_snoc: "bn_bin2bn (xs @ [b]) = bn_bin2bn xs * 256 + uint b"
  by (simp add: bn_bin2bn_def)

lemma bn_bin2bn_bn2bin: "0 \<le> x \<Longrightarrow> bn_bin2bn (bn_bn2bin x) = x"
proof (induction x rule: bn_bn2bin.induct)
  case (1 x)
  show ?case
  proof (cases "x \<le> 0")
    case True
    with "1.prems" show ?thesis by (simp add: bn_bn2bin.simps bn_bin2bn_def)
  next
    case False
    with 1 show ?thesis
      by (simp add: bn_bn2bin.simps [of x] bn_bin2bn_snoc uint_byte_of_int)
  qed
qed

lemma bn_bin2bn_zeros: "bn_bin2bn (replicate n 0 @ xs) = bn_bin2bn xs"
  by (induction n) (simp_all add: bn_bin2bn_def)

lemma store_key_Some:
  assumes "0 \<le> x" "x < curve_mod"
  shows "\<exists>key. store_key x = Some key \<and> bn_bin2bn (rev key) = x"
proof -
  from assms(2) have "x < 256 ^ 32" by (simp add: curve_mod_def)
  then have "length (bn_bn2bin x) \<le> 32" by (rule length_bn_bn2bin)
  then show ?thesis
    by (simp add: store_key_def Let_def bn_bin2bn_zeros bn_bin2bn_bn2bin assms(1))
qed

lemma bn_bin2bn_nonneg: "0 \<le> bn_bin2bn bs"
  by (induction bs rule: rev_induct) (simp_all add: bn_bin2bn_snoc, simp add: bn_bin2bn_def)

lemma bn_bin2bn_pos: "bs \<noteq> [] \<Longrightarrow> hd bs \<noteq> 0 \<Longrightarrow> 0 < bn_bin2bn bs"
proof (induction bs rule: rev_induct)
  case (snoc b bs)
  show ?case
  proof (cases "bs = []")
    case True
    with snoc.prems show ?thesis by (simp add: bn_bin2bn_def word_neq_0_conv word_less_def)
  next
    case False
    with snoc have "0 < bn_bin2bn bs" by simp
    with uint_byte_bounds(1) [of b] show ?thesis unfolding bn_bin2bn_snoc by linarith
  qed
qed simp

text \<open>A big-endian string without leading zeros is what \<^verbatim>\<open>BN_bn2bin\<close> writes for its value.\<close>

lemma bn_bn2bin_bin2bn: "bs \<noteq> [] \<Longrightarrow> hd bs \<noteq> 0 \<Longrightarrow> bn_bn2bin (bn_bin2bn bs) = bs"
proof (induction bs rule: rev_induct)
  case (snoc b bs)
  have b: "(n * 256 + uint b) div 256 = n" "byte_of_int ((n * 256 + uint b) mod 256) = b" for n
    by (simp_all add: byte_of_int_def)
  have "0 < bn_bin2bn (bs @ [b])" using snoc.prems by (intro bn_bin2bn_pos) auto
  then have "bn_bn2bin (bn_bin2bn (bs @ [b])) = bn_bn2bin (bn_bin2bn bs) @ [b]"
    by (subst bn_bn2bin.simps) (simp add: bn_bin2bn_snoc b byte_of_int_def)
  with snoc show ?case
    by (cases "bs = []") (simp_all add: bn_bin2bn_def bn_bn2bin.simps)
qed simp

text \<open>An accepted candidate passes Euler's criterion: the curve has a point over it.\<close>

lemma find_curve_point_Some:
  "bn_spec bn \<Longrightarrow> find_curve_point bn blocks = Some x
   \<Longrightarrow> (x ^ 3 + 486662 * x ^ 2 + x) ^ nat curve_pow mod curve_mod = 1"
  by (induction blocks)
     (auto simp: Let_def bn_spec_exp curve_pow_def get_y2_eq power_mod split: if_splits)

text \<open>
  The key that \<^verbatim>\<open>generate_public_key\<close> stores is 32 bytes long and holds, in little-endian order,
  a reduced residue obtained by three doublings: there are x-coordinates \<open>x0, x1, x2, x3\<close>, with \<open>x0\<close>
  an accepted candidate whose \<open>y\<^sup>2\<close> passes Euler's criterion, each being the doubling of its predecessor on the curve
  \<open>y\<^sup>2 = x\<^sup>3 + 486662 x\<^sup>2 + x\<close> (that is \<open>4 y\<^sup>2 x' = (x\<^sup>2 - 1)\<^sup>2\<close> modulo the prime), and the key encodes \<open>x3\<close>.
\<close>

theorem generate_public_key_doubles:
  assumes "bn_spec bn" and "generate_public_key bn blocks = Some key"
  shows "length key = 32 \<and>
    (\<exists>x0 x1 x2 x3. find_curve_point bn blocks = Some x0 \<and> bn_bin2bn (rev key) = x3 \<and>
       0 \<le> x3 \<and> x3 < curve_mod \<and>
       (x0 ^ 3 + 486662 * x0 ^ 2 + x0) ^ nat curve_pow mod curve_mod = 1 \<and>
       (4 * (x0 ^ 3 + 486662 * x0 ^ 2 + x0) * x1) mod curve_mod = ((x0 ^ 2 - 1) ^ 2) mod curve_mod \<and>
       (4 * (x1 ^ 3 + 486662 * x1 ^ 2 + x1) * x2) mod curve_mod = ((x1 ^ 2 - 1) ^ 2) mod curve_mod \<and>
       (4 * (x2 ^ 3 + 486662 * x2 ^ 2 + x2) * x3) mod curve_mod = ((x2 ^ 2 - 1) ^ 2) mod curve_mod)"
proof -
  from assms(2) obtain x0 x1 x2 x3 where x: "find_curve_point bn blocks = Some x0"
    "get_double_x bn x0 curve_mod = Some x1" "get_double_x bn x1 curve_mod = Some x2"
    "get_double_x bn x2 curve_mod = Some x3" and key: "store_key x3 = Some key"
    by (auto simp: generate_public_key_def bind_eq_Some_conv)
  note dbl = x(2-4) [THEN get_double_x_eq [OF assms(1) curve_mod_pos]]
  from dbl(3) store_key_Some [of x3] key have "bn_bin2bn (rev key) = x3" by auto
  with x(1) dbl show ?thesis
    using length_store_key [OF key] find_curve_point_Some [OF assms(1) x(1)] by blast
qed

end
