(* ===== verification/Client_Hello.thy ===== *)
theory Client_Hello
  imports Tls_Parse Public_Key
begin

text \<open>
  The TLS messages that \<^verbatim>\<open>src/src/net/net-tcp-rpc-ext-server.c\<close> writes: the probe ClientHello that
  \<^verbatim>\<open>create_request\<close> builds for a camouflage domain, and the ServerHello that answers a client of the
  proxy. A buffer that the code fills front to back through a position \<^verbatim>\<open>pos\<close> is the list of the
  bytes before \<^verbatim>\<open>pos\<close>; a failed \<^verbatim>\<open>assert\<close> is \<open>None\<close>. The outputs of \<^verbatim>\<open>RAND_bytes\<close> are arguments.
\<close>

subsection \<open>The probe ClientHello\<close>

definition TLS_REQUEST_LENGTH :: int where
  "TLS_REQUEST_LENGTH = 517"

definition add_string :: "bytes \<Rightarrow> bytes \<Rightarrow> bytes option" where
  "add_string data str =
     (if int (length str) + int (length data) \<le> TLS_REQUEST_LENGTH then Some (str @ data) else None)"

text \<open>\<open>rnd\<close> is what \<^verbatim>\<open>RAND_bytes\<close> stored.\<close>

definition add_random :: "bytes \<Rightarrow> bytes \<Rightarrow> bytes option" where
  "add_random rnd str =
     (if int (length str) + int (length rnd) \<le> TLS_REQUEST_LENGTH then Some (str @ rnd) else None)"

definition add_length :: "int \<Rightarrow> bytes \<Rightarrow> bytes option" where
  "add_length n str =
     (if int (length str) + 2 \<le> TLS_REQUEST_LENGTH
      then Some (str @ [byte_of_int (n div 256), byte_of_int (n mod 256)]) else None)"

definition add_grease :: "bytes \<Rightarrow> nat \<Rightarrow> bytes \<Rightarrow> bytes option" where
  "add_grease greases num str =
     (if int (length str) + 2 \<le> TLS_REQUEST_LENGTH
      then Some (str @ [greases ! num, greases ! num]) else None)"

definition add_public_key :: "bn_ops \<Rightarrow> bytes list \<Rightarrow> bytes \<Rightarrow> bytes option" where
  "add_public_key bn blocks str =
     (if int (length str) + 32 \<le> TLS_REQUEST_LENGTH then do {
        key \<leftarrow> generate_public_key bn blocks;
        Some (str @ key)
      } else None)"

definition grease_base :: "byte \<Rightarrow> byte" where
  "grease_base b = (b AND 0xF0) + 0x0A"

text \<open>The second loop: every odd position differs from its predecessor.\<close>

definition grease_fix :: "nat \<Rightarrow> bytes \<Rightarrow> bytes" where
  "grease_fix i gs = (if gs ! i = gs ! (i - 1) then gs[i := 0x10 XOR gs ! i] else gs)"

definition make_greases :: "bytes \<Rightarrow> bytes" where
  "make_greases rnd = fold grease_fix [1, 3, 5] (map grease_base rnd)"

text \<open>The \<^verbatim>\<open>RAND_bytes\<close> outputs that one call of \<^verbatim>\<open>create_request\<close> consumes.\<close>

record hello_rnd =
  rnd_greases :: bytes
  rnd_random :: bytes
  rnd_session :: bytes
  rnd_key_blocks :: "bytes list"

definition hello_rnd_ok :: "hello_rnd \<Rightarrow> bool" where
  "hello_rnd_ok r \<longleftrightarrow>
     length (rnd_greases r) = 7 \<and> length (rnd_random r) = 32 \<and> length (rnd_session r) = 32"

definition hello_suites :: bytes where
  "hello_suites =
     [0x13, 0x01, 0x13, 0x02, 0x13, 0x03, 0xc0, 0x2b, 0xc0, 0x2f, 0xc0, 0x2c, 0xc0, 0x30,
      0xcc, 0xa9, 0xcc, 0xa8, 0xc0, 0x13, 0xc0, 0x14, 0x00, 0x9c, 0x00, 0x9d, 0x00, 0x2f,
      0x00, 0x35, 0x00, 0x0a, 0x01, 0x00, 0x01, 0x91]"

definition hello_mid :: bytes where
  "hello_mid =
     [0x00, 0x1d, 0x00, 0x17, 0x00, 0x18, 0x00, 0x0b, 0x00, 0x02, 0x01, 0x00, 0x00, 0x23, 0x00, 0x00,
      0x00, 0x10, 0x00, 0x0e, 0x00, 0x0c, 0x02, 0x68, 0x32, 0x08, 0x68, 0x74, 0x74, 0x70, 0x2f, 0x31,
      0x2e, 0x31, 0x00, 0x05, 0x00, 0x05, 0x01, 0x00, 0x00, 0x00, 0x00, 0x00, 0x0d, 0x00, 0x14, 0x00,
      0x12, 0x04, 0x03, 0x08, 0x04, 0x04, 0x01, 0x05, 0x03, 0x08, 0x05, 0x05, 0x01, 0x08, 0x06, 0x06,
      0x01, 0x02, 0x01, 0x00, 0x12, 0x00, 0x00, 0x00, 0x33, 0x00, 0x2b, 0x00, 0x29]"

definition create_request :: "bn_ops \<Rightarrow> hello_rnd \<Rightarrow> bytes \<Rightarrow> bytes option" where
  "create_request bn r domain =
     (let greases = make_greases (rnd_greases r);
          domain_length = int (length domain)
      in do {
        s \<leftarrow> add_string [0x16, 0x03, 0x01, 0x02, 0x00, 0x01, 0x00, 0x01, 0xfc, 0x03, 0x03] [];
        s \<leftarrow> add_random (rnd_random r) s;
        s \<leftarrow> add_string [0x20] s;
        s \<leftarrow> add_random (rnd_session r) s;
        s \<leftarrow> add_string [0x00, 0x22] s;
        s \<leftarrow> add_grease greases 0 s;
        s \<leftarrow> add_string hello_suites s;
        s \<leftarrow> add_grease greases 2 s;
        s \<leftarrow> add_string [0x00, 0x00, 0x00, 0x00] s;
        s \<leftarrow> add_length (domain_length + 5) s;
        s \<leftarrow> add_length (domain_length + 3) s;
        s \<leftarrow> add_string [0x00] s;
        s \<leftarrow> add_length domain_length s;
        s \<leftarrow> add_string domain s;
        s \<leftarrow> add_string [0x00, 0x17, 0x00, 0x00, 0xff, 0x01, 0x00, 0x01, 0x00, 0x00, 0x0a, 0x00, 0x0a, 0x00, 0x08] s;
        s \<leftarrow> add_grease greases 4 s;
        s \<leftarrow> add_string hello_mid s;
        s \<leftarrow> add_grease greases 4 s;
        s \<leftarrow> add_string [0x00, 0x01, 0x00, 0x00, 0x1d, 0x00, 0x20] s;
        s \<leftarrow> add_public_key bn (rnd_key_blocks r) s;
        s \<leftarrow> add_string [0x00, 0x2d, 0x00, 0x02, 0x01, 0x01, 0x00, 0x2b, 0x00, 0x0b, 0x0a] s;
        s \<leftarrow> add_grease greases 6 s;
        s \<leftarrow> add_string [0x03, 0x04, 0x03, 0x03, 0x03, 0x02, 0x03, 0x01, 0x00, 0x1b, 0x00, 0x03, 0x02, 0x00, 0x02] s;
        s \<leftarrow> add_grease greases 3 s;
        s \<leftarrow> add_string [0x00, 0x01, 0x00, 0x00, 0x15] s;
        let padding_length = TLS_REQUEST_LENGTH - 2 - int (length s);
        if padding_length \<ge> 0 then do {
          s \<leftarrow> add_length padding_length s;
          Some (s @ replicate (nat TLS_REQUEST_LENGTH - length s) 0)
        } else None
      })"


subsection \<open>The layout of the probe\<close>

lemmas hello_adds = add_string_def add_random_def add_length_def add_grease_def add_public_key_def
  TLS_REQUEST_LENGTH_def

lemma length_hello_consts [simp]: "length hello_suites = 36" "length hello_mid = 77"
  by (simp_all add: hello_suites_def hello_mid_def)

definition be16 :: "int \<Rightarrow> bytes" where
  "be16 n = [byte_of_int (n div 256), byte_of_int (n mod 256)]"

text \<open>The bytes after the SNI extension, and the whole message.\<close>

definition hello_tail :: "bytes \<Rightarrow> bytes \<Rightarrow> nat \<Rightarrow> bytes" where
  "hello_tail greases key n =
     [0x00, 0x17, 0x00, 0x00, 0xff, 0x01, 0x00, 0x01, 0x00, 0x00, 0x0a, 0x00, 0x0a, 0x00, 0x08]
     @ [greases ! 4, greases ! 4] @ hello_mid @ [greases ! 4, greases ! 4]
     @ [0x00, 0x01, 0x00, 0x00, 0x1d, 0x00, 0x20] @ key
     @ [0x00, 0x2d, 0x00, 0x02, 0x01, 0x01, 0x00, 0x2b, 0x00, 0x0b, 0x0a]
     @ [greases ! 6, greases ! 6]
     @ [0x03, 0x04, 0x03, 0x03, 0x03, 0x02, 0x03, 0x01, 0x00, 0x1b, 0x00, 0x03, 0x02, 0x00, 0x02]
     @ [greases ! 3, greases ! 3] @ [0x00, 0x01, 0x00, 0x00, 0x15]
     @ be16 (216 - int n) @ replicate (216 - n) 0"

definition hello_head :: "hello_rnd \<Rightarrow> bytes" where
  "hello_head r =
     [0x16, 0x03, 0x01, 0x02, 0x00, 0x01, 0x00, 0x01, 0xfc, 0x03, 0x03] @ rnd_random r @ [0x20]
     @ rnd_session r"

definition hello_layout :: "hello_rnd \<Rightarrow> bytes \<Rightarrow> bytes \<Rightarrow> bytes" where
  "hello_layout r key domain =
     (let g = make_greases (rnd_greases r) in
      hello_head r @ [0x00, 0x22] @ [g ! 0, g ! 0] @ hello_suites
      @ [g ! 2, g ! 2] @ [0x00, 0x00, 0x00, 0x00]
      @ be16 (int (length domain) + 5) @ be16 (int (length domain) + 3) @ [0x00]
      @ be16 (int (length domain)) @ domain @ hello_tail g key (length domain))"

lemma length_hello_head: "hello_rnd_ok r \<Longrightarrow> length (hello_head r) = 76"
  by (simp add: hello_head_def hello_rnd_ok_def)

lemma length_hello_layout:
  "hello_rnd_ok r \<Longrightarrow> length key = 32 \<Longrightarrow> length domain \<le> 216
   \<Longrightarrow> length (hello_layout r key domain) = 517"
  by (simp add: hello_layout_def hello_tail_def Let_def be16_def length_hello_head)

lemma create_request_layout:
  assumes "hello_rnd_ok r" "generate_public_key bn (rnd_key_blocks r) = Some key"
    and "length domain \<le> 216"
  shows "create_request bn r domain = Some (hello_layout r key domain)"
  using assms length_generate_public_key [OF assms(2)]
  by (simp add: create_request_def hello_adds hello_rnd_ok_def Let_def hello_layout_def
      hello_head_def hello_tail_def be16_def)

lemma length_hello_adds:
  "add_string data str = Some t \<Longrightarrow> length t = length str + length data"
  "add_random rnd str = Some t \<Longrightarrow> length t = length str + length rnd"
  "add_length n str = Some t \<Longrightarrow> length t = length str + 2"
  "add_grease gs k str = Some t \<Longrightarrow> length t = length str + 2"
  "add_public_key bn blocks str = Some t \<Longrightarrow> length t = length str + 32"
  by (auto simp: hello_adds bind_eq_Some_conv length_generate_public_key split: if_splits)

lemma create_request_short:
  assumes "create_request bn r domain = Some s" "hello_rnd_ok r"
  shows "length domain \<le> 216"
  using assms
  apply (simp add: create_request_def Let_def)
  apply (elim bind_SomeE)
  apply (drule length_hello_adds)+
  apply (simp add: hello_rnd_ok_def TLS_REQUEST_LENGTH_def split: if_splits)
  done

text \<open>Every GREASE byte has the low nibble \<^verbatim>\<open>0xA\<close>; in particular it is not zero.\<close>

lemma low_nibble: "(x :: byte) AND 0x0F = take_bit 4 x"
  by (simp add: take_bit_eq_mask mask_eq_exp_minus_1)

lemma grease_base_nibble: "grease_base b AND 0x0F = 0x0A"
proof -
  have "(b AND 0xF0) AND 0x0A = 0" by (simp add: and.assoc)
  then have "grease_base b = (b AND 0xF0) OR 0x0A"
    by (simp add: grease_base_def disjunctive_add_eq_or)
  then show ?thesis by (simp add: bit.conj_disj_distrib2 and.assoc)
qed

lemma grease_xor_nibble: "(0x10 XOR b) AND 0x0F = b AND (0x0F :: byte)"
  by (simp add: low_nibble take_bit_xor)

definition greased :: "bytes \<Rightarrow> bool" where
  "greased gs \<longleftrightarrow> (\<forall>b \<in> set gs. b AND 0x0F = 0x0A)"

lemma length_grease_fix [simp]: "length (grease_fix i gs) = length gs"
  by (simp add: grease_fix_def)

lemma greased_grease_fix: "greased gs \<Longrightarrow> i < length gs \<Longrightarrow> greased (grease_fix i gs)"
  by (auto simp: greased_def grease_fix_def grease_xor_nibble dest!: subsetD [OF set_update_subset_insert])

lemma make_greases_ok:
  assumes "length rnd = 7"
  shows "length (make_greases rnd) = 7" "greased (make_greases rnd)"
proof -
  have "greased (map grease_base rnd)" by (auto simp: greased_def grease_base_nibble)
  with assms show "length (make_greases rnd) = 7" "greased (make_greases rnd)"
    by (simp_all add: make_greases_def greased_grease_fix)
qed

lemma greased_nth: "greased gs \<Longrightarrow> i < length gs \<Longrightarrow> gs ! i AND 0x0F = 0x0A \<and> gs ! i \<noteq> 0"
  unfolding greased_def using nth_mem by fastforce

subsection \<open>What the parsers find in the probe\<close>

lemma tls_read_length_append:
  "int (length xs) \<le> i \<Longrightarrow> tls_read_length (xs @ ys) i = tls_read_length ys (i - int (length xs))"
  by (simp add: tls_read_length_def rd_append algebra_simps)

lemma tls_read_length_Cons:
  "0 < i \<Longrightarrow> tls_read_length (x # xs) i = tls_read_length xs (i - 1)"
  by (simp add: tls_read_length_def rd_Cons algebra_simps)

lemma tls_read_length_here: "tls_read_length (a # b # xs) 0 = Some (uint a * 256 + uint b)"
  by (simp add: tls_read_length_def rd_Cons)

lemma tls_read_length_be16:
  "0 \<le> n \<Longrightarrow> n < 65536 \<Longrightarrow> tls_read_length (be16 n @ xs) 0 = Some n"
  by (simp add: be16_def tls_read_length_here be16_bytes)

lemma length_be16 [simp]: "length (be16 n) = 2"
  by (simp add: be16_def)

lemmas hello_reads = tls_read_length_append tls_read_length_Cons tls_read_length_here
  tls_read_length_be16 rd_append rd_Cons rd_block_append_skip

text \<open>The extension list with its leading GREASE extension and SNI: the loop returns the domain.\<close>

lemma sni_extensions_hello:
  assumes "length pre = 116" "g \<noteq> 0" "0 \<notin> set domain" "domain \<noteq> []" "length domain < 256"
  shows "sni_extensions
     (pre @ [g, g] @ [0, 0, 0, 0] @ be16 (int (length domain) + 5) @ be16 (int (length domain) + 3)
      @ [0] @ be16 (int (length domain)) @ domain @ rest) 116 256 = Some (Some domain)"
    (is "sni_extensions ?L 116 256 = _")
proof -
  have "uint g \<noteq> 0" using assms(2) by (simp add: uint_0_iff)
  then have g: "uint g * 256 + uint g \<noteq> 0" using uint_byte_bounds(1) [of g] by linarith
  have dom: "rd_block ?L 129 (length domain) = Some domain"
    using assms(1) by (simp add: rd_block_append_skip be16_def rd_block_def)
  have "sni_extensions ?L 120 256 = Some (Some domain)"
    using assms dom by (subst sni_extensions.simps) (simp add: hello_reads Let_def)
  then show ?thesis
    using assms(1) g by (subst sni_extensions.simps) (simp add: hello_reads Let_def)
qed

text \<open>
  C20: The ClientHello that \<^verbatim>\<open>create_request\<close> writes for a domain of 1 to 216 bytes without NUL is
  517 bytes long; the proxy's own parsers find exactly that domain in its SNI extension and accept
  its first non-GREASE cipher suite \<^verbatim>\<open>0x1301\<close>.
\<close>

theorem create_request_roundtrip:
  assumes "hello_rnd_ok r" and "generate_public_key bn (rnd_key_blocks r) = Some key"
    and "domain \<noteq> []" and "0 \<notin> set domain" and "length domain \<le> 216"
  shows "\<exists>request. create_request bn r domain = Some request \<and> length request = 517 \<and>
    tls_parse_sni request 256 = Some (Some domain) \<and>
    tls_parse_client_hello_ciphers request = Some (Some 1)"
proof (intro exI conjI)
  let ?g = "make_greases (rnd_greases r)" and ?L = "hello_layout r key domain"
  have len7: "length (rnd_greases r) = 7" using assms(1) by (simp add: hello_rnd_ok_def)
  note g = greased_nth [OF make_greases_ok(2) [OF len7], unfolded make_greases_ok(1) [OF len7]]
  have key: "length key = 32" by (rule length_generate_public_key [OF assms(2)])
  show "create_request bn r domain = Some ?L" by (rule create_request_layout [OF assms(1,2,5)])
  show len: "length ?L = 517" by (rule length_hello_layout [OF assms(1) key assms(5)])
  have rl: "tls_read_length ?L 76 = Some 34"
    by (simp add: hello_layout_def Let_def hello_reads length_hello_head [OF assms(1)])
  have "sni_extensions ?L 116 256 = Some (Some domain)"
    using sni_extensions_hello [of "hello_head r @ [0x00, 0x22] @ [?g ! 0, ?g ! 0] @ hello_suites" "?g ! 2"
        domain "hello_tail ?g key (length domain)"] assms g [of 2]
    by (simp add: hello_layout_def Let_def length_hello_head)
  then show "tls_parse_sni ?L 256 = Some (Some domain)"
    by (simp add: tls_parse_sni_def rl len)
  have rds: "rd ?L 78 = Some (?g ! 0)" "rd ?L 79 = Some (?g ! 0)" "rd ?L 80 = Some 0x13" "rd ?L 81 = Some 1"
    by (simp_all add: hello_layout_def Let_def rd_append rd_Cons length_hello_head [OF assms(1)] hello_suites_def)
  have "skip_grease ?L 32 80 = Some (32, 80)"
    by (subst skip_grease.simps) (simp add: rds)
  then have "skip_grease ?L 34 78 = Some (32, 80)"
    using g [of 0] by (subst skip_grease.simps) (simp add: rds)
  then show "tls_parse_client_hello_ciphers ?L = Some (Some 1)"
    by (simp add: tls_parse_client_hello_ciphers_def Let_def rl len rds)
qed

text \<open>
  \<^verbatim>\<open>create_request\<close> runs into one of its asserts, and the process aborts, exactly for the domains
  longer than 216 bytes, although a DNS name may have 253.
\<close>

theorem create_request_aborts_iff:
  assumes "hello_rnd_ok r" and "generate_public_key bn (rnd_key_blocks r) = Some key"
  shows "create_request bn r domain = None \<longleftrightarrow> 216 < length domain"
  using create_request_layout [OF assms, of domain] create_request_short [OF _ assms(1), of bn domain]
  by fastforce

end
