(* ===== verification/Domain.thy ===== *)
theory Domain
  imports C_String Tls_Parse
begin

text \<open>
  The camouflage-domain table: \<^verbatim>\<open>src/src/net/net-tcp-rpc-ext-domain.c\<close> (wildcard patterns, \<^verbatim>\<open>host:port\<close>
  specifications, registration) and the lookup functions of \<^verbatim>\<open>src/src/net/net-tcp-rpc-ext-server.c\<close>.
  A chain linked through \<^verbatim>\<open>next\<close> is the list of its entries from the head; \<^verbatim>\<open>NULL\<close> strings are \<open>None\<close>.
  Addresses resolved for an entry are not part of the record: no function modelled here reads them.
\<close>

subsection \<open>Data\<close>

definition DOMAIN_HASH_MOD :: nat where
  "DOMAIN_HASH_MOD = 257"

record domain_info =
  domain :: bytes
  backend_host :: "bytes option"
  unix_path :: "bytes option"
  port :: int
  server_hello_encrypted_size :: int
  use_random_encrypted_size :: bool
  is_reversed_order :: bool

record domain_state =
  allow_only_tls :: bool
  default_domain_info :: "domain_info option"
  domains :: "domain_info list list"
  wildcard_domains :: "domain_info list"

definition domain_state_init :: domain_state where
  "domain_state_init = \<lparr>allow_only_tls = False, default_domain_info = None,
     domains = replicate DOMAIN_HASH_MOD [], wildcard_domains = []\<rparr>"

subsection \<open>Wildcard patterns\<close>

text \<open>The pattern is valid, hence not empty: \<^verbatim>\<open>pattern + 1\<close> is its tail.\<close>

definition wildcard_match :: "bytes \<Rightarrow> bytes \<Rightarrow> bool" where
  "wildcard_match pattern sni =
     (let suffix = tl pattern; suffix_len = length suffix in
      if length sni \<le> suffix_len then False else
      let label_len = length sni - suffix_len in
      if 0x2e \<in> set (take label_len sni) then False else
      if 0x2a \<in> set (take label_len sni) then False else
      take suffix_len (drop label_len sni) = suffix)"

text \<open>The scan over \<^verbatim>\<open>pattern + 2\<close> with its two accumulators.\<close>

fun wildcard_labels :: "bytes \<Rightarrow> bool \<Rightarrow> nat \<Rightarrow> bool" where
  "wildcard_labels [] saw_dot label_len = (saw_dot \<and> label_len > 0)"
| "wildcard_labels (c # p) saw_dot label_len =
     (if c = 0x2a then False
      else if c = 0x2e then (if label_len = 0 then False else wildcard_labels p True 0)
      else wildcard_labels p saw_dot (label_len + 1))"

definition is_wildcard_domain :: "bytes \<Rightarrow> bool" where
  "is_wildcard_domain pattern =
     (case pattern of
        c0 # c1 # c2 # p \<Rightarrow>
          if c0 \<noteq> 0x2a \<or> c1 \<noteq> 0x2e then False else wildcard_labels (c2 # p) False 0
      | _ \<Rightarrow> False)"

subsection \<open>Registration\<close>

definition parse_host_port :: "bytes \<Rightarrow> (bytes \<times> int) option" where
  "parse_host_port spec =
     (if spec \<noteq> [] \<and> hd spec = 0x5b then
        (case strchr spec 0x5d of
           None \<Rightarrow> None
         | Some e \<Rightarrow>
             Some (take (e - 1) (drop 1 spec),
                   if e + 1 < length spec \<and> spec ! (e + 1) = 0x3a then atoi (drop (e + 2) spec) else 443))
      else
        (case strrchr spec 0x3a of
           None \<Rightarrow> Some (spec, 443)
         | Some c \<Rightarrow>
             if strchr spec 0x3a = Some c then Some (take c spec, atoi (drop (c + 1) spec))
             else Some (spec, 443)))"

definition get_domain_info_bucket :: "bytes \<Rightarrow> nat" where
  "get_domain_info_bucket d =
     unat (foldl (\<lambda>hash c. hash * 239017 + ucast c) (0 :: u32) d mod 257)"

text \<open>
  The parsing of the two arguments up to the port check; \<open>None\<close> where the code logs an error and
  returns. An empty \<^verbatim>\<open>backend\<close> counts as absent.
\<close>

definition parse_proxy_domain :: "bytes \<Rightarrow> bytes option \<Rightarrow> domain_info option" where
  "parse_proxy_domain name backend =
     (let info = \<lparr>domain = [], backend_host = None, unix_path = None, port = 443,
                  server_hello_encrypted_size = 0, use_random_encrypted_size = False,
                  is_reversed_order = False\<rparr>;
          bspec = (case backend of Some b \<Rightarrow> if b \<noteq> [] then Some b else None | None \<Rightarrow> None)
      in
      case bspec of
        None \<Rightarrow> map_option (\<lambda>(host, p). info\<lparr>domain := host, port := p\<rparr>) (parse_host_port name)
      | Some b \<Rightarrow>
          if take 5 b = [0x75, 0x6e, 0x69, 0x78, 0x3a] \<or> hd b = 0x2f
          then Some (info\<lparr>domain := name, unix_path := Some (if hd b = 0x2f then b else drop 5 b)\<rparr>)
          else map_option (\<lambda>(host, p). info\<lparr>domain := name, backend_host := Some host, port := p\<rparr>)
                 (parse_host_port b))"

definition tcp_rpc_add_proxy_domain :: "bytes \<Rightarrow> bytes option \<Rightarrow> domain_state \<Rightarrow> domain_state" where
  "tcp_rpc_add_proxy_domain name backend st =
     (case parse_proxy_domain name backend of
        None \<Rightarrow> st
      | Some info \<Rightarrow>
          if port info \<le> 0 \<or> port info > 65535 then st else
          let is_wildcard = (domain info \<noteq> [] \<and> hd (domain info) = 0x2a) in
          if is_wildcard \<and> \<not> is_wildcard_domain (domain info) then st else
          if is_wildcard \<and> backend_host info = None \<and> unix_path info = None then st else
          let st = (if is_wildcard then st\<lparr>wildcard_domains := info # wildcard_domains st\<rparr>
                    else let b = get_domain_info_bucket (domain info) in
                         st\<lparr>domains := (domains st)[b := info # domains st ! b]\<rparr>) in
          if \<not> allow_only_tls st then st\<lparr>allow_only_tls := True, default_domain_info := Some info\<rparr>
          else st)"

subsection \<open>Lookup\<close>

definition get_domain_info :: "domain_state \<Rightarrow> bytes \<Rightarrow> domain_info option" where
  "get_domain_info st d =
     (case find (\<lambda>info. length (domain info) = length d \<and> d = domain info)
             (domains st ! get_domain_info_bucket d) of
        Some info \<Rightarrow> Some info
      | None \<Rightarrow> find (\<lambda>info. wildcard_match (domain info) d) (wildcard_domains st))"

definition get_sni_domain_info :: "domain_state \<Rightarrow> bytes \<Rightarrow> domain_info option option" where
  "get_sni_domain_info st request = do {
     d \<leftarrow> tls_parse_sni request 256;
     case d of None \<Rightarrow> Some None | Some d \<Rightarrow> Some (get_domain_info st d)
   }"

subsection \<open>Wildcard patterns: correctness\<close>

text \<open>
  \<^verbatim>\<open>wildcard_match\<close> accepts a server name exactly when it is one non-empty label, free of dots and
  asterisks, followed by the pattern without its leading asterisk.
\<close>

theorem wildcard_match_iff:
  "wildcard_match (0x2a # suffix) sni \<longleftrightarrow>
     (\<exists>label. sni = label @ suffix \<and> label \<noteq> [] \<and> 0x2e \<notin> set label \<and> 0x2a \<notin> set label)"
    (is "?l \<longleftrightarrow> ?r")
proof
  assume ?l
  then have "drop (length sni - length suffix) sni = suffix" "length suffix < length sni"
    "0x2e \<notin> set (take (length sni - length suffix) sni)"
    "0x2a \<notin> set (take (length sni - length suffix) sni)"
    by (auto simp: wildcard_match_def Let_def split: if_splits)
  moreover from this(1) have "sni = take (length sni - length suffix) sni @ suffix"
    by (metis append_take_drop_id)
  ultimately show ?r
    by (intro exI [of _ "take (length sni - length suffix) sni"]) auto
qed (auto simp: wildcard_match_def)

text \<open>A label of a domain name, and the name made of a list of labels.\<close>

definition is_label :: "bytes \<Rightarrow> bool" where
  "is_label l \<longleftrightarrow> l \<noteq> [] \<and> 0x2e \<notin> set l \<and> 0x2a \<notin> set l"

definition dotted :: "bytes list \<Rightarrow> bytes" where
  "dotted labels = concat (map (\<lambda>l. 0x2e # l) labels)"

lemma wildcard_labels_word:
  "0x2e \<notin> set w \<Longrightarrow> 0x2a \<notin> set w
   \<Longrightarrow> wildcard_labels (w @ p) saw n = wildcard_labels p saw (n + length w)"
  by (induction w arbitrary: n) auto

lemma wildcard_labels_dotted:
  "labels \<noteq> [] \<Longrightarrow> \<forall>l \<in> set labels. is_label l \<Longrightarrow> 0 < n \<Longrightarrow> wildcard_labels (dotted labels) saw n"
proof (induction labels arbitrary: saw n)
  case (Cons l labels)
  then have l: "is_label l" by simp
  with Cons show ?case
    by (cases "labels = []")
       (simp_all add: dotted_def is_label_def wildcard_labels_word wildcard_labels_word [where p = "[]", simplified])
qed simp

text \<open>What is left of an accepted scan: the rest of the current label, then full labels.\<close>

lemma wildcard_labels_decompose:
  "wildcard_labels p saw n \<Longrightarrow>
     \<exists>w labels. p = w @ dotted labels \<and> 0x2e \<notin> set w \<and> 0x2a \<notin> set w \<and> 0 < n + length w \<and>
       (\<forall>l \<in> set labels. is_label l) \<and> (saw \<or> labels \<noteq> [])"
proof (induction p saw n rule: wildcard_labels.induct)
  case (1 saw n)
  then show ?case by (intro exI [of _ "[]"]) (simp add: dotted_def)
next
  case (2 c p saw n)
  show ?case
  proof (cases "c = 0x2e")
    case True
    with "2.prems" have n: "0 < n" and rec: "wildcard_labels p True 0" by (auto split: if_splits)
    from True n "2.IH"(1) [OF _ True _ rec] obtain w labels where
      "p = w @ dotted labels" "is_label w" "\<forall>l \<in> set labels. is_label l"
      by (auto simp: is_label_def)
    with True n show ?thesis
      by (intro exI [of _ "[]"] exI [of _ "w # labels"]) (simp add: dotted_def)
  next
    case False
    with "2.prems" have c: "c \<noteq> 0x2a" and rec: "wildcard_labels p saw (n + 1)" by (auto split: if_splits)
    from "2.IH"(2) [OF c False rec] obtain w labels where
      "p = w @ dotted labels" "0x2e \<notin> set w" "0x2a \<notin> set w"
      "\<forall>l \<in> set labels. is_label l" "saw \<or> labels \<noteq> []"
      by auto
    with c False show ?thesis
      by (intro exI [of _ "c # w"] exI [of _ labels]) simp
  qed
qed

text \<open>
  \<^verbatim>\<open>is_wildcard_domain\<close> accepts a pattern exactly when it is an asterisk followed by at least two
  dot-prefixed labels, none of them empty and none with a dot or an asterisk in it.
\<close>

theorem is_wildcard_domain_iff:
  "is_wildcard_domain pattern \<longleftrightarrow>
     (\<exists>labels. pattern = 0x2a # dotted labels \<and> 2 \<le> length labels \<and> list_all is_label labels)"
    (is "?l \<longleftrightarrow> ?r")
proof
  assume ?l
  then obtain p where pat: "pattern = 0x2a # 0x2e # p" and lab: "wildcard_labels p False 0"
    by (auto simp: is_wildcard_domain_def split: list.splits if_splits)
  from wildcard_labels_decompose [OF lab] obtain w labels where
    "p = w @ dotted labels" "is_label w" "\<forall>l \<in> set labels. is_label l" "labels \<noteq> []"
    by (auto simp: is_label_def)
  with pat show ?r
    by (intro exI [of _ "w # labels"]) (simp add: dotted_def Suc_leI list_all_iff)
next
  assume ?r
  then obtain labels' where l': "pattern = 0x2a # dotted labels'" "2 \<le> length labels'"
    "\<forall>l \<in> set labels'. is_label l" by (auto simp: list_all_iff)
  then obtain w labels where "labels' = w # labels" "labels \<noteq> []"
    by (cases labels') (auto simp: Suc_le_eq)
  with l' have pat: "pattern = 0x2a # 0x2e # w @ dotted labels"
    and "labels \<noteq> []" "is_label w" "\<forall>l \<in> set labels. is_label l"
    by (auto simp: dotted_def)
  then have lab: "wildcard_labels (w @ dotted labels) False 0" and "w \<noteq> []"
    by (simp_all add: wildcard_labels_word is_label_def wildcard_labels_dotted)
  then show ?l
    unfolding pat by (cases w) (simp_all add: is_wildcard_domain_def)
qed

subsection \<open>The table against its specification\<close>

text \<open>
  The entry that a registration adds, whatever the state: \<open>None\<close> when it is refused. An entry is a
  wildcard when its name starts with an asterisk.
\<close>

definition is_wild :: "domain_info \<Rightarrow> bool" where
  "is_wild info \<longleftrightarrow> domain info \<noteq> [] \<and> hd (domain info) = 0x2a"

definition valid_info :: "domain_info \<Rightarrow> bool" where
  "valid_info info \<longleftrightarrow> 0 < port info \<and> port info \<le> 65535 \<and>
     (is_wild info \<longrightarrow> is_wildcard_domain (domain info) \<and>
        (backend_host info \<noteq> None \<or> unix_path info \<noteq> None))"

definition accepted_domain :: "bytes \<times> bytes option \<Rightarrow> domain_info option" where
  "accepted_domain nb =
     (case parse_proxy_domain (fst nb) (snd nb) of
        None \<Rightarrow> None | Some info \<Rightarrow> if valid_info info then Some info else None)"

definition push_exact :: "domain_info \<Rightarrow> domain_info list list \<Rightarrow> domain_info list list" where
  "push_exact info doms =
     (let b = get_domain_info_bucket (domain info) in doms[b := info # doms ! b])"

definition find_exact :: "domain_info list list \<Rightarrow> bytes \<Rightarrow> domain_info option" where
  "find_exact doms d = find (\<lambda>info. length (domain info) = length d \<and> d = domain info)
     (doms ! get_domain_info_bucket d)"

lemma get_domain_info_bucket_less: "get_domain_info_bucket d < DOMAIN_HASH_MOD"
proof -
  have "x mod 257 < 257" for x :: u32 by (rule word_mod_less_divisor) simp
  then have "unat (x mod 257) < unat (257 :: u32)" for x :: u32 by (simp only: word_less_nat_alt)
  then show ?thesis by (simp add: get_domain_info_bucket_def DOMAIN_HASH_MOD_def)
qed

interpretation domain_tbl: keyed_table
  "\<lambda>doms. length doms = DOMAIN_HASH_MOD" domain push_exact find_exact
  by unfold_locales
     (auto simp: push_exact_def find_exact_def Let_def get_domain_info_bucket_less nth_list_update)

text \<open>The state that a list of accepted entries, in order of registration, leads to.\<close>

definition state_of :: "domain_info list \<Rightarrow> domain_state" where
  "state_of infos = \<lparr>allow_only_tls = (infos \<noteq> []),
     default_domain_info = (case infos of [] \<Rightarrow> None | i # _ \<Rightarrow> Some i),
     domains = fold push_exact (filter (\<lambda>i. \<not> is_wild i) infos) (replicate DOMAIN_HASH_MOD []),
     wildcard_domains = rev (filter is_wild infos)\<rparr>"

lemma add_state_of:
  "tcp_rpc_add_proxy_domain name backend (state_of infos) =
     state_of (infos @ (case accepted_domain (name, backend) of None \<Rightarrow> [] | Some i \<Rightarrow> [i]))"
proof (cases "parse_proxy_domain name backend")
  case None
  then show ?thesis by (simp add: tcp_rpc_add_proxy_domain_def accepted_domain_def)
next
  case (Some info)
  show ?thesis
  proof (cases "valid_info info")
    case True
    with Some show ?thesis
      by (cases "is_wild info"; cases infos)
         (auto simp: tcp_rpc_add_proxy_domain_def accepted_domain_def valid_info_def state_of_def
           is_wild_def push_exact_def Let_def)
  next
    case False
    with Some show ?thesis
      by (auto simp: tcp_rpc_add_proxy_domain_def accepted_domain_def valid_info_def is_wild_def Let_def)
  qed
qed

lemma adds_state_of:
  "fold (\<lambda>(name, backend). tcp_rpc_add_proxy_domain name backend) regs (state_of infos) =
     state_of (infos @ List.map_filter accepted_domain regs)"
proof (induction regs arbitrary: infos)
  case (Cons r regs)
  then show ?case
    by (cases r; cases "accepted_domain r") (simp_all add: add_state_of map_filter_simps)
qed (simp add: map_filter_simps)

lemma find_exact_state_of:
  "find_exact (domains (state_of infos)) d = find (\<lambda>i. \<not> is_wild i \<and> domain i = d) (rev infos)"
proof -
  have empty: "find_exact (replicate DOMAIN_HASH_MOD []) d = None"
    by (simp add: find_exact_def get_domain_info_bucket_less)
  have "find_exact (domains (state_of infos)) d =
    find (\<lambda>i. domain i = d) (filter (\<lambda>i. \<not> is_wild i) (rev infos))"
    by (simp add: state_of_def domain_tbl.lookup_fold empty rev_filter split: option.splits)
  then show ?thesis by (simp only: find_filter)
qed

text \<open>
  C22: The domain table implements its specification. After any sequence of registrations from the
  empty table, a lookup finds the last accepted exact registration of the name if there is one, and
  otherwise the last accepted wildcard that matches it; a refused registration changes nothing, and
  TLS-only mode with its default domain is set by the first accepted one.
\<close>

theorem domain_table_refines:
  "let st = fold (\<lambda>(name, backend). tcp_rpc_add_proxy_domain name backend) regs domain_state_init;
       infos = List.map_filter accepted_domain regs
   in get_domain_info st d =
        (case find (\<lambda>i. \<not> is_wild i \<and> domain i = d) (rev infos) of
           Some i \<Rightarrow> Some i
         | None \<Rightarrow> find (\<lambda>i. is_wild i \<and> wildcard_match (domain i) d) (rev infos)) \<and>
      allow_only_tls st = (infos \<noteq> []) \<and>
      default_domain_info st = (case infos of [] \<Rightarrow> None | i # _ \<Rightarrow> Some i)"
proof -
  have init: "domain_state_init = state_of []"
    by (simp add: domain_state_init_def state_of_def)
  have get: "get_domain_info (state_of infos) d =
    (case find (\<lambda>i. \<not> is_wild i \<and> domain i = d) (rev infos) of
       Some i \<Rightarrow> Some i
     | None \<Rightarrow> find (\<lambda>i. is_wild i \<and> wildcard_match (domain i) d) (rev infos))" for infos
  proof -
    have "wildcard_domains (state_of infos) = filter is_wild (rev infos)"
      by (simp add: state_of_def rev_filter)
    then show ?thesis
      unfolding get_domain_info_def find_exact_def [symmetric] find_exact_state_of
      by (simp only: find_filter)
  qed
  show ?thesis
    unfolding init adds_state_of Let_def get append_Nil by (simp add: state_of_def)
qed

lemma accepted_domain_valid: "accepted_domain nb = Some i \<Longrightarrow> valid_info i"
  by (auto simp: accepted_domain_def split: option.splits if_splits)

end
