(* ===== verification/Server_Hello.thy ===== *)
theory Server_Hello
  imports Client_Hello Domain
begin

text \<open>
  The ServerHello with which \<^verbatim>\<open>tcp_rpcs_compact_parse_execute\<close> of
  \<^verbatim>\<open>src/src/net/net-tcp-rpc-ext-server.c\<close> answers a client, and how the size of its encrypted part is
  derived from the probes of the camouflage server (end of \<^verbatim>\<open>update_domain_info\<close>, \<^verbatim>\<open>init_one_domain\<close>,
  \<^verbatim>\<open>get_domain_server_hello_encrypted_size\<close>). \<^verbatim>\<open>rand ()\<close>, \<^verbatim>\<open>RAND_bytes\<close> and \<^verbatim>\<open>sha256_hmac\<close> are arguments.
\<close>

subsection \<open>The encrypted size\<close>

definition SH_ENCRYPTED_NOISE_RANGE :: int where
  "SH_ENCRYPTED_NOISE_RANGE = 65"

definition SH_ENCRYPTED_NOISE_OFFSET :: int where
  "SH_ENCRYPTED_NOISE_OFFSET = 32"

definition SH_ENCRYPTED_MIN_SIZE :: int where
  "SH_ENCRYPTED_MIN_SIZE = 1000"

text \<open>\<open>rnd\<close> is the value of \<^verbatim>\<open>rand ()\<close>, which is not negative.\<close>

definition get_domain_server_hello_encrypted_size :: "domain_info \<Rightarrow> int \<Rightarrow> int" where
  "get_domain_server_hello_encrypted_size info rnd =
     (let base = server_hello_encrypted_size info in
      if use_random_encrypted_size info then
        let noise = rnd mod SH_ENCRYPTED_NOISE_RANGE - SH_ENCRYPTED_NOISE_OFFSET;
            size = base + noise
        in if size < SH_ENCRYPTED_MIN_SIZE then SH_ENCRYPTED_MIN_SIZE else size
      else base)"

text \<open>The field is a \<^verbatim>\<open>short\<close>: a value assigned to it is truncated to 16 bits.\<close>

definition to_short :: "int \<Rightarrow> int" where
  "to_short n = sint (word_of_int n :: 16 word)"

definition TRIES :: int where
  "TRIES = 20"

text \<open>
  The aggregation over the probes: \<open>totals\<close> is the array \<^verbatim>\<open>all_total_encrypted\<close>, \<open>rev_min\<close> is
  \<^verbatim>\<open>is_reversed_extension_order_min\<close>. The rounded mean \<^verbatim>\<open>(int) (sum * 1.0 / TRIES + 0.5)\<close> of
  non-negative totals is an integer division.
\<close>

definition apply_probe_results :: "int list \<Rightarrow> bool \<Rightarrow> domain_info \<Rightarrow> domain_info" where
  "apply_probe_results totals rev_min info =
     (let info = info\<lparr>is_reversed_order := rev_min\<rparr>;
          encrypted_size_min = fold min (tl totals) (hd totals);
          encrypted_size_max = fold max (tl totals) (hd totals);
          encrypted_size_sum = fold (+) (tl totals) (hd totals)
      in
      if encrypted_size_min = encrypted_size_max then
        info\<lparr>server_hello_encrypted_size := to_short encrypted_size_min, use_random_encrypted_size := False\<rparr>
      else if encrypted_size_max - encrypted_size_min \<le> 3 then
        info\<lparr>server_hello_encrypted_size := to_short (encrypted_size_max - 1), use_random_encrypted_size := True\<rparr>
      else
        info\<lparr>server_hello_encrypted_size := to_short ((2 * encrypted_size_sum + TRIES) div (2 * TRIES)),
             use_random_encrypted_size := True\<rparr>)"

text \<open>\<open>probe\<close> is the outcome of \<^verbatim>\<open>update_domain_info\<close>: \<open>None\<close> when it returned 0.\<close>

definition init_one_domain :: "(int list \<times> bool) option \<Rightarrow> int \<Rightarrow> domain_info \<Rightarrow> domain_info" where
  "init_one_domain probe rnd info =
     (case probe of
        Some (totals, rev_min) \<Rightarrow> apply_probe_results totals rev_min info
      | None \<Rightarrow>
          info\<lparr>is_reversed_order := False, use_random_encrypted_size := True,
               server_hello_encrypted_size := to_short (2500 + rnd mod 1120)\<rparr>)"

subsection \<open>The response\<close>

text \<open>
  One round of the extension loop; \<open>buf\<close> holds the bytes of \<^verbatim>\<open>response_buffer\<close> before \<^verbatim>\<open>pos\<close>. The check
  for \<^verbatim>\<open>0x2b\<close> asks for 5 bytes where 6 are written.
\<close>

definition put_extension :: "bn_ops \<Rightarrow> bytes list \<Rightarrow> int \<Rightarrow> int \<Rightarrow> bytes \<Rightarrow> bytes option" where
  "put_extension bn blocks response_size ext buf =
     (if ext = 0x33 then
        (if int (length buf) + 40 \<le> response_size then do {
           key \<leftarrow> generate_public_key bn blocks;
           Some (buf @ [0x00, 0x33, 0x00, 0x24, 0x00, 0x1d, 0x00, 0x20] @ key)
         } else None)
      else if ext = 0x2b then
        (if int (length buf) + 5 \<le> response_size
         then Some (buf @ [0x00, 0x2b, 0x00, 0x02, 0x03, 0x04]) else None)
      else None)"

text \<open>
  The response with zeros in place of the server random. \<open>session\<close> are the 32 bytes
  \<^verbatim>\<open>client_hello + 44\<close>, \<open>rnd\<close> is the output of \<^verbatim>\<open>RAND_bytes (..., encrypted_size)\<close>.
\<close>

definition response_template ::
  "bn_ops \<Rightarrow> bytes list \<Rightarrow> bytes \<Rightarrow> byte \<Rightarrow> bool \<Rightarrow> int \<Rightarrow> bytes \<Rightarrow> bytes option" where
  "response_template bn blocks session cipher_suite_id reversed encrypted_size rnd =
     (let response_size = 127 + 6 + 5 + encrypted_size;
          exts = (if reversed then (0x2b, 0x33) else (0x33, 0x2b));
          buf = [0x16, 0x03, 0x03, 0x00, 0x7a, 0x02, 0x00, 0x00, 0x76, 0x03, 0x03]
                @ replicate 32 0 @ [0x20] @ session @ [0x13, cipher_suite_id, 0x00, 0x00, 0x2e]
      in do {
        buf \<leftarrow> put_extension bn blocks response_size (fst exts) buf;
        buf \<leftarrow> put_extension bn blocks response_size (snd exts) buf;
        if length buf \<noteq> 127 then None else do {
        let buf = buf @ [0x14, 0x03, 0x03, 0x00, 0x01, 0x01, 0x17, 0x03, 0x03]
                  @ [byte_of_int (encrypted_size div 256), byte_of_int (encrypted_size mod 256)];
        if int (length buf) + encrypted_size \<noteq> response_size then None
        else Some (buf @ rnd)
      }})"

text \<open>\<^verbatim>\<open>sha256_hmac\<close> over the client random and the template; its result is copied to offset 11.\<close>

definition server_hello_response ::
  "(bytes \<Rightarrow> bytes \<Rightarrow> bytes) \<Rightarrow> bytes \<Rightarrow> bn_ops \<Rightarrow> bytes list \<Rightarrow> bytes \<Rightarrow> bytes \<Rightarrow> byte \<Rightarrow> bool \<Rightarrow> int
   \<Rightarrow> bytes \<Rightarrow> bytes option" where
  "server_hello_response hmac secret bn blocks client_random session cipher_suite_id reversed
     encrypted_size rnd = do {
       template \<leftarrow> response_template bn blocks session cipher_suite_id reversed encrypted_size rnd;
       let server_random = hmac secret (client_random @ template);
       Some (take 11 template @ server_random @ drop 43 template)
     }"

subsection \<open>The response is a ServerHello\<close>

definition exts_bytes :: "bool \<Rightarrow> bytes \<Rightarrow> bytes" where
  "exts_bytes reversed key =
     (let share = [0x00, 0x33, 0x00, 0x24, 0x00, 0x1d, 0x00, 0x20] @ key;
          versions = [0x00, 0x2b, 0x00, 0x02, 0x03, 0x04]
      in if reversed then versions @ share else share @ versions)"

definition response_layout ::
  "bytes \<Rightarrow> bytes \<Rightarrow> byte \<Rightarrow> bool \<Rightarrow> bytes \<Rightarrow> int \<Rightarrow> bytes \<Rightarrow> bytes" where
  "response_layout server_random session cipher_suite_id reversed key encrypted_size rnd =
     [0x16, 0x03, 0x03, 0x00, 0x7a, 0x02, 0x00, 0x00, 0x76, 0x03, 0x03] @ server_random @ [0x20]
     @ session @ [0x13, cipher_suite_id, 0x00, 0x00, 0x2e] @ exts_bytes reversed key
     @ [0x14, 0x03, 0x03, 0x00, 0x01, 0x01] @ [0x17, 0x03, 0x03] @ be16 encrypted_size @ rnd"

lemma response_template_layout:
  assumes "generate_public_key bn blocks = Some key" "length session = 32" "0 \<le> encrypted_size"
  shows "response_template bn blocks session cipher_suite_id reversed encrypted_size rnd =
    Some (response_layout (replicate 32 0) session cipher_suite_id reversed key encrypted_size rnd)"
  using assms length_generate_public_key [OF assms(1)]
  by (simp add: response_template_def put_extension_def Let_def response_layout_def exts_bytes_def
      be16_def)

lemma server_hello_response_layout:
  assumes "generate_public_key bn blocks = Some key" "length session = 32" "0 \<le> encrypted_size"
  shows "\<exists>template. server_hello_response hmac secret bn blocks client_random session cipher_suite_id
      reversed encrypted_size rnd =
    Some (response_layout (hmac secret (client_random @ template)) session cipher_suite_id reversed
      key encrypted_size rnd)"
  by (rule exI [of _ "response_layout (replicate 32 0) session cipher_suite_id reversed key encrypted_size rnd"])
     (simp add: server_hello_response_def response_template_layout [OF assms], simp add: response_layout_def)

text \<open>The reads that the validator makes, evaluated on the layout.\<close>

lemma response_layout_reads:
  fixes c :: byte and reversed :: bool
  assumes "length sr = 32" "length session = 32" "length key = 32" "length rnd = nat es" "0 < es" "es < 65536"
  defines "L \<equiv> response_layout sr session c reversed key es rnd"
  shows "int (length L) = 138 + es"
    and "memeq L 0 [0x16, 0x03, 0x03] = Some True"
    and "tls_read_length L 3 = Some 122"
    and "memeq L 5 [0x02, 0x00] = Some True"
    and "memeq L 9 [0x03, 0x03] = Some True"
    and "memeq L 11 hello_retry_random = Some (sr = hello_retry_random)"
    and "rd L 43 = Some 0x20"
    and "memeq L 43 [0x20] = Some True"
    and "memeq L 44 session = Some True"
    and "memeq L 76 [0x13, 0x01, 0x00] = Some (c = 1)"
    and "tls_read_length L 79 = Some 46"
    and "memeq L 127 [0x14, 0x03, 0x03, 0x00, 0x01, 0x01] = Some True"
    and "memeq L 133 [0x17, 0x03, 0x03] = Some True"
    and "tls_read_length L 136 = Some es"
  using assms
  by (simp_all add: L_def response_layout_def exts_bytes_def Let_def memeq_def rd_block_def rd_append
      rd_Cons hello_reads hello_retry_random_def)

lemma response_layout_exts:
  fixes c :: byte and reversed :: bool and es :: int and rnd :: bytes
  assumes "length sr = 32" "length session = 32" "length key = 32"
  defines "L \<equiv> response_layout sr session c reversed key es rnd"
  shows "reversed \<Longrightarrow> tls_read_length L 81 = Some 0x2b"
    and "reversed \<Longrightarrow> tls_read_length L 83 = Some 2"
    and "reversed \<Longrightarrow> tls_read_length L 87 = Some 0x33"
    and "reversed \<Longrightarrow> tls_read_length L 89 = Some 36"
    and "\<not> reversed \<Longrightarrow> tls_read_length L 81 = Some 0x33"
    and "\<not> reversed \<Longrightarrow> tls_read_length L 83 = Some 36"
    and "\<not> reversed \<Longrightarrow> tls_read_length L 121 = Some 0x2b"
    and "\<not> reversed \<Longrightarrow> tls_read_length L 123 = Some 2"
  using assms
  by (simp_all add: L_def response_layout_def exts_bytes_def hello_reads)

lemma sh_extensions_response:
  assumes "length sr = 32" "length session = 32" "length key = 32"
  shows "sh_extensions (response_layout sr session c reversed key es rnd) 127 81 0 out =
    Some (Inr (127, 94), out\<lparr>is_reversed_extension_order := if reversed then 1 else 0\<rparr>)"
  by (cases reversed)
     (simp_all add: sh_extensions.simps response_layout_exts [OF assms])

lemma sh_records_response:
  assumes "length sr = 32" "length session = 32" "length key = 32" "length rnd = nat es" "0 < es" "es < 65536"
    and "encrypted_record_count out = 0"
  shows "sh_records (response_layout sr session c reversed key es rnd) 133 out =
    Some (out\<lparr>encrypted_record_sizes := (encrypted_record_sizes out)[0 := es],
              encrypted_record_count := 1\<rparr>)"
proof -
  note reads = response_layout_reads [OF assms(1-6), of c reversed]
  have stop: "sh_records (response_layout sr session c reversed key es rnd) (138 + es) o' = Some o'" for o'
    by (subst sh_records.simps) (simp add: reads(1))
  show ?thesis
    using assms(5,7) by (subst sh_records.simps) (simp add: reads stop MAX_ENCRYPTED_RECORDS_def)
qed


subsection \<open>From the probes to the size\<close>

lemma to_short_id: "- 32768 \<le> n \<Longrightarrow> n < 32768 \<Longrightarrow> to_short n = n"
  by (simp add: to_short_def sint_sbintrunc' signed_take_bit_int_eq_self)

lemma to_short_wraps:
  assumes "32768 \<le> n" "n < 65536"
  shows "to_short n = n - 65536"
proof -
  have "word_of_int (n - 65536) = (word_of_int n :: 16 word)"
    by (simp add: word_of_int_eq_iff take_bit_eq_mod)
  moreover have "to_short (n - 65536) = n - 65536" using assms by (intro to_short_id) auto
  ultimately show ?thesis unfolding to_short_def by (simp only:)
qed

lemma fold_idem_replicate: "f x x = x \<Longrightarrow> fold f (replicate k x) x = x"
  by (induction k) auto

lemma probe_equal_sizes:
  "apply_probe_results (replicate (nat TRIES) n) rev_min info =
     info\<lparr>is_reversed_order := rev_min, server_hello_encrypted_size := to_short n,
          use_random_encrypted_size := False\<rparr>"
  by (simp add: apply_probe_results_def TRIES_def fold_idem_replicate Let_def numeral_nat)

lemma fold_min_le: "fold min xs (a :: int) \<le> a \<and> (\<forall>x \<in> set xs. fold min xs a \<le> x)"
proof (induction xs arbitrary: a)
  case (Cons x xs)
  from Cons.IH [of "min x a"] show ?case by auto
qed simp

lemma fold_max_ge: "(a :: int) \<le> fold max xs a \<and> (\<forall>x \<in> set xs. x \<le> fold max xs a)"
proof (induction xs arbitrary: a)
  case (Cons x xs)
  from Cons.IH [of "max x a"] show ?case by auto
qed simp

lemma fold_min_in: "fold min xs (a :: int) \<in> insert a (set xs)"
proof (induction xs arbitrary: a)
  case (Cons x xs)
  from Cons.IH [of "min x a"] show ?case by (auto simp: min_def split: if_splits)
qed simp

lemma fold_max_in: "fold max xs (a :: int) \<in> insert a (set xs)"
proof (induction xs arbitrary: a)
  case (Cons x xs)
  from Cons.IH [of "max x a"] show ?case by (auto simp: max_def split: if_splits)
qed simp

lemma fold_plus: "fold (+) xs (a :: int) = a + sum_list xs"
  by (induction xs arbitrary: a) auto

lemma sum_list_bounds:
  "\<forall>x \<in> set xs. (lo :: int) \<le> x \<and> x \<le> hi \<Longrightarrow>
   int (length xs) * lo \<le> sum_list xs \<and> sum_list xs \<le> int (length xs) * hi"
  by (induction xs) (auto simp: algebra_simps)

text \<open>
  When the twenty probes saw totals between 1000 and 32767 bytes, the stored size is not truncated
  and lies between the smallest total and the largest; the size drawn for one connection stays
  within 32 bytes of it, is never below 1000, and equals the common total when all probes agree.
\<close>

theorem probe_size_bounds:
  assumes "length totals = nat TRIES" and "\<forall>n \<in> set totals. 1000 \<le> n \<and> n \<le> 32767" and "0 \<le> rnd"
  shows "\<exists>lo hi. lo \<in> set totals \<and> hi \<in> set totals \<and>
    (\<forall>n \<in> set totals. lo \<le> n \<and> n \<le> hi) \<and>
    (let info' = apply_probe_results totals rev_min info;
         size = get_domain_server_hello_encrypted_size info' rnd
     in lo \<le> server_hello_encrypted_size info' \<and> server_hello_encrypted_size info' \<le> hi \<and>
        max 1000 (lo - 32) \<le> size \<and> size \<le> hi + 32 \<and> (lo = hi \<longrightarrow> size = lo))"
proof -
  from assms(1) obtain a xs where t: "totals = a # xs" by (cases totals) (auto simp: TRIES_def)
  let ?lo = "fold min xs a" and ?hi = "fold max xs a" and ?mean = "(2 * sum_list totals + TRIES) div (2 * TRIES)"
  have mem: "?lo \<in> set totals" "?hi \<in> set totals"
    using fold_min_in [of xs a] fold_max_in [of xs a] by (simp_all add: t)
  have bd: "\<forall>n \<in> set totals. ?lo \<le> n \<and> n \<le> ?hi"
    using fold_min_le [of xs a] fold_max_ge [of a xs] by (auto simp: t)
  from mem assms(2) have lohi: "1000 \<le> ?lo" "?hi \<le> 32767" by blast+
  have "20 * ?lo \<le> sum_list totals \<and> sum_list totals \<le> 20 * ?hi"
    using sum_list_bounds [OF bd] assms(1) by (simp add: TRIES_def)
  then have mean: "?lo \<le> ?mean" "?mean \<le> ?hi" unfolding TRIES_def by presburger+
  define size where "size = (if ?lo = ?hi then ?lo else if ?hi - ?lo \<le> 3 then ?hi - 1 else ?mean)"
  have le: "?lo \<le> ?hi" using bd by (auto simp: t)
  then have size: "?lo \<le> size" "size \<le> ?hi" using mean by (auto simp: size_def)
  then have short: "to_short size = size" using lohi by (intro to_short_id) auto
  have info': "apply_probe_results totals rev_min info = info\<lparr>is_reversed_order := rev_min,
      server_hello_encrypted_size := size, use_random_encrypted_size := (?lo \<noteq> ?hi)\<rparr>"
    using short by (auto simp: apply_probe_results_def t Let_def size_def fold_plus)
  have noise: "0 \<le> rnd mod 65" "rnd mod 65 \<le> 64" using pos_mod_bound [of 65 rnd] by auto
  show ?thesis
    using mem bd size lohi le noise
    by (intro exI [of _ ?lo] exI [of _ ?hi])
       (auto simp: info' get_domain_server_hello_encrypted_size_def Let_def SH_ENCRYPTED_NOISE_RANGE_def
         SH_ENCRYPTED_NOISE_OFFSET_def SH_ENCRYPTED_MIN_SIZE_def)
qed

text \<open>
  The field \<^verbatim>\<open>server_hello_encrypted_size\<close> is a \<^verbatim>\<open>short\<close>. When all probes saw the same total of 32768
  to 65000 bytes, the stored size is negative and building a response fails an assert, which aborts
  the proxy.
\<close>

theorem probe_size_truncated:
  assumes "32768 \<le> n" and "n \<le> 65000" and "length session = 32"
  shows "response_template bn blocks session cipher_suite_id reversed
    (get_domain_server_hello_encrypted_size (apply_probe_results (replicate (nat TRIES) n) rev_min info) r)
    rnd = None"
proof -
  have "get_domain_server_hello_encrypted_size (apply_probe_results (replicate (nat TRIES) n) rev_min info) r
      = n - 65536"
    using assms by (simp add: probe_equal_sizes get_domain_server_hello_encrypted_size_def Let_def to_short_wraps)
  with assms show ?thesis
    by (simp add: response_template_def put_extension_def Let_def)
qed

end
