(* ===== verification/Hello_Samples.thy ===== *)
theory Hello_Samples
  imports Server_Hello
begin

text \<open>
  Executions of the definitions of \<open>Public_Key\<close>, \<open>Client_Hello\<close> and \<open>Server_Hello\<close> on concrete inputs: one run of
  \<^verbatim>\<open>generate_public_key\<close> with the true prime modulus, and the messages built with its key.
\<close>

subsection \<open>A public key\<close>

text \<open>A sample execution. The listed residues are the modular inverses that it needs.\<close>

definition sample_inverses :: "(int \<times> int) list" where
  "sample_inverses =
     [(0x7fffffffffffffffffffffffffffffffffffffffffffffffffffffffffffffe9,
       0x1ffffffffffffffffffffffffffffffffffffffffffffffffffffffffffffffb),
      (0x7e28723304407c3779917bea11b8aa64266b1946031c48f1457bc1e55b0a0e82,
       0x553d43bcb1eaed4e68584869596f054bf71e11abf562d585cbe89cefe9c80df3),
      (0x1a59e43f2361d05d93fb3211d494a111c61de4cd6a249f4f9e028864ab290f57,
       0x746c733d5ca7d9fc761cc30967af88271d1286ca8b9af892c9f3ef7408fccae7)]"

definition sample_bn :: bn_ops where
  "sample_bn = \<lparr>
     bn_mod_add = (\<lambda>a b m. (a + b) mod m),
     bn_mod_sub = (\<lambda>a b m. (a - b) mod m),
     bn_mod_mul = (\<lambda>a b m. (a * b) mod m),
     bn_mod_exp = (\<lambda>a e m. (a ^ nat e) mod m),
     bn_mod_inverse = (\<lambda>a m. if m = curve_mod then map_of sample_inverses a else None)\<rparr>"

definition sample_block :: bytes where
  "sample_block =
     [0x23, 0xf, 0x55, 0xaf, 0x98, 0xf, 0xe7, 0x5d, 0x71, 0x45, 0x7, 0x46, 0x44, 0x16, 0xd,
      0x6c, 0x88, 0x7e, 0x60, 0x57, 0xc9, 0xe0, 0xa1, 0xa7, 0x95, 0xc3, 0x69, 0x8b, 0xc2,
      0x3c, 0xe7, 0x35]"

definition sample_key :: bytes where
  "sample_key =
     [0x82, 0x96, 0xa9, 0x3, 0x4b, 0x1e, 0x0, 0x0, 0x42, 0x51, 0xe0, 0xa0, 0x4e, 0x98, 0xaf,
      0x74, 0xff, 0x2a, 0xd0, 0xed, 0x18, 0x20, 0x4e, 0x79, 0x7b, 0xbf, 0xba, 0xf3, 0x37,
      0x58, 0xd4, 0x25]"

text \<open>Large remainders are checked by multiplication with their quotients.\<close>

lemma curve_mod_eqI:
  "a = q * curve_mod + r \<Longrightarrow> 0 \<le> r \<Longrightarrow> r < curve_mod \<Longrightarrow> a mod curve_mod = r"
  by simp

lemma sample_inverse_1:
  "0x7fffffffffffffffffffffffffffffffffffffffffffffffffffffffffffffe9 *
   0x1ffffffffffffffffffffffffffffffffffffffffffffffffffffffffffffffb mod curve_mod = 1"
  by (rule curve_mod_eqI [where q = "0x1ffffffffffffffffffffffffffffffffffffffffffffffffffffffffffffffa"])
     (simp_all add: curve_mod_def)

lemma sample_inverse_2:
  "0x7e28723304407c3779917bea11b8aa64266b1946031c48f1457bc1e55b0a0e82 *
   0x553d43bcb1eaed4e68584869596f054bf71e11abf562d585cbe89cefe9c80df3 mod curve_mod = 1"
  by (rule curve_mod_eqI [where q = "0x54033ddf73acc21f84fae54f86c2a9a13ec2c5e4070c4bc3cc73cda4eab13e59"])
     (simp_all add: curve_mod_def)

lemma sample_inverse_3:
  "0x1a59e43f2361d05d93fb3211d494a111c61de4cd6a249f4f9e028864ab290f57 *
   0x746c733d5ca7d9fc761cc30967af88271d1286ca8b9af892c9f3ef7408fccae7 mod curve_mod = 1"
  by (rule curve_mod_eqI [where q = "0x17f7ca6b32512972e4ed88c438790a1bf57101ad750c113f036da9181202c380"])
     (simp_all add: curve_mod_def)

lemmas sample_inverse_facts = sample_inverse_1 sample_inverse_2 sample_inverse_3

lemma sample_inverses_ok:
  "list_all (\<lambda>(a, r). (0 \<le> r \<and> r < curve_mod) \<and> (a * r) mod curve_mod = 1) sample_inverses"
  unfolding sample_inverses_def list.pred_inject prod.case
  by (intro conjI sample_inverse_facts) (simp_all add: curve_mod_def)

lemma sample_inverse_Some:
  assumes "map_of sample_inverses a = Some r"
  shows "0 \<le> r \<and> r < curve_mod \<and> (a * r) mod curve_mod = 1 mod curve_mod"
proof -
  have "1 mod curve_mod = 1" by (simp add: curve_mod_def)
  moreover from assms have "(a, r) \<in> set sample_inverses" by (rule map_of_SomeD)
  with sample_inverses_ok have "(0 \<le> r \<and> r < curve_mod) \<and> (a * r) mod curve_mod = 1"
    unfolding list_all_iff by blast
  ultimately show ?thesis by simp
qed

lemma bn_spec_sample_bn: "bn_spec sample_bn"
  using sample_inverse_Some by (auto simp: bn_spec_def sample_bn_def split: if_splits)

lemma minus_one_even_power: "(m - 1) ^ (2 * k) mod m = 1 mod (m :: int)"
proof -
  have "(m - 1) ^ 2 mod m = ((m - 2) * m + 1) mod m"
    by (simp add: algebra_simps power2_eq_square)
  then have "(m - 1) ^ 2 mod m = 1 mod m" by simp
  then have "((m - 1) ^ 2) ^ k mod m = 1 ^ k mod m" by (metis power_mod)
  then show ?thesis by (simp add: power_mult)
qed

lemma curve_pow_even: "nat curve_pow = 2 * (nat curve_pow div 2)"
  by (simp add: curve_pow_def)

lemma sample_exp: "(curve_mod - 1) ^ nat curve_pow mod curve_mod = 1"
  by (subst curve_pow_even, subst minus_one_even_power) (simp add: curve_mod_def)

lemma sample_sq: "(0x230f55af980fe75d7145074644160d6c887e6057c9e0a1a795c3698bc23ce735 * 0x230f55af980fe75d7145074644160d6c887e6057c9e0a1a795c3698bc23ce735) mod curve_mod
   = 0x5cba55a482751404207f016631d5f6ad4e5673a9bc3e478b2d30f946a2635d4b"
  by (rule curve_mod_eqI [where q = "0x99a64b255ac7d18f342d191513b4192af2e7f5502fbbf849154878429eee0a6"]) (simp_all add: curve_mod_def)

lemma sample_mod_1_1: "(0x5cba55a482751404207f016631d5f6ad4e5673a9bc3e478b2d30f946a2635d4b + 0x76d06) mod curve_mod
   = 0x5cba55a482751404207f016631d5f6ad4e5673a9bc3e478b2d30f946a26aca51"
  by (rule curve_mod_eqI [where q = "0"]) (simp_all add: curve_mod_def)

lemma sample_mod_1_2: "(0x5cba55a482751404207f016631d5f6ad4e5673a9bc3e478b2d30f946a26aca51 * 0x5cba55a482751404207f016631d5f6ad4e5673a9bc3e478b2d30f946a2635d4b) mod curve_mod
   = 0x5a1320dc2db7c50938af57ab050d0dc3d4cab7392152ed2b8fa4d15786c00898"
  by (rule curve_mod_eqI [where q = "0x432cea5d9af0c1ba6a440499e8a265cdccdbf68c892c9b64359a8f45aa74704f"]) (simp_all add: curve_mod_def)

lemma sample_mod_1_3: "(0x5a1320dc2db7c50938af57ab050d0dc3d4cab7392152ed2b8fa4d15786c00898 + 0x1) mod curve_mod
   = 0x5a1320dc2db7c50938af57ab050d0dc3d4cab7392152ed2b8fa4d15786c00899"
  by (rule curve_mod_eqI [where q = "0"]) (simp_all add: curve_mod_def)

lemma sample_mod_1_4: "(0x5a1320dc2db7c50938af57ab050d0dc3d4cab7392152ed2b8fa4d15786c00899 * 0x5cba55a482751404207f016631d5f6ad4e5673a9bc3e478b2d30f946a2635d4b) mod curve_mod
   = 0x7fffffffffffffffffffffffffffffffffffffffffffffffffffffffffffffec"
  by (rule curve_mod_eqI [where q = "0x4140dfae78f0a6111abafd8eb40135323f559527c68ae9b28e50a2ad5920fea3"]) (simp_all add: curve_mod_def)

lemma sample_mod_1_5: "(0x7fffffffffffffffffffffffffffffffffffffffffffffffffffffffffffffec * 0x4) mod curve_mod
   = 0x7fffffffffffffffffffffffffffffffffffffffffffffffffffffffffffffe9"
  by (rule curve_mod_eqI [where q = "0x3"]) (simp_all add: curve_mod_def)

lemma sample_mod_1_6: "(0x5cba55a482751404207f016631d5f6ad4e5673a9bc3e478b2d30f946a2635d4b * 0x5cba55a482751404207f016631d5f6ad4e5673a9bc3e478b2d30f946a2635d4b) mod curve_mod
   = 0x7fbe8241b956a7a158516f34014456fc05e096643e98c153d56d75d3dc3fb392"
  by (rule curve_mod_eqI [where q = "0x432cea5d9af0c1ba6a440499e8a265cdccdbf68c892c9b64359a8f45aa6f0f23"]) (simp_all add: curve_mod_def)

lemma sample_mod_1_7: "(0x7fbe8241b956a7a158516f34014456fc05e096643e98c153d56d75d3dc3fb392 - 0x1) mod curve_mod
   = 0x7fbe8241b956a7a158516f34014456fc05e096643e98c153d56d75d3dc3fb391"
  by (rule curve_mod_eqI [where q = "0"]) (simp_all add: curve_mod_def)

lemma sample_mod_1_8: "(0x7fbe8241b956a7a158516f34014456fc05e096643e98c153d56d75d3dc3fb391 * 0x7fbe8241b956a7a158516f34014456fc05e096643e98c153d56d75d3dc3fb391) mod curve_mod
   = 0x10e4ea9c029c905ee5cd2f131455e01d56907ae513616d7c703b349da2f8ae91"
  by (rule curve_mod_eqI [where q = "0x7f7d2605a373d01d1f1e7ce8f11fd3971b763f31161ab55b02be44e68e163dd0"]) (simp_all add: curve_mod_def)

lemma sample_mod_1_9: "(0x10e4ea9c029c905ee5cd2f131455e01d56907ae513616d7c703b349da2f8ae91 * 0x1ffffffffffffffffffffffffffffffffffffffffffffffffffffffffffffffb) mod curve_mod
   = 0x1bc6c558ff58dbe8468cb43b3aea87f8aa5be146bb27a4a0e3f132d89741d457"
  by (rule curve_mod_eqI [where q = "0x4393aa700a72417b9734bc4c515780755a41eb944d85b5f1c0ecd2768be2ba4"]) (simp_all add: curve_mod_def)

lemma sample_mod_2_1: "(0x1bc6c558ff58dbe8468cb43b3aea87f8aa5be146bb27a4a0e3f132d89741d457 + 0x76d06) mod curve_mod
   = 0x1bc6c558ff58dbe8468cb43b3aea87f8aa5be146bb27a4a0e3f132d89749415d"
  by (rule curve_mod_eqI [where q = "0"]) (simp_all add: curve_mod_def)

lemma sample_mod_2_2: "(0x1bc6c558ff58dbe8468cb43b3aea87f8aa5be146bb27a4a0e3f132d89749415d * 0x1bc6c558ff58dbe8468cb43b3aea87f8aa5be146bb27a4a0e3f132d89741d457) mod curve_mod
   = 0x61311e4baff15c9ce62fa172519f13cda896f02ea149671e131c0beb34825d54"
  by (rule curve_mod_eqI [where q = "0x6070fed4753a78cf0d741c2029f7039ac0c2df1b9776c958a169a7eb841a383"]) (simp_all add: curve_mod_def)

lemma sample_mod_2_3: "(0x61311e4baff15c9ce62fa172519f13cda896f02ea149671e131c0beb34825d54 + 0x1) mod curve_mod
   = 0x61311e4baff15c9ce62fa172519f13cda896f02ea149671e131c0beb34825d55"
  by (rule curve_mod_eqI [where q = "0"]) (simp_all add: curve_mod_def)

lemma sample_mod_2_4: "(0x61311e4baff15c9ce62fa172519f13cda896f02ea149671e131c0beb34825d55 * 0x1bc6c558ff58dbe8468cb43b3aea87f8aa5be146bb27a4a0e3f132d89741d457) mod curve_mod
   = 0x5f8a1c8cc1101f0dde645efa846e2a99099ac65180c7123c515ef07956c28397"
  by (rule curve_mod_eqI [where q = "0x15174a380079b6d0ceb52baa149f5ec450d5aeb527dc19d3c7e5806e4cd1f7fc"]) (simp_all add: curve_mod_def)

lemma sample_mod_2_5: "(0x5f8a1c8cc1101f0dde645efa846e2a99099ac65180c7123c515ef07956c28397 * 0x4) mod curve_mod
   = 0x7e28723304407c3779917bea11b8aa64266b1946031c48f1457bc1e55b0a0e82"
  by (rule curve_mod_eqI [where q = "0x2"]) (simp_all add: curve_mod_def)

lemma sample_mod_2_6: "(0x1bc6c558ff58dbe8468cb43b3aea87f8aa5be146bb27a4a0e3f132d89741d457 * 0x1bc6c558ff58dbe8468cb43b3aea87f8aa5be146bb27a4a0e3f132d89741d457) mod curve_mod
   = 0x33129e0edae061486887938f5c6e5aed62956cc0dcdcceb2a4e27fa3d30eba45"
  by (rule curve_mod_eqI [where q = "0x6070fed4753a78cf0d741c2029f7039ac0c2df1b9776c958a169a7eb84006fc"]) (simp_all add: curve_mod_def)

lemma sample_mod_2_7: "(0x33129e0edae061486887938f5c6e5aed62956cc0dcdcceb2a4e27fa3d30eba45 - 0x1) mod curve_mod
   = 0x33129e0edae061486887938f5c6e5aed62956cc0dcdcceb2a4e27fa3d30eba44"
  by (rule curve_mod_eqI [where q = "0"]) (simp_all add: curve_mod_def)

lemma sample_mod_2_8: "(0x33129e0edae061486887938f5c6e5aed62956cc0dcdcceb2a4e27fa3d30eba44 * 0x33129e0edae061486887938f5c6e5aed62956cc0dcdcceb2a4e27fa3d30eba44) mod curve_mod
   = 0x249901cf65f7abf2988ede6965405a215ed6ac840069b13417d8a318aba94dc2"
  by (rule curve_mod_eqI [where q = "0x1460d8a90dc50ab4572f4e50bb57b39398144cb7b2bc4d90af9716c4d331cfc6"]) (simp_all add: curve_mod_def)

lemma sample_mod_2_9: "(0x249901cf65f7abf2988ede6965405a215ed6ac840069b13417d8a318aba94dc2 * 0x553d43bcb1eaed4e68584869596f054bf71e11abf562d585cbe89cefe9c80df3) mod curve_mod
   = 0xa89c901069be5ea6f730f52162a17f056bcb1dbd6df7fd9ca9dd82f8c743ac9"
  by (rule curve_mod_eqI [where q = "0x185f1f7ca11908464544ad0b4d02da4919e47d7eb08834bc65ae32adb86efa31"]) (simp_all add: curve_mod_def)

lemma sample_mod_3_1: "(0xa89c901069be5ea6f730f52162a17f056bcb1dbd6df7fd9ca9dd82f8c743ac9 + 0x76d06) mod curve_mod
   = 0xa89c901069be5ea6f730f52162a17f056bcb1dbd6df7fd9ca9dd82f8c7ba7cf"
  by (rule curve_mod_eqI [where q = "0"]) (simp_all add: curve_mod_def)

lemma sample_mod_3_2: "(0xa89c901069be5ea6f730f52162a17f056bcb1dbd6df7fd9ca9dd82f8c7ba7cf * 0xa89c901069be5ea6f730f52162a17f056bcb1dbd6df7fd9ca9dd82f8c743ac9) mod curve_mod
   = 0x66ecdd6a6dbc2a6c6d8fbf0d6007bdf5fb43ed77d34b16da4914d675d9bb3002"
  by (rule curve_mod_eqI [where q = "0xde1bb9aadfba68841bc5cf244b48fdb54ba9811f3d9e6ecb734b2f116972f9"]) (simp_all add: curve_mod_def)

lemma sample_mod_3_3: "(0x66ecdd6a6dbc2a6c6d8fbf0d6007bdf5fb43ed77d34b16da4914d675d9bb3002 + 0x1) mod curve_mod
   = 0x66ecdd6a6dbc2a6c6d8fbf0d6007bdf5fb43ed77d34b16da4914d675d9bb3003"
  by (rule curve_mod_eqI [where q = "0"]) (simp_all add: curve_mod_def)

lemma sample_mod_3_4: "(0x66ecdd6a6dbc2a6c6d8fbf0d6007bdf5fb43ed77d34b16da4914d675d9bb3003 * 0xa89c901069be5ea6f730f52162a17f056bcb1dbd6df7fd9ca9dd82f8c743ac9) mod curve_mod
   = 0x2696790fc8d8741764fecc8475252844718779335a8927d3e780a2192aca43d1"
  by (rule curve_mod_eqI [where q = "0x8794c72135777f1997be78acd91793223ee4f628cb6ca58b53acc7405811972"]) (simp_all add: curve_mod_def)

lemma sample_mod_3_5: "(0x2696790fc8d8741764fecc8475252844718779335a8927d3e780a2192aca43d1 * 0x4) mod curve_mod
   = 0x1a59e43f2361d05d93fb3211d494a111c61de4cd6a249f4f9e028864ab290f57"
  by (rule curve_mod_eqI [where q = "0x1"]) (simp_all add: curve_mod_def)

lemma sample_mod_3_6: "(0xa89c901069be5ea6f730f52162a17f056bcb1dbd6df7fd9ca9dd82f8c743ac9 * 0xa89c901069be5ea6f730f52162a17f056bcb1dbd6df7fd9ca9dd82f8c743ac9) mod curve_mod
   = 0x7e1589509bc6e9546818d48a47477a3cbe1a47b721a9d2296b08af5d766f9c93"
  by (rule curve_mod_eqI [where q = "0xde1bb9aadfba68841bc5cf244b48fdb54ba9811f3d9e6ecb734b2f1168d676"]) (simp_all add: curve_mod_def)

lemma sample_mod_3_7: "(0x7e1589509bc6e9546818d48a47477a3cbe1a47b721a9d2296b08af5d766f9c93 - 0x1) mod curve_mod
   = 0x7e1589509bc6e9546818d48a47477a3cbe1a47b721a9d2296b08af5d766f9c92"
  by (rule curve_mod_eqI [where q = "0"]) (simp_all add: curve_mod_def)

lemma sample_mod_3_8: "(0x7e1589509bc6e9546818d48a47477a3cbe1a47b721a9d2296b08af5d766f9c92 * 0x7e1589509bc6e9546818d48a47477a3cbe1a47b721a9d2296b08af5d766f9c92) mod curve_mod
   = 0x49efeb986b996cdb7b1f1dd07d468ee36dd0c36625b5885ec3c3ffd525bd0d22"
  by (rule curve_mod_eqI [where q = "0x7c3269f6547178dbfe54552132497bbd98a9510acc7de831d89014e1c212766a"]) (simp_all add: curve_mod_def)

lemma sample_mod_3_9: "(0x49efeb986b996cdb7b1f1dd07d468ee36dd0c36625b5885ec3c3ffd525bd0d22 * 0x746c733d5ca7d9fc761cc30967af88271d1286ca8b9af892c9f3ef7408fccae7) mod curve_mod
   = 0x25d45837f3babf7b794e2018edd02aff74af984ea0e0514200001e4b03a99682"
  by (rule curve_mod_eqI [where q = "0x43401281e9a471af5fdbd3b96eb8c4975e999443542ea270dd87ce97d4dad65c"]) (simp_all add: curve_mod_def)

lemmas sample_mods =
  sample_mod_1_1 sample_mod_1_2 sample_mod_1_3 sample_mod_1_4 sample_mod_1_5 sample_mod_1_6 sample_mod_1_7 sample_mod_1_8 sample_mod_1_9
  sample_mod_2_1 sample_mod_2_2 sample_mod_2_3 sample_mod_2_4 sample_mod_2_5 sample_mod_2_6 sample_mod_2_7 sample_mod_2_8 sample_mod_2_9
  sample_mod_3_1 sample_mod_3_2 sample_mod_3_3 sample_mod_3_4 sample_mod_3_5 sample_mod_3_6 sample_mod_3_7 sample_mod_3_8 sample_mod_3_9

lemma sample_y2: "get_y2 sample_bn 0x5cba55a482751404207f016631d5f6ad4e5673a9bc3e478b2d30f946a2635d4b curve_mod = curve_mod - 1"
  by (simp only: sample_bn_def get_y2_def Let_def bn_ops.simps sample_mods) (simp add: curve_mod_def)

lemma sample_square:
  "bn_mod_mul sample_bn (bn_bin2bn (sample_block[31 := sample_block ! 31 AND 127]))
     (bn_bin2bn (sample_block[31 := sample_block ! 31 AND 127])) curve_mod = 0x5cba55a482751404207f016631d5f6ad4e5673a9bc3e478b2d30f946a2635d4b"
proof -
  have "bn_bin2bn (sample_block[31 := sample_block ! 31 AND 127]) = 0x230f55af980fe75d7145074644160d6c887e6057c9e0a1a795c3698bc23ce735"
    by (simp add: bn_bin2bn_def sample_block_def)
  then show ?thesis by (simp only: sample_sq sample_bn_def bn_ops.simps)
qed

lemma sample_point: "find_curve_point sample_bn [sample_block] = Some 0x5cba55a482751404207f016631d5f6ad4e5673a9bc3e478b2d30f946a2635d4b"
  by (simp add: Let_def sample_square sample_y2) (simp add: sample_bn_def sample_exp)

lemma sample_inverse_lookup:
  "map_of sample_inverses 0x7fffffffffffffffffffffffffffffffffffffffffffffffffffffffffffffe9 = Some 0x1ffffffffffffffffffffffffffffffffffffffffffffffffffffffffffffffb"
  "map_of sample_inverses 0x7e28723304407c3779917bea11b8aa64266b1946031c48f1457bc1e55b0a0e82 = Some 0x553d43bcb1eaed4e68584869596f054bf71e11abf562d585cbe89cefe9c80df3"
  "map_of sample_inverses 0x1a59e43f2361d05d93fb3211d494a111c61de4cd6a249f4f9e028864ab290f57 = Some 0x746c733d5ca7d9fc761cc30967af88271d1286ca8b9af892c9f3ef7408fccae7"
  by (simp_all add: sample_inverses_def)

lemma sample_doubles:
  "get_double_x sample_bn 0x5cba55a482751404207f016631d5f6ad4e5673a9bc3e478b2d30f946a2635d4b curve_mod = Some 0x1bc6c558ff58dbe8468cb43b3aea87f8aa5be146bb27a4a0e3f132d89741d457"
  "get_double_x sample_bn 0x1bc6c558ff58dbe8468cb43b3aea87f8aa5be146bb27a4a0e3f132d89741d457 curve_mod = Some 0xa89c901069be5ea6f730f52162a17f056bcb1dbd6df7fd9ca9dd82f8c743ac9"
  "get_double_x sample_bn 0xa89c901069be5ea6f730f52162a17f056bcb1dbd6df7fd9ca9dd82f8c743ac9 curve_mod = Some 0x25d45837f3babf7b794e2018edd02aff74af984ea0e0514200001e4b03a99682"
  by (simp_all only: sample_bn_def get_double_x_def get_y2_def Let_def bn_ops.simps sample_mods
      sample_inverse_lookup refl if_True Option.bind.simps)

lemma sample_store: "store_key 0x25d45837f3babf7b794e2018edd02aff74af984ea0e0514200001e4b03a99682 = Some sample_key"
proof -
  have x: "bn_bin2bn (rev sample_key) = 0x25d45837f3babf7b794e2018edd02aff74af984ea0e0514200001e4b03a99682"
    by (simp add: bn_bin2bn_def sample_key_def)
  have "bn_bn2bin (bn_bin2bn (rev sample_key)) = rev sample_key"
    by (rule bn_bn2bin_bin2bn) (simp_all add: sample_key_def)
  then show ?thesis
    by (simp add: x store_key_def) (simp add: sample_key_def)
qed

lemma sample_generate: "generate_public_key sample_bn [sample_block] = Some sample_key"
  by (simp only: generate_public_key_def sample_point sample_doubles sample_store Option.bind.simps)

theorem generate_public_key_doubles_witness:
  "bn_spec sample_bn \<and> generate_public_key sample_bn [sample_block] = Some sample_key \<and>
   length sample_key = 32"
  using Public_Key.generate_public_key_doubles [OF bn_spec_sample_bn sample_generate] bn_spec_sample_bn sample_generate
  by blast

subsection \<open>Messages\<close>

definition sample_rnd :: hello_rnd where
  "sample_rnd = \<lparr>rnd_greases = [1, 2, 3, 4, 5, 6, 7], rnd_random = replicate 32 1,
     rnd_session = replicate 32 2, rnd_key_blocks = [sample_block]\<rparr>"

definition sample_domain :: bytes where
  "sample_domain = [0x61, 0x2e, 0x6f, 0x72, 0x67]"

lemma sample_rnd_ok: "hello_rnd_ok sample_rnd"
  by (simp add: hello_rnd_ok_def sample_rnd_def)

lemma sample_rnd_key: "generate_public_key sample_bn (rnd_key_blocks sample_rnd) = Some sample_key"
  by (simp add: sample_rnd_def sample_generate)

theorem create_request_roundtrip_witness:
  "hello_rnd_ok sample_rnd \<and> length sample_domain = 5 \<and>
   (\<exists>request. create_request sample_bn sample_rnd sample_domain = Some request \<and> length request = 517 \<and>
     tls_parse_sni request 256 = Some (Some sample_domain) \<and>
     tls_parse_client_hello_ciphers request = Some (Some 1))"
  using Client_Hello.create_request_roundtrip [OF sample_rnd_ok sample_rnd_key, of sample_domain] sample_rnd_ok
  by (simp add: sample_domain_def)

theorem create_request_aborts_iff_witness:
  "create_request sample_bn sample_rnd (replicate 217 0x61) = None \<and>
   create_request sample_bn sample_rnd (replicate 216 0x61) \<noteq> None"
  by (simp add: Client_Hello.create_request_aborts_iff [OF sample_rnd_ok sample_rnd_key])


definition sample_info :: domain_info where
  "sample_info = \<lparr>domain = sample_domain, backend_host = None, unix_path = None, port = 443,
     server_hello_encrypted_size = 0, use_random_encrypted_size = False, is_reversed_order = False\<rparr>"

theorem probe_size_bounds_witness:
  "\<exists>lo hi. lo \<in> set (2100 # replicate 19 2000) \<and> hi \<in> set (2100 # replicate 19 2000) \<and>
    (\<forall>n \<in> set (2100 # replicate 19 2000). lo \<le> n \<and> n \<le> hi) \<and>
    (let info' = apply_probe_results (2100 # replicate 19 2000) True sample_info;
         size = get_domain_server_hello_encrypted_size info' 12345
     in lo \<le> server_hello_encrypted_size info' \<and> server_hello_encrypted_size info' \<le> hi \<and>
        max 1000 (lo - 32) \<le> size \<and> size \<le> hi + 32 \<and> (lo = hi \<longrightarrow> size = lo))"
  by (rule Server_Hello.probe_size_bounds) (auto simp: TRIES_def)

theorem probe_size_truncated_witness:
  "response_template sample_bn [sample_block] (replicate 32 2) 1 False
    (get_domain_server_hello_encrypted_size
       (apply_probe_results (replicate (nat TRIES) 40000) True sample_info) 12345)
    [] = None"
  by (rule Server_Hello.probe_size_truncated) auto

end
