(* ===== verification/Tls_Accept.thy ===== *)
theory Tls_Accept
  imports Accept Replay Hello_Samples
begin

text \<open>
  The fake-TLS part of \<^verbatim>\<open>tcp_rpcs_compact_parse_execute\<close> (\<^verbatim>\<open>src/src/net/net-tcp-rpc-ext-server.c\<close>): what a
  ClientHello leads to, with the domain table, the cache of client randoms, the secrets and the
  ServerHello of the other theories put together, and the first record after the handshake.

  The input of the connection is the list of its bytes. A connection that is not answered is handed to
  the camouflage server of a domain (\<^verbatim>\<open>proxy_connection\<close>). The fingerprint statistics (\<^verbatim>\<open>ja4_observe\<close>) are
  left out. HMAC-SHA256, the big-number library and the random generators are arguments.
\<close>

subsection \<open>The ClientHello\<close>

record tls_env =
  acc_env :: accept_env
  dom_state :: domain_state
  our_port :: int

text \<open>The random inputs of an answer: key blocks, noise of the size, and the filling of the record.\<close>

record tls_rand =
  key_blocks :: "bytes list"
  size_noise :: int
  record_fill :: "int \<Rightarrow> bytes"

text \<open>
  What is left to do: wait for more bytes, hand over to the domain (\<open>None\<close> is the default one), or
  answer for a slot with two messages.
\<close>

datatype tls_outcome = Tls_need int | Tls_proxied "domain_info option" | Tls_replied nat bytes bytes

text \<open>The test that makes the first four bytes a ClientHello.\<close>

definition is_client_hello :: "bytes \<Rightarrow> bool" where
  "is_client_hello inp \<longleftrightarrow> take 3 inp = [0x16, 0x03, 0x01] \<and> inp ! 3 \<ge> 2"

definition hello_record_len :: "bytes \<Rightarrow> int" where
  "hello_record_len inp = 5 + 256 * uint (inp ! 3) + uint (inp ! 4)"

definition zero_random :: "bytes \<Rightarrow> bytes" where
  "zero_random hello = take 11 hello @ replicate 32 0 @ drop 43 hello"

definition hello_random :: "bytes \<Rightarrow> bytes" where
  "hello_random hello = take 32 (drop 11 hello)"

text \<open>The loop over the secrets.\<close>

definition match_secret :: "(bytes \<Rightarrow> bytes \<Rightarrow> bytes) \<Rightarrow> secrets \<Rightarrow> bytes \<Rightarrow> nat option" where
  "match_secret hmac st hello =
     find (\<lambda>s. ext_secret_state (slots st ! s) \<noteq> SLOT_FREE \<and>
               take 28 (hmac (ext_secret (slots st ! s)) (zero_random hello)) = take 28 (hello_random hello))
       [0..<ext_secret_cnt st]"

definition hello_timestamp :: "(bytes \<Rightarrow> bytes \<Rightarrow> bytes) \<Rightarrow> bytes \<Rightarrow> bytes \<Rightarrow> int" where
  "hello_timestamp hmac key hello =
     sint (of_le32 (drop 28 (hmac key (zero_random hello))) XOR of_le32 (drop 28 (hello_random hello)))"

text \<open>The answer once the secret is accepted.\<close>

definition tls_answer ::
  "(bytes \<Rightarrow> bytes \<Rightarrow> bytes) \<Rightarrow> bn_ops \<Rightarrow> tls_rand \<Rightarrow> bytes \<Rightarrow> domain_info \<Rightarrow> bytes \<Rightarrow> byte \<Rightarrow> bytes option" where
  "tls_answer hmac bn rnd key info hello suite =
     (let size = get_domain_server_hello_encrypted_size info (size_noise rnd)
      in server_hello_response hmac key bn (key_blocks rnd) (hello_random hello) (take 32 (drop 44 hello)) suite
           (is_reversed_order info) size (record_fill rnd size))"

text \<open>
  The checks of the matched secret and the answer. \<open>None\<close> is a failed assertion or a read out of
  bounds.
\<close>

definition tls_matched ::
  "(bytes \<Rightarrow> bytes \<Rightarrow> bytes) \<Rightarrow> bn_ops \<Rightarrow> tls_env \<Rightarrow> tls_rand \<Rightarrow> addr_key \<Rightarrow> domain_info \<Rightarrow> bytes \<Rightarrow> nat \<Rightarrow> worker
   \<Rightarrow> (tls_outcome \<times> worker) option" where
  "tls_matched hmac bn env rnd a info hello s w =
     (case secret_checks (acc_env env) a (slots (secs w) ! s) of
        Some r \<Rightarrow> Some (Tls_proxied (Some info), w\<lparr>secs := update_slot s (count_reject r) (secs w)\<rparr>)
      | None \<Rightarrow> do {
          suite \<leftarrow> tls_parse_client_hello_ciphers (zero_random hello);
          case suite of
            None \<Rightarrow> Some (Tls_proxied (Some info), w)
          | Some suite \<Rightarrow> do {
              resp \<leftarrow> tls_answer hmac bn rnd (ext_secret (slots (secs w) ! s)) info hello suite;
              Some (Tls_replied s (take 127 resp) (drop 127 resp), w)
            }
        })"

text \<open>The branch for a ClientHello; \<open>m\<close> is the address \<^verbatim>\<open>malloc\<close> returns for the entry of the cache.\<close>

definition tls_client_hello ::
  "(bytes \<Rightarrow> bytes \<Rightarrow> bytes) \<Rightarrow> bn_ops \<Rightarrow> tls_env \<Rightarrow> tls_rand \<Rightarrow> addr_key \<Rightarrow> addr \<Rightarrow> bytes \<Rightarrow> worker \<times> cr_state
   \<Rightarrow> (tls_outcome \<times> worker \<times> cr_state) option" where
  "tls_client_hello hmac bn env rnd a m inp wc = (case wc of (w, cr) \<Rightarrow>
     let len = int (length inp); min_len = hello_record_len inp in
     if len < min_len then Some (Tls_need (min_len - len), w, cr)
     else let hello = take 4096 inp in do {
       info \<leftarrow> get_sni_domain_info (dom_state env) hello;
       case info of
         None \<Rightarrow> Some (Tls_proxied None, w, cr)
       | Some info \<Rightarrow>
           if our_port env = 80 \<or> len > min_len \<or> len > 4096 then Some (Tls_proxied (Some info), w, cr)
           else do {
             let matched = match_secret hmac (secs w) hello;
             let stamp = map_option (\<lambda>s. hello_timestamp hmac (ext_secret (slots (secs w) ! s)) hello) matched;
             (ok, cr) \<leftarrow> replay_gate (env_now (acc_env env)) m (hello_random hello) stamp cr;
             case matched of
               Some s \<Rightarrow>
                 if ok then map_option (\<lambda>(out, w). (out, w, cr)) (tls_matched hmac bn env rnd a info hello s w)
                 else Some (Tls_proxied (Some info), w, cr)
             | None \<Rightarrow> Some (Tls_proxied (Some info), w, cr)
           }
     })"

subsection \<open>The first record\<close>

text \<open>
  After the answer the client sends a dummy ChangeCipherSpec and a record with the obfuscated2 header. On
  success the 11 bytes are skipped and the result is what is left of the record behind the 64 bytes of the
  header.
\<close>

datatype first_record = First_need int | First_failed | First_ok int

definition tls_first_record :: "bytes \<Rightarrow> first_record" where
  "tls_first_record inp =
     (let len = int (length inp) in
      if len < 11 then First_need (11 - len)
      else if take 9 inp \<noteq> [0x14, 0x03, 0x03, 0x00, 0x01, 0x01, 0x17, 0x03, 0x03] then First_failed
      else let left = 256 * uint (inp ! 9) + uint (inp ! 10); min_len = 11 + left in
        if len < min_len then First_need (min_len - len)
        else if left < 64 then First_failed
        else First_ok (left - 64))"

subsection \<open>An answer is given to the owners of a secret only\<close>

lemma match_secretD:
  assumes "match_secret hmac st hello = Some s"
  shows "s < ext_secret_cnt st" "ext_secret_state (slots st ! s) \<noteq> SLOT_FREE"
    "take 28 (hmac (ext_secret (slots st ! s)) (zero_random hello)) = take 28 (hello_random hello)"
  using find_SomeD [OF assms [unfolded match_secret_def]] by auto

lemma replay_gate_acceptD:
  assumes "replay_gate now m rnd stamp cr = Some (True, cr')"
  obtains ts cr1 where "stamp = Some ts" "have_client_random (take 16 rnd) cr = Some False"
    "is_allowed_timestamp now ts cr' = Some True"
  using assms by (auto simp: replay_gate_def Let_def elim!: bind_SomeE split: if_splits option.splits)

lemma secret_checks_ok:
  "secret_checks env a s = None \<Longrightarrow> ext_secret_state s \<noteq> SLOT_FREE \<Longrightarrow>
   ext_secret_state s = SLOT_ACTIVE \<and> \<not> secret_expired (env_now env) s \<and> \<not> secret_over_limit (env_workers env) s \<and>
   \<not> secret_over_quota (env_workers env) s \<and> \<not> ip_over_limit (env_workers env) a s"
  by (cases "ext_secret_state s") (auto simp: secret_checks_def split: if_splits)

text \<open>
  C3: A ClientHello is answered only if the server name is that of a configured domain, the hello is one
  complete record, its random has not been seen, and an active secret within all its limits has
  authenticated it: the first 28 bytes of the random are the HMAC of the hello under the secret, and the
  time masked by the rest is recent. The answer is the ServerHello keyed with that secret, cut after the
  first record, and the counters of the secrets are untouched.
\<close>

theorem tls_reply_authenticated:
  assumes "tls_client_hello hmac bn env rnd a m inp (w, cr) = Some (Tls_replied s m1 m2, w', cr')"
  shows "\<exists>info suite resp. get_sni_domain_info (dom_state env) inp = Some (Some info) \<and>
    our_port env \<noteq> 80 \<and> int (length inp) = hello_record_len inp \<and> length inp \<le> 4096 \<and>
    have_client_random (take 16 (hello_random inp)) cr = Some False \<and>
    s < ext_secret_cnt (secs w) \<and> ext_secret_state (slots (secs w) ! s) = SLOT_ACTIVE \<and>
    take 28 (hmac (ext_secret (slots (secs w) ! s)) (zero_random inp)) = take 28 (hello_random inp) \<and>
    is_allowed_timestamp (env_now (acc_env env)) (hello_timestamp hmac (ext_secret (slots (secs w) ! s)) inp) cr' = Some True \<and>
    \<not> secret_expired (env_now (acc_env env)) (slots (secs w) ! s) \<and>
    \<not> secret_over_limit (env_workers (acc_env env)) (slots (secs w) ! s) \<and>
    \<not> secret_over_quota (env_workers (acc_env env)) (slots (secs w) ! s) \<and>
    \<not> ip_over_limit (env_workers (acc_env env)) a (slots (secs w) ! s) \<and>
    tls_parse_client_hello_ciphers (zero_random inp) = Some (Some suite) \<and>
    tls_answer hmac bn rnd (ext_secret (slots (secs w) ! s)) info inp suite = Some resp \<and>
    m1 = take 127 resp \<and> m2 = drop 127 resp \<and> w' = w"
proof -
  note h = assms [unfolded tls_client_hello_def Let_def prod.case]
  have len: "\<not> int (length inp) < hello_record_len inp" using h by (auto split: if_splits)
  from h len obtain info where info: "get_sni_domain_info (dom_state env) (take 4096 inp) = Some (Some info)"
    by (auto elim!: bind_SomeE split: option.splits)
  have sz: "our_port env \<noteq> 80" "\<not> int (length inp) > hello_record_len inp" "\<not> int (length inp) > 4096"
    using h len info by (auto split: if_splits)
  then have hello: "take 4096 inp = inp" by simp
  note h' = h [unfolded hello]
  let ?stamp = "map_option (\<lambda>s. hello_timestamp hmac (ext_secret (slots (secs w) ! s)) inp) (match_secret hmac (secs w) inp)"
  from h' len info sz obtain ok cr1 where g: "replay_gate (env_now (acc_env env)) m (hello_random inp) ?stamp cr = Some (ok, cr1)"
    and rest: "(case match_secret hmac (secs w) inp of
               Some s \<Rightarrow>
                 if ok then map_option (\<lambda>(out, w). (out, w, cr1)) (tls_matched hmac bn env rnd a info inp s w)
                 else Some (Tls_proxied (Some info), w, cr1)
             | None \<Rightarrow> Some (Tls_proxied (Some info), w, cr1)) = Some (Tls_replied s m1 m2, w', cr')"
    by (auto simp: hello elim!: bind_SomeE)
  from rest obtain s' where s': "match_secret hmac (secs w) inp = Some s'" "ok" "cr1 = cr'"
    "tls_matched hmac bn env rnd a info inp s' w = Some (Tls_replied s m1 m2, w')"
    by (auto split: option.splits if_splits)
  from s'(4) obtain suite resp where t: "secret_checks (acc_env env) a (slots (secs w) ! s') = None"
    "tls_parse_client_hello_ciphers (zero_random inp) = Some (Some suite)"
    "tls_answer hmac bn rnd (ext_secret (slots (secs w) ! s')) info inp suite = Some resp"
    "s = s'" "m1 = take 127 resp" "m2 = drop 127 resp" "w' = w"
    by (auto simp: tls_matched_def elim!: bind_SomeE split: option.splits)
  from g s'(2) have g': "replay_gate (env_now (acc_env env)) m (hello_random inp) ?stamp cr = Some (True, cr')"
    using s'(3) by simp
  from replay_gate_acceptD [OF g'] have gate: "have_client_random (take 16 (hello_random inp)) cr = Some False"
    "is_allowed_timestamp (env_now (acc_env env)) (hello_timestamp hmac (ext_secret (slots (secs w) ! s')) inp) cr' = Some True"
    using s'(1) by auto
  note ms = match_secretD [OF s'(1)]
  show ?thesis
    using info hello sz len gate ms secret_checks_ok [OF t(1) ms(2)] t by auto
qed

subsection \<open>A sample handshake\<close>

text \<open>
  A hello of 517 bytes for the domain \<^verbatim>\<open>a.b\<close>. In place of HMAC-SHA256 stands a function that repeats the
  first byte of the key.
\<close>

definition sample_hmac :: "bytes \<Rightarrow> bytes \<Rightarrow> bytes" where
  "sample_hmac key msg = replicate 32 (hd key)"

definition sample_tls_hello :: bytes where
  "sample_tls_hello =
     [0x16, 0x03, 0x01, 0x02, 0x00, 0x01, 0x00, 0x01, 0xfc, 0x03, 0x03] @ replicate 28 1 @ [4, 1, 1, 1] @ [0x20] @
     replicate 32 7 @ [0x00, 0x04, 0x1a, 0x1a, 0x13, 0x02] @ [0x01, 0x00, 0x01, 0xaf] @
     [0x00, 0x00, 0x00, 0x08, 0x00, 0x06, 0x00, 0x00, 0x03, 0x61, 0x2e, 0x62] @
     [0x00, 0x15, 0x01, 0x9f] @ replicate 415 0"

definition sample_tls_info :: domain_info where
  "sample_tls_info = sample_info\<lparr>domain := [0x61, 0x2e, 0x62]\<rparr>"

definition sample_doms :: domain_state where
  "sample_doms = domain_state_init\<lparr>domains :=
     (domains domain_state_init)[get_domain_info_bucket [0x61, 0x2e, 0x62] := [sample_tls_info]]\<rparr>"

definition sample_tls_env :: tls_env where
  "sample_tls_env = \<lparr>acc_env = sample_env, dom_state = sample_doms, our_port = 443\<rparr>"

definition sample_tls_rand :: tls_rand where
  "sample_tls_rand = \<lparr>key_blocks = [sample_block], size_noise = 0, record_fill = (\<lambda>n. replicate (nat n) 0)\<rparr>"

lemma sample_hello_facts:
  "hello_record_len sample_tls_hello = 517" "length sample_tls_hello = 517"
  "get_sni_domain_info sample_doms sample_tls_hello = Some (Some sample_tls_info)"
  "tls_parse_client_hello_ciphers (zero_random sample_tls_hello) = Some (Some 2)"
  "hello_random sample_tls_hello = replicate 28 1 @ [4, 1, 1, 1]"
  by code_simp+

definition sample_tls_worker :: worker where
  "sample_tls_worker = \<lparr>secs = sample_secrets, vols = ip_volume_init\<rparr>"

lemma sample_slot: "slots sample_secrets ! 0 = fresh_slot (sample_cfg 1) 0 zero_slot" "ext_secret_cnt sample_secrets = 1"
  by (simp_all add: sample_secrets_def EXT_SECRET_MAX_SLOTS_def)

lemma sample_slot_checks:
  "ext_secret (slots sample_secrets ! 0) = replicate 16 1" "ext_secret_state (slots sample_secrets ! 0) = SLOT_ACTIVE"
  "secret_checks sample_env (5, zero_ipv6) (slots sample_secrets ! 0) = None"
  unfolding sample_slot
  by (simp_all add: fresh_slot_def set_metadata_def sample_cfg_def tcp_rpcs_ip_track_clear_slot_def secret_checks_def
      secret_expired_def secret_over_limit_def secret_over_quota_def ip_over_limit_def Let_def)

lemma sample_match: "match_secret sample_hmac sample_secrets sample_tls_hello = Some 0"
  by (simp add: match_secret_def sample_slot sample_slot_checks [unfolded sample_slot] sample_hello_facts sample_hmac_def sample_cfg_def)

lemma sample_stamp: "hello_timestamp sample_hmac (replicate 16 1) sample_tls_hello = 5"
  by code_simp

lemma sample_gate:
  "\<exists>cr. replay_gate 6 2 (replicate 28 1 @ [4, 1, 1, 1]) (Some 5) cr_init = Some (True, cr)"
proof -
  have "map_option fst (replay_gate 6 2 (replicate 28 1 @ [4, 1, 1, 1]) (Some 5) cr_init) = Some True" by code_simp
  then show ?thesis by auto
qed

lemma sample_answer:
  "\<exists>resp. tls_answer sample_hmac sample_bn sample_tls_rand (replicate 16 1) sample_tls_info sample_tls_hello 2 = Some resp"
proof -
  have "length sample_key = 32" by code_simp
  moreover have "length (take 32 (drop 44 sample_tls_hello)) = 32" by (simp add: sample_hello_facts)
  ultimately show ?thesis
    by (simp add: tls_answer_def server_hello_response_def response_template_def put_extension_def sample_generate
        sample_tls_rand_def sample_tls_info_def sample_info_def get_domain_server_hello_encrypted_size_def Let_def)
qed

lemma tls_reply_authenticated_witness:
  "\<exists>m1 m2 w' cr'. tls_client_hello sample_hmac sample_bn sample_tls_env sample_tls_rand (5, zero_ipv6) 2 sample_tls_hello
      (sample_tls_worker, cr_init) = Some (Tls_replied 0 m1 m2, w', cr') \<and>
    ext_secret_state (slots (secs sample_tls_worker) ! 0) = SLOT_ACTIVE \<and> w' = sample_tls_worker"
proof -
  from sample_gate obtain cr where g: "replay_gate 6 2 (replicate 28 1 @ [4, 1, 1, 1]) (Some 5) cr_init = Some (True, cr)" by blast
  from sample_answer obtain resp where r:
    "tls_answer sample_hmac sample_bn sample_tls_rand (replicate 16 1) sample_tls_info sample_tls_hello 2 = Some resp" by blast
  have h: "take 4096 sample_tls_hello = sample_tls_hello" using sample_hello_facts(2) by simp
  have "\<exists>m1 m2 w' cr'. tls_client_hello sample_hmac sample_bn sample_tls_env sample_tls_rand (5, zero_ipv6) 2 sample_tls_hello
      (sample_tls_worker, cr_init) = Some (Tls_replied 0 m1 m2, w', cr')"
    by (simp add: tls_client_hello_def sample_hello_facts h sample_tls_env_def sample_tls_worker_def sample_match sample_stamp
        sample_slot_checks sample_env_def [THEN arg_cong [of _ _ env_now]] g tls_matched_def r Let_def)
  then obtain m1 m2 w' cr' where t: "tls_client_hello sample_hmac sample_bn sample_tls_env sample_tls_rand (5, zero_ipv6) 2
      sample_tls_hello (sample_tls_worker, cr_init) = Some (Tls_replied 0 m1 m2, w', cr')" by blast
  from tls_reply_authenticated [OF t] t show ?thesis by blast
qed

end
