(* ===== verification/Ip_Acl.thy ===== *)
theory Ip_Acl
  imports C_String
begin

text \<open>
  The address lists of \<^verbatim>\<open>src/src/net/net-ip-acl.c\<close>: rules in CIDR notation, the block and allow lists loaded
  from files, and the decision for a client address. Allocation is taken to succeed.

  \<^verbatim>\<open>inet_pton\<close> is modelled after its documented syntax. A file is the list of its bytes; the file system is a
  function from paths to contents, \<open>None\<close> where \<^verbatim>\<open>fopen\<close> fails.
\<close>

subsection \<open>Textual addresses\<close>

fun split_on :: "byte \<Rightarrow> bytes \<Rightarrow> bytes list" where
  "split_on c [] = [[]]"
| "split_on c (x # xs) =
     (if x = c then [] # split_on c xs else (case split_on c xs of [] \<Rightarrow> [[x]] | p # ps \<Rightarrow> (x # p) # ps))"

fun all_some :: "'a option list \<Rightarrow> 'a list option" where
  "all_some [] = Some []"
| "all_some (x # xs) = do { y \<leftarrow> x; ys \<leftarrow> all_some xs; Some (y # ys) }"

definition dec_octet :: "bytes \<Rightarrow> byte option" where
  "dec_octet ds =
     (if ds \<noteq> [] \<and> list_all isdigit ds \<and> length ds \<le> 3 \<and> (length ds = 1 \<or> hd ds \<noteq> 0x30) \<and> digits_val ds \<le> 255
      then Some (word_of_int (digits_val ds)) else None)"

definition inet_pton4 :: "bytes \<Rightarrow> bytes option" where
  "inet_pton4 s =
     (let parts = split_on 0x2e s in if length parts = 4 then all_some (map dec_octet parts) else None)"

definition hex_val :: "byte \<Rightarrow> int option" where
  "hex_val c =
     (if isdigit c then Some (digit_val c)
      else if 0x61 \<le> c \<and> c \<le> 0x66 then Some (uint c - 0x57)
      else if 0x41 \<le> c \<and> c \<le> 0x46 then Some (uint c - 0x37)
      else None)"

text \<open>A group of one to four hexadecimal digits as two bytes.\<close>

definition hex_group :: "bytes \<Rightarrow> bytes option" where
  "hex_group ds =
     (if ds = [] \<or> length ds > 4 then None else do {
        vs \<leftarrow> all_some (map hex_val ds);
        let v = foldl (\<lambda>acc d. acc * 16 + d) 0 vs;
        Some [word_of_int (v div 256), word_of_int (v mod 256)]
      })"

text \<open>Groups separated by colons; the last one may be a dotted IPv4 address where \<open>v4\<close> allows it.\<close>

definition ipv6_groups :: "bool \<Rightarrow> bytes \<Rightarrow> bytes option" where
  "ipv6_groups v4 s =
     (if s = [] then Some [] else
      let gs = split_on 0x3a s in do {
        front \<leftarrow> all_some (map hex_group (butlast gs));
        l \<leftarrow> (if v4 \<and> 0x2e \<in> set (last gs) then inet_pton4 (last gs) else hex_group (last gs));
        Some (concat front @ l)
      })"

fun split_colons :: "bytes \<Rightarrow> (bytes \<times> bytes) option" where
  "split_colons (a # b # xs) =
     (if a = 0x3a \<and> b = 0x3a then Some ([], xs)
      else map_option (\<lambda>(l, r). (a # l, r)) (split_colons (b # xs)))"
| "split_colons _ = None"

definition inet_pton6 :: "bytes \<Rightarrow> bytes option" where
  "inet_pton6 s =
     (case split_colons s of
        None \<Rightarrow> do { b \<leftarrow> ipv6_groups True s; if length b = 16 then Some b else None }
      | Some (l, r) \<Rightarrow> do {
          bl \<leftarrow> ipv6_groups False l;
          br \<leftarrow> ipv6_groups True r;
          if length bl + length br < 16 then Some (bl @ replicate (16 - length bl - length br) 0 @ br) else None
        })"

text \<open>\<^verbatim>\<open>strtol\<close>'s \<^verbatim>\<open>endptr\<close>: what follows the number, the whole string when there is none.\<close>

definition strtol10_rest :: "bytes \<Rightarrow> bytes" where
  "strtol10_rest s =
     (let b = dropWhile isspace s;
          b = (if b \<noteq> [] \<and> (hd b = 0x2d \<or> hd b = 0x2b) then tl b else b)
      in if takeWhile isdigit b = [] then s else dropWhile isdigit b)"

subsection \<open>Rules\<close>

datatype af = AF_INET | AF_INET6

text \<open>The member of the union \<^verbatim>\<open>addr\<close> that the family selects is the only one used.\<close>

record ip_acl_rule =
  family :: af
  prefix_len :: int
  v4 :: u32
  v6 :: bytes

definition mask_v4 :: "u32 \<Rightarrow> int \<Rightarrow> u32" where
  "mask_v4 addr p =
     (if p \<le> 0 then 0 else if p \<ge> 32 then addr else addr AND push_bit (nat (32 - p)) 0xFFFFFFFF)"

definition mask_byte :: "int \<Rightarrow> byte" where
  "mask_byte b = (if b \<ge> 8 then 0xFF else if b > 0 then push_bit (nat (8 - b)) 0xFF else 0)"

definition mask_v6 :: "bytes \<Rightarrow> int \<Rightarrow> bytes" where
  "mask_v6 addr p =
     map (\<lambda>i. let b = p - int i * 8 in
              if b \<ge> 8 then addr ! i else if b > 0 then addr ! i AND push_bit (nat (8 - b)) 0xFF else 0) [0..<16]"

definition be32 :: "bytes \<Rightarrow> u32" where
  "be32 b = push_bit 24 (ucast (b ! 0)) OR push_bit 16 (ucast (b ! 1)) OR push_bit 8 (ucast (b ! 2)) OR ucast (b ! 3)"

text \<open>The address part and the explicit prefix length (\<open>None\<close> if there is none); then the rule.\<close>

definition cidr_split :: "bytes \<Rightarrow> (bytes \<times> int option) option" where
  "cidr_split s =
     (case strchr s 0x2f of
        None \<Rightarrow> Some (s, None)
      | Some i \<Rightarrow>
          let arg = drop (Suc i) s; rest = strtol10_rest arg
          in if rest \<noteq> [] \<and> \<not> isspace (hd rest) then None else Some (take i s, Some (atoi arg)))"

definition cidr_rule :: "bytes \<Rightarrow> int option \<Rightarrow> ip_acl_rule option" where
  "cidr_rule addr prefix =
     (case inet_pton4 addr of
        Some b \<Rightarrow>
          let p = (case prefix of None \<Rightarrow> 32 | Some p \<Rightarrow> p)
          in if p < 0 \<or> p > 32 then None
             else Some \<lparr>family = AF_INET, prefix_len = p, v4 = mask_v4 (be32 b) p, v6 = zero_ipv6\<rparr>
      | None \<Rightarrow>
          (case inet_pton6 addr of
             Some b \<Rightarrow>
               let p = (case prefix of None \<Rightarrow> 128 | Some p \<Rightarrow> p)
               in if p < 0 \<or> p > 128 then None
                  else Some \<lparr>family = AF_INET6, prefix_len = p, v4 = 0, v6 = mask_v6 b p\<rparr>
           | None \<Rightarrow> None))"

definition ip_acl_parse_cidr :: "bytes \<Rightarrow> ip_acl_rule option" where
  "ip_acl_parse_cidr s = do { (addr, prefix) \<leftarrow> cidr_split s; cidr_rule addr prefix }"

definition match_v4 :: "ip_acl_rule \<Rightarrow> u32 \<Rightarrow> bool" where
  "match_v4 r ip \<longleftrightarrow> family r = AF_INET \<and> mask_v4 ip (prefix_len r) = v4 r"

definition match_v6 :: "ip_acl_rule \<Rightarrow> bytes \<Rightarrow> bool" where
  "match_v6 r ipv6 \<longleftrightarrow> family r = AF_INET6 \<and>
     list_all (\<lambda>i. ipv6 ! i AND mask_byte (prefix_len r - int i * 8) = v6 r ! i) [0..<16]"

subsection \<open>Lists\<close>

text \<open>\<open>None\<close> is the null pointer.\<close>

type_synonym ip_acl = "ip_acl_rule list option"

definition ip_acl_count :: "ip_acl \<Rightarrow> nat" where
  "ip_acl_count acl = (case acl of None \<Rightarrow> 0 | Some rs \<Rightarrow> length rs)"

definition acl_contains_v4 :: "ip_acl \<Rightarrow> u32 \<Rightarrow> bool" where
  "acl_contains_v4 acl ip = (case acl of None \<Rightarrow> False | Some rs \<Rightarrow> list_ex (\<lambda>r. match_v4 r ip) rs)"

definition acl_contains_v6 :: "ip_acl \<Rightarrow> bytes \<Rightarrow> bool" where
  "acl_contains_v6 acl ip = (case acl of None \<Rightarrow> False | Some rs \<Rightarrow> list_ex (\<lambda>r. match_v6 r ip) rs)"

definition v6_to_v4_mapped :: "bytes \<Rightarrow> u32" where
  "v6_to_v4_mapped ipv6 =
     (if take 12 ipv6 = replicate 10 0 @ [0xFF, 0xFF] then be32 (drop 12 ipv6) else 0)"

record acl_state =
  current_blocklist :: ip_acl
  current_allowlist :: ip_acl
  stats_allowlist :: ip_acl
  blocklist_file :: "string option"
  allowlist_file :: "string option"

definition acl_init :: acl_state where
  "acl_init = \<lparr>current_blocklist = None, current_allowlist = None, stats_allowlist = None,
     blocklist_file = None, allowlist_file = None\<rparr>"

definition ip_acl_set_blocklist_file :: "string \<Rightarrow> acl_state \<Rightarrow> acl_state" where
  "ip_acl_set_blocklist_file path st = st\<lparr>blocklist_file := Some path\<rparr>"

definition ip_acl_set_allowlist_file :: "string \<Rightarrow> acl_state \<Rightarrow> acl_state" where
  "ip_acl_set_allowlist_file path st = st\<lparr>allowlist_file := Some path\<rparr>"

definition ip_acl_add_rule :: "ip_acl_rule list \<Rightarrow> ip_acl_rule \<Rightarrow> ip_acl_rule list" where
  "ip_acl_add_rule acl r = acl @ [r]"

definition ip_acl_check_v4 :: "acl_state \<Rightarrow> u32 \<Rightarrow> bool" where
  "ip_acl_check_v4 st ip =
     (if ip_acl_count (current_allowlist st) > 0 then acl_contains_v4 (current_allowlist st) ip
      else if ip_acl_count (current_blocklist st) > 0 then \<not> acl_contains_v4 (current_blocklist st) ip
      else True)"

definition ip_acl_check_v6 :: "acl_state \<Rightarrow> bytes \<Rightarrow> bool" where
  "ip_acl_check_v6 st ipv6 =
     (let mapped = v6_to_v4_mapped ipv6 in
      if ip_acl_count (current_allowlist st) > 0 then
        (if acl_contains_v6 (current_allowlist st) ipv6 then True
         else if mapped \<noteq> 0 \<and> acl_contains_v4 (current_allowlist st) mapped then True
         else False)
      else if ip_acl_count (current_blocklist st) > 0 then
        (if acl_contains_v6 (current_blocklist st) ipv6 then False
         else if mapped \<noteq> 0 \<and> acl_contains_v4 (current_blocklist st) mapped then False
         else True)
      else True)"

subsection \<open>Loading\<close>

definition trim :: "bytes \<Rightarrow> bytes" where
  "trim s = rev (dropWhile isspace (rev (dropWhile isspace s)))"

text \<open>\<^verbatim>\<open>fgets\<close> with a buffer of 256 bytes, until the end of the file; each line as a C string.\<close>

function fgets_lines :: "bytes \<Rightarrow> bytes list" where
  "fgets_lines [] = []"
| "fgets_lines (b # bs) =
     (let chunk = take 255 (b # bs);
          line = (case strchr chunk 0x0a of None \<Rightarrow> chunk | Some i \<Rightarrow> take (Suc i) chunk)
      in takeWhile (\<lambda>c. c \<noteq> 0) line # fgets_lines (drop (length line) (b # bs)))"
  by pat_completeness auto
termination
  by (relation "measure length") (auto split: option.split dest!: strchr_Some [THEN iffD1])

definition load_line :: "bytes \<Rightarrow> ip_acl_rule list \<Rightarrow> ip_acl_rule list" where
  "load_line line acl =
     (let s = trim line in
      if s = [] \<or> hd s = 0x23 then acl
      else case ip_acl_parse_cidr s of None \<Rightarrow> acl | Some r \<Rightarrow> ip_acl_add_rule acl r)"

definition ip_acl_load :: "(string \<Rightarrow> bytes option) \<Rightarrow> string \<Rightarrow> ip_acl" where
  "ip_acl_load fs filename = map_option (\<lambda>content. fold load_line (fgets_lines content) []) (fs filename)"

text \<open>The result \<open>False\<close> is \<^verbatim>\<open>-1\<close>.\<close>

definition reload_list :: "(string \<Rightarrow> bytes option) \<Rightarrow> string option \<Rightarrow> ip_acl \<Rightarrow> bool \<times> ip_acl" where
  "reload_list fs file cur =
     (case file of
        None \<Rightarrow> (True, cur)
      | Some path \<Rightarrow>
          (case ip_acl_load fs path of
             Some acl \<Rightarrow> (True, Some acl)
           | None \<Rightarrow> if cur = None then (False, cur) else (True, cur)))"

definition ip_acl_reload :: "(string \<Rightarrow> bytes option) \<Rightarrow> acl_state \<Rightarrow> bool \<times> acl_state" where
  "ip_acl_reload fs st =
     (if blocklist_file st = None \<and> allowlist_file st = None then (True, st) else
      let (ok, bl) = reload_list fs (blocklist_file st) (current_blocklist st);
          st = st\<lparr>current_blocklist := bl\<rparr>
      in if \<not> ok then (False, st)
         else let (ok, al) = reload_list fs (allowlist_file st) (current_allowlist st)
              in (ok, st\<lparr>current_allowlist := al\<rparr>))"

definition ip_acl_add_stats_net :: "bytes \<Rightarrow> acl_state \<Rightarrow> bool \<times> acl_state" where
  "ip_acl_add_stats_net cidr st =
     (if cidr = [] \<or> length cidr \<ge> 256 then (False, st) else
      let s = trim cidr in
      if s = [] then (False, st) else
      case ip_acl_parse_cidr s of
        None \<Rightarrow> (False, st)
      | Some r \<Rightarrow>
          (True, st\<lparr>stats_allowlist := Some (ip_acl_add_rule (case stats_allowlist st of None \<Rightarrow> [] | Some rs \<Rightarrow> rs) r)\<rparr>))"

definition ip_acl_check_stats_v4 :: "acl_state \<Rightarrow> u32 \<Rightarrow> bool" where
  "ip_acl_check_stats_v4 st ip = acl_contains_v4 (stats_allowlist st) ip"

subsection \<open>Rules are prefixes\<close>

lemma bit_ones: "bit (0xFFFFFFFF :: int) k \<longleftrightarrow> k < 32" "bit (0xFF :: int) k \<longleftrightarrow> k < 8"
proof -
  have "(0xFFFFFFFF :: int) = mask 32" "(0xFF :: int) = mask 8" by (simp_all add: mask_eq_exp_minus_1)
  then show "bit (0xFFFFFFFF :: int) k \<longleftrightarrow> k < 32" "bit (0xFF :: int) k \<longleftrightarrow> k < 8"
    by (simp_all only: bit_mask_iff) simp_all
qed

lemma bit_mask_v4: "bit (mask_v4 x p) k \<longleftrightarrow> bit x k \<and> 32 - p \<le> int k"
proof (cases "k < 32")
  case True
  then show ?thesis by (auto simp: mask_v4_def bit_simps bit_ones)
next
  case False
  then have "\<not> bit y k" for y :: u32 using bit_imp_le_length [of y k] by auto
  then show ?thesis by simp
qed

lemma bit_mask_byte: "bit (mask_byte q) k \<longleftrightarrow> k < 8 \<and> 8 - q \<le> int k"
  by (auto simp: mask_byte_def bit_simps bit_ones)

lemma mask_v6_nth: "i < 16 \<Longrightarrow> mask_v6 a p ! i = a ! i AND mask_byte (p - int i * 8)"
  by (rule bit_word_eqI) (auto simp: mask_v6_def Let_def bit_simps bit_mask_byte bit_ones)

text \<open>The bits of an address, the most significant one first.\<close>

definition v4_bit :: "u32 \<Rightarrow> nat \<Rightarrow> bool" where
  "v4_bit ip k = bit ip (31 - k)"

definition v6_bit :: "bytes \<Rightarrow> nat \<Rightarrow> bool" where
  "v6_bit ip k = bit (ip ! (k div 8)) (7 - k mod 8)"

lemma mask_v4_agree:
  assumes "0 \<le> p" "p \<le> 32"
  shows "mask_v4 x p = mask_v4 y p \<longleftrightarrow> (\<forall>k < nat p. v4_bit x k = v4_bit y k)" (is "?l \<longleftrightarrow> ?r")
proof
  assume ?l
  show ?r
  proof (intro allI impI)
    fix k assume "k < nat p"
    then have "32 - p \<le> int (31 - k)" using assms by linarith
    with \<open>?l\<close> bit_mask_v4 [of x p "31 - k"] bit_mask_v4 [of y p "31 - k"] show "v4_bit x k = v4_bit y k"
      by (simp add: v4_bit_def)
  qed
next
  assume r: ?r
  show ?l
  proof (rule bit_word_eqI)
    fix n assume "n < LENGTH(32)"
    then have "n < 32" by simp
    then have "31 - (31 - n) = n" "32 - p \<le> int n \<Longrightarrow> 31 - n < nat p" using assms by linarith+
    with r show "bit (mask_v4 x p) n \<longleftrightarrow> bit (mask_v4 y p) n" by (auto simp: bit_mask_v4 v4_bit_def)
  qed
qed

lemma match_v6_agree:
  assumes "0 \<le> p" "p \<le> 128"
  shows "list_all (\<lambda>i. x ! i AND mask_byte (p - int i * 8) = mask_v6 y p ! i) [0..<16] \<longleftrightarrow>
    (\<forall>k < nat p. v6_bit x k = v6_bit y k)" (is "?l \<longleftrightarrow> ?r")
proof
  assume l: ?l
  show ?r
  proof (intro allI impI)
    fix k assume k: "k < nat p"
    let ?i = "k div 8" and ?j = "7 - k mod 8"
    have "k < 128" using k assms by linarith
    then have i: "?i < 16" by simp
    have "k = 8 * ?i + k mod 8" by simp
    then have j: "?j < 8" "8 - (p - int ?i * 8) \<le> int ?j" using k assms by linarith+
    from l i have "x ! ?i AND mask_byte (p - int ?i * 8) = y ! ?i AND mask_byte (p - int ?i * 8)"
      by (simp add: list_all_iff mask_v6_nth)
    then have "bit (x ! ?i AND mask_byte (p - int ?i * 8)) ?j = bit (y ! ?i AND mask_byte (p - int ?i * 8)) ?j" by simp
    with j show "v6_bit x k = v6_bit y k" by (simp add: v6_bit_def bit_and_iff bit_mask_byte)
  qed
next
  assume r: ?r
  have "x ! i AND mask_byte (p - int i * 8) = y ! i AND mask_byte (p - int i * 8)" if i: "i < 16" for i
  proof (rule bit_word_eqI)
    fix j assume "j < LENGTH(8)"
    then have j: "j < 8" by simp
    define m where "m = 7 - j"
    let ?k = "8 * i + m"
    have m: "m < 8" "7 - m = j" using j by (simp_all add: m_def)
    then have k: "?k div 8 = i" "?k mod 8 = m" by simp_all
    have "8 - (p - int i * 8) \<le> int j \<Longrightarrow> ?k < nat p" using j m assms by linarith
    with r k m show "bit (x ! i AND mask_byte (p - int i * 8)) j \<longleftrightarrow> bit (y ! i AND mask_byte (p - int i * 8)) j"
      by (auto simp: bit_and_iff bit_mask_byte v6_bit_def dest!: spec [of _ ?k])
  qed
  then show ?l by (simp add: list_all_iff mask_v6_nth)
qed

definition cidr_addr :: "bytes \<Rightarrow> bytes" where
  "cidr_addr s = (case strchr s 0x2f of None \<Rightarrow> s | Some i \<Rightarrow> take i s)"

text \<open>
  C28: A rule parsed from CIDR notation matches exactly the addresses of its family that agree with the
  written address on the first \<^verbatim>\<open>prefix_len\<close> bits, which is a length the family allows.
\<close>

theorem cidr_rule_is_prefix:
  assumes "ip_acl_parse_cidr s = Some r"
  shows "(family r = AF_INET \<and> 0 \<le> prefix_len r \<and> prefix_len r \<le> 32 \<and>
      (\<exists>b. inet_pton4 (cidr_addr s) = Some b \<and>
         (\<forall>ip. match_v4 r ip \<longleftrightarrow> (\<forall>k < nat (prefix_len r). v4_bit ip k = v4_bit (be32 b) k)))) \<or>
    (family r = AF_INET6 \<and> 0 \<le> prefix_len r \<and> prefix_len r \<le> 128 \<and>
      (\<exists>b. inet_pton6 (cidr_addr s) = Some b \<and>
         (\<forall>ip. match_v6 r ip \<longleftrightarrow> (\<forall>k < nat (prefix_len r). v6_bit ip k = v6_bit b k))))"
proof -
  from assms obtain addr prefix where "cidr_split s = Some (addr, prefix)" and rule: "cidr_rule addr prefix = Some r"
    by (auto simp: ip_acl_parse_cidr_def bind_eq_Some_conv)
  then have "addr = cidr_addr s" by (auto simp: cidr_split_def cidr_addr_def Let_def split: option.splits if_splits)
  with rule have eq: "cidr_rule (cidr_addr s) prefix = Some r" by simp
  show ?thesis
  proof (cases "inet_pton4 (cidr_addr s)")
    case (Some b)
    define p where "p = (case prefix of None \<Rightarrow> 32 | Some p \<Rightarrow> p)"
    from eq have "0 \<le> p" "p \<le> 32" "r = \<lparr>family = AF_INET, prefix_len = p, v4 = mask_v4 (be32 b) p, v6 = zero_ipv6\<rparr>"
      unfolding cidr_rule_def Some option.case Let_def p_def [symmetric] by (simp_all split: if_splits)
    with Some show ?thesis by (simp add: match_v4_def mask_v4_agree)
  next
    case None
    from eq obtain b where b: "inet_pton6 (cidr_addr s) = Some b" by (cases "inet_pton6 (cidr_addr s)") (simp_all add: cidr_rule_def None)
    define p where "p = (case prefix of None \<Rightarrow> 128 | Some p \<Rightarrow> p)"
    from eq have "0 \<le> p" "p \<le> 128" "r = \<lparr>family = AF_INET6, prefix_len = p, v4 = 0, v6 = mask_v6 b p\<rparr>"
      unfolding cidr_rule_def None b option.case Let_def p_def [symmetric] by (simp_all split: if_splits)
    with b show ?thesis by (simp add: match_v6_def match_v6_agree)
  qed
qed

theorem cidr_rule_is_prefix_witness:
  "\<exists>r. ip_acl_parse_cidr [0x31, 0x30, 0x2e, 0x31, 0x2e, 0x32, 0x2e, 0x33, 0x2f, 0x38] = Some r \<and>
     prefix_len r = 8 \<and> match_v4 r 0x0A090909 = (\<forall>k < 8. v4_bit 0x0A090909 k = v4_bit 0x0A010203 k)"
proof -
  have run: "ip_acl_parse_cidr [0x31, 0x30, 0x2e, 0x31, 0x2e, 0x32, 0x2e, 0x33, 0x2f, 0x38] =
      Some \<lparr>family = AF_INET, prefix_len = 8, v4 = 0x0A000000, v6 = zero_ipv6\<rparr>" by code_simp
  have pton: "inet_pton4 (cidr_addr [0x31, 0x30, 0x2e, 0x31, 0x2e, 0x32, 0x2e, 0x33, 0x2f, 0x38]) = Some [10, 1, 2, 3]" by code_simp
  have be: "be32 [10, 1, 2, 3] = 0x0A010203" by code_simp
  from cidr_rule_is_prefix [OF run] run show ?thesis by (simp add: pton be)
qed

text \<open>
  A slash without digits is read as the prefix length 0: such an IPv4 line is accepted as a rule that
  matches every address.
\<close>

theorem cidr_bare_slash_matches_all:
  assumes "inet_pton4 a = Some b" "0x2f \<notin> set a"
  shows "\<exists>r. ip_acl_parse_cidr (a @ [0x2f]) = Some r \<and> match_v4 r ip"
proof -
  have "strchr (a @ [0x2f]) 0x2f = Some (length a)" using assms(2) by (simp add: strchr_Some nth_append)
  moreover have "strtol10_rest [] = []" "atoi [] = 0"
    by (simp_all add: strtol10_rest_def atoi_def strtol10_def digits_val_def int32_def)
  ultimately show ?thesis using assms(1)
    by (simp add: ip_acl_parse_cidr_def cidr_split_def cidr_rule_def match_v4_def mask_v4_def)
qed

theorem cidr_bare_slash_matches_all_witness:
  "\<exists>r. ip_acl_parse_cidr [0x31, 0x30, 0x2e, 0x30, 0x2e, 0x30, 0x2e, 0x30, 0x2f] = Some r \<and> match_v4 r 0x08080808"
proof -
  have "inet_pton4 [0x31, 0x30, 0x2e, 0x30, 0x2e, 0x30, 0x2e, 0x30] = Some [10, 0, 0, 0]" by code_simp
  from cidr_bare_slash_matches_all [OF this, of "0x08080808"] show ?thesis by simp
qed

subsection \<open>Decisions\<close>

definition map_v4 :: "bytes \<Rightarrow> bytes" where
  "map_v4 b = replicate 10 0 @ [0xFF, 0xFF] @ b"

lemma v6_to_v4_mapped_map: "v6_to_v4_mapped (map_v4 b) = be32 b"
  by (simp add: v6_to_v4_mapped_def map_v4_def)

text \<open>
  A client that reaches the proxy over a v4-mapped IPv6 address is judged like the IPv4 client, unless an
  IPv6 rule covers the mapped address: with a block list it is never let in where the IPv4 client is not.
\<close>

lemma check_v6_mapped:
  assumes "be32 b \<noteq> 0"
  shows "ip_acl_check_v6 st (map_v4 b) =
    (if ip_acl_count (current_allowlist st) > 0 then
       acl_contains_v6 (current_allowlist st) (map_v4 b) \<or> ip_acl_check_v4 st (be32 b)
     else
       \<not> acl_contains_v6 (current_blocklist st) (map_v4 b) \<and> ip_acl_check_v4 st (be32 b))"
  using assms
  by (cases "current_blocklist st")
    (auto simp: ip_acl_check_v6_def ip_acl_check_v4_def v6_to_v4_mapped_map Let_def ip_acl_count_def acl_contains_v6_def)

text \<open>A reload never loses a list that is in force; it fails only while a configured list was never loaded.\<close>

lemma reload_list_keeps:
  "reload_list fs file cur = (ok, cur') \<Longrightarrow>
   (cur' = cur \<or> (\<exists>path. file = Some path \<and> cur' = ip_acl_load fs path)) \<and> (cur \<noteq> None \<longrightarrow> cur' \<noteq> None) \<and>
   (ok \<longleftrightarrow> \<not> (file \<noteq> None \<and> cur' = None))"
  by (auto simp: reload_list_def split: option.splits if_splits) (metis+)

lemma ip_acl_reload_keeps:
  assumes "ip_acl_reload fs st = (ok, st')"
  shows "(current_blocklist st \<noteq> None \<longrightarrow> current_blocklist st' \<noteq> None) \<and>
    (current_allowlist st \<noteq> None \<longrightarrow> current_allowlist st' \<noteq> None) \<and>
    (ok \<longrightarrow> (blocklist_file st \<noteq> None \<longrightarrow> current_blocklist st' \<noteq> None) \<and>
            (allowlist_file st \<noteq> None \<longrightarrow> current_allowlist st' \<noteq> None))"
  using assms reload_list_keeps
  by (auto simp: ip_acl_reload_def Let_def split: prod.splits if_splits) blast+

end
