(* ===== verification/Dc_Table.thy ===== *)
theory Dc_Table
  imports Ip_Acl
begin

text \<open>
  The table of Telegram data centres (\<^verbatim>\<open>src/src/mtproto/mtproto-dc-table.c\<close>): the built-in addresses, the
  overrides from the configuration and the lookup by the identifier a client asks for. An IPv4 address
  is its four bytes in network order. \<^verbatim>\<open>addr_count\<close> and the array of addresses are one list.
  Identifiers are far from the ends of \<^verbatim>\<open>int\<close>: the header of a client carries 16 bits.
\<close>

subsection \<open>Textual IPv4 addresses\<close>

text \<open>
  \<^verbatim>\<open>inet_addr\<close> accepts one to four numbers separated by dots, in decimal, octal or hexadecimal; the last
  number fills the remaining bytes. White space ends the address. The result for anything else is
  \<^verbatim>\<open>INADDR_NONE\<close>.
\<close>

definition INADDR_NONE :: bytes where
  "INADDR_NONE = [255, 255, 255, 255]"

definition base_digits :: "int \<Rightarrow> bytes \<Rightarrow> int list \<times> bytes" where
  "base_digits base s =
     (let is_digit = (\<lambda>c. case hex_val c of Some d \<Rightarrow> d < base | None \<Rightarrow> False)
      in (map (\<lambda>c. the (hex_val c)) (takeWhile is_digit s), dropWhile is_digit s))"

definition digits_in :: "int \<Rightarrow> int list \<Rightarrow> int" where
  "digits_in base ds = foldl (\<lambda>acc d. acc * base + d) 0 ds"

text \<open>\<^verbatim>\<open>strtoul (s, &endp, 0)\<close> on a string that starts with a digit.\<close>

definition c_number :: "bytes \<Rightarrow> (int \<times> bytes) option" where
  "c_number s =
     (case s of
        [] \<Rightarrow> None
      | c # cs \<Rightarrow>
          if \<not> isdigit c then None
          else if c = 0x30 \<and> cs \<noteq> [] \<and> hd cs \<in> {0x78, 0x58} \<and> fst (base_digits 16 (tl cs)) \<noteq> [] then
            (case base_digits 16 (tl cs) of (ds, rest) \<Rightarrow> Some (digits_in 16 ds, rest))
          else if c = 0x30 then (case base_digits 8 s of (ds, rest) \<Rightarrow> Some (digits_in 8 ds, rest))
          else (case base_digits 10 s of (ds, rest) \<Rightarrow> Some (digits_in 10 ds, rest)))"

definition be_bytes :: "nat \<Rightarrow> int \<Rightarrow> bytes" where
  "be_bytes n v = map (\<lambda>i. word_of_int (v div 256 ^ (n - 1 - i))) [0..<n]"

primrec aton :: "nat \<Rightarrow> bytes \<Rightarrow> bytes option" where
  "aton 0 s = None"
| "aton (Suc n) s =
     (case c_number s of
        None \<Rightarrow> None
      | Some (v, rest) \<Rightarrow>
          if rest \<noteq> [] \<and> hd rest = 0x2e then
            (if v > 255 then None else map_option (\<lambda>b. word_of_int v # b) (aton n (tl rest)))
          else if (rest = [] \<or> isspace (hd rest)) \<and> v < 256 ^ Suc n then Some (be_bytes (Suc n) v)
          else None)"

definition inet_addr :: "bytes \<Rightarrow> bytes" where
  "inet_addr host = (case aton 4 host of Some b \<Rightarrow> b | None \<Rightarrow> INADDR_NONE)"

subsection \<open>The tables\<close>

record dc_addr =
  ipv4 :: bytes
  ipv6 :: bytes
  port :: int

record dc_entry =
  dc_id :: int
  addrs :: "dc_addr list"

definition DC_MAX_ADDRS :: nat where "DC_MAX_ADDRS = 4"
definition MAX_OVERRIDES :: nat where "MAX_OVERRIDES = 16"

definition zero_ipv4 :: bytes where
  "zero_ipv4 = [0, 0, 0, 0]"

definition builtin_dc :: "int \<Rightarrow> bytes \<Rightarrow> bytes \<Rightarrow> dc_entry" where
  "builtin_dc i a4 a6 = \<lparr>dc_id = i, addrs = [\<lparr>ipv4 = a4, ipv6 = a6, port = 443\<rparr>]\<rparr>"

definition dc_v6 :: "byte \<Rightarrow> byte \<Rightarrow> byte \<Rightarrow> byte \<Rightarrow> byte \<Rightarrow> byte \<Rightarrow> byte \<Rightarrow> bytes" where
  "dc_v6 c d e f g h l = [0x20, 0x01, c, d, e, f, g, h] @ replicate 7 0 @ [l]"

definition prod_table :: "dc_entry list" where
  "prod_table =
     [builtin_dc 1 [149, 154, 175, 50] (dc_v6 0x0b 0x28 0xf2 0x3d 0xf0 0x01 0x0a),
      builtin_dc 2 [149, 154, 167, 51] (dc_v6 0x06 0x7c 0x04 0xe8 0xf0 0x02 0x0a),
      builtin_dc 3 [149, 154, 175, 100] (dc_v6 0x0b 0x28 0xf2 0x3d 0xf0 0x03 0x0a),
      builtin_dc 4 [149, 154, 167, 91] (dc_v6 0x06 0x7c 0x04 0xe8 0xf0 0x04 0x0a),
      builtin_dc 5 [91, 108, 56, 100] (dc_v6 0x0b 0x28 0xf2 0x3f 0xf0 0x05 0x0a)]"

definition test_table :: "dc_entry list" where
  "test_table =
     [builtin_dc 1 [149, 154, 175, 10] (dc_v6 0x0b 0x28 0xf2 0x3d 0xf0 0x01 0x0e),
      builtin_dc 2 [149, 154, 167, 40] (dc_v6 0x06 0x7c 0x04 0xe8 0xf0 0x02 0x0e),
      builtin_dc 3 [149, 154, 175, 117] (dc_v6 0x0b 0x28 0xf2 0x3d 0xf0 0x03 0x0e)]"

definition find_dc :: "int \<Rightarrow> dc_entry list \<Rightarrow> dc_entry option" where
  "find_dc i t = find (\<lambda>e. dc_id e = i) t"

definition direct_dc_lookup :: "dc_entry list \<Rightarrow> int \<Rightarrow> dc_entry option" where
  "direct_dc_lookup override_table i =
     (let i = (if i < 0 then - i else i);
          is_test = (i \<ge> 10000);
          i = (if is_test then i - 10000 else i)
      in case find_dc i override_table of
           Some e \<Rightarrow> Some e
         | None \<Rightarrow>
             let i = (if i > 200 \<and> i < 300 then i - 200 else i)
             in if is_test then find_dc i test_table else find_dc i prod_table)"

text \<open>The address an override names, \<open>None\<close> for a host that is no address.\<close>

definition override_addr :: "bytes \<Rightarrow> int \<Rightarrow> dc_addr option" where
  "override_addr host p =
     (case inet_pton6 host of
        Some b \<Rightarrow> Some \<lparr>ipv4 = zero_ipv4, ipv6 = b, port = p\<rparr>
      | None \<Rightarrow>
          if inet_addr host = INADDR_NONE then None
          else Some \<lparr>ipv4 = inet_addr host, ipv6 = zero_ipv6, port = p\<rparr>)"

fun add_addr :: "int \<Rightarrow> dc_addr \<Rightarrow> dc_entry list \<Rightarrow> dc_entry list" where
  "add_addr i a [] = []"
| "add_addr i a (e # es) = (if dc_id e = i then e\<lparr>addrs := addrs e @ [a]\<rparr> # es else e # add_addr i a es)"

text \<open>The result of the call and the table afterwards.\<close>

definition direct_dc_override :: "int \<Rightarrow> bytes \<Rightarrow> int \<Rightarrow> dc_entry list \<Rightarrow> int \<times> dc_entry list" where
  "direct_dc_override i host p tbl =
     (if find_dc i tbl = None \<and> length tbl \<ge> MAX_OVERRIDES then (-1, tbl)
      else let tbl = (if find_dc i tbl = None then tbl @ [\<lparr>dc_id = i, addrs = []\<rparr>] else tbl);
               e = the (find_dc i tbl)
        in if length (addrs e) \<ge> DC_MAX_ADDRS then (-1, tbl)
           else case override_addr host p of
                  None \<Rightarrow> (-1, tbl)
                | Some a \<Rightarrow> (0, add_addr i a tbl))"

subsection \<open>Lookups and overrides\<close>

text \<open>The identifier under which the overrides are searched.\<close>

definition base_id :: "int \<Rightarrow> int" where
  "base_id i = (let a = \<bar>i\<bar> in if a \<ge> 10000 then a - 10000 else a)"

definition builtin :: "int \<Rightarrow> dc_entry option" where
  "builtin i =
     (let b = base_id i; b = (if b > 200 \<and> b < 300 then b - 200 else b)
      in find_dc b (if \<bar>i\<bar> \<ge> 10000 then test_table else prod_table))"

lemma direct_dc_lookup_alt:
  "direct_dc_lookup tbl i = (case find_dc (base_id i) tbl of Some e \<Rightarrow> Some e | None \<Rightarrow> builtin i)"
  by (auto simp: direct_dc_lookup_def base_id_def builtin_def Let_def abs_if split: option.split)

definition override_addrs :: "int \<Rightarrow> dc_entry list \<Rightarrow> dc_addr list" where
  "override_addrs i tbl = (case find_dc i tbl of Some e \<Rightarrow> addrs e | None \<Rightarrow> [])"

lemma find_dc_append: "find_dc i (xs @ ys) = (case find_dc i xs of Some e \<Rightarrow> Some e | None \<Rightarrow> find_dc i ys)"
  by (induction xs) (auto simp: find_dc_def)

lemma find_dc_add:
  "find_dc j (add_addr i a xs) =
   (if j = i then map_option (\<lambda>e. e\<lparr>addrs := addrs e @ [a]\<rparr>) (find_dc i xs) else find_dc j xs)"
  by (induction xs) (auto simp: find_dc_def)

lemma find_dc_id: "find_dc i xs = Some e \<Longrightarrow> dc_id e = i"
  by (auto simp: find_dc_def dest: find_SomeD)

lemma find_dc_new: "find_dc j [\<lparr>dc_id = i, addrs = as\<rparr>] = (if j = i then Some \<lparr>dc_id = i, addrs = as\<rparr> else None)"
  by (simp add: find_dc_def)

text \<open>
  C30: A successful override adds its address to those already configured for the data centre; every
  identifier with that base (the media, test and plain one) is then served by the configured addresses
  alone, and every other identifier is served as before.
\<close>

theorem direct_dc_override_lookup:
  assumes "direct_dc_override i host p tbl = (0, tbl')"
  shows "\<exists>a. override_addr host p = Some a \<and>
    direct_dc_lookup tbl' j =
      (if base_id j = i then Some \<lparr>dc_id = i, addrs = override_addrs i tbl @ [a]\<rparr> else direct_dc_lookup tbl j)"
proof -
  let ?t = "if find_dc i tbl = None then tbl @ [\<lparr>dc_id = i, addrs = []\<rparr>] else tbl"
  from assms obtain a where a: "override_addr host p = Some a" "tbl' = add_addr i a ?t"
    by (auto simp: direct_dc_override_def Let_def split: if_splits option.splits)
  have e: "find_dc i ?t = Some \<lparr>dc_id = i, addrs = override_addrs i tbl\<rparr>"
  proof (cases "find_dc i tbl")
    case (Some e)
    then show ?thesis using find_dc_id [OF Some] by (cases e) (simp add: override_addrs_def)
  qed (simp add: find_dc_append find_dc_new override_addrs_def)
  have other: "find_dc k ?t = find_dc k tbl" if "k \<noteq> i" for k
    using that by (simp add: find_dc_append find_dc_new split: option.split)
  show ?thesis using a e other by (auto simp: direct_dc_lookup_alt find_dc_add)
qed

definition sample_host :: bytes where
  "sample_host = [0x31, 0x30, 0x2e, 0x30, 0x2e, 0x30, 0x2e, 0x37]"

lemma direct_dc_override_lookup_witness:
  "direct_dc_lookup (snd (direct_dc_override 203 sample_host 443 [])) (- 203) =
     Some \<lparr>dc_id = 203, addrs = [\<lparr>ipv4 = [10, 0, 0, 7], ipv6 = zero_ipv6, port = 443\<rparr>]\<rparr>"
proof -
  have o: "override_addr sample_host 443 = Some \<lparr>ipv4 = [10, 0, 0, 7], ipv6 = zero_ipv6, port = 443\<rparr>"
    by code_simp
  have "direct_dc_override 203 sample_host 443 [] = (0, snd (direct_dc_override 203 sample_host 443 []))"
    by code_simp
  from direct_dc_override_lookup [OF this, of "- 203"] o show ?thesis
    by (simp add: base_id_def override_addrs_def find_dc_def)
qed

text \<open>
  An override whose host is not an address is reported as an error and yet leaves an entry without
  addresses behind: from then on the data centre has no address, not even the built-in one.
\<close>

theorem direct_dc_override_failure_hides:
  assumes "override_addr host p = None" "find_dc i tbl = None" "length tbl < MAX_OVERRIDES"
    "direct_dc_override i host p tbl = (res, tbl')"
  shows "res = -1 \<and> (base_id j = i \<longrightarrow> direct_dc_lookup tbl' j = Some \<lparr>dc_id = i, addrs = []\<rparr>)"
  using assms
  by (auto simp: direct_dc_override_def direct_dc_lookup_alt find_dc_append find_dc_new DC_MAX_ADDRS_def)

text \<open>The host \<^verbatim>\<open>dc2\<close>.\<close>

lemma direct_dc_override_failure_hides_witness:
  "fst (direct_dc_override 2 [0x64, 0x63, 0x32] 443 []) = -1 \<and>
   direct_dc_lookup (snd (direct_dc_override 2 [0x64, 0x63, 0x32] 443 [])) 2 = Some \<lparr>dc_id = 2, addrs = []\<rparr> \<and>
   direct_dc_lookup [] 2 = Some (prod_table ! 1)"
proof -
  have h: "override_addr [0x64, 0x63, 0x32] 443 = None" "find_dc 2 [] = None" "length ([] :: dc_entry list) < MAX_OVERRIDES"
    by code_simp+
  have "direct_dc_lookup [] 2 = Some (prod_table ! 1)" by code_simp
  with direct_dc_override_failure_hides [OF h, of _ _ 2] show ?thesis
    by (simp add: base_id_def prod_eq_iff)
qed

end
