(* ===== verification/Direct_Dc.thy ===== *)
theory Direct_Dc
  imports Dc_Table Accept
begin

text \<open>
  Direct mode (\<^verbatim>\<open>src/src/net/net-tcp-direct-dc.c\<close>): a client is connected to a data centre without a middle
  proxy. The choice of an address and the retries, the obfuscated2 header sent to the data centre, the
  handshake with an upstream SOCKS5 proxy, the accounting of relayed bytes and the closing of either side.

  Sockets and their allocation are the argument \<open>sock\<close>, which tells for the number of an address whether a
  connection object could be created for it; AES-256-CTR is the argument \<open>ctr\<close>. Reference counts and
  log messages are left out.
\<close>

subsection \<open>State\<close>

definition DIRECT_MAX_RETRIES :: nat where "DIRECT_MAX_RETRIES = 3"
definition DIRECT_RETRY_BASE_SEC :: real where "DIRECT_RETRY_BASE_SEC = 1 / 5"

record socks5_config =
  socks5_enabled :: bool
  socks5_resolve_remote :: bool
  socks5_addr :: bytes
  socks5_port :: int
  socks5_user :: bytes
  socks5_pass :: bytes

record direct_env =
  ipv6_enabled :: bool
  socks5 :: socks5_config
  override_table :: "dc_entry list"

text \<open>The counters of the module.\<close>

record direct_stats =
  direct_dc_connections_created :: int
  direct_dc_connections_active :: int
  direct_dc_connections_failed :: int
  direct_dc_connections_dc_closed :: int
  direct_dc_retries :: int

text \<open>
  The connection to the data centre: \<^verbatim>\<open>extra_int4\<close>, \<^verbatim>\<open>extra_int2\<close>, \<^verbatim>\<open>extra_int3\<close>, and whether \<^verbatim>\<open>c->crypto\<close> is
  set.
\<close>

record dc_conn =
  out_dc :: int
  addr_idx :: nat
  out_tag :: u32
  has_crypto :: bool

text \<open>
  The client: \<^verbatim>\<open>extra_int4\<close>, \<^verbatim>\<open>extra_int\<close>, \<^verbatim>\<open>extra_int2\<close>, \<^verbatim>\<open>extra_int3\<close>, the retry timer, \<^verbatim>\<open>c->extra\<close> and whether
  \<^verbatim>\<open>fail_connection\<close> was called.
\<close>

record direct_client =
  target_dc :: int
  attempt :: nat
  sid :: int
  client_tag :: u32
  retry_at :: "real option"
  dc_link :: "dc_conn option"
  client_failed :: bool

subsection \<open>Choosing an address\<close>

definition use_ipv6 :: "direct_env \<Rightarrow> dc_addr \<Rightarrow> bool" where
  "use_ipv6 env a \<longleftrightarrow> ipv6_enabled env \<and> dc_addr.ipv6 a \<noteq> zero_ipv6"

definition addr_usable :: "direct_env \<Rightarrow> dc_addr \<Rightarrow> bool" where
  "addr_usable env a \<longleftrightarrow> use_ipv6 env a \<or> dc_addr.ipv4 a \<noteq> zero_ipv4"

fun try_addrs :: "direct_env \<Rightarrow> (nat \<Rightarrow> bool) \<Rightarrow> nat \<Rightarrow> dc_addr list \<Rightarrow> nat option" where
  "try_addrs env sock i [] = None"
| "try_addrs env sock i (a # as) =
     (if addr_usable env a \<and> sock i then Some i else try_addrs env sock (i + 1) as)"

definition direct_try_dc_addrs :: "direct_env \<Rightarrow> (nat \<Rightarrow> bool) \<Rightarrow> dc_entry \<Rightarrow> dc_conn option" where
  "direct_try_dc_addrs env sock e =
     map_option (\<lambda>i. \<lparr>out_dc = 0, addr_idx = (if socks5_enabled (socks5 env) then i else 0), out_tag = 0,
                       has_crypto = False\<rparr>)
       (try_addrs env sock 0 (addrs e))"

subsection \<open>Connecting and retrying\<close>

definition fail_client :: "direct_client \<Rightarrow> direct_client" where
  "fail_client c = c\<lparr>client_failed := True\<rparr>"

definition count_failed :: "direct_stats \<Rightarrow> direct_stats" where
  "count_failed g = g\<lparr>direct_dc_connections_failed := direct_dc_connections_failed g + 1\<rparr>"

definition direct_schedule_retry ::
  "real \<Rightarrow> nat \<Rightarrow> direct_client \<times> direct_stats \<Rightarrow> direct_client \<times> direct_stats" where
  "direct_schedule_retry precise_now n cg = (case cg of (c, g) \<Rightarrow>
     if n \<ge> DIRECT_MAX_RETRIES then (fail_client c, count_failed g)
     else (c\<lparr>attempt := n + 1, retry_at := Some (precise_now + DIRECT_RETRY_BASE_SEC * 2 ^ n)\<rparr>,
           g\<lparr>direct_dc_retries := direct_dc_retries g + 1\<rparr>))"

definition outbound_dc :: "int \<Rightarrow> dc_entry \<Rightarrow> int" where
  "outbound_dc target e = (if target < 0 then -1 else 1) * dc_id e"

text \<open>The link that both \<open>direct_connect_to_dc\<close> and the retry set up.\<close>

definition link_dc :: "dc_entry \<Rightarrow> dc_conn \<Rightarrow> direct_client \<times> direct_stats \<Rightarrow> direct_client \<times> direct_stats" where
  "link_dc e d cg = (case cg of (c, g) \<Rightarrow>
     (c\<lparr>dc_link := Some (d\<lparr>out_dc := outbound_dc (target_dc c) e, out_tag := client_tag c\<rparr>)\<rparr>,
      g\<lparr>direct_dc_connections_created := direct_dc_connections_created g + 1,
        direct_dc_connections_active := direct_dc_connections_active g + 1\<rparr>))"

definition direct_connect_to_dc ::
  "direct_env \<Rightarrow> (nat \<Rightarrow> bool) \<Rightarrow> real \<Rightarrow> direct_client \<times> direct_stats \<Rightarrow> direct_client \<times> direct_stats" where
  "direct_connect_to_dc env sock precise_now cg = (case cg of (c, g) \<Rightarrow>
     case direct_dc_lookup (override_table env) (target_dc c) of
       None \<Rightarrow> (fail_client c, count_failed g)
     | Some e \<Rightarrow>
         (case direct_try_dc_addrs env sock e of
            None \<Rightarrow> direct_schedule_retry precise_now 0 (c, count_failed g)
          | Some d \<Rightarrow> link_dc e d (c, g)))"

definition direct_retry_dc_connection ::
  "direct_env \<Rightarrow> (nat \<Rightarrow> bool) \<Rightarrow> real \<Rightarrow> direct_client \<times> direct_stats \<Rightarrow> direct_client \<times> direct_stats" where
  "direct_retry_dc_connection env sock precise_now cg = (case cg of (c, g) \<Rightarrow>
     case direct_dc_lookup (override_table env) (target_dc c) of
       None \<Rightarrow> (fail_client (c\<lparr>attempt := 0\<rparr>), count_failed g)
     | Some e \<Rightarrow>
         (case direct_try_dc_addrs env sock e of
            None \<Rightarrow> direct_schedule_retry precise_now (attempt c) (c, count_failed g)
          | Some d \<Rightarrow> link_dc e d (c\<lparr>attempt := 0\<rparr>, g)))"

text \<open>The alarm of a client that is not paused by the rate limit.\<close>

definition tcp_direct_client_alarm ::
  "direct_env \<Rightarrow> (nat \<Rightarrow> bool) \<Rightarrow> real \<Rightarrow> direct_client \<times> direct_stats \<Rightarrow> direct_client \<times> direct_stats" where
  "tcp_direct_client_alarm env sock precise_now cg = (case cg of (c, g) \<Rightarrow>
     let c = c\<lparr>retry_at := None\<rparr> in
     if dc_link c = None \<and> attempt c > 0 then direct_retry_dc_connection env sock precise_now (c, g)
     else (c, g))"

subsection \<open>Closing\<close>

text \<open>
  \<^verbatim>\<open>tcp_direct_close\<close> for the side of the data centre, \<open>who\<close> as in the code. A connection that dies
  before its keys are set is replaced, later the client is failed too.
\<close>

definition direct_close_dc ::
  "real \<Rightarrow> int \<Rightarrow> direct_client \<times> direct_stats \<Rightarrow> direct_client \<times> direct_stats" where
  "direct_close_dc precise_now who cg = (case cg of (c, g) \<Rightarrow>
     case dc_link c of
       None \<Rightarrow> (c, if who \<noteq> 0 then g\<lparr>direct_dc_connections_dc_closed := direct_dc_connections_dc_closed g + 1\<rparr> else g)
     | Some d \<Rightarrow>
         if \<not> has_crypto d \<and> attempt c < DIRECT_MAX_RETRIES then
           direct_schedule_retry precise_now (attempt c) (c\<lparr>dc_link := None\<rparr>, count_failed g)
         else (fail_client c,
               if who \<noteq> 0 then g\<lparr>direct_dc_connections_dc_closed := direct_dc_connections_dc_closed g + 1\<rparr> else g))"

text \<open>
  \<^verbatim>\<open>tcp_direct_close\<close> for the client. The counters of its secret are those of
  \<open>mtproto_ext_rpc_close\<close>.
\<close>

definition direct_close_client ::
  "real \<Rightarrow> addr_key \<Rightarrow> direct_client \<times> direct_stats \<times> worker \<Rightarrow> direct_stats \<times> worker" where
  "direct_close_client precise_now a cgw = (case cgw of (c, g, w) \<Rightarrow>
     if direct_dc_connections_active g > 0 then
       (g\<lparr>direct_dc_connections_active := direct_dc_connections_active g - 1\<rparr>,
        mtproto_ext_rpc_close precise_now (sid c) a w)
     else (g, w))"

subsection \<open>Relaying\<close>

datatype relay_outcome = Relay_wait | Relay_failed | Relayed "real option"

text \<open>Both directions charge the secret before the bytes are passed on.\<close>

definition charge_bytes :: "bool \<Rightarrow> int \<Rightarrow> slot \<Rightarrow> slot" where
  "charge_bytes to_client n s =
     (if to_client
      then s\<lparr>stats := (stats s)\<lparr>per_secret_bytes_sent := per_secret_bytes_sent (stats s) + n\<rparr>\<rparr>
      else s\<lparr>stats := (stats s)\<lparr>per_secret_bytes_received := per_secret_bytes_received (stats s) + n\<rparr>\<rparr>)"

definition relay_charged ::
  "accept_env \<Rightarrow> bool \<Rightarrow> int \<Rightarrow> addr_key \<Rightarrow> int \<Rightarrow> worker \<Rightarrow> relay_outcome \<times> worker" where
  "relay_charged env to_client sec a n w =
     (if sec > 0 \<and> sec \<le> int EXT_SECRET_MAX_SLOTS \<and> n > 0 then
        let i = nat (sec - 1);
            w = w\<lparr>secs := update_slot i (charge_bytes to_client n) (secs w),
                  vols := tcp_rpcs_account_bytes (env_precise_now env) (sec - 1) (fst a) (snd a) n
                            (if to_client then 1 else 0) (vols w)\<rparr>
        in if secret_over_quota (env_workers env) (slots (secs w) ! i) then
             (Relay_failed, w\<lparr>secs := update_slot i (count_reject Rej_quota) (secs w)\<rparr>)
           else
             let (s, delay) = rate_limit_after_relay (env_workers env) (env_precise_now env) n a (slots (secs w) ! i)
             in (Relayed delay, w\<lparr>secs := (secs w)\<lparr>slots := (slots (secs w))[i := s]\<rparr>\<rparr>)
      else (Relayed None, w))"

definition tcp_direct_client_parse_execute ::
  "accept_env \<Rightarrow> direct_client \<Rightarrow> addr_key \<Rightarrow> int \<Rightarrow> worker \<Rightarrow> relay_outcome \<times> worker" where
  "tcp_direct_client_parse_execute env c a n w =
     (case dc_link c of
        None \<Rightarrow> (if attempt c > 0 then (Relay_wait, w) else (Relay_failed, w))
      | Some d \<Rightarrow> if \<not> has_crypto d then (Relay_wait, w) else relay_charged env False (sid c) a n w)"

text \<open>
  The relay part of \<^verbatim>\<open>tcp_direct_dc_parse_execute\<close>; \<open>client\<close> is the linked client, if there is one.
\<close>

definition direct_dc_relay ::
  "accept_env \<Rightarrow> (direct_client \<times> addr_key) option \<Rightarrow> int \<Rightarrow> worker \<Rightarrow> relay_outcome \<times> worker" where
  "direct_dc_relay env client n w =
     (case client of
        None \<Rightarrow> (Relay_failed, w)
      | Some (c, a) \<Rightarrow> relay_charged env True (sid c) a n w)"

subsection \<open>The header for the data centre\<close>

text \<open>The random blocks that are drawn again.\<close>

definition init_rejected :: "bytes \<Rightarrow> bool" where
  "init_rejected b \<longleftrightarrow>
     b ! 0 = 0xef \<or>
     of_le32 b \<in> {0x44414548, 0x54534f50, 0x20544547, 0x4954504f, 0xeeeeeeee, 0xdddddddd, 0xefefefef} \<or>
     of_le32 (drop 4 b) = 0"

fun draw_init :: "bytes list \<Rightarrow> bytes option" where
  "draw_init [] = None"
| "draw_init (b # bs) = (if init_rejected b then draw_init bs else Some b)"

definition le16 :: "int \<Rightarrow> bytes" where
  "le16 n = [word_of_int n, word_of_int (n div 256)]"

text \<open>The block with the tag and the data centre, the keys, and the 64 bytes that are sent.\<close>

definition obfs2_init_plain :: "u32 \<Rightarrow> int \<Rightarrow> bytes \<Rightarrow> bytes" where
  "obfs2_init_plain t d b =
     take 56 b @ le32 (if t = 0 then OBFS2_TAG_MEDIUM else t) @ le16 d @ drop 62 b"

definition obfs2_init_keys :: "bytes \<Rightarrow> aes_key_data" where
  "obfs2_init_keys b =
     \<lparr>read_key = map (\<lambda>i. b ! (55 - i)) [0..<32], read_iv = map (\<lambda>i. b ! (23 - i)) [0..<16],
      write_key = take 32 (drop 8 b), write_iv = take 16 (drop 40 b)\<rparr>"

definition tcp_direct_dc_send_obfs2_init ::
  "(bytes \<Rightarrow> bytes \<Rightarrow> bytes \<Rightarrow> bytes) \<Rightarrow> bytes list \<Rightarrow> dc_conn \<Rightarrow> (bytes \<times> aes_key_data \<times> dc_conn) option" where
  "tcp_direct_dc_send_obfs2_init ctr rand d = do {
     b \<leftarrow> draw_init rand;
     let plain = obfs2_init_plain (out_tag d) (out_dc d) b;
     let kd = obfs2_init_keys plain;
     let encrypted = ctr (write_key kd) (write_iv kd) plain;
     Some (take 56 plain @ drop 56 encrypted, kd, d\<lparr>has_crypto := True\<rparr>)
   }"

subsection \<open>The SOCKS5 upstream proxy\<close>

text \<open>
  \<^verbatim>\<open>socks5_set_proxy\<close>: \<^verbatim>\<open>socks5[h]://[user:pass@]host:port\<close>. \<open>resolve\<close> is \<^verbatim>\<open>getaddrinfo\<close> for an IPv4
  address. The configuration is cleared first and stays cleared on an error; \<^verbatim>\<open>resolve_remote\<close>, user and
  password may be set by then.
\<close>

definition socks5_off :: socks5_config where
  "socks5_off = \<lparr>socks5_enabled = False, socks5_resolve_remote = False, socks5_addr = zero_ipv4, socks5_port = 0,
     socks5_user = [], socks5_pass = []\<rparr>"

definition socks5h_scheme :: bytes where
  "socks5h_scheme = [0x73, 0x6f, 0x63, 0x6b, 0x73, 0x35, 0x68, 0x3a, 0x2f, 0x2f]"

definition socks5_scheme :: bytes where
  "socks5_scheme = [0x73, 0x6f, 0x63, 0x6b, 0x73, 0x35, 0x3a, 0x2f, 0x2f]"

definition socks5_set_hostport ::
  "(bytes \<Rightarrow> bytes option) \<Rightarrow> bytes \<Rightarrow> socks5_config \<Rightarrow> int \<times> socks5_config" where
  "socks5_set_hostport resolve p cfg =
     (case strrchr p 0x3a of
        None \<Rightarrow> (-1, cfg)
      | Some 0 \<Rightarrow> (-1, cfg)
      | Some colon \<Rightarrow>
          let prt = atoi (drop (colon + 1) p) in
          if prt \<le> 0 \<or> prt > 65535 then (-1, cfg)
          else if colon \<ge> 256 then (-1, cfg)
          else case resolve (take colon p) of
                 None \<Rightarrow> (-1, cfg)
               | Some a \<Rightarrow> (0, cfg\<lparr>socks5_addr := a, socks5_port := prt, socks5_enabled := True\<rparr>))"

definition socks5_set_userpass ::
  "(bytes \<Rightarrow> bytes option) \<Rightarrow> bytes \<Rightarrow> socks5_config \<Rightarrow> int \<times> socks5_config" where
  "socks5_set_userpass resolve p cfg =
     (case strchr p 0x40 of
        None \<Rightarrow> socks5_set_hostport resolve p cfg
      | Some k \<Rightarrow>
          (case strchr (take k p) 0x3a of
             None \<Rightarrow> (-1, cfg)
           | Some 0 \<Rightarrow> (-1, cfg)
           | Some colon \<Rightarrow>
               let plen = k - colon - 1 in
               if colon > 255 \<or> plen > 255 then (-1, cfg)
               else socks5_set_hostport resolve (drop (k + 1) p)
                      (cfg\<lparr>socks5_user := take colon p, socks5_pass := take plen (drop (colon + 1) p)\<rparr>)))"

definition socks5_set_proxy :: "(bytes \<Rightarrow> bytes option) \<Rightarrow> bytes \<Rightarrow> int \<times> socks5_config" where
  "socks5_set_proxy resolve url =
     (if take 10 url = socks5h_scheme then
        socks5_set_userpass resolve (drop 10 url) (socks5_off\<lparr>socks5_resolve_remote := True\<rparr>)
      else if take 9 url = socks5_scheme then socks5_set_userpass resolve (drop 9 url) socks5_off
      else (-1, socks5_off))"

text \<open>The messages to the SOCKS5 server.\<close>

definition socks5_greeting :: "socks5_config \<Rightarrow> bytes" where
  "socks5_greeting cfg = (if socks5_user cfg \<noteq> [] then [0x05, 0x02, 0x00, 0x02] else [0x05, 0x01, 0x00])"

definition socks5_auth :: "socks5_config \<Rightarrow> bytes" where
  "socks5_auth cfg =
     [0x01, word_of_nat (length (socks5_user cfg))] @ socks5_user cfg @
     [word_of_nat (length (socks5_pass cfg))] @ socks5_pass cfg"

definition connect_request :: "direct_env \<Rightarrow> dc_addr \<Rightarrow> bytes" where
  "connect_request env a =
     (let prt = [word_of_int (dc_addr.port a div 256), word_of_int (dc_addr.port a)]
      in if use_ipv6 env a then [0x05, 0x01, 0x00, 0x04] @ dc_addr.ipv6 a @ prt
         else [0x05, 0x01, 0x00, 0x01] @ dc_addr.ipv4 a @ prt)"

text \<open>The request; \<open>None\<close> is the failed assertion on the data centre and the number of the address.\<close>

definition socks5_connect :: "direct_env \<Rightarrow> dc_conn \<Rightarrow> bytes option" where
  "socks5_connect env d =
     (case direct_dc_lookup (override_table env) (out_dc d) of
        None \<Rightarrow> None
      | Some e \<Rightarrow> if addr_idx d < length (addrs e) then Some (connect_request env (addrs e ! addr_idx d)) else None)"

datatype socks5_state = SOCKS5_NONE | SOCKS5_GREETING_SENT | SOCKS5_AUTH_SENT | SOCKS5_CONNECT_SENT

datatype socks5_result = Socks_more | Socks_done | Socks_error

text \<open>
  One call of \<^verbatim>\<open>socks5_handle_response\<close>: the state, the input not yet read and the output are passed and
  returned.
\<close>

record socks5_conn =
  socks5_state :: socks5_state
  socks5_in :: bytes
  socks5_out :: bytes

definition send_connect :: "direct_env \<Rightarrow> dc_conn \<Rightarrow> socks5_conn \<Rightarrow> (socks5_result \<times> socks5_conn) option" where
  "send_connect env d c = do {
     req \<leftarrow> socks5_connect env d;
     Some (Socks_more, c\<lparr>socks5_out := socks5_out c @ req, socks5_state := SOCKS5_CONNECT_SENT\<rparr>)
   }"

definition connect_reply_len :: "bytes \<Rightarrow> nat option" where
  "connect_reply_len b =
     (if b ! 3 = 0x01 then Some 10
      else if b ! 3 = 0x04 then Some 22
      else if b ! 3 = 0x03 then Some (7 + unat (b ! 4))
      else None)"

fun socks5_handle_response :: "direct_env \<Rightarrow> dc_conn \<Rightarrow> socks5_conn \<Rightarrow> (socks5_result \<times> socks5_conn) option" where
  "socks5_handle_response env d c =
     (let inp = socks5_in c in
      case socks5_state c of
        SOCKS5_GREETING_SENT \<Rightarrow>
          if length inp < 2 then Some (Socks_more, c)
          else let c = c\<lparr>socks5_in := drop 2 inp\<rparr> in
          if inp ! 0 \<noteq> 0x05 then Some (Socks_error, c)
          else if inp ! 1 = 0x00 then send_connect env d c
          else if inp ! 1 = 0x02 then
            (if socks5_user (socks5 env) = [] then Some (Socks_error, c)
             else Some (Socks_more, c\<lparr>socks5_out := socks5_out c @ socks5_auth (socks5 env),
                                      socks5_state := SOCKS5_AUTH_SENT\<rparr>))
          else Some (Socks_error, c)
      | SOCKS5_AUTH_SENT \<Rightarrow>
          if length inp < 2 then Some (Socks_more, c)
          else let c = c\<lparr>socks5_in := drop 2 inp\<rparr> in
          if inp ! 1 \<noteq> 0x00 then Some (Socks_error, c) else send_connect env d c
      | SOCKS5_CONNECT_SENT \<Rightarrow>
          if length inp < 5 then Some (Socks_more, c)
          else (case connect_reply_len inp of
             None \<Rightarrow> Some (Socks_error, c)
           | Some m \<Rightarrow>
               if length inp < m then Some (Socks_more, c)
               else let c = c\<lparr>socks5_in := drop m inp\<rparr> in
               if inp ! 1 \<noteq> 0x00 then Some (Socks_error, c)
               else Some (Socks_done, c\<lparr>socks5_state := SOCKS5_NONE\<rparr>))
      | SOCKS5_NONE \<Rightarrow> Some (Socks_error, c))"

text \<open>The whole side of the data centre, with the counters it updates.\<close>

record dc_side =
  dc_c :: dc_conn
  dc_socks :: socks5_conn
  dc_out_p :: bytes
  transport_errors_received :: int
  socks5_connects_attempted :: int
  socks5_connects_succeeded :: int
  socks5_connects_failed :: int

definition send_init :: "(bytes \<Rightarrow> bytes \<Rightarrow> bytes \<Rightarrow> bytes) \<Rightarrow> bytes list \<Rightarrow> dc_side \<Rightarrow> dc_side option" where
  "send_init ctr rand s = do {
     (init, kd, d) \<leftarrow> tcp_direct_dc_send_obfs2_init ctr rand (dc_c s);
     Some (s\<lparr>dc_c := d, dc_out_p := dc_out_p s @ init\<rparr>)
   }"

definition tcp_direct_dc_connected ::
  "(bytes \<Rightarrow> bytes \<Rightarrow> bytes \<Rightarrow> bytes) \<Rightarrow> bytes list \<Rightarrow> direct_env \<Rightarrow> dc_side \<Rightarrow> dc_side option" where
  "tcp_direct_dc_connected ctr rand env s =
     (if socks5_enabled (socks5 env) then
        Some (s\<lparr>socks5_connects_attempted := socks5_connects_attempted s + 1,
                dc_socks := (dc_socks s)\<lparr>socks5_out := socks5_out (dc_socks s) @ socks5_greeting (socks5 env),
                                         socks5_state := SOCKS5_GREETING_SENT\<rparr>\<rparr>)
      else send_init ctr rand s)"

text \<open>A message of four bytes that is a small negative number is counted as a transport error.\<close>

definition transport_error :: "bytes \<Rightarrow> bool" where
  "transport_error b \<longleftrightarrow> length b = 4 \<and> sint (of_le32 b) < 0 \<and> sint (of_le32 b) > -1000"

definition tcp_direct_dc_parse_execute ::
  "(bytes \<Rightarrow> bytes \<Rightarrow> bytes \<Rightarrow> bytes) \<Rightarrow> bytes list \<Rightarrow> direct_env \<Rightarrow> accept_env
   \<Rightarrow> (direct_client \<times> addr_key) option \<Rightarrow> dc_side \<times> worker \<Rightarrow> (relay_outcome \<times> dc_side \<times> worker) option" where
  "tcp_direct_dc_parse_execute ctr rand env aenv client sw = (case sw of (s, w) \<Rightarrow>
     if socks5_state (dc_socks s) \<noteq> SOCKS5_NONE then do {
       (r, c) \<leftarrow> socks5_handle_response env (dc_c s) (dc_socks s);
       let s = s\<lparr>dc_socks := c\<rparr>;
       case r of
         Socks_more \<Rightarrow> Some (Relay_wait, s, w)
       | Socks_error \<Rightarrow> Some (Relay_failed, s\<lparr>socks5_connects_failed := socks5_connects_failed s + 1\<rparr>, w)
       | Socks_done \<Rightarrow> do {
           s \<leftarrow> send_init ctr rand (s\<lparr>socks5_connects_succeeded := socks5_connects_succeeded s + 1\<rparr>);
           Some (Relay_wait, s, w)
         }
     }
     else
       let inp = socks5_in (dc_socks s);
           s = (if transport_error inp then s\<lparr>transport_errors_received := transport_errors_received s + 1\<rparr> else s);
           (out, w) = direct_dc_relay aenv client (int (length inp)) w
       in Some (out, (case out of Relayed _ \<Rightarrow> s\<lparr>dc_socks := (dc_socks s)\<lparr>socks5_in := []\<rparr>\<rparr> | _ \<Rightarrow> s), w))"

subsection \<open>Retries\<close>

text \<open>All addresses of the data centre fail at once: connecting and the alarms that follow.\<close>

definition failing_run :: "direct_env \<Rightarrow> real list \<Rightarrow> real \<Rightarrow> direct_client \<times> direct_stats \<Rightarrow> direct_client \<times> direct_stats" where
  "failing_run env ts t cg =
     fold (\<lambda>u. tcp_direct_client_alarm env (\<lambda>_. False) u) ts (direct_connect_to_dc env (\<lambda>_. False) t cg)"

lemma try_addrs_none: "try_addrs env (\<lambda>_. False) i as = None"
  by (induction as arbitrary: i) auto

lemma try_addrs_Some:
  "try_addrs env sock i as = Some j \<Longrightarrow>
   i \<le> j \<and> j < i + length as \<and> addr_usable env (as ! (j - i)) \<and> sock j"
proof (induction as arbitrary: i)
  case (Cons a as)
  show ?case
  proof (cases "addr_usable env a \<and> sock i")
    case True
    with Cons.prems show ?thesis by auto
  next
    case False
    with Cons.prems have "try_addrs env sock (i + 1) as = Some j" by (auto split: if_splits)
    from Cons.IH [OF this] show ?thesis by (auto simp: nth_Cons')
  qed
qed simp

lemma direct_retry_failing:
  assumes "direct_dc_lookup (override_table env) (target_dc c) = Some e" "dc_link c = None" "attempt c > 0"
  shows "tcp_direct_client_alarm env (\<lambda>_. False) t (c, g) =
     direct_schedule_retry t (attempt c) (c\<lparr>retry_at := None\<rparr>, count_failed g)"
  using assms by (simp add: tcp_direct_client_alarm_def direct_retry_dc_connection_def direct_try_dc_addrs_def
      try_addrs_none Let_def)

lemma failing_run_eq:
  assumes "direct_dc_lookup (override_table env) (target_dc c) = Some e" "dc_link c = None"
  shows "failing_run env [t1, t2, t3] t (c, g) =
    (c\<lparr>attempt := 3, retry_at := None, client_failed := True\<rparr>,
     g\<lparr>direct_dc_connections_failed := direct_dc_connections_failed g + 5, direct_dc_retries := direct_dc_retries g + 3\<rparr>)"
proof -
  have 0: "direct_connect_to_dc env (\<lambda>_. False) t (c, g) =
      (c\<lparr>attempt := 1, retry_at := Some (t + DIRECT_RETRY_BASE_SEC)\<rparr>,
       (count_failed g)\<lparr>direct_dc_retries := direct_dc_retries g + 1\<rparr>)"
    using assms by (simp add: direct_connect_to_dc_def direct_try_dc_addrs_def try_addrs_none
        direct_schedule_retry_def DIRECT_MAX_RETRIES_def count_failed_def)
  show ?thesis unfolding failing_run_def 0
    using assms
    by (simp add: direct_retry_failing direct_schedule_retry_def DIRECT_MAX_RETRIES_def count_failed_def fail_client_def)
qed

text \<open>
  When no connection to the data centre can even be started, the client is retried exactly three
  times, 200, 400 and 800 ms after the failures, and then failed; the timer that is set before each retry
  never leaves a client waiting for ever.
\<close>

theorem direct_sync_retries_bounded:
  assumes "direct_dc_lookup (override_table env) (target_dc c) = Some e" "dc_link c = None" "\<not> client_failed c"
  shows "retry_at (fst (failing_run env [] t (c, g))) = Some (t + 1 / 5) \<and>
    retry_at (fst (failing_run env [t1] t (c, g))) = Some (t1 + 2 / 5) \<and>
    retry_at (fst (failing_run env [t1, t2] t (c, g))) = Some (t2 + 4 / 5) \<and>
    \<not> client_failed (fst (failing_run env [t1, t2] t (c, g))) \<and>
    client_failed (fst (failing_run env [t1, t2, t3] t (c, g))) \<and>
    retry_at (fst (failing_run env [t1, t2, t3] t (c, g))) = None \<and>
    direct_dc_retries (snd (failing_run env [t1, t2, t3] t (c, g))) = direct_dc_retries g + 3"
proof -
  have 0: "direct_connect_to_dc env (\<lambda>_. False) t (c, g) =
      (c\<lparr>attempt := 1, retry_at := Some (t + DIRECT_RETRY_BASE_SEC)\<rparr>,
       (count_failed g)\<lparr>direct_dc_retries := direct_dc_retries g + 1\<rparr>)"
    using assms by (simp add: direct_connect_to_dc_def direct_try_dc_addrs_def try_addrs_none
        direct_schedule_retry_def DIRECT_MAX_RETRIES_def count_failed_def)
  show ?thesis using assms failing_run_eq [OF assms(1,2), of t1 t2 t3 t g]
    by (simp add: failing_run_def 0 direct_retry_failing direct_schedule_retry_def DIRECT_MAX_RETRIES_def
        DIRECT_RETRY_BASE_SEC_def)
qed

definition sample_direct_env :: "bool \<Rightarrow> direct_env" where
  "sample_direct_env socks =
     \<lparr>ipv6_enabled = False,
      socks5 = socks5_off\<lparr>socks5_enabled := socks, socks5_addr := [127, 0, 0, 1], socks5_port := 1080\<rparr>, override_table = []\<rparr>"

definition sample_direct_client :: "int \<Rightarrow> direct_client" where
  "sample_direct_client target =
     \<lparr>target_dc = target, attempt = 0, sid = 1, client_tag = OBFS2_TAG_PAD, retry_at = None, dc_link = None,
      client_failed = False\<rparr>"

definition zero_direct_stats :: direct_stats where
  "zero_direct_stats = \<lparr>direct_dc_connections_created = 0, direct_dc_connections_active = 0,
     direct_dc_connections_failed = 0, direct_dc_connections_dc_closed = 0, direct_dc_retries = 0\<rparr>"

lemma sample_lookup:
  "direct_dc_lookup (override_table (sample_direct_env s)) 2 = Some (prod_table ! 1)"
  "direct_dc_lookup (override_table (sample_direct_env s)) 10002 = Some (test_table ! 1)"
  by (simp_all add: sample_direct_env_def direct_dc_lookup_def find_dc_def prod_table_def test_table_def builtin_dc_def)

lemma direct_sync_retries_bounded_witness:
  "client_failed (fst (failing_run (sample_direct_env False) [2, 3, 4] 1 (sample_direct_client 2, zero_direct_stats)))"
proof -
  have "direct_dc_lookup (override_table (sample_direct_env False)) (target_dc (sample_direct_client 2)) = Some (prod_table ! 1)"
    "dc_link (sample_direct_client 2) = None" "\<not> client_failed (sample_direct_client 2)"
    using sample_lookup(1) by (simp_all add: sample_direct_client_def)
  from direct_sync_retries_bounded [OF this] show ?thesis by blast
qed

text \<open>
  A connection to the data centre that is started but dies before its keys are set, and the alarm that
  replaces it.
\<close>

definition dying_cycle ::
  "direct_env \<Rightarrow> (nat \<Rightarrow> bool) \<Rightarrow> direct_client \<times> direct_stats \<Rightarrow> direct_client \<times> direct_stats" where
  "dying_cycle env sock cg = tcp_direct_client_alarm env sock 0 (direct_close_dc 0 1 cg)"

lemma dying_cycle_eq:
  assumes "direct_dc_lookup (override_table env) (target_dc c) = Some e" "direct_try_dc_addrs env sock e = Some d"
    and "dc_link c = Some d'" "\<not> has_crypto d'" "attempt c = 0"
  shows "dying_cycle env sock (c, g) =
    (c\<lparr>retry_at := None, dc_link := Some (d\<lparr>out_dc := outbound_dc (target_dc c) e, out_tag := client_tag c\<rparr>)\<rparr>,
     g\<lparr>direct_dc_connections_failed := direct_dc_connections_failed g + 1, direct_dc_retries := direct_dc_retries g + 1,
       direct_dc_connections_created := direct_dc_connections_created g + 1,
       direct_dc_connections_active := direct_dc_connections_active g + 1\<rparr>)"
  using assms
  by (simp add: dying_cycle_def direct_close_dc_def direct_schedule_retry_def DIRECT_MAX_RETRIES_def count_failed_def
      tcp_direct_client_alarm_def direct_retry_dc_connection_def link_dc_def Let_def)

text \<open>
  A retry that gets as far as starting a connection resets the number of attempts. A data centre
  whose connections are started and then die is therefore retried for ever: after any number of rounds
  the client has not been failed and its number of attempts is zero. Each round also raises the number of
  active connections by one, although there is only one.
\<close>

theorem direct_async_retries_unbounded:
  assumes "direct_dc_lookup (override_table env) (target_dc c) = Some e" "direct_try_dc_addrs env sock e = Some d"
    and "dc_link c = None" "attempt c = 0" "\<not> client_failed c"
  shows "\<exists>c' g'. (dying_cycle env sock ^^ n) (direct_connect_to_dc env sock t (c, g)) = (c', g') \<and>
    \<not> client_failed c' \<and> attempt c' = 0 \<and> dc_link c' \<noteq> None \<and>
    direct_dc_retries g' = direct_dc_retries g + int n \<and>
    direct_dc_connections_active g' = direct_dc_connections_active g + int n + 1"
proof -
  have fresh: "\<not> has_crypto d" using assms(2) by (auto simp: direct_try_dc_addrs_def)
  have "\<exists>c' g' d'. (dying_cycle env sock ^^ n) (direct_connect_to_dc env sock t (c, g)) = (c', g') \<and>
      \<not> client_failed c' \<and> attempt c' = 0 \<and> dc_link c' = Some d' \<and> \<not> has_crypto d' \<and> target_dc c' = target_dc c \<and>
      direct_dc_retries g' = direct_dc_retries g + int n \<and>
      direct_dc_connections_active g' = direct_dc_connections_active g + int n + 1"
  proof (induction n)
    case 0
    show ?case using assms fresh by (simp add: direct_connect_to_dc_def link_dc_def)
  next
    case (Suc n)
    then obtain c' g' d' where IH: "(dying_cycle env sock ^^ n) (direct_connect_to_dc env sock t (c, g)) = (c', g')"
      "\<not> client_failed c'" "attempt c' = 0" "dc_link c' = Some d'" "\<not> has_crypto d'" "target_dc c' = target_dc c"
      "direct_dc_retries g' = direct_dc_retries g + int n"
      "direct_dc_connections_active g' = direct_dc_connections_active g + int n + 1" by blast
    have "direct_dc_lookup (override_table env) (target_dc c') = Some e" using assms(1) IH(6) by simp
    from dying_cycle_eq [OF this assms(2) IH(4,5,3), of g'] IH fresh show ?case by simp
  qed
  then show ?thesis by blast
qed

lemma direct_async_retries_unbounded_witness:
  "\<exists>c' g'. (dying_cycle (sample_direct_env False) (\<lambda>_. True) ^^ 1000)
     (direct_connect_to_dc (sample_direct_env False) (\<lambda>_. True) 0 (sample_direct_client 2, zero_direct_stats)) = (c', g') \<and>
    \<not> client_failed c' \<and> direct_dc_connections_active g' = 1001"
proof -
  have "direct_dc_lookup (override_table (sample_direct_env False)) (target_dc (sample_direct_client 2)) = Some (prod_table ! 1)"
    using sample_lookup(1) by (simp add: sample_direct_client_def)
  moreover have "direct_try_dc_addrs (sample_direct_env False) (\<lambda>_. True) (prod_table ! 1) =
      Some \<lparr>out_dc = 0, addr_idx = 0, out_tag = 0, has_crypto = False\<rparr>"
    by code_simp
  moreover have "dc_link (sample_direct_client 2) = None" "attempt (sample_direct_client 2) = 0"
    "\<not> client_failed (sample_direct_client 2)" by (simp_all add: sample_direct_client_def)
  ultimately show ?thesis
    using direct_async_retries_unbounded [of "sample_direct_env False" "sample_direct_client 2" "prod_table ! 1"
        "\<lambda>_. True" _ 1000 0 zero_direct_stats]
    by (fastforce simp: zero_direct_stats_def)
qed

text \<open>
  C36: The connection of a client that could not be linked to its data centre stays counted for its secret
  when it is closed while no other client is linked: the counters of the secret are only decremented
  while the number of active links is positive, which such a client never raised.
\<close>

theorem direct_failed_client_stays_counted:
  assumes "direct_dc_lookup (override_table env) (target_dc c) = Some e" "dc_link c = None"
    "direct_dc_connections_active g = 0"
  shows "case failing_run env [t1, t2, t3] t (c, g) of (c', g') \<Rightarrow>
    client_failed c' \<and> direct_close_client t' a (c', g', w) = (g', w)"
  using failing_run_eq [OF assms(1,2), of t1 t2 t3 t g] assms(3)
  by (simp add: direct_close_client_def)

lemma direct_failed_client_stays_counted_witness:
  "case failing_run (sample_direct_env False) [2, 3, 4] 1 (sample_direct_client 2, zero_direct_stats) of (c', g') \<Rightarrow>
     client_failed c' \<and>
     direct_close_client 5 (7, zero_ipv6)
       (c', g', \<lparr>secs = update_slot 0 (count_connect sample_env (7, zero_ipv6)) sample_secrets, vols = ip_volume_init\<rparr>) =
     (g', \<lparr>secs = update_slot 0 (count_connect sample_env (7, zero_ipv6)) sample_secrets, vols = ip_volume_init\<rparr>)"
proof -
  have "direct_dc_lookup (override_table (sample_direct_env False)) (target_dc (sample_direct_client 2)) = Some (prod_table ! 1)"
    "dc_link (sample_direct_client 2) = None" "direct_dc_connections_active zero_direct_stats = 0"
    using sample_lookup(1) by (simp_all add: sample_direct_client_def zero_direct_stats_def)
  from direct_failed_client_stays_counted [OF this] show ?thesis .
qed

subsection \<open>Relaying within the quota\<close>

lemma rate_limit_keeps_bytes:
  "rate_limit_after_relay wk t n a s = (s', delay) \<Longrightarrow>
   per_secret_bytes_received (stats s') = per_secret_bytes_received (stats s) \<and>
   per_secret_bytes_sent (stats s') = per_secret_bytes_sent (stats s)"
  by (auto simp: rate_limit_after_relay_def Let_def split: if_splits option.splits)

lemma charge_bytes_used [simp]:
  "per_secret_bytes_received (stats (charge_bytes d n s)) + per_secret_bytes_sent (stats (charge_bytes d n s)) =
   per_secret_bytes_received (stats s) + per_secret_bytes_sent (stats s) + n"
  "ext_secret_quota (charge_bytes d n s) = ext_secret_quota s"
  "per_secret_rejected_quota (stats (charge_bytes d n s)) = per_secret_rejected_quota (stats s)"
  by (simp_all add: charge_bytes_def)

text \<open>
  C18: When bytes of a client or of its data centre are passed on, they have been charged to the secret, and
  the secret is still below its quota (this worker's share of it) with them; otherwise the connection is
  failed and the rejection counted. The charge is exact in either direction.
\<close>

theorem direct_relay_within_quota:
  assumes "sec > 0" "sec \<le> int EXT_SECRET_MAX_SLOTS" "n > 0" "length (slots (secs w)) = EXT_SECRET_MAX_SLOTS"
    and "relay_charged env to_client sec a n w = (out, w')"
  shows "let s = slots (secs w) ! nat (sec - 1); s' = slots (secs w') ! nat (sec - 1);
             used = (\<lambda>s. per_secret_bytes_received (stats s) + per_secret_bytes_sent (stats s)) in
    used s' = used s + n \<and>
    (case out of
       Relayed delay \<Rightarrow> ext_secret_quota s \<le> 0 \<or> used s' < eff_limit (env_workers env) (ext_secret_quota s)
     | Relay_failed \<Rightarrow> ext_secret_quota s > 0 \<and> used s' \<ge> eff_limit (env_workers env) (ext_secret_quota s) \<and>
         per_secret_rejected_quota (stats s') = per_secret_rejected_quota (stats s) + 1
     | Relay_wait \<Rightarrow> False)"
proof -
  let ?i = "nat (sec - 1)"
  let ?s = "slots (secs w) ! ?i"
  let ?c = "charge_bytes to_client n ?s"
  have i: "?i < length (slots (secs w))" using assms(1,2,4) by simp
  obtain r delay where r: "rate_limit_after_relay (env_workers env) (env_precise_now env) n a ?c = (r, delay)" by fastforce
  have at: "slots (update_slot ?i (charge_bytes to_client n) (secs w)) ! ?i = ?c" using i by (simp add: update_slot_nth)
  show ?thesis
  proof (cases "secret_over_quota (env_workers env) ?c")
    case True
    with assms(1-3,5) at i have "out = Relay_failed" "slots (secs w') ! ?i = count_reject Rej_quota ?c"
      by (auto simp: relay_charged_def Let_def update_slot_nth)
    with True show ?thesis by (auto simp: Let_def secret_over_quota_def add.assoc split: if_splits)
  next
    case False
    with assms(1-3,5) at i r have "out = Relayed delay" "slots (secs w') ! ?i = r"
      by (auto simp: relay_charged_def Let_def)
    with False rate_limit_keeps_bytes [OF r] charge_bytes_used(1) [of to_client n ?s] show ?thesis
      by (auto simp: Let_def secret_over_quota_def split: if_splits)
  qed
qed

lemma direct_relay_within_quota_witness:
  "per_secret_bytes_sent (stats (slots (secs (snd (relay_charged sample_env True 1 (5, zero_ipv6) 100 sample_accepted))) ! 0)) +
   per_secret_bytes_received (stats (slots (secs (snd (relay_charged sample_env True 1 (5, zero_ipv6) 100 sample_accepted))) ! 0)) =
   per_secret_bytes_sent (stats (slots (secs sample_accepted) ! 0)) +
   per_secret_bytes_received (stats (slots (secs sample_accepted) ! 0)) + 100"
proof -
  have "length (slots (secs sample_accepted)) = EXT_SECRET_MAX_SLOTS"
    by (simp add: sample_accepted_def sample_worker_def sample_reloaded_def sample_secrets_def EXT_SECRET_MAX_SLOTS_def)
  moreover obtain out w' where "relay_charged sample_env True 1 (5, zero_ipv6) 100 sample_accepted = (out, w')" by fastforce
  ultimately show ?thesis
    using direct_relay_within_quota [of 1 100 sample_accepted sample_env True "(5, zero_ipv6)" out w']
    by (simp add: EXT_SECRET_MAX_SLOTS_def Let_def algebra_simps)
qed

subsection \<open>The header is understood\<close>

lemma length_le16 [simp]: "length (le16 n) = 2"
  by (simp add: le16_def)

lemma of_le16s_le16:
  assumes "- (2 ^ 15) \<le> n" "n < 2 ^ 15"
  shows "of_le16s (le16 n @ xs) = n"
proof -
  have "(ucast (word_of_int n :: byte) OR push_bit 8 (ucast (word_of_int (n div 256) :: byte)) :: 16 word) = word_of_int n"
  proof (rule bit_word_eqI)
    fix k assume "k < LENGTH(16)"
    then have k: "k < 16" by simp
    have d: "bit (n div 256) (k - 8) = bit n k" if "8 \<le> k"
      using that bit_drop_bit_eq [of 8 n] by (simp add: drop_bit_eq_div fun_eq_iff)
    show "bit (ucast (word_of_int n :: byte) OR push_bit 8 (ucast (word_of_int (n div 256) :: byte)) :: 16 word) k =
        bit (word_of_int n :: 16 word) k"
      using k d by (auto simp: bit_simps)
  qed
  then show ?thesis using assms by (simp add: of_le16s_def le16_def sint_sbintrunc' signed_take_bit_int_eq_self)
qed

lemma draw_init_ok: "draw_init bs = Some b \<Longrightarrow> b \<in> set bs \<and> \<not> init_rejected b"
  by (induction bs) (auto split: if_splits)

text \<open>Decrypting with the key stream that encrypted the tail restores it.\<close>

lemma xor_tail:
  fixes p ks :: bytes
  assumes "length p = 64" "length ks = 64"
  shows "drop 56 (map2 (XOR) (take 56 p @ drop 56 (map2 (XOR) p ks)) ks) = drop 56 p"
proof (rule nth_equalityI)
  fix i assume "i < length (drop 56 (map2 (XOR) (take 56 p @ drop 56 (map2 (XOR) p ks)) ks))"
  then show "drop 56 (map2 (XOR) (take 56 p @ drop 56 (map2 (XOR) p ks)) ks) ! i = drop 56 p ! i"
    using assms by (simp add: nth_append xor.assoc)
qed (use assms in simp)

text \<open>
  C19: The header sent to a data centre is an obfuscated2 header: a server that parses it (with the code
  this proxy parses its own clients with, without a secret) finds the transport tag of the client and the
  number of the data centre, and derives the keys the proxy uses with the directions exchanged. The
  header does not start like another protocol.
\<close>

theorem obfs2_init_understood:
  assumes stream: "\<And>k iv xs. length xs = 64 \<Longrightarrow> ctr k iv xs = map2 (XOR) xs (ks k iv)" "\<And>k iv. length (ks k iv) = 64"
    and rand: "\<forall>b \<in> set rand. length b = 64"
    and tag: "tag_ok (if out_tag d = 0 then OBFS2_TAG_MEDIUM else out_tag d) pad"
    and dc: "- (2 ^ 15) \<le> out_dc d" "out_dc d < 2 ^ 15"
    and sent: "tcp_direct_dc_send_obfs2_init ctr rand d = Some (hdr, kd, d')"
  shows "length hdr = 64 \<and> \<not> init_rejected hdr \<and>
    (\<exists>r. fst (obfs2_parse_header sha256 ctr hdr [] pad) = Some r \<and>
      tag r = (if out_tag d = 0 then OBFS2_TAG_MEDIUM else out_tag d) \<and> dc r = out_dc d \<and>
      keys r = \<lparr>read_key = write_key kd, read_iv = write_iv kd, write_key = read_key kd, write_iv = read_iv kd\<rparr>)"
proof -
  let ?t = "if out_tag d = 0 then OBFS2_TAG_MEDIUM else out_tag d"
  from sent obtain b where b: "draw_init rand = Some b" "kd = obfs2_init_keys (obfs2_init_plain (out_tag d) (out_dc d) b)"
    "hdr = take 56 (obfs2_init_plain (out_tag d) (out_dc d) b) @
       drop 56 (ctr (write_key kd) (write_iv kd) (obfs2_init_plain (out_tag d) (out_dc d) b))"
    by (auto simp: tcp_direct_dc_send_obfs2_init_def Let_def elim!: bind_SomeE)
  define p where "p = obfs2_init_plain (out_tag d) (out_dc d) b"
  let ?ks = "ks (write_key kd) (write_iv kd)"
  have lb: "length b = 64" "\<not> init_rejected b" using draw_init_ok [OF b(1)] rand by auto
  have lp: "length p = 64" using lb(1) by (simp add: p_def obfs2_init_plain_def)
  have hdr: "hdr = take 56 p @ drop 56 (map2 (XOR) p ?ks)" using b(3) lp by (simp add: p_def [symmetric] stream(1))
  have lh: "length hdr = 64" using lp stream(2) by (simp add: hdr)
  have same: "hdr ! i = p ! i" "p ! i = b ! i" if "i < 56" for i
    using that lp lb(1) by (simp_all add: hdr nth_append p_def obfs2_init_plain_def)
  have kd: "kd = obfs2_init_keys p" using b(2) by (simp add: p_def)
  have t56: "take 56 hdr = take 56 p" using lp by (simp add: hdr)
  have sub: "take n (drop m hdr) = take n (drop m p)" if "n + m \<le> 56" for n m
  proof -
    have "take (n + m) hdr = take (n + m) p" using arg_cong [OF t56, of "take (n + m)"] that by simp
    then show ?thesis by (simp add: take_drop)
  qed
  have rk: "take 32 (drop 8 hdr) = write_key kd" "take 16 (drop 40 hdr) = write_iv kd"
    using sub [of 32 8] sub [of 16 40] by (simp_all add: kd obfs2_init_keys_def)
  have wk: "map (\<lambda>i. hdr ! (55 - i)) [0..<32] = read_key kd" "map (\<lambda>i. hdr ! (23 - i)) [0..<16] = read_iv kd"
    using same(1) unfolding kd by (auto simp: obfs2_init_keys_def)
  have tail: "drop 56 (ctr (write_key kd) (write_iv kd) hdr) = le32 ?t @ le16 (out_dc d) @ drop 62 b"
  proof -
    have "drop 56 (ctr (write_key kd) (write_iv kd) hdr) = drop 56 p"
      using xor_tail [OF lp stream(2)] lh by (simp add: stream(1) hdr)
    then show ?thesis using lb(1) by (simp add: p_def obfs2_init_plain_def)
  qed
  have d60: "drop 60 (ctr (write_key kd) (write_iv kd) hdr) = le16 (out_dc d) @ drop 62 b"
    using arg_cong [OF tail, of "drop 4"] by simp
  have keys: "derive_keys sha256 hdr None =
      \<lparr>read_key = write_key kd, read_iv = write_iv kd, write_key = read_key kd, write_iv = read_iv kd\<rparr>"
    using rk wk by (simp add: derive_keys_def Let_def)
  have "\<not> init_rejected hdr"
  proof -
    have "of_le32 hdr = of_le32 b" "of_le32 (drop 4 hdr) = of_le32 (drop 4 b)" "hdr ! 0 = b ! 0"
      using same lh lb(1) by (simp_all add: of_le32_def)
    then show ?thesis using lb(2) by (simp add: init_rejected_def)
  qed
  then show ?thesis using lh tag
    by (simp add: obfs2_parse_header_def keys tail d60 of_le16s_le16 [OF dc] Let_def)
qed

definition sample_ctr :: "bytes \<Rightarrow> bytes \<Rightarrow> bytes \<Rightarrow> bytes" where
  "sample_ctr k iv xs = map2 (XOR) xs (replicate 64 (hd k))"

definition sample_dc_conn :: "int \<Rightarrow> dc_conn" where
  "sample_dc_conn n = \<lparr>out_dc = n, addr_idx = 0, out_tag = OBFS2_TAG_PAD, has_crypto = False\<rparr>"

lemma obfs2_init_understood_witness:
  "\<exists>hdr kd d' r. tcp_direct_dc_send_obfs2_init sample_ctr [replicate 64 0xef, replicate 64 0x55] (sample_dc_conn (- 2)) = Some (hdr, kd, d') \<and>
    fst (obfs2_parse_header (\<lambda>_. []) sample_ctr hdr [] True) = Some r \<and> tag r = OBFS2_TAG_PAD \<and> dc r = - 2"
proof -
  have "draw_init [replicate 64 0xef, replicate 64 0x55] = Some (replicate 64 0x55)" by code_simp
  then obtain hdr kd d' where s:
    "tcp_direct_dc_send_obfs2_init sample_ctr [replicate 64 0xef, replicate 64 0x55] (sample_dc_conn (- 2)) = Some (hdr, kd, d')"
    by (simp add: tcp_direct_dc_send_obfs2_init_def Let_def)
  have t: "tag_ok (if out_tag (sample_dc_conn (- 2)) = 0 then OBFS2_TAG_MEDIUM else out_tag (sample_dc_conn (- 2))) True"
    by code_simp
  from obfs2_init_understood [where ks = "\<lambda>k iv. replicate 64 (hd k)", OF _ _ _ t _ _ s, of "\<lambda>_. []"] s show ?thesis
    by (auto simp: sample_ctr_def sample_dc_conn_def OBFS2_TAG_PAD_def)
qed

subsection \<open>The SOCKS5 handshake\<close>

definition socks5_feed :: "direct_env \<Rightarrow> dc_conn \<Rightarrow> bytes \<Rightarrow> socks5_conn \<Rightarrow> (socks5_result \<times> socks5_conn) option" where
  "socks5_feed env d bs c = socks5_handle_response env d (c\<lparr>socks5_in := socks5_in c @ bs\<rparr>)"

definition good_connect_reply :: "bytes \<Rightarrow> bool" where
  "good_connect_reply rep \<longleftrightarrow> length rep \<ge> 5 \<and> rep ! 1 = 0 \<and> connect_reply_len rep = Some (length rep)"

lemma connect_reply_len_append: "length xs \<ge> 5 \<Longrightarrow> connect_reply_len (xs @ ys) = connect_reply_len xs"
  by (simp add: connect_reply_len_def nth_append)

lemma connect_reply_len_take: "5 \<le> k \<Longrightarrow> k \<le> length rep \<Longrightarrow> connect_reply_len (take k rep) = connect_reply_len rep"
  by (simp add: connect_reply_len_def)

text \<open>
  C29: With a server that follows the protocol, the handshake completes: after the method is chosen (and the
  credentials are accepted, where they are asked for) and a positive reply to the request has arrived,
  the proxy has sent exactly the greeting, the credentials and the request for the address of the data
  centre, and what the server sends behind its reply is left for the relay. However the reply is cut, no
  part of it is consumed before it is complete.
\<close>

theorem socks5_handshake_completes:
  assumes "socks5_connect env d = Some req" "good_connect_reply rep" "auth \<longrightarrow> socks5_user (socks5 env) \<noteq> []"
  defines "c0 \<equiv> \<lparr>socks5_state = SOCKS5_GREETING_SENT, socks5_in = [], socks5_out = socks5_greeting (socks5 env)\<rparr>"
    and "sent \<equiv> socks5_greeting (socks5 env) @ (if auth then socks5_auth (socks5 env) else []) @ req"
  shows "\<exists>c1 c2. socks5_feed env d [0x05, if auth then 0x02 else 0x00] c0 = Some (Socks_more, c1) \<and>
    (if auth then socks5_feed env d [0x01, 0x00] c1 = Some (Socks_more, c2) else c2 = c1) \<and>
    socks5_in c2 = [] \<and> socks5_out c2 = sent \<and>
    socks5_feed env d (rep @ rest) c2 = Some (Socks_done, c2\<lparr>socks5_state := SOCKS5_NONE, socks5_in := rest\<rparr>) \<and>
    list_all (\<lambda>k. socks5_feed env d (take k rep) c2 = Some (Socks_more, c2\<lparr>socks5_in := take k rep\<rparr>)) [0..<length rep]"
proof -
  let ?c2 = "\<lparr>socks5_state = SOCKS5_CONNECT_SENT, socks5_in = [], socks5_out = sent\<rparr>"
  have rep: "5 \<le> length rep" "rep ! 1 = 0" "connect_reply_len rep = Some (length rep)"
    using assms(2) by (auto simp: good_connect_reply_def)
  have "socks5_feed env d (rep @ rest) ?c2 = Some (Socks_done, ?c2\<lparr>socks5_state := SOCKS5_NONE, socks5_in := rest\<rparr>)"
    using rep by (simp add: socks5_feed_def connect_reply_len_append nth_append)
  moreover have "socks5_feed env d (take k rep) ?c2 = Some (Socks_more, ?c2\<lparr>socks5_in := take k rep\<rparr>)"
    if "k < length rep" for k
    using rep that by (cases "k < 5") (auto simp: socks5_feed_def connect_reply_len_take)
  ultimately have fin: "socks5_in ?c2 = [] \<and> socks5_out ?c2 = sent \<and>
    socks5_feed env d (rep @ rest) ?c2 = Some (Socks_done, ?c2\<lparr>socks5_state := SOCKS5_NONE, socks5_in := rest\<rparr>) \<and>
    list_all (\<lambda>k. socks5_feed env d (take k rep) ?c2 = Some (Socks_more, ?c2\<lparr>socks5_in := take k rep\<rparr>)) [0..<length rep]"
    by (auto simp: list_all_iff)
  show ?thesis
  proof (cases auth)
    case True
    let ?c1 = "\<lparr>socks5_state = SOCKS5_AUTH_SENT, socks5_in = [],
      socks5_out = socks5_greeting (socks5 env) @ socks5_auth (socks5 env)\<rparr>"
    have "socks5_feed env d [0x05, if auth then 0x02 else 0x00] c0 = Some (Socks_more, ?c1)"
      using True assms(3) by (simp add: socks5_feed_def c0_def)
    moreover have "socks5_feed env d [0x01, 0x00] ?c1 = Some (Socks_more, ?c2)"
      using True assms(1) by (simp add: socks5_feed_def send_connect_def sent_def)
    ultimately show ?thesis using True fin by (intro exI [of _ ?c1] exI [of _ ?c2]) simp
  next
    case False
    have "socks5_feed env d [0x05, if auth then 0x02 else 0x00] c0 = Some (Socks_more, ?c2)"
      using False assms(1) by (simp add: socks5_feed_def c0_def send_connect_def sent_def)
    with False fin show ?thesis by (intro exI [of _ ?c2]) simp
  qed
qed

lemma socks5_handshake_completes_witness:
  "\<exists>c2. socks5_out c2 = [0x05, 0x01, 0x00] @ [0x05, 0x01, 0x00, 0x01, 149, 154, 167, 51, 1, 187] \<and>
    socks5_feed (sample_direct_env True) (sample_dc_conn 2) ([5, 0, 0, 1, 0, 0, 0, 0, 0, 0] @ [9]) c2 =
      Some (Socks_done, c2\<lparr>socks5_state := SOCKS5_NONE, socks5_in := [9]\<rparr>)"
proof -
  have req: "socks5_connect (sample_direct_env True) (sample_dc_conn 2) = Some [0x05, 0x01, 0x00, 0x01, 149, 154, 167, 51, 1, 187]"
    by code_simp
  have rep: "good_connect_reply [5, 0, 0, 1, 0, 0, 0, 0, 0, 0]" by code_simp
  have g: "socks5_greeting (socks5 (sample_direct_env True)) = [0x05, 0x01, 0x00]" by code_simp
  have no: "False \<longrightarrow> socks5_user (socks5 (sample_direct_env True)) \<noteq> []" by simp
  from socks5_handshake_completes [OF req rep no, of "[9]", unfolded g] show ?thesis by auto
qed

subsection \<open>Which data centre a SOCKS5 request names\<close>

lemma zero_ipv6_bytes: "zero_ipv6 = [0, 0, 0, 0, 0, 0, 0, 0, 0, 0, 0, 0, 0, 0, 0, 0]"
  by code_simp

lemma find_prod_id: "find_dc i prod_table = Some e \<Longrightarrow> dc_id e = i \<and> 1 \<le> i \<and> i \<le> 5"
  by (auto simp: find_dc_def prod_table_def builtin_dc_def split: if_splits)

lemma find_test_id: "find_dc i test_table = Some e \<Longrightarrow> dc_id e = i \<and> 1 \<le> i \<and> i \<le> 3"
  by (auto simp: find_dc_def test_table_def builtin_dc_def split: if_splits)

lemma outbound_lookup:
  assumes "direct_dc_lookup tbl target = Some e" "\<bar>target\<bar> < 10000" "\<bar>target\<bar> \<le> 200 \<or> find_dc \<bar>target\<bar> tbl \<noteq> None"
  shows "direct_dc_lookup tbl (outbound_dc target e) = Some e"
proof (cases "find_dc \<bar>target\<bar> tbl")
  case (Some e')
  with assms have "e' = e" by (simp add: direct_dc_lookup_alt base_id_def)
  with Some find_dc_id [OF Some] assms(2) have "dc_id e = \<bar>target\<bar>" by simp
  then have "outbound_dc target e = target" by (simp add: outbound_dc_def)
  with assms(1) show ?thesis by simp
next
  case None
  with assms have p: "find_dc \<bar>target\<bar> prod_table = Some e"
    by (simp add: direct_dc_lookup_alt base_id_def builtin_def split: if_splits)
  then have "outbound_dc target e = target" using find_prod_id [OF p] by (simp add: outbound_dc_def)
  with assms(1) show ?thesis by simp
qed

lemma direct_connect_link:
  assumes "direct_connect_to_dc env sock t (c, g) = (c', g')" "dc_link c = None" "dc_link c' = Some d"
  obtains e i where "direct_dc_lookup (override_table env) (target_dc c) = Some e" "try_addrs env sock 0 (addrs e) = Some i"
    "d = \<lparr>out_dc = outbound_dc (target_dc c) e, addr_idx = (if socks5_enabled (socks5 env) then i else 0),
          out_tag = client_tag c, has_crypto = False\<rparr>"
proof -
  obtain e where e: "direct_dc_lookup (override_table env) (target_dc c) = Some e"
    using assms by (auto simp: direct_connect_to_dc_def fail_client_def split: option.splits)
  obtain i where i: "try_addrs env sock 0 (addrs e) = Some i"
    using assms e by (auto simp: direct_connect_to_dc_def direct_try_dc_addrs_def direct_schedule_retry_def DIRECT_MAX_RETRIES_def
        split: option.splits)
  from assms e i show thesis
    by (intro that [OF e i]) (auto simp: direct_connect_to_dc_def direct_try_dc_addrs_def link_dc_def)
qed

text \<open>
  For a plain or media data centre, and for one with an override, the request sent to the SOCKS5
  server names the very address that was chosen for the connection, a usable one of that data centre.
\<close>

theorem socks5_request_names_dc:
  assumes "direct_connect_to_dc env sock t (c, g) = (c', g')" "dc_link c = None" "dc_link c' = Some d"
    and "socks5_enabled (socks5 env)" "\<bar>target_dc c\<bar> < 10000"
    and "\<bar>target_dc c\<bar> \<le> 200 \<or> find_dc \<bar>target_dc c\<bar> (override_table env) \<noteq> None"
  shows "\<exists>e i. direct_dc_lookup (override_table env) (target_dc c) = Some e \<and> i < length (addrs e) \<and>
    addr_usable env (addrs e ! i) \<and> sock i \<and> socks5_connect env d = Some (connect_request env (addrs e ! i))"
proof -
  from assms(1-3) obtain e i where l: "direct_dc_lookup (override_table env) (target_dc c) = Some e"
    "try_addrs env sock 0 (addrs e) = Some i"
    "d = \<lparr>out_dc = outbound_dc (target_dc c) e, addr_idx = (if socks5_enabled (socks5 env) then i else 0),
          out_tag = client_tag c, has_crypto = False\<rparr>" by (rule direct_connect_link)
  from try_addrs_Some [OF l(2)] have i: "i < length (addrs e)" "addr_usable env (addrs e ! i)" "sock i" by auto
  have "socks5_connect env d = Some (connect_request env (addrs e ! i))"
    using outbound_lookup [OF l(1) assms(5,6)] i(1) assms(4) l(3) by (simp add: socks5_connect_def)
  with l(1) i show ?thesis by blast
qed

lemma socks5_request_names_dc_witness:
  "\<exists>d. dc_link (fst (direct_connect_to_dc (sample_direct_env True) (\<lambda>_. True) 0 (sample_direct_client (- 2), zero_direct_stats))) = Some d \<and>
    socks5_connect (sample_direct_env True) d = Some (connect_request (sample_direct_env True) (addrs (prod_table ! 1) ! 0))"
proof -
  let ?r = "direct_connect_to_dc (sample_direct_env True) (\<lambda>_. True) 0 (sample_direct_client (- 2), zero_direct_stats)"
  have l: "dc_link (fst ?r) = Some (sample_dc_conn (- 2))" by code_simp
  have h: "dc_link (sample_direct_client (- 2)) = None" "socks5_enabled (socks5 (sample_direct_env True))"
    "\<bar>target_dc (sample_direct_client (- 2))\<bar> < 10000" "\<bar>target_dc (sample_direct_client (- 2))\<bar> \<le> 200"
    by (simp_all add: sample_direct_client_def sample_direct_env_def)
  have e: "direct_dc_lookup (override_table (sample_direct_env True)) (target_dc (sample_direct_client (- 2))) = Some (prod_table ! 1)"
    "length (addrs (prod_table ! 1)) = 1" by code_simp+
  from socks5_request_names_dc [OF prod.collapse [symmetric] h(1) l h(2,3) disjI1 [OF h(4)]] e l show ?thesis by auto
qed

text \<open>
  C37: For a test data centre the header of the outbound connection carries the identifier without the
  offset of 10000, and the request to the SOCKS5 server is made up from that identifier: it names the
  production data centre with the same number.
\<close>

theorem socks5_test_dc_misrouted:
  assumes "target_dc c = 10001 + int n" "n < 3" "override_table env = []" "socks5_enabled (socks5 env)"
    and "sock 0" "dc_link c = None"
  shows "\<exists>c' g' d. direct_connect_to_dc env sock t (c, g) = (c', g') \<and> dc_link c' = Some d \<and>
    direct_dc_lookup [] (target_dc c) = Some (test_table ! n) \<and>
    socks5_connect env d = Some (connect_request env (addrs (prod_table ! n) ! 0)) \<and>
    connect_request env (addrs (prod_table ! n) ! 0) \<noteq> connect_request env (addrs (test_table ! n) ! 0)"
proof -
  have n: "n = 0 \<or> n = 1 \<or> n = 2" using assms(2) by linarith
  have l: "direct_dc_lookup [] (10001 + int n) = Some (test_table ! n)"
    "direct_dc_lookup [] (1 + int n) = Some (prod_table ! n)" "dc_id (test_table ! n) = 1 + int n"
    "\<exists>a. addrs (test_table ! n) = [a] \<and> dc_addr.ipv4 a \<noteq> zero_ipv4" "length (addrs (prod_table ! n)) = 1"
    using n by (auto simp: direct_dc_lookup_def find_dc_def test_table_def prod_table_def builtin_dc_def zero_ipv4_def)
  have "try_addrs env sock 0 (addrs (test_table ! n)) = Some 0"
    using l(4) assms(5) by (auto simp: addr_usable_def)
  then have "\<exists>c' g' d. direct_connect_to_dc env sock t (c, g) = (c', g') \<and> dc_link c' = Some d \<and>
      out_dc d = 1 + int n \<and> addr_idx d = 0"
    using assms l by (simp add: direct_connect_to_dc_def direct_try_dc_addrs_def link_dc_def outbound_dc_def)
  then obtain c' g' d where d: "direct_connect_to_dc env sock t (c, g) = (c', g')" "dc_link c' = Some d"
    "out_dc d = 1 + int n" "addr_idx d = 0" by blast
  have "socks5_connect env d = Some (connect_request env (addrs (prod_table ! n) ! 0))"
    using d(3,4) l(2,5) assms(3) by (simp add: socks5_connect_def)
  moreover have "connect_request env (addrs (prod_table ! n) ! 0) \<noteq> connect_request env (addrs (test_table ! n) ! 0)"
    using n by (auto simp: connect_request_def Let_def use_ipv6_def test_table_def prod_table_def builtin_dc_def dc_v6_def
        zero_ipv6_bytes)
  ultimately show ?thesis using d l(1) assms(1) by auto
qed

lemma socks5_test_dc_misrouted_witness:
  "\<exists>c' g' d. direct_connect_to_dc (sample_direct_env True) (\<lambda>_. True) 0 (sample_direct_client 10002, zero_direct_stats) = (c', g') \<and>
    dc_link c' = Some d \<and> direct_dc_lookup [] 10002 = Some (test_table ! 1) \<and>
    socks5_connect (sample_direct_env True) d = Some (connect_request (sample_direct_env True) (addrs (prod_table ! 1) ! 0))"
proof -
  have "target_dc (sample_direct_client 10002) = 10001 + int 1" "(1 :: nat) < 3" "override_table (sample_direct_env True) = []"
    "socks5_enabled (socks5 (sample_direct_env True))" "(\<lambda>_. True) (0 :: nat)" "dc_link (sample_direct_client 10002) = None"
    by (simp_all add: sample_direct_client_def sample_direct_env_def)
  from socks5_test_dc_misrouted [OF this, of 0 zero_direct_stats] show ?thesis
    by (auto simp: sample_direct_client_def)
qed

end
