(* ===== verification/Proxy_Protocol.thy ===== *)
theory Proxy_Protocol
  imports Ip_Acl
begin

text \<open>
  The PROXY protocol header in front of a connection: the parser of
  \<^verbatim>\<open>src/src/net/net-proxy-protocol.c\<close> and its use in \<^verbatim>\<open>tcp_rpcs_compact_parse_execute\<close>
  (\<^verbatim>\<open>src/src/net/net-tcp-rpc-ext-server.c\<close>). A raw message is the list of its bytes; a successful parse
  skips the header.
\<close>

subsection \<open>The parser\<close>

record proxy_protocol_result =
  pp_family :: "af option"
  src_ip :: u32
  src_ipv6 :: bytes
  src_port :: "16 word"

definition pp_zero :: proxy_protocol_result where
  "pp_zero = \<lparr>pp_family = None, src_ip = 0, src_ipv6 = zero_ipv6, src_port = 0\<rparr>"

datatype pp_outcome = Pp_more | Pp_error | Pp_ok nat proxy_protocol_result

definition pp2_signature :: bytes where
  "pp2_signature = [0x0d, 0x0a, 0x0d, 0x0a, 0x00, 0x0d, 0x0a, 0x51, 0x55, 0x49, 0x54, 0x0a]"

definition pp1_signature :: bytes where
  "pp1_signature = [0x50, 0x52, 0x4f, 0x58, 0x59, 0x20]"

text \<open>The loop over \<^verbatim>\<open>buf[i]\<close> from \<open>i\<close> on, looking for \<^verbatim>\<open>\r\n\<close>.\<close>

fun find_crlf :: "bytes \<Rightarrow> nat \<Rightarrow> nat option" where
  "find_crlf (a # b # rest) i = (if a = 0x0d \<and> b = 0x0a then Some i else find_crlf (b # rest) (Suc i))"
| "find_crlf _ i = None"

text \<open>The text after \<^verbatim>\<open>PROXY \<close>, as the C string \<^verbatim>\<open>p\<close> points to.\<close>

definition parse_v1_text :: "nat \<Rightarrow> bytes \<Rightarrow> pp_outcome" where
  "parse_v1_text header_len p =
     (if take 7 p = [0x55, 0x4e, 0x4b, 0x4e, 0x4f, 0x57, 0x4e] then Pp_ok header_len pp_zero
      else
        let fam = (if take 5 p = [0x54, 0x43, 0x50, 0x34, 0x20] then Some AF_INET
                   else if take 5 p = [0x54, 0x43, 0x50, 0x36, 0x20] then Some AF_INET6 else None)
        in case fam of None \<Rightarrow> Pp_error | Some fam \<Rightarrow>
        let p = drop 5 p in
        case strchr p 0x20 of None \<Rightarrow> Pp_error | Some i \<Rightarrow>
        let src = take i p; rest = drop (Suc i) p in
        case (case fam of
                AF_INET \<Rightarrow> map_option (\<lambda>b. pp_zero\<lparr>pp_family := Some AF_INET, src_ip := be32 b\<rparr>) (inet_pton4 src)
              | AF_INET6 \<Rightarrow> map_option (\<lambda>b. pp_zero\<lparr>pp_family := Some AF_INET6, src_ipv6 := b\<rparr>) (inet_pton6 src)) of
          None \<Rightarrow> Pp_error
        | Some out \<Rightarrow>
            (case strchr rest 0x20 of None \<Rightarrow> Pp_error | Some j \<Rightarrow>
             let rest = drop (Suc j) rest in
             case strchr rest 0x20 of None \<Rightarrow> Pp_error | Some k \<Rightarrow>
             Pp_ok header_len (out\<lparr>src_port := word_of_int (atoi (take k rest))\<rparr>)))"

definition parse_v1 :: "bytes \<Rightarrow> pp_outcome" where
  "parse_v1 inp =
     (if length inp < 15 then Pp_more else
      let buf = take 108 inp in
      case find_crlf (drop 6 buf) 6 of
        None \<Rightarrow> if length buf \<ge> 108 then Pp_error else Pp_more
      | Some crlf \<Rightarrow> parse_v1_text (crlf + 2) (takeWhile (\<lambda>c. c \<noteq> 0) (drop 6 (take crlf buf))))"

definition be16_word :: "bytes \<Rightarrow> 16 word" where
  "be16_word b = push_bit 8 (ucast (b ! 0)) OR ucast (b ! 1)"

definition parse_v2 :: "bytes \<Rightarrow> pp_outcome" where
  "parse_v2 inp =
     (if length inp < 16 then Pp_more else
      let version = uint (inp ! 12) div 16; command = uint (inp ! 12) mod 16 in
      if version \<noteq> 2 then Pp_error
      else if command > 1 then Pp_error
      else
        let fam = uint (inp ! 13) div 16;
            addr_len = unat (inp ! 14) * 256 + unat (inp ! 15);
            total_len = 16 + addr_len
        in if length inp < total_len then Pp_more
           else if command = 0 then Pp_ok total_len pp_zero
           else if fam = 1 \<and> addr_len \<ge> 12 then
             Pp_ok total_len (pp_zero\<lparr>pp_family := Some AF_INET, src_ip := be32 (drop 16 inp), src_port := be16_word (drop 24 inp)\<rparr>)
           else if fam = 2 \<and> addr_len \<ge> 36 then
             Pp_ok total_len (pp_zero\<lparr>pp_family := Some AF_INET6, src_ipv6 := take 16 (drop 16 inp), src_port := be16_word (drop 48 inp)\<rparr>)
           else Pp_ok total_len pp_zero)"

definition proxy_protocol_parse :: "bytes \<Rightarrow> pp_outcome" where
  "proxy_protocol_parse inp =
     (if length inp < 6 then Pp_more
      else if take 6 inp = pp1_signature then parse_v1 inp
      else if length inp \<ge> 12 \<and> take 12 inp = pp2_signature then parse_v2 inp
      else if length inp < 12 then Pp_more
      else Pp_error)"

subsection \<open>Stripping the header of a connection\<close>

record pp_conn =
  pc_in :: bytes
  C_PROXY_PROTOCOL :: bool
  remote_ip :: u32
  remote_ipv6 :: bytes
  remote_port :: "16 word"
  C_IPV6 :: bool

record pp_counters =
  proxy_protocol_connections_total :: int
  proxy_protocol_errors_total :: int

text \<open>What the handler does next: wait for (at least) so many bytes, wait, fail, or go on.\<close>

datatype pp_next = Wait_bytes int | Wait_more | Fail_conn | Go_on

definition set_remote :: "proxy_protocol_result \<Rightarrow> pp_conn \<Rightarrow> pp_conn" where
  "set_remote pp c =
     (case pp_family pp of
        None \<Rightarrow> c
      | Some AF_INET \<Rightarrow> c\<lparr>remote_ip := src_ip pp, remote_ipv6 := zero_ipv6, remote_port := src_port pp, C_IPV6 := False\<rparr>
      | Some AF_INET6 \<Rightarrow> c\<lparr>remote_ip := 0, remote_ipv6 := src_ipv6 pp, remote_port := src_port pp, C_IPV6 := True\<rparr>)"

definition remote_allowed :: "acl_state \<Rightarrow> pp_conn \<Rightarrow> bool" where
  "remote_allowed acl c =
     (if remote_ip c \<noteq> 0 then ip_acl_check_v4 acl (remote_ip c) else ip_acl_check_v6 acl (remote_ipv6 c))"

text \<open>\<open>min_len\<close> is 4 or 1 as in the caller, which has already seen \<open>min_len + 8\<close> bytes.\<close>

definition strip_proxy_header :: "acl_state \<Rightarrow> int \<Rightarrow> pp_counters \<Rightarrow> pp_conn \<Rightarrow> pp_next \<times> pp_counters \<times> pp_conn" where
  "strip_proxy_header acl min_len k c =
     (if \<not> C_PROXY_PROTOCOL c then (Go_on, k, c) else
      case proxy_protocol_parse (pc_in c) of
        Pp_more \<Rightarrow>
          let need = 16 - int (length (pc_in c)) in (if need > 0 then Wait_bytes need else Wait_more, k, c)
      | Pp_error \<Rightarrow> (Fail_conn, k\<lparr>proxy_protocol_errors_total := proxy_protocol_errors_total k + 1\<rparr>, c)
      | Pp_ok n pp \<Rightarrow>
          let c = c\<lparr>pc_in := drop n (pc_in c), C_PROXY_PROTOCOL := False\<rparr>;
              k = k\<lparr>proxy_protocol_connections_total := proxy_protocol_connections_total k + 1\<rparr>;
              c = set_remote pp c;
              len = int (length (pc_in c))
          in if pp_family pp \<noteq> None \<and> \<not> remote_allowed acl c then (Fail_conn, k, c)
             else if len \<le> 0 then (Wait_more, k, c)
             else if len < min_len + 8 then (Wait_bytes (min_len + 8 - len), k, c)
             else (Go_on, k, c))"

subsection \<open>Chunking\<close>

text \<open>A header is recognised by its own bytes: what arrives later does not change the verdict.\<close>

lemma find_crlf_append: "find_crlf xs i = Some j \<Longrightarrow> find_crlf (xs @ ys) i = Some j"
  by (induction xs i rule: find_crlf.induct) (auto split: if_splits)

lemma find_crlf_bound: "find_crlf xs i = Some j \<Longrightarrow> i \<le> j \<and> j + 1 < i + length xs"
  by (induction xs i rule: find_crlf.induct) (auto split: if_splits)

lemma parse_v1_append:
  assumes "parse_v1 s = r" "r \<noteq> Pp_more"
  shows "parse_v1 (s @ t) = r"
proof -
  have len: "15 \<le> length s" using assms by (auto simp: parse_v1_def split: if_splits)
  have buf: "take 108 (s @ t) = take 108 s @ take (108 - length s) t" by simp
  show ?thesis
  proof (cases "find_crlf (drop 6 (take 108 s)) 6")
    case None
    with assms len have "length (take 108 s) \<ge> 108" "r = Pp_error" by (auto simp: parse_v1_def Let_def split: if_splits)
    with None len show ?thesis by (simp add: parse_v1_def)
  next
    case (Some j)
    from find_crlf_bound [OF Some] len have j: "j \<le> length (take 108 s)" by auto
    have "drop 6 (take 108 (s @ t)) = drop 6 (take 108 s) @ take (108 - length s) t" using len by simp
    with find_crlf_append [OF Some] have f: "find_crlf (drop 6 (take 108 (s @ t))) 6 = Some j" by metis
    have tk: "take j (take 108 (s @ t)) = take j (take 108 s)" using j by simp
    have "parse_v1 (s @ t) = parse_v1_text (j + 2) (takeWhile (\<lambda>c. c \<noteq> 0) (drop 6 (take j (take 108 s))))"
      unfolding parse_v1_def Let_def f tk option.case using len by simp
    moreover have "parse_v1 s = \<dots>" unfolding parse_v1_def Let_def Some option.case using len by simp
    ultimately show ?thesis using assms(1) by simp
  qed
qed

lemma be32_cong: "length xs \<ge> 4 \<Longrightarrow> be32 (xs @ ys) = be32 xs"
  by (cases xs) (auto simp: be32_def nth_append)

lemma be16_word_cong: "length xs \<ge> 2 \<Longrightarrow> be16_word (xs @ ys) = be16_word xs"
  by (cases xs) (auto simp: be16_word_def nth_append)

lemma parse_v2_append:
  assumes "parse_v2 s = r" "r \<noteq> Pp_more"
  shows "parse_v2 (s @ t) = r"
proof -
  have len: "16 \<le> length s" using assms by (auto simp: parse_v2_def split: if_splits)
  then have nth: "(s @ t) ! i = s ! i" if "i < 16" for i using that by (simp add: nth_append)
  show ?thesis
  proof (cases "uint (s ! 12) div 16 = 2 \<and> uint (s ! 12) mod 16 \<le> 1")
    case False
    with assms len show ?thesis by (auto simp: parse_v2_def nth Let_def)
  next
    case True
    let ?n = "16 + (unat (s ! 14) * 256 + unat (s ! 15))"
    have tot: "?n \<le> length s" using assms len True by (auto simp: parse_v2_def Let_def split: if_splits)
    have d: "unat (s ! 14) * 256 + unat (s ! 15) \<ge> 12 \<Longrightarrow> drop 16 (s @ t) = drop 16 s @ t \<and> drop 24 (s @ t) = drop 24 s @ t"
      "unat (s ! 14) * 256 + unat (s ! 15) \<ge> 36 \<Longrightarrow> drop 48 (s @ t) = drop 48 s @ t"
      using tot by auto
    show ?thesis
      using assms(1) len True tot
      by (auto simp: parse_v2_def Let_def nth d be32_cong be16_word_cong)
  qed
qed

lemma proxy_protocol_append:
  assumes "proxy_protocol_parse s = r" "r \<noteq> Pp_more"
  shows "proxy_protocol_parse (s @ t) = r"
proof -
  have len: "6 \<le> length s" using assms by (auto simp: proxy_protocol_parse_def split: if_splits)
  then have t6: "take 6 (s @ t) = take 6 s" by simp
  consider (v1) "take 6 s = pp1_signature" | (v2) "take 6 s \<noteq> pp1_signature" "12 \<le> length s" "take 12 s = pp2_signature"
    | (bad) "take 6 s \<noteq> pp1_signature" "12 \<le> length s" "take 12 s \<noteq> pp2_signature"
    using assms len by (auto simp: proxy_protocol_parse_def split: if_splits)
  then show ?thesis
  proof cases
    case v1
    with assms len t6 parse_v1_append [of s r t] show ?thesis by (simp add: proxy_protocol_parse_def)
  next
    case v2
    with assms len t6 parse_v2_append [of s r t] show ?thesis by (simp add: proxy_protocol_parse_def)
  next
    case bad
    with assms len t6 show ?thesis by (simp add: proxy_protocol_parse_def)
  qed
qed

text \<open>
  C25: The verdict on a PROXY protocol header does not depend on how the bytes arrive: once the parser
  accepts or rejects a prefix of the stream, it says the same, with the same length and address, of every
  extension of it.
\<close>

theorem proxy_protocol_chunking:
  assumes "proxy_protocol_parse s = r" "r \<noteq> Pp_more"
  shows "proxy_protocol_parse (s @ t) = r \<and> proxy_protocol_parse (s @ t @ u) = proxy_protocol_parse (s @ t)"
  using proxy_protocol_append [OF assms] by (metis append.assoc assms(2) proxy_protocol_append)

definition sample_pp1 :: bytes where
  "sample_pp1 = pp1_signature @ [0x54, 0x43, 0x50, 0x34, 0x20, 0x31, 0x2e, 0x32, 0x2e, 0x33, 0x2e, 0x34, 0x20, 0x35, 0x2e, 0x36, 0x2e,
     0x37, 0x2e, 0x38, 0x20, 0x38, 0x30, 0x20, 0x34, 0x34, 0x33, 0x0d, 0x0a]"

theorem proxy_protocol_chunking_witness:
  "proxy_protocol_parse (sample_pp1 @ [1, 2, 3]) = Pp_ok 35 (pp_zero\<lparr>pp_family := Some AF_INET, src_ip := 0x01020304, src_port := 80\<rparr>)"
proof -
  have "proxy_protocol_parse sample_pp1 = Pp_ok 35 (pp_zero\<lparr>pp_family := Some AF_INET, src_ip := 0x01020304, src_port := 80\<rparr>)"
    by code_simp
  from proxy_protocol_chunking [OF this, of "[1, 2, 3]" "[]"] show ?thesis by simp
qed

subsection \<open>Addresses\<close>

text \<open>The binary header as a load balancer writes it.\<close>

fun v2_header :: "proxy_protocol_result \<Rightarrow> bytes \<Rightarrow> bytes \<Rightarrow> bytes" where
  "v2_header pp dst tlv =
     (let port = [ucast (drop_bit 8 (src_port pp)), ucast (src_port pp)] in
      case pp_family pp of
        Some AF_INET \<Rightarrow>
          let body = [ucast (drop_bit 24 (src_ip pp)), ucast (drop_bit 16 (src_ip pp)), ucast (drop_bit 8 (src_ip pp)), ucast (src_ip pp)]
              @ take 4 dst @ port @ take 2 (drop 4 dst) @ tlv
          in pp2_signature @ [0x21, 0x11, word_of_nat (length body div 256), word_of_nat (length body mod 256)] @ body
      | Some AF_INET6 \<Rightarrow>
          let body = src_ipv6 pp @ take 16 dst @ port @ take 2 (drop 16 dst) @ tlv
          in pp2_signature @ [0x21, 0x21, word_of_nat (length body div 256), word_of_nat (length body mod 256)] @ body
      | None \<Rightarrow> pp2_signature @ [0x20, 0, 0, 0])"

lemma be32_bytes: "be32 [ucast (drop_bit 24 w), ucast (drop_bit 16 w), ucast (drop_bit 8 w), ucast w] = w"
proof (rule bit_word_eqI)
  fix n assume "n < LENGTH(32)"
  then have "n < 8 \<or> 8 \<le> n \<and> n < 16 \<or> 16 \<le> n \<and> n < 24 \<or> 24 \<le> n \<and> n < 32" by auto
  then show "bit (be32 [ucast (drop_bit 24 w), ucast (drop_bit 16 w), ucast (drop_bit 8 w), ucast w]) n \<longleftrightarrow> bit w n"
    by (auto simp: be32_def bit_simps)
qed

lemma be16_word_bytes: "be16_word [ucast (drop_bit 8 p), ucast p] = p"
proof (rule bit_word_eqI)
  fix n assume "n < LENGTH(16)"
  then have "n < 8 \<or> 8 \<le> n \<and> n < 16" by auto
  then show "bit (be16_word [ucast (drop_bit 8 p), ucast p]) n \<longleftrightarrow> bit p n"
    by (auto simp: be16_word_def bit_simps)
qed

lemma parse_v2_shape:
  assumes "unat l1 * 256 + unat l2 = length body"
  shows "parse_v2 (pp2_signature @ [0x21, fp, l1, l2] @ body) = Pp_ok (16 + length body)
    (if uint fp div 16 = 1 \<and> length body \<ge> 12
     then pp_zero\<lparr>pp_family := Some AF_INET, src_ip := be32 body, src_port := be16_word (drop 8 body)\<rparr>
     else if uint fp div 16 = 2 \<and> length body \<ge> 36
     then pp_zero\<lparr>pp_family := Some AF_INET6, src_ipv6 := take 16 body, src_port := be16_word (drop 32 body)\<rparr>
     else pp_zero)"
  using assms by (simp add: parse_v2_def pp2_signature_def Let_def)

lemma proxy_protocol_parse_v2:
  "proxy_protocol_parse (pp2_signature @ xs) = parse_v2 (pp2_signature @ xs)"
  by (simp add: proxy_protocol_parse_def pp1_signature_def pp2_signature_def)

lemma len_bytes: "n < 65536 \<Longrightarrow> unat (word_of_nat (n div 256) :: byte) * 256 + unat (word_of_nat (n mod 256) :: byte) = n"
  by (simp add: unat_of_nat)

text \<open>
  C26: A binary header that names an IPv4 or IPv6 source is read back exactly: family, address and port, and
  the header with its extensions is the part that is skipped.
\<close>

theorem v2_header_roundtrip:
  assumes "pp_family pp \<noteq> None" "pp_family pp = Some AF_INET \<Longrightarrow> src_ipv6 pp = zero_ipv6 \<and> length dst = 6"
    and "pp_family pp = Some AF_INET6 \<Longrightarrow> src_ip pp = 0 \<and> length (src_ipv6 pp) = 16 \<and> length dst = 18" and "length tlv < 60000"
  shows "proxy_protocol_parse (v2_header pp dst tlv @ rest) = Pp_ok (length (v2_header pp dst tlv)) pp"
proof -
  obtain fam where fam: "pp_family pp = Some fam" using assms(1) by auto
  let ?port = "[ucast (drop_bit 8 (src_port pp)), ucast (src_port pp)] :: bytes"
  have "proxy_protocol_parse (v2_header pp dst tlv) = Pp_ok (length (v2_header pp dst tlv)) pp"
  proof (cases fam)
    case AF_INET
    let ?ip = "[ucast (drop_bit 24 (src_ip pp)), ucast (drop_bit 16 (src_ip pp)), ucast (drop_bit 8 (src_ip pp)), ucast (src_ip pp)] :: bytes"
    let ?body = "?ip @ take 4 dst @ ?port @ take 2 (drop 4 dst) @ tlv"
    have a: "length dst = 6" "pp = pp_zero\<lparr>pp_family := Some AF_INET, src_ip := src_ip pp, src_port := src_port pp\<rparr>"
      using assms fam AF_INET by (simp_all add: pp_zero_def)
    have len: "length ?body = 12 + length tlv" using a(1) by simp
    have be: "be32 ?body = src_ip pp" using be32_cong [of ?ip] be32_bytes [of "src_ip pp"] by simp
    have "drop 8 ?body = ?port @ take 2 (drop 4 dst) @ tlv" using a(1) by simp
    then have port: "be16_word (drop 8 ?body) = src_port pp"
      using be16_word_cong [of ?port] be16_word_bytes [of "src_port pp"] by simp
    have hd: "v2_header pp dst tlv = pp2_signature @ [0x21, 0x11, word_of_nat (length ?body div 256), word_of_nat (length ?body mod 256)] @ ?body"
      using fam AF_INET by (simp add: Let_def)
    show ?thesis
      unfolding hd proxy_protocol_parse_v2
      by (subst parse_v2_shape) (use len assms(4) a be port in \<open>simp_all add: len_bytes pp2_signature_def\<close>)
  next
    case AF_INET6
    let ?body = "src_ipv6 pp @ take 16 dst @ ?port @ take 2 (drop 16 dst) @ tlv"
    have a: "length dst = 18" "length (src_ipv6 pp) = 16"
      "pp = pp_zero\<lparr>pp_family := Some AF_INET6, src_ipv6 := src_ipv6 pp, src_port := src_port pp\<rparr>"
      using assms fam AF_INET6 by (simp_all add: pp_zero_def)
    have len: "length ?body = 36 + length tlv" using a(1,2) by simp
    have "drop 32 ?body = ?port @ take 2 (drop 16 dst) @ tlv" using a(1,2) by simp
    then have port: "be16_word (drop 32 ?body) = src_port pp"
      using be16_word_cong [of ?port] be16_word_bytes [of "src_port pp"] by simp
    have hd: "v2_header pp dst tlv = pp2_signature @ [0x21, 0x21, word_of_nat (length ?body div 256), word_of_nat (length ?body mod 256)] @ ?body"
      using fam AF_INET6 by (simp add: Let_def)
    show ?thesis
      unfolding hd proxy_protocol_parse_v2
      by (subst parse_v2_shape) (use len assms(4) a port in \<open>simp_all add: len_bytes pp2_signature_def\<close>)
  qed
  then show ?thesis by (rule proxy_protocol_append) simp
qed

theorem v2_header_roundtrip_witness:
  "proxy_protocol_parse (v2_header (pp_zero\<lparr>pp_family := Some AF_INET, src_ip := 0x0A000001, src_port := 443\<rparr>) [1, 2, 3, 4, 0, 80] []
     @ [0xEF]) = Pp_ok 28 (pp_zero\<lparr>pp_family := Some AF_INET, src_ip := 0x0A000001, src_port := 443\<rparr>)"
  using v2_header_roundtrip [of "pp_zero\<lparr>pp_family := Some AF_INET, src_ip := 0x0A000001, src_port := 443\<rparr>" "[1, 2, 3, 4, 0, 80]" "[]" "[0xEF]"]
  by (simp add: pp_zero_def pp2_signature_def Let_def)

text \<open>
  C27: Behind a load balancer the access lists see the real client: when the handler goes on after a header
  that names an address, the connection carries that address, the address passes the lists, the header is
  gone from the input, and it will not be looked for again.
\<close>

theorem strip_proxy_header_checked:
  assumes "strip_proxy_header acl min_len k c = (Go_on, k', c')" "C_PROXY_PROTOCOL c"
  shows "\<exists>n pp. proxy_protocol_parse (pc_in c) = Pp_ok n pp \<and> pc_in c' = drop n (pc_in c) \<and> \<not> C_PROXY_PROTOCOL c' \<and>
    min_len + 8 \<le> int (length (pc_in c')) \<and>
    (pp_family pp = Some AF_INET \<longrightarrow> remote_ip c' = src_ip pp \<and> remote_port c' = src_port pp \<and> remote_allowed acl c') \<and>
    (pp_family pp = Some AF_INET6 \<longrightarrow> remote_ip c' = 0 \<and> remote_ipv6 c' = src_ipv6 pp \<and> remote_port c' = src_port pp \<and> remote_allowed acl c') \<and>
    (pp_family pp = None \<longrightarrow> remote_ip c' = remote_ip c \<and> remote_ipv6 c' = remote_ipv6 c)"
proof (cases "proxy_protocol_parse (pc_in c)")
  case (Pp_ok n pp)
  have "c' = set_remote pp (c\<lparr>pc_in := drop n (pc_in c), C_PROXY_PROTOCOL := False\<rparr>)"
    "min_len + 8 \<le> int (length (pc_in c'))" "pp_family pp \<noteq> None \<longrightarrow> remote_allowed acl c'"
    using assms Pp_ok by (auto simp: strip_proxy_header_def Let_def split: if_splits)
  with Pp_ok show ?thesis by (auto simp: set_remote_def split: option.split af.split)
qed (use assms in \<open>auto simp: strip_proxy_header_def Let_def split: if_splits\<close>)

theorem strip_proxy_header_checked_witness:
  "case strip_proxy_header acl_init 1 \<lparr>proxy_protocol_connections_total = 0, proxy_protocol_errors_total = 0\<rparr>
      \<lparr>pc_in = sample_pp1 @ replicate 64 7, C_PROXY_PROTOCOL = True, remote_ip = 0x7F000001, remote_ipv6 = zero_ipv6, remote_port = 9, C_IPV6 = False\<rparr>
   of (next, k', c') \<Rightarrow> remote_ip c' = 0x01020304 \<and> remote_allowed acl_init c'"
proof -
  let ?c = "\<lparr>pc_in = sample_pp1 @ replicate 64 7, C_PROXY_PROTOCOL = True, remote_ip = 0x7F000001, remote_ipv6 = zero_ipv6,
    remote_port = 9, C_IPV6 = False\<rparr>"
  have p: "proxy_protocol_parse (sample_pp1 @ replicate 64 7) =
      Pp_ok 35 (pp_zero\<lparr>pp_family := Some AF_INET, src_ip := 0x01020304, src_port := 80\<rparr>)" by code_simp
  have l: "length sample_pp1 = 35" by code_simp
  obtain k' c' where run: "strip_proxy_header acl_init 1 \<lparr>proxy_protocol_connections_total = 0, proxy_protocol_errors_total = 0\<rparr> ?c = (Go_on, k', c')"
    by (simp add: strip_proxy_header_def Let_def p l set_remote_def remote_allowed_def acl_init_def ip_acl_check_v4_def ip_acl_count_def)
  from strip_proxy_header_checked [OF run] run p show ?thesis by auto
qed

end
