(* ===== verification/Transport.thy ===== *)
theory Transport
  imports Prelude
begin

text \<open>
  The framing of the obfuscated stream: WebSocket frames (\<^verbatim>\<open>src/src/net/net-websocket.c\<close>), TLS application
  records and HTTP chunks, as the CTR-mode encryption and decryption of
  \<^verbatim>\<open>src/src/net/net-tcp-connections.c\<close> write and read them, and the unwrapping of WebSocket frames before
  the keys are known (\<^verbatim>\<open>src/src/net/net-tcp-rpc-ext-server.c\<close>).

  AES-CTR is a key stream \<open>ks\<close>, an argument, with the number of bytes used so far in the state. The chunk
  parser of the Type3 library is an argument. \<^verbatim>\<open>ws_frame_remaining\<close>, which is never negative, is a natural
  number. The result \<open>None\<close> is a failed \<^verbatim>\<open>assert\<close> or a signed overflow.
\<close>

subsection \<open>State\<close>

datatype ws_state = WS_STATE_NONE | WS_STATE_HANDSHAKE | WS_STATE_ACTIVE | WS_STATE_HTTP_STREAM

definition WS_OPCODE_CLOSE :: byte where "WS_OPCODE_CLOSE = 0x8"
definition WS_OPCODE_PING :: byte where "WS_OPCODE_PING = 0x9"
definition WS_OPCODE_PONG :: byte where "WS_OPCODE_PONG = 0xA"
definition T3_PADDING_MARKER :: byte where "T3_PADDING_MARKER = 0xFE"

record tconn =
  ws_mask :: bytes
  ws_mask_offset :: nat
  ws_frame_remaining :: nat
  left_tls_packet_length :: int
  in_u :: bytes
  c_in :: bytes
  read_pos :: nat

text \<open>The parts of a connection that never change while input is decrypted.\<close>

record tmode =
  m_ws :: ws_state
  m_tls :: bool
  m_padding :: bool

subsection \<open>Ciphers and masks\<close>

fun ctr_xor :: "(nat \<Rightarrow> byte) \<Rightarrow> nat \<Rightarrow> bytes \<Rightarrow> bytes" where
  "ctr_xor ks p [] = []"
| "ctr_xor ks p (x # xs) = (x XOR ks p) # ctr_xor ks (Suc p) xs"

text \<open>\<^verbatim>\<open>ws_unmask_data\<close> on a block, from a mask offset.\<close>

fun ws_unmask :: "bytes \<Rightarrow> nat \<Rightarrow> bytes \<Rightarrow> bytes" where
  "ws_unmask msk off [] = []"
| "ws_unmask msk off (x # xs) = (x XOR msk ! (off mod 4)) # ws_unmask msk (Suc off) xs"

subsection \<open>Frame headers\<close>

text \<open>The low half of a 64-bit payload length.\<close>

definition ws_len32 :: "bytes \<Rightarrow> u32" where
  "ws_len32 h = push_bit 24 (ucast (h ! 6)) OR push_bit 16 (ucast (h ! 7)) OR push_bit 8 (ucast (h ! 8)) OR ucast (h ! 9)"

text \<open>The payload length and the position after it: \<open>None\<close> when more bytes are needed, \<open>Some None\<close> on an error.\<close>

definition ws_payload_len :: "bytes \<Rightarrow> (nat \<times> nat) option option" where
  "ws_payload_len h =
     (let n = unat (h ! 1 AND 0x7F) in
      if n = 126 then
        if length h < 4 then None else Some (Some (unat (h ! 2) * 256 + unat (h ! 3), 4))
      else if n = 127 then
        if length h < 10 then None
        else if (h ! 2 OR h ! 3 OR h ! 4 OR h ! 5) \<noteq> 0 then Some None
        else if sint (ws_len32 h) < 0 then Some None else Some (Some (unat (ws_len32 h), 10))
      else Some (Some (n, 2)))"

text \<open>The parser after the length: the mask and the opcode.\<close>

definition ws_frame_body :: "tconn \<Rightarrow> bytes \<Rightarrow> nat \<Rightarrow> nat \<Rightarrow> (int \<times> tconn \<times> bytes) option" where
  "ws_frame_body c inp payload_len pos =
     (let h = take 14 inp; opcode = h ! 0 AND 0x0F; masked = bit (h ! 1) 7 in
      if masked \<and> length h < pos + 4 then Some (0, c, inp) else
      let c = (if masked then c\<lparr>ws_mask := take 4 (drop pos h), ws_mask_offset := 0\<rparr> else c);
          header_len = (if masked then pos + 4 else pos)
      in if opcode = WS_OPCODE_CLOSE then Some (-1, c, inp)
         else if opcode = WS_OPCODE_PING \<or> opcode = WS_OPCODE_PONG then
           if header_len + payload_len \<ge> 2 ^ 31 then None
           else if length inp < header_len + payload_len then Some (0, c, inp)
           else Some (0, c, drop (header_len + payload_len) inp)
         else Some (int payload_len, c\<lparr>ws_frame_remaining := payload_len\<rparr>, drop header_len inp))"

definition ws_parse_frame_header :: "tconn \<Rightarrow> bytes \<Rightarrow> (int \<times> tconn \<times> bytes) option" where
  "ws_parse_frame_header c inp =
     (if length inp < 2 then Some (0, c, inp) else
      case ws_payload_len (take 14 inp) of
        None \<Rightarrow> Some (0, c, inp)
      | Some None \<Rightarrow> Some (-1, c, inp)
      | Some (Some (payload_len, pos)) \<Rightarrow> ws_frame_body c inp payload_len pos)"

definition ws_write_frame_header :: "nat \<Rightarrow> bytes" where
  "ws_write_frame_header n =
     (if n < 126 then [0x82, word_of_nat n]
      else if n < 65536 then [0x82, 126, word_of_nat (n div 256), word_of_nat n]
      else [0x82, 127, 0, 0, 0, 0, word_of_nat (n div 2 ^ 24), word_of_nat (n div 2 ^ 16), word_of_nat (n div 2 ^ 8), word_of_nat n])"

subsection \<open>Decrypting input\<close>

datatype t3_result = T3_OK | T3_ERR_BUF_TOO_SMALL | T3_ERR_OTHER

text \<open>How the loop ends: no input left, a return value, or \<^verbatim>\<open>fail_connection\<close>.\<close>

datatype dret = D_empty | D_return int | D_fail

datatype dstep = Stop dret | Go

text \<open>
  Consuming \<open>n\<close> bytes of the stream: unmasked in WebSocket mode, decrypted, appended to \<^verbatim>\<open>c->in\<close> unless it
  is taken for padding.
\<close>

definition piece :: "(nat \<Rightarrow> byte) \<Rightarrow> bool \<Rightarrow> bool \<Rightarrow> nat \<Rightarrow> tconn \<Rightarrow> tconn" where
  "piece ks ws padding n c =
     (let raw = take n (in_u c);
          plain = ctr_xor ks (read_pos c) (if ws then ws_unmask (ws_mask c) (ws_mask_offset c) raw else raw);
          is_padding = (padding \<and> plain \<noteq> [] \<and> hd plain = T3_PADDING_MARKER)
      in c\<lparr>in_u := drop n (in_u c), c_in := (if is_padding then c_in c else c_in c @ plain),
           read_pos := read_pos c + length raw,
           ws_mask_offset := (if ws then (ws_mask_offset c + length raw) mod 4 else ws_mask_offset c)\<rparr>)"

definition http_step :: "(bytes \<Rightarrow> t3_result \<times> bytes \<times> nat) \<Rightarrow> (nat \<Rightarrow> byte) \<Rightarrow> tconn \<Rightarrow> (dstep \<times> tconn) option" where
  "http_step chunk_parse ks c =
     (case chunk_parse (take 16384 (in_u c)) of (rc, dat, consumed) \<Rightarrow>
        if rc = T3_ERR_BUF_TOO_SMALL \<or> consumed = 0 then Some (Stop (D_return 0), c)
        else if rc \<noteq> T3_OK then Some (Stop D_fail, c)
        else if consumed > length (in_u c) then None
        else let c = c\<lparr>in_u := drop consumed (in_u c)\<rparr>
             in if dat = [] then Some (Stop (D_return 0), c)
                else Some (Go, c\<lparr>c_in := c_in c @ ctr_xor ks (read_pos c) dat, read_pos := read_pos c + length dat\<rparr>))"

definition ws_step :: "(nat \<Rightarrow> byte) \<Rightarrow> bool \<Rightarrow> tconn \<Rightarrow> (dstep \<times> tconn) option" where
  "ws_step ks padding c =
     (let go = (\<lambda>c. let len = min (ws_frame_remaining c) (length (in_u c));
                        c = c\<lparr>ws_frame_remaining := ws_frame_remaining c - len\<rparr>
                    in Some (Go, if len > 0 then piece ks True padding len c else c)) in
      if ws_frame_remaining c = 0 then
        case ws_parse_frame_header c (in_u c) of
          None \<Rightarrow> None
        | Some (n, c, rest) \<Rightarrow>
            let c = c\<lparr>in_u := rest\<rparr> in
            if n < 0 then Some (Stop D_fail, c)
            else if n = 0 then Some (Stop (D_return 0), c)
            else go c
      else go c)"

definition tls_step :: "(nat \<Rightarrow> byte) \<Rightarrow> tconn \<Rightarrow> (dstep \<times> tconn) option" where
  "tls_step ks c =
     (let go = (\<lambda>c. let len = min (nat (left_tls_packet_length c)) (length (in_u c))
                    in Some (Go, piece ks False False len (c\<lparr>left_tls_packet_length := left_tls_packet_length c - int len\<rparr>))) in
      if left_tls_packet_length c < 0 then None
      else if left_tls_packet_length c = 0 then
        if length (in_u c) < 5 then Some (Stop (D_return (5 - int (length (in_u c)))), c)
        else if take 3 (in_u c) \<noteq> [0x17, 0x03, 0x03] then Some (Stop D_fail, c)
        else go (c\<lparr>left_tls_packet_length := 256 * uint (in_u c ! 3) + uint (in_u c ! 4), in_u := drop 5 (in_u c)\<rparr>)
      else go c)"

definition dec_step :: "(bytes \<Rightarrow> t3_result \<times> bytes \<times> nat) \<Rightarrow> (nat \<Rightarrow> byte) \<Rightarrow> tmode \<Rightarrow> tconn \<Rightarrow> (dstep \<times> tconn) option" where
  "dec_step chunk_parse ks m c =
     (if m_ws m = WS_STATE_HTTP_STREAM then http_step chunk_parse ks c
      else if m_ws m = WS_STATE_ACTIVE then ws_step ks (m_padding m) c
      else if m_tls m then tls_step ks c
      else Some (Go, piece ks False False (length (in_u c)) c))"

lemma length_ctr_xor [simp]: "length (ctr_xor ks p xs) = length xs"
  by (induction xs arbitrary: p) auto

lemma ctr_xor_Nil_iff [simp]: "ctr_xor ks p xs = [] \<longleftrightarrow> xs = []"
  by (cases xs) auto

lemma ctr_xor_append: "ctr_xor ks p (xs @ ys) = ctr_xor ks p xs @ ctr_xor ks (p + length xs) ys"
  by (induction xs arbitrary: p) auto

lemma ctr_xor_twice [simp]: "ctr_xor ks p (ctr_xor ks p xs) = xs"
  by (induction xs arbitrary: p) (auto simp: xor.assoc)

lemma length_ws_unmask [simp]: "length (ws_unmask msk off xs) = length xs"
  by (induction xs arbitrary: off) auto

lemma ws_unmask_append: "ws_unmask msk off (xs @ ys) = ws_unmask msk off xs @ ws_unmask msk (off + length xs) ys"
  by (induction xs arbitrary: off) auto

lemma ws_unmask_twice [simp]: "ws_unmask msk off (ws_unmask msk off xs) = xs"
  by (induction xs arbitrary: off) (auto simp: xor.assoc)

lemma ws_unmask_mod: "ws_unmask msk (off mod 4) xs = ws_unmask msk off xs"
proof (induction xs arbitrary: off)
  case (Cons x xs)
  have "ws_unmask msk (Suc (off mod 4)) xs = ws_unmask msk (Suc off) xs"
    using Cons.IH [of "Suc (off mod 4)"] Cons.IH [of "Suc off"] by (simp add: mod_Suc_eq)
  then show ?case by simp
qed simp

text \<open>
  Reading a frame header: either more bytes are needed and nothing has changed, or the outcome does not
  depend on the bytes that follow.
\<close>

lemma unat_byte_less: "unat (b :: byte) < 256"
proof -
  have "unat b < 2 ^ LENGTH(8)" by (rule unsigned_less)
  then show ?thesis by simp
qed

lemma sint_nonneg_unat: "\<not> sint w < 0 \<Longrightarrow> unat (w :: u32) < 2 ^ 31"
proof -
  assume a: "\<not> sint w < 0"
  have b: "sint w < 2 ^ 31" using sint_lt [of w] by simp
  have "uint w = take_bit 32 (sint w)" using uint_sint [of w] by simp
  also have "\<dots> = sint w" using a b by (simp add: take_bit_int_eq_self)
  finally have "uint w < 2 ^ 31" using b by simp
  then have "int (unat w) < int (2 ^ 31)" by simp
  then show ?thesis by (simp only: of_nat_less_iff)
qed

lemma ws_payload_len_pos:
  assumes "ws_payload_len h = Some (Some (n, p))" "2 \<le> length h"
  shows "2 \<le> p" "p \<le> 10" "p \<le> length h" "n < 2 ^ 31"
proof -
  let ?k = "unat (h ! 1 AND 0x7F)"
  have "(p = 4 \<and> 4 \<le> length h \<and> n = unat (h ! 2) * 256 + unat (h ! 3)) \<or>
    (p = 10 \<and> 10 \<le> length h \<and> n = unat (ws_len32 h) \<and> \<not> sint (ws_len32 h) < 0) \<or> (p = 2 \<and> n = ?k)"
  proof (cases "?k = 126")
    case True
    with assms(1) show ?thesis unfolding ws_payload_len_def Let_def by (cases "length h < 4") simp_all
  next
    case False
    then show ?thesis
      using assms(1) unfolding ws_payload_len_def Let_def if_not_P [OF False]
      by (cases "?k = 127"; cases "length h < 10"; cases "h ! 2 OR h ! 3 OR h ! 4 OR h ! 5 = 0"; cases "sint (ws_len32 h) < 0") simp_all
  qed
  then consider (m) "p = 4" "4 \<le> length h" "n = unat (h ! 2) * 256 + unat (h ! 3)"
    | (l) "p = 10" "10 \<le> length h" "n = unat (ws_len32 h)" "\<not> sint (ws_len32 h) < 0"
    | (s) "p = 2" "n = ?k"
    by blast
  then have "2 \<le> p \<and> p \<le> 10 \<and> p \<le> length h \<and> n < 2 ^ 31"
  proof cases
    case m
    then show ?thesis using unat_byte_less [of "h ! 2"] unat_byte_less [of "h ! 3"] by simp
  next
    case l
    then show ?thesis using sint_nonneg_unat [OF l(4)] by simp
  next
    case s
    then show ?thesis using unat_byte_less [of "h ! 1 AND 0x7F"] assms(2) by simp
  qed
  then show "2 \<le> p" "p \<le> 10" "p \<le> length h" "n < 2 ^ 31" by auto
qed

lemma ws_payload_len_append:
  "ws_payload_len h = Some r \<Longrightarrow> 2 \<le> length h \<Longrightarrow> ws_payload_len (h @ t) = Some r"
  by (auto simp: ws_payload_len_def ws_len32_def Let_def nth_append split: if_splits)

lemma ws_frame_body_append:
  assumes "2 \<le> length a" "2 \<le> pos" "pos \<le> 10" "pos \<le> length a"
  shows "(\<exists>c'. ws_frame_body c a n pos = Some (0, c', a) \<and> c' = c)
    \<or> (case ws_frame_body c a n pos of None \<Rightarrow> ws_frame_body c (a @ b) n pos = None
        | Some (k, c', a') \<Rightarrow> ws_frame_body c (a @ b) n pos = Some (k, c', a' @ b)
            \<or> k = 0 \<and> (\<exists>c'' a''. ws_frame_body c (a @ b) n pos = Some (0, c'', a'')))"
proof -
  have h: "take 14 (a @ b) ! 0 = a ! 0" "take 14 (a @ b) ! 1 = a ! 1" "take 14 a ! 0 = a ! 0" "take 14 a ! 1 = a ! 1"
    using assms(1) by (cases a; auto simp: nth_append)+
  show ?thesis
  proof (cases "bit (a ! 1) 7 \<and> length (take 14 a) < pos + 4")
    case True
    then show ?thesis using h by (simp add: ws_frame_body_def Let_def)
  next
    case False
    then have e: "bit (a ! 1) 7 \<Longrightarrow> pos + 4 \<le> length a" using assms(3) by auto
    have m: "bit (a ! 1) 7 \<Longrightarrow> take 4 (drop pos (take 14 (a @ b))) = take 4 (drop pos (take 14 a))"
      using e assms(3) by (simp add: drop_take) linarith
    have nf: "\<not> (bit (a ! 1) 7 \<and> length (take 14 (a @ b)) < pos + 4)" using e assms(3) by auto
    show ?thesis
      unfolding ws_frame_body_def Let_def h if_not_P [OF False] if_not_P [OF nf]
      using e m assms(4) by (cases "bit (a ! 1) 7") (auto simp: drop_append)
  qed
qed

lemma ws_frame_body_shorter:
  assumes "ws_frame_body c inp n pos = Some (k, c', rest)" "2 \<le> pos" "0 < k"
  shows "length rest < length inp \<or> inp = []"
  using assms by (auto simp: ws_frame_body_def Let_def split: if_splits)

lemma ws_parse_shorter:
  assumes "ws_parse_frame_header c inp = Some (k, c', rest)" "0 < k"
  shows "length rest < length inp"
proof -
  from assms obtain n pos where "ws_payload_len (take 14 inp) = Some (Some (n, pos))" and l: "2 \<le> length inp"
    and b: "ws_frame_body c inp n pos = Some (k, c', rest)"
    by (auto simp: ws_parse_frame_header_def split: if_splits option.splits)
  with ws_payload_len_pos(1) [of "take 14 inp"] have "2 \<le> pos" by simp
  with ws_frame_body_shorter [OF b] assms(2) l show ?thesis by auto
qed

lemma piece_length [simp]: "length (in_u (piece ks ws p n c)) = length (in_u c) - n"
  by (simp add: piece_def Let_def)

lemma http_step_shorter: "http_step cp ks c = Some (Go, c') \<Longrightarrow> length (in_u c') < length (in_u c)"
  by (auto simp: http_step_def Let_def split: prod.splits if_splits)

lemma ws_step_shorter:
  assumes "ws_step ks p c = Some (Go, c')" "in_u c \<noteq> []"
  shows "length (in_u c') < length (in_u c)"
proof (cases "ws_frame_remaining c = 0")
  case True
  with assms(1) obtain n c1 rest where p: "ws_parse_frame_header c (in_u c) = Some (n, c1, rest)" "0 < n"
    and c': "c' = (let len = min (ws_frame_remaining c1) (length rest);
                        c2 = c1\<lparr>in_u := rest, ws_frame_remaining := ws_frame_remaining c1 - len\<rparr>
                    in if len > 0 then piece ks True p len c2 else c2)"
    by (auto simp: ws_step_def Let_def split: option.splits if_splits)
  have "length (in_u c') \<le> length rest" unfolding c' Let_def by simp
  with ws_parse_shorter [OF p] show ?thesis by simp
next
  case False
  with assms show ?thesis by (auto simp: ws_step_def Let_def)
qed

lemma tls_step_shorter:
  assumes "tls_step ks c = Some (Go, c')" "in_u c \<noteq> []"
  shows "length (in_u c') < length (in_u c)"
  using assms by (auto simp: tls_step_def Let_def split: if_splits)

lemma dec_step_shorter:
  "dec_step cp ks m c = Some (Go, c') \<Longrightarrow> in_u c \<noteq> [] \<Longrightarrow> length (in_u c') < length (in_u c)"
  by (auto simp: dec_step_def dest: http_step_shorter ws_step_shorter tls_step_shorter split: if_splits)

text \<open>\<^verbatim>\<open>cpu_tcp_aes_crypto_ctr128_decrypt_input\<close>: the loop over the steps.\<close>

function ctr128_decrypt_input ::
  "(bytes \<Rightarrow> t3_result \<times> bytes \<times> nat) \<Rightarrow> (nat \<Rightarrow> byte) \<Rightarrow> tmode \<Rightarrow> tconn \<Rightarrow> (dret \<times> tconn) option" where
  "ctr128_decrypt_input cp ks m c =
     (if in_u c = [] then Some (D_empty, c)
      else case dec_step cp ks m c of
          None \<Rightarrow> None
        | Some (Stop r, c') \<Rightarrow> Some (r, c')
        | Some (Go, c') \<Rightarrow> ctr128_decrypt_input cp ks m c')"
  by pat_completeness auto
termination
  by (relation "measure (\<lambda>(cp, ks, m, c). length (in_u c))") (auto dest: dec_step_shorter)

declare ctr128_decrypt_input.simps [simp del]

subsection \<open>Arrival in pieces\<close>

definition feed :: "bytes \<Rightarrow> tconn \<Rightarrow> tconn" where
  "feed w c = c\<lparr>in_u := in_u c @ w\<rparr>"

lemma feed_simps [simp]:
  "in_u (feed w c) = in_u c @ w" "ws_frame_remaining (feed w c) = ws_frame_remaining c"
  "left_tls_packet_length (feed w c) = left_tls_packet_length c" "c_in (feed w c) = c_in c" "read_pos (feed w c) = read_pos c"
  by (simp_all add: feed_def)

lemma piece_feed: "n \<le> length (in_u c) \<Longrightarrow> piece ks ws p n (feed w c) = feed w (piece ks ws p n c)"
  by (simp add: piece_def feed_def Let_def)

lemma piece_split:
  assumes "m + n \<le> length (in_u c)"
  shows "piece ks ws False n (piece ks ws False m c) = piece ks ws False (m + n) c"
proof -
  let ?a = "take m (in_u c)" and ?b = "take n (drop m (in_u c))"
  have t: "take (m + n) (in_u c) = ?a @ ?b" by (simp add: take_add)
  have l: "length ?a = m" "length ?b = n" using assms by auto
  have u: "ws_unmask k (o' + m) ?b = ws_unmask k ((o' + m) mod 4) ?b" for k o' by (simp add: ws_unmask_mod)
  have o: "((ws_mask_offset c + m) mod 4 + n) mod 4 = (ws_mask_offset c + (m + n)) mod 4"
    by (simp add: mod_add_left_eq add.assoc)
  show ?thesis
    unfolding piece_def Let_def t
    using l by (cases ws) (simp_all add: ws_unmask_append ctr_xor_append u o add.assoc add.commute [of n m])
qed

text \<open>Within a frame or a record the loop may stop anywhere.\<close>

definition wpiece :: "(nat \<Rightarrow> byte) \<Rightarrow> nat \<Rightarrow> tconn \<Rightarrow> tconn" where
  "wpiece ks n c = piece ks True False n (c\<lparr>ws_frame_remaining := ws_frame_remaining c - n\<rparr>)"

definition tpiece :: "(nat \<Rightarrow> byte) \<Rightarrow> nat \<Rightarrow> tconn \<Rightarrow> tconn" where
  "tpiece ks n c = piece ks False False n (c\<lparr>left_tls_packet_length := left_tls_packet_length c - int n\<rparr>)"

lemma wpiece_simps [simp]:
  "in_u (wpiece ks n c) = drop n (in_u c)" "ws_frame_remaining (wpiece ks n c) = ws_frame_remaining c - n"
  by (simp_all add: wpiece_def piece_def Let_def)

lemma tpiece_simps [simp]:
  "in_u (tpiece ks n c) = drop n (in_u c)" "left_tls_packet_length (tpiece ks n c) = left_tls_packet_length c - int n"
  by (simp_all add: tpiece_def piece_def Let_def)

lemma piece_swap:
  "(piece ks ws p n c)\<lparr>ws_frame_remaining := k\<rparr> = piece ks ws p n (c\<lparr>ws_frame_remaining := k\<rparr>)"
  "(piece ks ws p n c)\<lparr>left_tls_packet_length := l\<rparr> = piece ks ws p n (c\<lparr>left_tls_packet_length := l\<rparr>)"
  by (simp_all add: piece_def Let_def)

lemma wpiece_split:
  assumes "m + n \<le> length (in_u c)"
  shows "wpiece ks n (wpiece ks m c) = wpiece ks (m + n) c"
proof -
  have "wpiece ks n (wpiece ks m c) = piece ks True False n (piece ks True False m (c\<lparr>ws_frame_remaining := ws_frame_remaining c - m - n\<rparr>))"
    unfolding wpiece_def [of ks n] wpiece_simps unfolding wpiece_def piece_swap by simp
  then show ?thesis using assms by (simp add: piece_split wpiece_def)
qed

lemma tpiece_split:
  assumes "m + n \<le> length (in_u c)"
  shows "tpiece ks n (tpiece ks m c) = tpiece ks (m + n) c"
proof -
  have "tpiece ks n (tpiece ks m c) = piece ks False False n (piece ks False False m (c\<lparr>left_tls_packet_length := left_tls_packet_length c - int m - int n\<rparr>))"
    unfolding tpiece_def [of ks n] tpiece_simps unfolding tpiece_def piece_swap by simp
  then show ?thesis using assms by (simp add: piece_split tpiece_def algebra_simps)
qed

lemma feed_upd:
  "(feed w c)\<lparr>ws_frame_remaining := k\<rparr> = feed w (c\<lparr>ws_frame_remaining := k\<rparr>)"
  "(feed w c)\<lparr>left_tls_packet_length := l\<rparr> = feed w (c\<lparr>left_tls_packet_length := l\<rparr>)"
  by (cases c; simp add: feed_def)+

lemma wpiece_feed: "n \<le> length (in_u c) \<Longrightarrow> wpiece ks n (feed w c) = feed w (wpiece ks n c)"
  unfolding wpiece_def feed_simps feed_upd by (rule piece_feed) simp

lemma tpiece_feed: "n \<le> length (in_u c) \<Longrightarrow> tpiece ks n (feed w c) = feed w (tpiece ks n c)"
  unfolding tpiece_def feed_simps feed_upd by (rule piece_feed) simp

lemma decrypt_empty: "in_u c = [] \<Longrightarrow> ctr128_decrypt_input cp ks m c = Some (D_empty, c)"
  by (subst ctr128_decrypt_input.simps) simp

lemma decrypt_go: "in_u c \<noteq> [] \<Longrightarrow> dec_step cp ks m c = Some (Go, c') \<Longrightarrow> ctr128_decrypt_input cp ks m c = ctr128_decrypt_input cp ks m c'"
  by (subst ctr128_decrypt_input.simps) simp

lemma decrypt_stop: "in_u c \<noteq> [] \<Longrightarrow> dec_step cp ks m c = Some (Stop r, c') \<Longrightarrow> ctr128_decrypt_input cp ks m c = Some (r, c')"
  by (subst ctr128_decrypt_input.simps) simp

lemma decrypt_fault: "in_u c \<noteq> [] \<Longrightarrow> dec_step cp ks m c = None \<Longrightarrow> ctr128_decrypt_input cp ks m c = None"
  by (subst ctr128_decrypt_input.simps) simp

definition ws_plain :: "tmode \<Rightarrow> bool" where
  "ws_plain m \<longleftrightarrow> m_ws m = WS_STATE_ACTIVE \<and> \<not> m_padding m"

lemma ws_within:
  assumes "ws_plain m" "0 < n" "n \<le> ws_frame_remaining c" "n \<le> length (in_u c)"
  shows "ctr128_decrypt_input cp ks m c = ctr128_decrypt_input cp ks m (wpiece ks n c)"
proof -
  have step: "ctr128_decrypt_input cp ks m d = ctr128_decrypt_input cp ks m (wpiece ks (min (ws_frame_remaining d) (length (in_u d))) d)"
    if "0 < ws_frame_remaining d" "in_u d \<noteq> []" for d
    by (rule decrypt_go) (use assms(1) that in \<open>auto simp: dec_step_def ws_plain_def ws_step_def wpiece_def Let_def\<close>)
  let ?k = "min (ws_frame_remaining c) (length (in_u c))"
  have c: "0 < ws_frame_remaining c" "in_u c \<noteq> []" using assms by auto
  show ?thesis
  proof (cases "n = ?k")
    case True
    with step [OF c] show ?thesis by simp
  next
    case False
    with assms have "n < ?k" by linarith
    then have d: "0 < ws_frame_remaining (wpiece ks n c)" "in_u (wpiece ks n c) \<noteq> []" by auto
    have "min (ws_frame_remaining (wpiece ks n c)) (length (in_u (wpiece ks n c))) = ?k - n" using \<open>n < ?k\<close> by auto
    moreover have "wpiece ks (?k - n) (wpiece ks n c) = wpiece ks ?k c" using \<open>n < ?k\<close> by (subst wpiece_split) auto
    ultimately show ?thesis using step [OF c] step [OF d] by simp
  qed
qed

lemma ws_header:
  assumes "ws_plain m" "ws_frame_remaining c = 0" "in_u c \<noteq> []"
    and "ws_parse_frame_header c (in_u c) = Some (n, c1, rest)" "0 < n"
  shows "ctr128_decrypt_input cp ks m c = ctr128_decrypt_input cp ks m (c1\<lparr>in_u := rest\<rparr>)"
proof -
  let ?d = "c1\<lparr>in_u := rest\<rparr>" and ?k = "min (ws_frame_remaining c1) (length rest)"
  have "dec_step cp ks m c = Some (Go, if ?k > 0 then wpiece ks ?k ?d else ?d\<lparr>ws_frame_remaining := ws_frame_remaining c1 - ?k\<rparr>)"
    using assms by (simp add: dec_step_def ws_plain_def ws_step_def wpiece_def Let_def)
  note step = decrypt_go [OF assms(3) this]
  show ?thesis
  proof (cases "?k > 0")
    case True
    with step ws_within [OF assms(1), of ?k ?d cp ks] show ?thesis by simp
  next
    case False
    then have "?k = 0" by linarith
    then have "?d\<lparr>ws_frame_remaining := ws_frame_remaining c1 - ?k\<rparr> = ?d" by (cases c1) simp
    with step show ?thesis unfolding if_not_P [OF False] by simp
  qed
qed

lemma ws_parse_in_u:
  "ws_parse_frame_header (feed w c) inp = map_option (\<lambda>(n, c', r). (n, c'\<lparr>in_u := in_u c @ w\<rparr>, r)) (ws_parse_frame_header c inp)"
proof -
  have body: "ws_frame_body (c\<lparr>in_u := u\<rparr>) inp n pos = map_option (\<lambda>(n, c', r). (n, c'\<lparr>in_u := u\<rparr>, r)) (ws_frame_body c inp n pos)" for n pos u
    by (cases c) (simp add: ws_frame_body_def Let_def)
  show ?thesis by (simp add: ws_parse_frame_header_def body feed_def split: option.split)
qed

lemma ws_parse_append:
  "ws_parse_frame_header c a = Some (0, c, a) \<or>
   (case ws_parse_frame_header c a of None \<Rightarrow> ws_parse_frame_header c (a @ b) = None
    | Some (k, c', a') \<Rightarrow> ws_parse_frame_header c (a @ b) = Some (k, c', a' @ b)
        \<or> k = 0 \<and> (\<exists>c'' a''. ws_parse_frame_header c (a @ b) = Some (0, c'', a'')))"
proof (cases "length a < 2 \<or> ws_payload_len (take 14 a) = None")
  case True
  then show ?thesis by (auto simp: ws_parse_frame_header_def)
next
  case False
  then obtain r where l: "2 \<le> length a" and r: "ws_payload_len (take 14 a) = Some r" by auto
  have "take 14 (a @ b) = take 14 a @ take (14 - length a) b" by simp
  with ws_payload_len_append [OF r] l have rb: "ws_payload_len (take 14 (a @ b)) = Some r" by simp
  show ?thesis
  proof (cases r)
    case None
    with l r rb show ?thesis by (simp add: ws_parse_frame_header_def)
  next
    case (Some np)
    obtain n pos where np: "np = (n, pos)" by (cases np)
    from ws_payload_len_pos [of "take 14 a" n pos] r Some np l have p: "2 \<le> pos" "pos \<le> 10" "pos \<le> length a" by auto
    have eq: "ws_parse_frame_header c a = ws_frame_body c a n pos" "ws_parse_frame_header c (a @ b) = ws_frame_body c (a @ b) n pos"
      using l r rb Some np by (simp_all add: ws_parse_frame_header_def)
    from ws_frame_body_append [OF l p, of c n b] show ?thesis unfolding eq by blast
  qed
qed

lemma ws_step_stop:
  "ws_frame_remaining c = 0 \<Longrightarrow> ws_parse_frame_header c (in_u c) = Some (k, c', a) \<Longrightarrow> k \<le> 0 \<Longrightarrow>
   ws_step ks p c = Some (Stop (if k < 0 then D_fail else D_return 0), c'\<lparr>in_u := a\<rparr>)"
  by (simp add: ws_step_def Let_def)

lemma ws_step_fault: "ws_frame_remaining c = 0 \<Longrightarrow> ws_parse_frame_header c (in_u c) = None \<Longrightarrow> ws_step ks p c = None"
  by (simp add: ws_step_def Let_def)

text \<open>
  If the whole of the input can be consumed, stopping after a part of it and continuing when the rest has
  arrived gives the same result.
\<close>

lemma ws_decrypt_append:
  assumes "ws_plain m" "ctr128_decrypt_input cp ks m (feed w c) = Some (D_empty, y)"
  shows "\<exists>r c'. ctr128_decrypt_input cp ks m c = Some (r, c') \<and> r \<noteq> D_fail \<and> ctr128_decrypt_input cp ks m (feed w c') = Some (D_empty, y)"
  using assms(2)
proof (induction "length (in_u c)" arbitrary: c rule: less_induct)
  case less
  show ?case
  proof (cases "in_u c = []")
    case True
    with less.prems show ?thesis by (simp add: decrypt_empty)
  next
    case ne: False
    show ?thesis
    proof (cases "ws_frame_remaining c = 0")
      case False
      let ?k = "min (ws_frame_remaining c) (length (in_u c))"
      have k: "0 < ?k" "?k \<le> ws_frame_remaining c" "?k \<le> length (in_u c)" using False ne by auto
      have "ctr128_decrypt_input cp ks m (feed w (wpiece ks ?k c)) = Some (D_empty, y)"
        using less.prems ws_within [OF assms(1) k(1), of "feed w c" cp ks] k by (simp add: wpiece_feed)
      with less.hyps [of "wpiece ks ?k c"] ws_within [OF assms(1) k, of cp ks] ne k show ?thesis by simp
    next
      case True
      let ?P = "ws_parse_frame_header c (in_u c)" and ?Q = "ws_parse_frame_header c (in_u c @ w)"
      have stepw: "dec_step cp ks m (feed w c) = ws_step ks False (feed w c)" and step: "dec_step cp ks m c = ws_step ks False c"
        using assms(1) by (simp_all add: dec_step_def ws_plain_def)
      have bad: "\<not> (?Q = None \<or> (\<exists>k c'' a''. ?Q = Some (k, c'', a'') \<and> k \<le> 0))"
      proof
        assume "?Q = None \<or> (\<exists>k c'' a''. ?Q = Some (k, c'', a'') \<and> k \<le> 0)"
        then have "dec_step cp ks m (feed w c) = None \<or> (\<exists>r c'. r \<noteq> D_empty \<and> dec_step cp ks m (feed w c) = Some (Stop r, c'))"
          using True unfolding stepw by (auto simp: ws_step_stop ws_step_fault ws_parse_in_u split: if_splits)
        with less.prems ne decrypt_fault [of "feed w c" cp ks m] decrypt_stop [of "feed w c" cp ks m] show False by auto
      qed
      from ws_parse_append [of c "in_u c" w] consider "?P = Some (0, c, in_u c)"
        | k c1 rest where "?P = Some (k, c1, rest)" "?Q = Some (k, c1, rest @ w)" "0 < k"
        using bad by (auto split: option.splits)
      then show ?thesis
      proof cases
        case 1
        then have "dec_step cp ks m c = Some (Stop (D_return 0), c)" using True by (simp add: step ws_step_stop)
        from decrypt_stop [OF ne this] less.prems show ?thesis by simp
      next
        case 2
        have h: "ctr128_decrypt_input cp ks m c = ctr128_decrypt_input cp ks m (c1\<lparr>in_u := rest\<rparr>)"
          by (rule ws_header [OF assms(1) True ne 2(1,3)])
        have "ctr128_decrypt_input cp ks m (feed w c) = ctr128_decrypt_input cp ks m ((c1\<lparr>in_u := in_u c @ w\<rparr>)\<lparr>in_u := rest @ w\<rparr>)"
          using True ne 2 by (intro ws_header [OF assms(1)]) (simp_all add: ws_parse_in_u)
        then have "ctr128_decrypt_input cp ks m (feed w (c1\<lparr>in_u := rest\<rparr>)) = Some (D_empty, y)"
          using less.prems by (simp add: feed_def)
        with less.hyps [of "c1\<lparr>in_u := rest\<rparr>"] ws_parse_shorter [OF 2(1,3)] h show ?thesis by simp
      qed
    qed
  qed
qed

definition tls_mode :: "tmode \<Rightarrow> bool" where
  "tls_mode m \<longleftrightarrow> m_ws m \<noteq> WS_STATE_ACTIVE \<and> m_ws m \<noteq> WS_STATE_HTTP_STREAM \<and> m_tls m"

lemma tls_within:
  assumes "tls_mode m" "0 < n" "int n \<le> left_tls_packet_length c" "n \<le> length (in_u c)"
  shows "ctr128_decrypt_input cp ks m c = ctr128_decrypt_input cp ks m (tpiece ks n c)"
proof -
  have step: "ctr128_decrypt_input cp ks m d = ctr128_decrypt_input cp ks m (tpiece ks (min (nat (left_tls_packet_length d)) (length (in_u d))) d)"
    if "0 < left_tls_packet_length d" "in_u d \<noteq> []" for d
    by (rule decrypt_go) (use assms(1) that in \<open>auto simp: dec_step_def tls_mode_def tls_step_def tpiece_def Let_def\<close>)
  let ?k = "min (nat (left_tls_packet_length c)) (length (in_u c))"
  have c: "0 < left_tls_packet_length c" "in_u c \<noteq> []" using assms by auto
  show ?thesis
  proof (cases "n = ?k")
    case True
    with step [OF c] show ?thesis by simp
  next
    case False
    with assms have n: "n < ?k" by linarith
    then have d: "0 < left_tls_packet_length (tpiece ks n c)" "in_u (tpiece ks n c) \<noteq> []" by auto
    have "min (nat (left_tls_packet_length (tpiece ks n c))) (length (in_u (tpiece ks n c))) = ?k - n" using n by auto
    moreover have "tpiece ks (?k - n) (tpiece ks n c) = tpiece ks ?k c" using n by (subst tpiece_split) auto
    ultimately show ?thesis using step [OF c] step [OF d] by simp
  qed
qed

definition tls_header :: "tconn \<Rightarrow> tconn" where
  "tls_header c = c\<lparr>left_tls_packet_length := 256 * uint (in_u c ! 3) + uint (in_u c ! 4), in_u := drop 5 (in_u c)\<rparr>"

lemma tls_header_feed: "5 \<le> length (in_u c) \<Longrightarrow> tls_header (feed w c) = feed w (tls_header c)"
  by (cases c) (auto simp: tls_header_def feed_def nth_append)

lemma tls_at_header:
  assumes "tls_mode m" "left_tls_packet_length c = 0" "5 \<le> length (in_u c)" "take 3 (in_u c) = [0x17, 0x03, 0x03]"
  shows "ctr128_decrypt_input cp ks m c = ctr128_decrypt_input cp ks m (tls_header c)"
proof -
  let ?d = "tls_header c"
  let ?k = "min (nat (left_tls_packet_length ?d)) (length (in_u ?d))"
  have pos: "0 \<le> left_tls_packet_length ?d" by (simp add: tls_header_def)
  have ne: "in_u c \<noteq> []" using assms(3) by auto
  have "dec_step cp ks m c = Some (Go, tpiece ks ?k ?d)"
    using assms by (simp add: dec_step_def tls_mode_def tls_step_def tpiece_def tls_header_def Let_def)
  note step = decrypt_go [OF ne this]
  show ?thesis
  proof (cases "?k = 0")
    case True
    have "tpiece ks 0 ?d = ?d" by (cases c) (simp add: tpiece_def piece_def tls_header_def)
    with step True show ?thesis by simp
  next
    case False
    then have "0 < ?k" "int ?k \<le> left_tls_packet_length ?d" "?k \<le> length (in_u ?d)" using pos by linarith+
    from step tls_within [OF assms(1) this, of cp ks] show ?thesis by simp
  qed
qed

lemma tls_decrypt_append:
  assumes "tls_mode m" "ctr128_decrypt_input cp ks m (feed w c) = Some (D_empty, y)"
  shows "\<exists>r c'. ctr128_decrypt_input cp ks m c = Some (r, c') \<and> r \<noteq> D_fail \<and> ctr128_decrypt_input cp ks m (feed w c') = Some (D_empty, y)"
  using assms(2)
proof (induction "length (in_u c)" arbitrary: c rule: less_induct)
  case less
  have step: "dec_step cp ks m d = tls_step ks d" for d using assms(1) by (simp add: dec_step_def tls_mode_def)
  show ?case
  proof (cases "in_u c = []")
    case True
    with less.prems show ?thesis by (simp add: decrypt_empty)
  next
    case ne: False
    consider (neg) "left_tls_packet_length c < 0" | (head) "left_tls_packet_length c = 0" | (mid) "0 < left_tls_packet_length c" by linarith
    then show ?thesis
    proof cases
      case neg
      then have "dec_step cp ks m (feed w c) = None" by (simp add: step tls_step_def Let_def)
      with decrypt_fault [of "feed w c" cp ks m] less.prems ne show ?thesis by simp
    next
      case mid
      let ?k = "min (nat (left_tls_packet_length c)) (length (in_u c))"
      have k: "0 < ?k" "int ?k \<le> left_tls_packet_length c" "?k \<le> length (in_u c)" using mid ne by auto
      have "ctr128_decrypt_input cp ks m (feed w (tpiece ks ?k c)) = Some (D_empty, y)"
        using less.prems tls_within [OF assms(1) k(1), of "feed w c" cp ks] k by (simp add: tpiece_feed)
      with less.hyps [of "tpiece ks ?k c"] tls_within [OF assms(1) k, of cp ks] ne k show ?thesis by simp
    next
      case head
      show ?thesis
      proof (cases "length (in_u c) < 5")
        case True
        then have "dec_step cp ks m c = Some (Stop (D_return (5 - int (length (in_u c)))), c)"
          using head by (simp add: step tls_step_def Let_def)
        from decrypt_stop [OF ne this] less.prems show ?thesis by simp
      next
        case False
        then have l: "5 \<le> length (in_u c)" by simp
        show ?thesis
        proof (cases "take 3 (in_u c) = [0x17, 0x03, 0x03]")
          case True
          have "ctr128_decrypt_input cp ks m (feed w (tls_header c)) = Some (D_empty, y)"
            using less.prems tls_at_header [OF assms(1), of "feed w c" cp ks] head l True by (simp add: tls_header_feed)
          moreover have "length (in_u (tls_header c)) < length (in_u c)" using l by (simp add: tls_header_def)
          ultimately show ?thesis using less.hyps [of "tls_header c"] tls_at_header [OF assms(1) head l True, of cp ks] by simp
        next
          case False
          then have "dec_step cp ks m (feed w c) = Some (Stop D_fail, feed w c)"
            using head l by (simp add: step tls_step_def Let_def)
          with decrypt_stop [of "feed w c" cp ks m] less.prems ne show ?thesis by simp
        qed
      qed
    qed
  qed
qed

text \<open>
  Both framings are streams that may be cut anywhere. \<open>arrive\<close> calls the decryption after each piece that
  comes in.
\<close>

fun arrive :: "(tconn \<Rightarrow> (dret \<times> tconn) option) \<Rightarrow> bytes list \<Rightarrow> tconn \<Rightarrow> tconn option" where
  "arrive dec [] c = Some c"
| "arrive dec (w # ws) c =
     (case dec (feed w c) of None \<Rightarrow> None | Some (r, c') \<Rightarrow> if r = D_fail then None else arrive dec ws c')"

locale cuttable =
  fixes dec :: "tconn \<Rightarrow> (dret \<times> tconn) option"
  assumes dec_append: "dec (feed w c) = Some (D_empty, y) \<Longrightarrow>
    \<exists>r c'. dec c = Some (r, c') \<and> r \<noteq> D_fail \<and> dec (feed w c') = Some (D_empty, y)"
begin

lemma arrive_all:
  "dec (feed (concat ws) c) = Some (D_empty, y) \<Longrightarrow> ws \<noteq> [] \<Longrightarrow> arrive dec ws c = Some y"
proof (induction ws arbitrary: c)
  case (Cons w ws)
  show ?case
  proof (cases "ws = []")
    case True
    with Cons.prems show ?thesis by simp
  next
    case False
    have "feed (concat (w # ws)) c = feed (concat ws) (feed w c)" by (cases c) (simp add: feed_def)
    with dec_append [of "concat ws" "feed w c"] Cons.prems(1) obtain r c' where
      "dec (feed w c) = Some (r, c')" "r \<noteq> D_fail" "dec (feed (concat ws) c') = Some (D_empty, y)" by auto
    with Cons.IH [of c'] False show ?thesis by simp
  qed
qed simp

end

definition ws_active :: tmode where
  "ws_active = \<lparr>m_ws = WS_STATE_ACTIVE, m_tls = False, m_padding = False\<rparr>"

definition tls_active :: tmode where
  "tls_active = \<lparr>m_ws = WS_STATE_NONE, m_tls = True, m_padding = False\<rparr>"

interpretation ws_stream: cuttable "ctr128_decrypt_input cp ks ws_active" for cp ks
  by unfold_locales (rule ws_decrypt_append, simp_all add: ws_plain_def ws_active_def)

interpretation tls_stream: cuttable "ctr128_decrypt_input cp ks tls_active" for cp ks
  by unfold_locales (rule tls_decrypt_append, simp_all add: tls_mode_def tls_active_def)

subsection \<open>What a client sends\<close>

text \<open>A masked binary frame and an application record.\<close>

definition client_frame :: "bytes \<times> bytes \<Rightarrow> bytes" where
  "client_frame f =
     (let n = length (snd f) in
      (if n < 126 then [0x82, 0x80 OR word_of_nat n]
       else if n < 65536 then [0x82, 0xFE, word_of_nat (n div 256), word_of_nat n]
       else [0x82, 0xFF, 0, 0, 0, 0, word_of_nat (n div 2 ^ 24), word_of_nat (n div 2 ^ 16), word_of_nat (n div 2 ^ 8), word_of_nat n])
      @ fst f @ ws_unmask (fst f) 0 (snd f))"

definition frame_ok :: "bytes \<times> bytes \<Rightarrow> bool" where
  "frame_ok f \<longleftrightarrow> length (fst f) = 4 \<and> snd f \<noteq> [] \<and> length (snd f) < 2 ^ 31"

definition client_record :: "bytes \<Rightarrow> bytes" where
  "client_record p = [0x17, 0x03, 0x03, word_of_nat (length p div 256), word_of_nat (length p)] @ p"

lemma unat_low_byte: "unat (word_of_nat n :: byte) = n mod 256"
  by (simp add: unat_of_nat)

lemma uint_low_byte: "uint (word_of_nat n :: byte) = int n mod 256"
  by (simp add: unsigned_of_nat take_bit_eq_mod zmod_int)

lemma bit_of_nat_word: "bit (word_of_nat n :: 'a::len word) i \<longleftrightarrow> i < LENGTH('a) \<and> bit n i"
  by transfer (simp add: bit_take_bit_iff bit_of_nat_iff)

lemma div_byte:
  assumes "n < 2 ^ 32"
  shows "(word_of_nat (n div 2 ^ k) :: byte) = ucast (drop_bit k (word_of_nat n :: u32))"
proof (rule bit_word_eqI)
  fix i assume "i < LENGTH(8)"
  have "\<not> bit n (k + i)" if "32 \<le> k + i"
    using that assms by (metis bit_take_bit_iff linorder_not_less take_bit_nat_eq_self)
  with \<open>i < LENGTH(8)\<close>
  show "bit (word_of_nat (n div 2 ^ k) :: byte) i \<longleftrightarrow> bit (ucast (drop_bit k (word_of_nat n :: u32)) :: byte) i"
    by (cases "k + i < 32") (auto simp: bit_of_nat_word bit_unsigned_iff bit_drop_bit_eq drop_bit_eq_div [symmetric])
qed

lemma ws_len32_bytes:
  assumes "n < 2 ^ 31" "h ! 6 = word_of_nat (n div 2 ^ 24)" "h ! 7 = word_of_nat (n div 2 ^ 16)" "h ! 8 = word_of_nat (n div 2 ^ 8)" "h ! 9 = word_of_nat n"
  shows "ws_len32 h = word_of_nat n"
proof (rule bit_word_eqI)
  let ?w = "word_of_nat n :: u32"
  have n: "n < 2 ^ 32" using assms(1) by simp
  have h: "h ! 6 = ucast (drop_bit 24 ?w)" "h ! 7 = ucast (drop_bit 16 ?w)" "h ! 8 = ucast (drop_bit 8 ?w)" "h ! 9 = ucast ?w"
    using div_byte [OF n, of 0] unfolding assms(2-) by (simp_all only: div_byte [OF n] power_0 div_by_1 drop_bit_0 id_apply)
  fix i assume "i < LENGTH(32)"
  then have "i < 8 \<or> 8 \<le> i \<and> i < 16 \<or> 16 \<le> i \<and> i < 24 \<or> 24 \<le> i \<and> i < 32" by auto
  then show "bit (ws_len32 h) i \<longleftrightarrow> bit ?w i" unfolding ws_len32_def h by (auto simp: bit_unsigned_iff bit_simps)
qed

lemma short_lengths: "list_all (\<lambda>n. unat ((0x80 OR word_of_nat n :: byte) AND 0x7F) = n \<and> bit (0x80 OR word_of_nat n :: byte) 7 \<and>
    unat ((word_of_nat n :: byte) AND 0x7F) = n \<and> \<not> bit (word_of_nat n :: byte) 7) [0..<126]"
  by code_simp

lemma short_length:
  assumes "n < 126"
  shows "unat ((0x80 OR word_of_nat n :: byte) AND 0x7F) = n" "bit (0x80 OR word_of_nat n :: byte) 7"
    "unat ((word_of_nat n :: byte) AND 0x7F) = n" "\<not> bit (word_of_nat n :: byte) 7"
proof -
  have "n \<in> set [0..<126]" using assms by simp
  with short_lengths show "unat ((0x80 OR word_of_nat n :: byte) AND 0x7F) = n" "bit (0x80 OR word_of_nat n :: byte) 7"
    "unat ((word_of_nat n :: byte) AND 0x7F) = n" "\<not> bit (word_of_nat n :: byte) 7"
    unfolding list_all_iff by blast+
qed

lemma sint_small: "n < 2 ^ 31 \<Longrightarrow> \<not> sint (word_of_nat n :: u32) < 0 \<and> unat (word_of_nat n :: u32) = n"
  by (simp add: sint_uint unsigned_of_nat signed_take_bit_int_eq_self take_bit_nat_eq_self)

text \<open>Headers as both sides write them; \<open>masked\<close> sets the mask bit.\<close>

definition frame_head :: "bool \<Rightarrow> nat \<Rightarrow> bytes" where
  "frame_head masked n =
     (if n < 126 then [0x82, if masked then 0x80 OR word_of_nat n else word_of_nat n]
      else if n < 65536 then [0x82, if masked then 0xFE else 0x7E, word_of_nat (n div 256), word_of_nat n]
      else [0x82, if masked then 0xFF else 0x7F, 0, 0, 0, 0, word_of_nat (n div 2 ^ 24), word_of_nat (n div 2 ^ 16),
            word_of_nat (n div 2 ^ 8), word_of_nat n])"

lemma frame_head_bytes:
  "2 \<le> length (frame_head masked n)" "frame_head masked n ! 0 = 0x82" "bit (frame_head masked n ! 1) 7 \<longleftrightarrow> masked"
  "length (frame_head masked n) \<le> 10"
  by (auto simp: frame_head_def short_length)

lemma frame_head_ne [simp]: "frame_head masked n \<noteq> []"
  by (simp add: frame_head_def)

lemma ws_payload_len_head:
  assumes "n < 2 ^ 31"
  shows "ws_payload_len (frame_head masked n @ t) = Some (Some (n, length (frame_head masked n)))"
proof -
  consider "n < 126" | "126 \<le> n" "n < 65536" | "65536 \<le> n" by linarith
  then show ?thesis
  proof cases
    case 1
    then show ?thesis using short_length [OF 1] by (auto simp: ws_payload_len_def Let_def frame_head_def)
  next
    case 2
    then have "n div 256 < 256" by (simp add: less_mult_imp_div_less)
    with 2 show ?thesis by (auto simp: ws_payload_len_def Let_def frame_head_def unat_low_byte)
  next
    case 3
    let ?h = "frame_head masked n @ t"
    have h: "?h = [0x82, if masked then 0xFF else 0x7F, 0, 0, 0, 0, word_of_nat (n div 2 ^ 24), word_of_nat (n div 2 ^ 16),
            word_of_nat (n div 2 ^ 8), word_of_nat n] @ t" using 3 by (simp add: frame_head_def)
    have w: "ws_len32 ?h = word_of_nat n" by (rule ws_len32_bytes [OF assms]) (simp_all add: h)
    have "unat (?h ! 1 AND 0x7F) = 127" by (simp add: h)
    moreover have "10 \<le> length ?h" "?h ! 2 OR ?h ! 3 OR ?h ! 4 OR ?h ! 5 = 0" by (simp_all add: h)
    ultimately show ?thesis using w sint_small [OF assms] 3 by (simp add: ws_payload_len_def Let_def) (simp add: frame_head_def)
  qed
qed

lemma take_14_head: "\<exists>t'. take 14 (frame_head masked n @ t) = frame_head masked n @ t'"
  using frame_head_bytes(4) [of masked n] by simp

lemma ws_parse_client_frame:
  assumes "frame_ok (k, p)"
  shows "ws_parse_frame_header c (client_frame (k, p) @ rest) =
    Some (int (length p), c\<lparr>ws_mask := k, ws_mask_offset := 0, ws_frame_remaining := length p\<rparr>, ws_unmask k 0 p @ rest)"
proof -
  let ?h = "frame_head True (length p)"
  let ?inp = "?h @ k @ ws_unmask k 0 p @ rest"
  have inp: "client_frame (k, p) @ rest = ?inp" by (simp add: client_frame_def frame_head_def Let_def)
  have n: "length p < 2 ^ 31" and k: "length k = 4" using assms by (simp_all add: frame_ok_def)
  note hb = frame_head_bytes [of True "length p"]
  obtain t where t: "take 14 ?inp = ?h @ t" using take_14_head by blast
  have len: "ws_payload_len (take 14 ?inp) = Some (Some (length p, length ?h))" unfolding t by (rule ws_payload_len_head [OF n])
  have b: "take 14 ?inp ! 0 = 0x82" "bit (take 14 ?inp ! 1) 7" using hb by (simp_all add: t nth_append)
  have m: "take 4 (drop (length ?h) (take 14 ?inp)) = k" using k hb(4) by (simp add: drop_take)
  have l: "\<not> length (take 14 ?inp) < length ?h + 4" using k hb(4) by simp
  have "ws_frame_body c ?inp (length p) (length ?h) =
      Some (int (length p), c\<lparr>ws_mask := k, ws_mask_offset := 0, ws_frame_remaining := length p\<rparr>, drop (length ?h + 4) ?inp)"
    unfolding ws_frame_body_def Let_def b m using l b k
    by (simp add: WS_OPCODE_CLOSE_def WS_OPCODE_PING_def WS_OPCODE_PONG_def)
  moreover have "drop (length ?h + 4) ?inp = ws_unmask k 0 p @ rest" using k by simp
  ultimately show ?thesis unfolding inp ws_parse_frame_header_def using len hb(1) by simp
qed

lemma ws_parse_written:
  assumes "n < 2 ^ 31"
  shows "ws_parse_frame_header c (ws_write_frame_header n @ rest) = Some (int n, c\<lparr>ws_frame_remaining := n\<rparr>, rest)"
proof -
  let ?h = "frame_head False n"
  have w: "ws_write_frame_header n = ?h" by (simp add: ws_write_frame_header_def frame_head_def)
  note hb = frame_head_bytes [of False n]
  obtain t where t: "take 14 (?h @ rest) = ?h @ t" using take_14_head by blast
  have len: "ws_payload_len (take 14 (?h @ rest)) = Some (Some (n, length ?h))" unfolding t by (rule ws_payload_len_head [OF assms])
  have b: "take 14 (?h @ rest) ! 0 = 0x82" "\<not> bit (take 14 (?h @ rest) ! 1) 7" using hb by (simp_all add: t nth_append)
  have "ws_frame_body c (?h @ rest) n (length ?h) = Some (int n, c\<lparr>ws_frame_remaining := n\<rparr>, rest)"
    unfolding ws_frame_body_def Let_def b using b by (simp add: WS_OPCODE_CLOSE_def WS_OPCODE_PING_def WS_OPCODE_PONG_def)
  then show ?thesis unfolding w ws_parse_frame_header_def using len hb(1) by simp
qed

subsection \<open>Any cut of the stream is read back\<close>

lemma ws_frames_decrypt:
  assumes "list_all frame_ok fs" "ws_frame_remaining c = 0" "in_u c = []"
  shows "\<exists>y. ctr128_decrypt_input cp ks ws_active (feed (concat (map client_frame fs)) c) = Some (D_empty, y) \<and>
    c_in y = c_in c @ ctr_xor ks (read_pos c) (concat (map snd fs)) \<and> in_u y = [] \<and> ws_frame_remaining y = 0 \<and>
    read_pos y = read_pos c + length (concat (map snd fs))"
  using assms
proof (induction fs arbitrary: c)
  case Nil
  then show ?case by (simp add: decrypt_empty feed_def)
next
  case (Cons f fs)
  obtain k p where f: "f = (k, p)" by (cases f)
  have ok: "frame_ok (k, p)" using Cons.prems(1) f by simp
  then have p: "0 < length p" by (simp add: frame_ok_def)
  have plain: "ws_plain ws_active" by (simp add: ws_plain_def ws_active_def)
  let ?rest = "concat (map client_frame fs)"
  let ?inp = "client_frame (k, p) @ ?rest"
  let ?c1 = "(feed ?inp c)\<lparr>ws_mask := k, ws_mask_offset := 0, ws_frame_remaining := length p\<rparr>"
  let ?c2 = "?c1\<lparr>in_u := ws_unmask k 0 p @ ?rest\<rparr>"
  let ?c3 = "wpiece ks (length p) ?c2"
  let ?c4 = "?c3\<lparr>in_u := []\<rparr>"
  have "ctr128_decrypt_input cp ks ws_active (feed ?inp c) = ctr128_decrypt_input cp ks ws_active ?c2"
  proof (rule ws_header [OF plain])
    show "ws_frame_remaining (feed ?inp c) = 0" using Cons.prems by simp
    show "in_u (feed ?inp c) \<noteq> []" by (simp add: client_frame_def Let_def)
    show "ws_parse_frame_header (feed ?inp c) (in_u (feed ?inp c)) = Some (int (length p), ?c1, ws_unmask k 0 p @ ?rest)"
      using Cons.prems(3) ws_parse_client_frame [OF ok] by simp
    show "0 < int (length p)" using p by linarith
  qed
  also have "\<dots> = ctr128_decrypt_input cp ks ws_active ?c3" using p by (intro ws_within [OF plain]) simp_all
  also have "?c3 = feed ?rest ?c4" by (cases c) (simp add: wpiece_def piece_def feed_def Let_def)
  finally have run: "ctr128_decrypt_input cp ks ws_active (feed ?inp c) = ctr128_decrypt_input cp ks ws_active (feed ?rest ?c4)" .
  have c4: "c_in ?c4 = c_in c @ ctr_xor ks (read_pos c) p" "read_pos ?c4 = read_pos c + length p" "ws_frame_remaining ?c4 = 0" "in_u ?c4 = []"
    by (simp_all add: wpiece_def piece_def feed_def Let_def)
  from Cons.IH [of ?c4] Cons.prems(1) c4(3,4) run c4(1,2) show ?case
    by (auto simp: f ctr_xor_append add.assoc)
qed

lemma tls_records_decrypt:
  assumes "list_all (\<lambda>p. length p < 65536) ps" "left_tls_packet_length c = 0" "in_u c = []"
  shows "\<exists>y. ctr128_decrypt_input cp ks tls_active (feed (concat (map client_record ps)) c) = Some (D_empty, y) \<and>
    c_in y = c_in c @ ctr_xor ks (read_pos c) (concat ps) \<and> in_u y = [] \<and> left_tls_packet_length y = 0 \<and>
    read_pos y = read_pos c + length (concat ps)"
  using assms
proof (induction ps arbitrary: c)
  case Nil
  then show ?case by (simp add: decrypt_empty feed_def)
next
  case (Cons p ps)
  have tls: "tls_mode tls_active" by (simp add: tls_mode_def tls_active_def)
  have n: "length p < 65536" using Cons.prems(1) by simp
  then have "int (length p) div 256 < 256" by simp
  then have len: "256 * (int (length p div 256) mod 256) + int (length p) mod 256 = int (length p)"
    "256 * int (length p div 256) + int (length p) mod 256 = int (length p)"
    by (simp_all add: zdiv_int)
  let ?rest = "concat (map client_record ps)"
  let ?inp = "client_record p @ ?rest"
  let ?c2 = "(feed ?inp c)\<lparr>left_tls_packet_length := int (length p), in_u := p @ ?rest\<rparr>"
  let ?c3 = "tpiece ks (length p) ?c2"
  let ?c4 = "?c3\<lparr>in_u := []\<rparr>"
  have hd: "tls_header (feed ?inp c) = ?c2"
    using Cons.prems(3) len by (simp add: tls_header_def client_record_def uint_low_byte)
  have "ctr128_decrypt_input cp ks tls_active (feed ?inp c) = ctr128_decrypt_input cp ks tls_active ?c2"
    unfolding hd [symmetric] using Cons.prems by (intro tls_at_header [OF tls]) (simp_all add: client_record_def)
  also have "\<dots> = ctr128_decrypt_input cp ks tls_active ?c3"
  proof (cases "p = []")
    case True
    then have "?c3 = ?c2" by (cases c) (simp add: tpiece_def piece_def feed_def)
    then show ?thesis by simp
  next
    case False
    then show ?thesis by (intro tls_within [OF tls]) simp_all
  qed
  also have "?c3 = feed ?rest ?c4" by (cases c) (simp add: tpiece_def piece_def feed_def Let_def)
  finally have run: "ctr128_decrypt_input cp ks tls_active (feed ?inp c) = ctr128_decrypt_input cp ks tls_active (feed ?rest ?c4)" .
  have c4: "c_in ?c4 = c_in c @ ctr_xor ks (read_pos c) p" "read_pos ?c4 = read_pos c + length p" "left_tls_packet_length ?c4 = 0" "in_u ?c4 = []"
    by (simp_all add: tpiece_def piece_def feed_def Let_def)
  from Cons.IH [of ?c4] Cons.prems(1) c4(3,4) run c4(1,2) show ?case
    by (auto simp: ctr_xor_append add.assoc)
qed


definition sample_conn :: tconn where
  "sample_conn = \<lparr>ws_mask = [0, 0, 0, 0], ws_mask_offset = 0, ws_frame_remaining = 0, left_tls_packet_length = 0, in_u = [], c_in = [], read_pos = 0\<rparr>"


subsection \<open>Encrypting output\<close>

fun hex_digits :: "nat \<Rightarrow> bytes" where
  "hex_digits n =
     (let d = (\<lambda>k. word_of_nat (if k < 10 then k + 0x30 else k + 0x57)) in
      if n < 16 then [d n] else hex_digits (n div 16) @ [d (n mod 16)])"

declare hex_digits.simps [simp del]

text \<open>
  One round of the loop: how many bytes it takes, what it writes before and after them. \<open>r\<close> is the value
  of \<^verbatim>\<open>lrand48 ()\<close>, \<open>max_frame\<close> is \<^verbatim>\<open>server_ws_max_frame_size\<close>.
\<close>

definition out_round :: "tmode \<Rightarrow> int \<Rightarrow> nat \<Rightarrow> nat \<Rightarrow> nat \<times> bytes \<times> bytes" where
  "out_round m max_frame r avail =
     (if m_ws m = WS_STATE_HTTP_STREAM then
        let len = (if avail > 16384 then 16384 else avail)
        in (len, hex_digits len @ [0x0d, 0x0a], [0x0d, 0x0a])
      else if m_ws m = WS_STATE_ACTIVE then
        let ws_max = (if max_frame < 4096 then 4096 else nat max_frame);
            ws_frame = 4096 + r mod (ws_max - 4096 + 1);
            len = (if avail > ws_frame then ws_frame else avail)
        in (len, ws_write_frame_header len, [])
      else if m_tls m then
        let len = (if 1425 < avail then 1425 else avail)
        in (len, [0x17, 0x03, 0x03, word_of_nat (len div 256), word_of_nat len], [])
      else (avail, [], []))"

lemma out_round_pos: "out_round m mf r a = (len, h, t) \<Longrightarrow> 0 < a \<Longrightarrow> 0 < len \<and> len \<le> a"
  by (auto simp: out_round_def Let_def split: if_splits)

text \<open>What the loop appends to \<^verbatim>\<open>c->out_p\<close>; \<open>rnd i\<close> is the \<open>i\<close>-th random number.\<close>

function out_loop :: "(nat \<Rightarrow> byte) \<Rightarrow> tmode \<Rightarrow> int \<Rightarrow> (nat \<Rightarrow> nat) \<Rightarrow> nat \<Rightarrow> nat \<Rightarrow> bytes \<Rightarrow> bytes" where
  "out_loop ks m max_frame rnd i pos out =
     (if out = [] then [] else
      case out_round m max_frame (rnd i) (length out) of (len, h, t) \<Rightarrow>
        h @ ctr_xor ks pos (take len out) @ t @ out_loop ks m max_frame rnd (Suc i) (pos + len) (drop len out))"
  by pat_completeness auto
termination
  by (relation "measure (\<lambda>(ks, m, mf, rnd, i, pos, out). length out)") (auto dest!: sym [THEN out_round_pos])

declare out_loop.simps [simp del]

text \<open>The split into two to five frames of the padded mode; \<open>n\<close> is \<^verbatim>\<open>n_frags\<close>.\<close>

definition frag_size :: "nat \<Rightarrow> nat \<Rightarrow> nat \<Rightarrow> nat" where
  "frag_size r n remaining =
     (if n = 1 then remaining
      else let min_frag = max 1 (remaining div (n * 2));
               max_frag = max min_frag (remaining - (n - 1))
           in min_frag + r mod (max_frag - min_frag + 1))"

fun split_loop :: "(nat \<Rightarrow> byte) \<Rightarrow> (nat \<Rightarrow> nat) \<Rightarrow> nat \<Rightarrow> nat \<Rightarrow> bytes \<Rightarrow> bytes" where
  "split_loop ks rnd 0 pos out = []"
| "split_loop ks rnd (Suc n) pos out =
     (if out = [] then [] else
      let k = frag_size (rnd n) (Suc n) (length out)
      in ws_write_frame_header k @ ctr_xor ks pos (take k out) @ split_loop ks rnd n (pos + k) (drop k out))"

text \<open>
  \<^verbatim>\<open>cpu_tcp_aes_crypto_ctr128_encrypt_output\<close>. \<open>nf\<close> is the value of \<^verbatim>\<open>lrand48 ()\<close> for the number of
  fragments, \<open>pad\<close> the bytes of a padding frame after the marker, if one is sent (31 to 287 of them).
\<close>

definition ctr128_encrypt_output ::
  "(nat \<Rightarrow> byte) \<Rightarrow> tmode \<Rightarrow> int \<Rightarrow> (nat \<Rightarrow> nat) \<Rightarrow> nat \<Rightarrow> bytes option \<Rightarrow> nat \<Rightarrow> bytes \<Rightarrow> bytes" where
  "ctr128_encrypt_output ks m max_frame rnd nf pad pos out =
     (if m_ws m = WS_STATE_ACTIVE \<and> m_padding m then
        if out = [] then [] else
        split_loop ks rnd (2 + nf mod 4) pos out @
        (case pad of
           None \<Rightarrow> []
         | Some p \<Rightarrow> ws_write_frame_header (Suc (length p)) @ ctr_xor ks (pos + length out) (T3_PADDING_MARKER # p))
      else out_loop ks m max_frame rnd 0 pos out)"

definition server_frame :: "tmode \<Rightarrow> bytes \<Rightarrow> bytes" where
  "server_frame m p =
     (if m_ws m = WS_STATE_HTTP_STREAM then hex_digits (length p) @ [0x0d, 0x0a] @ p @ [0x0d, 0x0a]
      else if m_ws m = WS_STATE_ACTIVE then ws_write_frame_header (length p) @ p
      else if m_tls m then client_record p
      else p)"

definition max_payload :: "tmode \<Rightarrow> int \<Rightarrow> nat \<Rightarrow> nat" where
  "max_payload m max_frame n =
     (if m_ws m = WS_STATE_HTTP_STREAM then 16384
      else if m_ws m = WS_STATE_ACTIVE then (if m_padding m then n else max 4096 (nat max_frame))
      else if m_tls m then 1425 else n)"

lemma out_round_frame:
  assumes "out_round m mf r a = (len, h, t)" "length p = len"
  shows "h @ p @ t = server_frame m p"
  using assms by (auto simp: out_round_def server_frame_def client_record_def Let_def split: if_splits)

lemma out_round_max:
  assumes "out_round m mf r a = (len, h, t)" "a \<le> n" "\<not> (m_ws m = WS_STATE_ACTIVE \<and> m_padding m)"
  shows "len \<le> max_payload m mf n"
proof (cases "m_ws m = WS_STATE_ACTIVE")
  case True
  let ?mx = "if mf < 4096 then 4096 else nat mf"
  have "4096 \<le> ?mx" by auto
  moreover have "r mod (?mx - 4096 + 1) < ?mx - 4096 + 1" by (rule mod_less_divisor) simp
  ultimately have "4096 + r mod (?mx - 4096 + 1) \<le> ?mx" by linarith
  with True assms show ?thesis by (auto simp: out_round_def max_payload_def Let_def split: if_splits)
next
  case False
  with assms show ?thesis by (auto simp: out_round_def max_payload_def Let_def split: if_splits)
qed

lemma out_loop_frames:
  assumes "\<not> (m_ws m = WS_STATE_ACTIVE \<and> m_padding m)" "length out \<le> n"
  shows "\<exists>ps. out_loop ks m mf rnd i pos out = concat (map (server_frame m) ps) \<and> concat ps = ctr_xor ks pos out \<and>
    list_all (\<lambda>p. 0 < length p \<and> length p \<le> max_payload m mf n) ps"
  using assms(2)
proof (induction "length out" arbitrary: i pos out rule: less_induct)
  case less
  show ?case
  proof (cases "out = []")
    case True
    then show ?thesis by (intro exI [of _ "[]"]) (simp add: out_loop.simps)
  next
    case False
    obtain len h t where r: "out_round m mf (rnd i) (length out) = (len, h, t)" by (cases "out_round m mf (rnd i) (length out)")
    from out_round_pos [OF r] False have len: "0 < len" "len \<le> length out" by auto
    let ?p = "ctr_xor ks pos (take len out)"
    have p: "length ?p = len" using len by simp
    have d: "length (drop len out) < length out" "length (drop len out) \<le> n" using len less.prems by auto
    from less.hyps [OF d] obtain ps where
      ps: "out_loop ks m mf rnd (Suc i) (pos + len) (drop len out) = concat (map (server_frame m) ps)"
        "concat ps = ctr_xor ks (pos + len) (drop len out)" "list_all (\<lambda>p. 0 < length p \<and> length p \<le> max_payload m mf n) ps"
      by blast
    have "ctr_xor ks pos out = ?p @ ctr_xor ks (pos + len) (drop len out)"
      using ctr_xor_append [of ks pos "take len out" "drop len out"] len by simp
    with ps out_round_frame [OF r p] out_round_max [OF r less.prems assms(1)] p len False r show ?thesis
      by (intro exI [of _ "?p # ps"]) (simp add: out_loop.simps [of ks m mf rnd i pos out])
  qed
qed

lemma frag_size_bounds:
  assumes "0 < remaining"
  shows "0 < frag_size r n remaining" "frag_size r n remaining \<le> remaining"
proof -
  let ?mn = "max 1 (remaining div (n * 2))"
  let ?mx = "max ?mn (remaining - (n - 1))"
  have "remaining div (n * 2) \<le> remaining" by simp
  then have mn: "1 \<le> ?mn" "?mn \<le> remaining" using assms by auto
  then have mx: "?mn \<le> ?mx" "?mx \<le> remaining" by auto
  have "r mod (?mx - ?mn + 1) < ?mx - ?mn + 1" by (rule mod_less_divisor) simp
  then have "?mn + r mod (?mx - ?mn + 1) \<le> ?mx" using mx by linarith
  then have x: "0 < ?mn + r mod (?mx - ?mn + 1)" "?mn + r mod (?mx - ?mn + 1) \<le> remaining" using mn mx by linarith+
  have "frag_size r n remaining = (if n = 1 then remaining else ?mn + r mod (?mx - ?mn + 1))"
    by (simp only: frag_size_def Let_def)
  then have "frag_size r n remaining = remaining \<or> frag_size r n remaining = ?mn + r mod (?mx - ?mn + 1)" by presburger
  with x assms show "0 < frag_size r n remaining" "frag_size r n remaining \<le> remaining" by linarith+
qed

lemma split_loop_frames:
  assumes "m_ws m = WS_STATE_ACTIVE" "0 < k"
  shows "\<exists>ps. split_loop ks rnd k pos out = concat (map (server_frame m) ps) \<and> concat ps = ctr_xor ks pos out \<and>
    list_all (\<lambda>p. 0 < length p \<and> length p \<le> length out) ps"
  using assms(2)
proof (induction k arbitrary: pos out)
  case step: (Suc k)
  show ?case
  proof (cases "out = []")
    case True
    then show ?thesis by (intro exI [of _ "[]"]) simp
  next
    case False
    let ?n = "frag_size (rnd k) (Suc k) (length out)"
    let ?p = "ctr_xor ks pos (take ?n out)"
    from frag_size_bounds False have n: "0 < ?n" "?n \<le> length out" by auto
    then have p: "length ?p = ?n" by simp
    have "\<exists>ps. split_loop ks rnd k (pos + ?n) (drop ?n out) = concat (map (server_frame m) ps) \<and> concat ps = ctr_xor ks (pos + ?n) (drop ?n out) \<and>
      list_all (\<lambda>p. 0 < length p \<and> length p \<le> length (drop ?n out)) ps"
    proof (cases k)
      case 0
      then have "?n = length out" by (simp add: frag_size_def)
      with 0 show ?thesis by (intro exI [of _ "[]"]) simp
    next
      case (Suc j)
      show ?thesis by (rule step.IH) (simp add: Suc)
    qed
    then obtain ps where ps: "split_loop ks rnd k (pos + ?n) (drop ?n out) = concat (map (server_frame m) ps)"
      "concat ps = ctr_xor ks (pos + ?n) (drop ?n out)" "list_all (\<lambda>p. 0 < length p \<and> length p \<le> length (drop ?n out)) ps" by blast
    have "ctr_xor ks pos out = ?p @ ctr_xor ks (pos + ?n) (drop ?n out)"
      using ctr_xor_append [of ks pos "take ?n out" "drop ?n out"] n by simp
    moreover have "list_all (\<lambda>p. 0 < length p \<and> length p \<le> length out) ps" using ps(3) by (auto simp: list_all_iff)
    moreover have "server_frame m ?p = ws_write_frame_header ?n @ ?p" using assms(1) p by (simp add: server_frame_def)
    ultimately show ?thesis using ps(1,2) False n p
      by (intro exI [of _ "?p # ps"]) (simp add: Let_def)
  qed
qed simp


subsection \<open>Before the keys are known\<close>

text \<open>
  The unwrapping of WebSocket frames while \<^verbatim>\<open>c->crypto\<close> is not set: frames are read from \<^verbatim>\<open>c->in\<close>, and their
  unmasked payload is put in front of what is left of it. The loop returns the payload.
\<close>

definition unwrap_step :: "tconn \<Rightarrow> (bytes option \<times> tconn) option" where
  "unwrap_step c =
     (let go = (\<lambda>c. let to_read = min (length (c_in c)) (ws_frame_remaining c) in
          if to_read = 0 then Some (None, c)
          else Some (Some (ws_unmask (ws_mask c) (ws_mask_offset c) (take to_read (c_in c))),
                 c\<lparr>c_in := drop to_read (c_in c), ws_frame_remaining := ws_frame_remaining c - to_read,
                   ws_mask_offset := (ws_mask_offset c + to_read) mod 4\<rparr>)) in
      if ws_frame_remaining c = 0 then
        case ws_parse_frame_header c (c_in c) of
          None \<Rightarrow> None
        | Some (n, c, rest) \<Rightarrow>
            let c = c\<lparr>c_in := rest\<rparr> in if n \<le> 0 then Some (None, c) else go c
      else go c)"

lemma unwrap_step_shorter:
  assumes "unwrap_step c = Some (Some p, c')" "c_in c \<noteq> []"
  shows "length (c_in c') < length (c_in c)"
proof (cases "ws_frame_remaining c = 0")
  case True
  with assms(1) obtain n c1 rest where p: "ws_parse_frame_header c (c_in c) = Some (n, c1, rest)" "0 < n"
    and c': "length (c_in c') \<le> length rest"
    by (auto simp: unwrap_step_def Let_def split: option.splits if_splits)
  from ws_parse_shorter [OF p] c' show ?thesis by simp
next
  case False
  with assms show ?thesis by (auto simp: unwrap_step_def Let_def split: if_splits)
qed

function unwrap_loop :: "tconn \<Rightarrow> (bytes \<times> tconn) option" where
  "unwrap_loop c =
     (if c_in c = [] then Some ([], c)
      else case unwrap_step c of
          None \<Rightarrow> None
        | Some (None, c') \<Rightarrow> Some ([], c')
        | Some (Some p, c') \<Rightarrow> map_option (\<lambda>(q, c'). (p @ q, c')) (unwrap_loop c'))"
  by pat_completeness auto
termination
  by (relation "measure (\<lambda>c. length (c_in c))") (auto dest: unwrap_step_shorter)

declare unwrap_loop.simps [simp del]

definition ws_unwrap :: "tconn \<Rightarrow> tconn option" where
  "ws_unwrap c = map_option (\<lambda>(unmasked, c). c\<lparr>c_in := unmasked @ c_in c\<rparr>) (unwrap_loop c)"

definition receive :: "bytes \<Rightarrow> tconn \<Rightarrow> tconn option" where
  "receive w c = ws_unwrap (c\<lparr>c_in := c_in c @ w\<rparr>)"

text \<open>A frame that arrives at once is unwrapped.\<close>

lemma unwrap_within:
  assumes "0 < ws_frame_remaining c" "c_in c \<noteq> []" "length (c_in c) \<le> ws_frame_remaining c"
  shows "unwrap_loop c = Some (ws_unmask (ws_mask c) (ws_mask_offset c) (c_in c),
    c\<lparr>c_in := [], ws_frame_remaining := ws_frame_remaining c - length (c_in c), ws_mask_offset := (ws_mask_offset c + length (c_in c)) mod 4\<rparr>)"
proof -
  have "unwrap_step c = Some (Some (ws_unmask (ws_mask c) (ws_mask_offset c) (c_in c)),
    c\<lparr>c_in := [], ws_frame_remaining := ws_frame_remaining c - length (c_in c), ws_mask_offset := (ws_mask_offset c + length (c_in c)) mod 4\<rparr>)"
    using assms by (simp add: unwrap_step_def Let_def min_absorb1)
  then show ?thesis using assms by (subst unwrap_loop.simps) (simp add: unwrap_loop.simps [of "_ \<lparr>ws_mask_offset := _\<rparr>"])
qed

definition sample_frame :: "bytes \<times> bytes" where
  "sample_frame = ([1, 2, 3, 4], [0xA0, 0xA1, 0xA2, 0xA3, 0xA4, 0xA5, 0xA6, 0xA7, 0xA8, 0xA9, 0xAA, 0xAB])"


text \<open>
  A ping or pong frame that announces a payload of 2147483647 bytes makes the parser overflow: its header
  alone is enough, whatever the mask and whatever follows.
\<close>

theorem ws_ping_overflow:
  "ws_parse_frame_header c ([opcode OR 0x80, 0xFF, 0, 0, 0, 0, 0x7F, 0xFF, 0xFF, 0xFF, m0, m1, m2, m3] @ rest) =
     (if (opcode OR 0x80) AND 0x0F = WS_OPCODE_PING \<or> (opcode OR 0x80) AND 0x0F = WS_OPCODE_PONG then None
      else if (opcode OR 0x80) AND 0x0F = WS_OPCODE_CLOSE
      then Some (-1, c\<lparr>ws_mask := [m0, m1, m2, m3], ws_mask_offset := 0\<rparr>,
             [opcode OR 0x80, 0xFF, 0, 0, 0, 0, 0x7F, 0xFF, 0xFF, 0xFF, m0, m1, m2, m3] @ rest)
      else Some (2147483647, c\<lparr>ws_mask := [m0, m1, m2, m3], ws_mask_offset := 0, ws_frame_remaining := 2147483647\<rparr>, rest))"
proof -
  let ?h = "[opcode OR 0x80, 0xFF, 0, 0, 0, 0, 0x7F, 0xFF, 0xFF, 0xFF, m0, m1, m2, m3]"
  have t: "take 14 (?h @ rest) = ?h" by simp
  have w: "ws_len32 ?h = 0x7FFFFFFF" by (simp add: ws_len32_def)
  have "ws_payload_len ?h = Some (Some (2147483647, 10))" by (simp add: ws_payload_len_def w Let_def)
  then show ?thesis unfolding ws_parse_frame_header_def ws_frame_body_def t
    by (simp add: WS_OPCODE_CLOSE_def WS_OPCODE_PING_def WS_OPCODE_PONG_def)
qed

end
