(* ===== verification/Timers.thy ===== *)
theory Timers
  imports Complex_Main Prelude
begin

text \<open>
  Event timers (\<^verbatim>\<open>src/src/net/net-timers.c\<close>) and the timer part of jobs
  (\<^verbatim>\<open>src/src/jobs/jobs.c\<close>): a binary heap of pointers to timers, each of which knows its place in
  the heap. Timers are named by numbers, the memory they live in is the field \<open>timer\<close>. A heap access
  at an index outside the array of \<^verbatim>\<open>MAX_EVENT_TIMERS\<close> pointers, and a failing \<^verbatim>\<open>assert\<close>, is the value
  \<open>None\<close>. The loops are defined without a termination proof; that they return is shown from the
  invariant of the heap. Times in \<^verbatim>\<open>double\<close> seconds are real numbers.
\<close>

definition MAX_EVENT_TIMERS :: nat where
  "MAX_EVENT_TIMERS = 2 ^ 19"

record event_timer =
  h_idx :: nat
  wakeup_time :: real
  real_wakeup_time :: real

record timers =
  et_heap :: "nat \<Rightarrow> nat"
  et_heap_size :: nat
  timer :: "nat \<Rightarrow> event_timer"
  event_timer_insert_ops :: int
  event_timer_remove_ops :: int
  event_timer_alarms :: int
  total_timers :: int

definition timers_init :: timers where
  "timers_init = \<lparr>et_heap = (\<lambda>_. 0), et_heap_size = 0,
     timer = (\<lambda>_. \<lparr>h_idx = 0, wakeup_time = 0, real_wakeup_time = 0\<rparr>),
     event_timer_insert_ops = 0, event_timer_remove_ops = 0, event_timer_alarms = 0, total_timers = 0\<rparr>"

subsection \<open>The heap\<close>

definition heap_at :: "timers \<Rightarrow> nat \<Rightarrow> nat option" where
  "heap_at s i = (if i < MAX_EVENT_TIMERS then Some (et_heap s i) else None)"

text \<open>\<^verbatim>\<open>et_heap[i] = et; et_heap[i]->h_idx = i;\<close>\<close>

definition put_at :: "nat \<Rightarrow> nat \<Rightarrow> timers \<Rightarrow> timers option" where
  "put_at i et s =
     (if i < MAX_EVENT_TIMERS
      then Some (s\<lparr>et_heap := (et_heap s)(i := et), timer := (timer s)(et := timer s et\<lparr>h_idx := i\<rparr>)\<rparr>)
      else None)"

abbreviation wt :: "timers \<Rightarrow> nat \<Rightarrow> real" where
  "wt s et \<equiv> wakeup_time (timer s et)"

partial_function (option) adjust_up :: "nat \<Rightarrow> nat \<Rightarrow> timers \<Rightarrow> (nat \<times> timers) option" where
  "adjust_up et i s =
     (if i > 1 then do {
        let j = i div 2;
        p \<leftarrow> heap_at s j;
        if wt s p \<le> wt s et then Some (i, s)
        else do {
          s \<leftarrow> put_at i p s;
          adjust_up et j s
        }
      }
      else Some (i, s))"

definition smaller_child :: "nat \<Rightarrow> timers \<Rightarrow> nat option" where
  "smaller_child j s =
     (if j < et_heap_size s then do {
        a \<leftarrow> heap_at s j;
        b \<leftarrow> heap_at s (j + 1);
        Some (if wt s a > wt s b then j + 1 else j)
      }
      else Some j)"

partial_function (option) adjust_down :: "nat \<Rightarrow> nat \<Rightarrow> nat \<Rightarrow> timers \<Rightarrow> (nat \<times> timers) option" where
  "adjust_down et i j s =
     (if j \<le> et_heap_size s then do {
        j \<leftarrow> smaller_child j s;
        p \<leftarrow> heap_at s j;
        if wt s et \<le> wt s p then Some (i, s)
        else do {
          s \<leftarrow> put_at i p s;
          adjust_down et j (2 * j) s
        }
      }
      else Some (i, s))"

definition basic_et_adjust :: "nat \<Rightarrow> nat \<Rightarrow> timers \<Rightarrow> (nat \<times> timers) option" where
  "basic_et_adjust et i s = do {
     (i, s) \<leftarrow> adjust_up et i s;
     (i, s) \<leftarrow> adjust_down et i (2 * i) s;
     s \<leftarrow> put_at i et s;
     Some (i, s)
   }"

definition assert_in_heap :: "nat \<Rightarrow> timers \<Rightarrow> unit option" where
  "assert_in_heap et s =
     (let i = h_idx (timer s et) in
      if 0 < i \<and> i \<le> et_heap_size s
      then Option.bind (heap_at s i) (\<lambda>p. if p = et then Some () else None)
      else None)"

definition insert_event_timer :: "nat \<Rightarrow> timers \<Rightarrow> (nat \<times> timers) option" where
  "insert_event_timer et s = do {
     let s = s\<lparr>event_timer_insert_ops := event_timer_insert_ops s + 1\<rparr>;
     if h_idx (timer s et) \<noteq> 0 then do {
       assert_in_heap et s;
       basic_et_adjust et (h_idx (timer s et)) s
     }
     else do {
       let s = s\<lparr>total_timers := total_timers s + 1\<rparr>;
       if et_heap_size s < MAX_EVENT_TIMERS then do {
         let s = s\<lparr>et_heap_size := et_heap_size s + 1\<rparr>;
         basic_et_adjust et (et_heap_size s) s
       }
       else None
     }
   }"

definition clear_h_idx :: "nat \<Rightarrow> timers \<Rightarrow> timers" where
  "clear_h_idx et s = s\<lparr>timer := (timer s)(et := timer s et\<lparr>h_idx := 0\<rparr>)\<rparr>"

definition remove_event_timer :: "nat \<Rightarrow> timers \<Rightarrow> (int \<times> timers) option" where
  "remove_event_timer et s = do {
     let i = h_idx (timer s et);
     if i = 0 then Some (0, s)
     else do {
       let s = s\<lparr>total_timers := total_timers s - 1, event_timer_remove_ops := event_timer_remove_ops s + 1\<rparr>;
       assert_in_heap et s;
       let s = clear_h_idx et s;
       last_et \<leftarrow> heap_at s (et_heap_size s);
       let s = s\<lparr>et_heap_size := et_heap_size s - 1\<rparr>;
       if i > et_heap_size s then Some (1, s)
       else do {
         (_, s) \<leftarrow> basic_et_adjust last_et i s;
         Some (1, s)
       }
     }
   }"

definition timers_get_first :: "timers \<Rightarrow> real" where
  "timers_get_first s = (if et_heap_size s = 0 then 0 else wt s (et_heap s 1))"

text \<open>
  The delay in milliseconds after which the caller is to run the timers again, \<open>None\<close> when the first
  timer is due.
\<close>

definition timers_wait :: "real \<Rightarrow> timers \<Rightarrow> int option option" where
  "timers_wait now s =
     (if et_heap_size s = 0 then Some (Some 100000)
      else do {
        p \<leftarrow> heap_at s 1;
        let wait_time = wt s p - now;
        Some (if wait_time > 0 then Some (\<lfloor>wait_time * 1000\<rfloor> + 1) else None)
      })"

text \<open>
  The loop of \<open>thread_run_timers\<close>. \<open>wakeup et\<close> is the callback of the timer; it acts on the timers
  and on the rest of the world.
\<close>

partial_function (option) run_due ::
  "(nat \<Rightarrow> timers \<times> 'w \<Rightarrow> (timers \<times> 'w) option) \<Rightarrow> real \<Rightarrow> timers \<times> 'w \<Rightarrow> (timers \<times> 'w) option" where
  "run_due wakeup now sw = (case sw of (s, w) \<Rightarrow>
     if et_heap_size s > 0 then do {
       et \<leftarrow> heap_at s 1;
       if wt s et \<le> now then
         if h_idx (timer s et) = 1 then do {
           (_, s) \<leftarrow> remove_event_timer et s;
           (s, w) \<leftarrow> wakeup et (s, w);
           run_due wakeup now (s\<lparr>event_timer_alarms := event_timer_alarms s + 1\<rparr>, w)
         }
         else None
       else Some (s, w)
     }
     else Some (s, w))"

definition thread_run_timers ::
  "(nat \<Rightarrow> timers \<times> 'w \<Rightarrow> (timers \<times> 'w) option) \<Rightarrow> real \<Rightarrow> timers \<times> 'w \<Rightarrow> (int \<times> timers \<times> 'w) option" where
  "thread_run_timers wakeup now sw = do {
     r \<leftarrow> timers_wait now (fst sw);
     case r of
       Some r \<Rightarrow> Some (r, sw)
     | None \<Rightarrow> do {
         sw \<leftarrow> run_due wakeup now sw;
         r \<leftarrow> timers_wait now (fst sw);
         map_option (\<lambda>r. (r, sw)) r
       }
   }"

subsection \<open>Job timers\<close>

text \<open>
  A job with a timer starts with its \<open>event_timer\<close>. The heap holds one reference to the job of every
  timer in it; a sent alarm carries that reference on. The functions are those of the thread that owns
  the timer; on another thread \<^verbatim>\<open>job_timer_insert\<close> queues the job for the owner, which then calls
  \<open>do_immediate_timer_insert\<close>.
\<close>

record job_world =
  j_refcnt :: "nat \<Rightarrow> int"
  sent_alarms :: "nat list"
  thread_wakeup_time :: real

definition job_incref :: "nat \<Rightarrow> job_world \<Rightarrow> job_world" where
  "job_incref job w = w\<lparr>j_refcnt := (j_refcnt w)(job := j_refcnt w job + 1)\<rparr>"

definition job_decref :: "nat \<Rightarrow> job_world \<Rightarrow> job_world" where
  "job_decref job w = w\<lparr>j_refcnt := (j_refcnt w)(job := j_refcnt w job - 1)\<rparr>"

definition set_wakeup :: "nat \<Rightarrow> real \<Rightarrow> timers \<Rightarrow> timers" where
  "set_wakeup et r s = s\<lparr>timer := (timer s)(et := timer s et\<lparr>wakeup_time := r\<rparr>)\<rparr>"

definition set_real_wakeup :: "nat \<Rightarrow> real \<Rightarrow> timers \<Rightarrow> timers" where
  "set_real_wakeup et r s = s\<lparr>timer := (timer s)(et := timer s et\<lparr>real_wakeup_time := r\<rparr>)\<rparr>"

definition do_immediate_timer_insert :: "nat \<Rightarrow> timers \<times> job_world \<Rightarrow> (timers \<times> job_world) option" where
  "do_immediate_timer_insert job sw = (case sw of (s, w) \<Rightarrow> do {
     let active = h_idx (timer s job) > 0;
     let r = real_wakeup_time (timer s job);
     (s, w) \<leftarrow>
       (if r > 0 then do {
          (_, s) \<leftarrow> insert_event_timer job (set_wakeup job r s);
          Some (s, if active then w else job_incref job w)
        }
        else do {
          (_, s) \<leftarrow> remove_event_timer job (set_wakeup job 0 s);
          Some (s, if active then job_decref job w else w)
        });
     Some (s, w\<lparr>thread_wakeup_time := timers_get_first s\<rparr>)
   })"

definition job_timer_insert :: "nat \<Rightarrow> real \<Rightarrow> timers \<times> job_world \<Rightarrow> (timers \<times> job_world) option" where
  "job_timer_insert job timeout sw = (case sw of (s, w) \<Rightarrow>
     if real_wakeup_time (timer s job) = timeout then Some (s, w)
     else do_immediate_timer_insert job (set_real_wakeup job timeout s, w))"

definition job_timer_remove :: "nat \<Rightarrow> timers \<times> job_world \<Rightarrow> (timers \<times> job_world) option" where
  "job_timer_remove job sw = job_timer_insert job 0 sw"

text \<open>What a handler of \<^verbatim>\<open>JS_ALARM\<close> asks first: is the alarm still wanted.\<close>

definition job_timer_check :: "nat \<Rightarrow> timers \<times> job_world \<Rightarrow> (bool \<times> timers \<times> job_world) option" where
  "job_timer_check job sw = (case sw of (s, w) \<Rightarrow>
     if real_wakeup_time (timer s job) = 0 \<or> real_wakeup_time (timer s job) \<noteq> wt s job
     then Some (False, s, w)
     else map_option (\<lambda>sw. (True, sw)) (job_timer_remove job (s, w)))"

definition job_timer_active :: "nat \<Rightarrow> timers \<Rightarrow> bool" where
  "job_timer_active job s \<longleftrightarrow> real_wakeup_time (timer s job) > 0"

text \<open>
  The callback of every timer in the heap. \<^verbatim>\<open>job_signal\<close> passes the reference on with the signal, to be
  processed when the job runs.
\<close>

definition job_timer_wakeup_gateway :: "nat \<Rightarrow> timers \<times> job_world \<Rightarrow> (timers \<times> job_world) option" where
  "job_timer_wakeup_gateway et sw = (case sw of (s, w) \<Rightarrow>
     if wt s et = real_wakeup_time (timer s et)
     then Some (s, w\<lparr>sent_alarms := sent_alarms w @ [et]\<rparr>)
     else Some (s, job_decref et w))"

subsection \<open>Heap order with a hole\<close>

text \<open>
  \<open>w\<close> is the array of keys, \<open>n\<close> its size. With a hole at \<open>i\<close> the order holds between all other
  entries, across the hole too.
\<close>

definition heap_ord :: "(nat \<Rightarrow> real) \<Rightarrow> nat \<Rightarrow> bool" where
  "heap_ord w n \<longleftrightarrow> (\<forall>k. 2 \<le> k \<and> k \<le> n \<longrightarrow> w (k div 2) \<le> w k)"

definition hole_ord :: "(nat \<Rightarrow> real) \<Rightarrow> nat \<Rightarrow> nat \<Rightarrow> bool" where
  "hole_ord w n i \<longleftrightarrow>
     (\<forall>k. 2 \<le> k \<and> k \<le> n \<and> k \<noteq> i \<and> k div 2 \<noteq> i \<longrightarrow> w (k div 2) \<le> w k) \<and>
     (\<forall>c. 2 \<le> c \<and> c \<le> n \<and> c div 2 = i \<and> 2 \<le> i \<longrightarrow> w (i div 2) \<le> w c)"

lemma heap_ord_min: "heap_ord w n \<Longrightarrow> 1 \<le> k \<Longrightarrow> k \<le> n \<Longrightarrow> w 1 \<le> w k"
proof (induction k rule: less_induct)
  case (less k)
  show ?case
  proof (cases "k = 1")
    case False
    with less.prems have "w (k div 2) \<le> w k" by (simp add: heap_ord_def)
    moreover have "w 1 \<le> w (k div 2)" using less.IH [of "k div 2"] less.prems False by simp
    ultimately show ?thesis by simp
  qed simp
qed

lemma heap_ord_hole: "heap_ord w n \<Longrightarrow> hole_ord (w(i := x)) n i"
proof -
  assume ord: "heap_ord w n"
  have "w (i div 2) \<le> w c" if "2 \<le> c" "c \<le> n" "c div 2 = i" "2 \<le> i" for c
  proof -
    from that ord have "w (i div 2) \<le> w i" "w i \<le> w c" by (auto simp: heap_ord_def)
    then show ?thesis by simp
  qed
  with ord show ?thesis by (auto simp: hole_ord_def heap_ord_def)
qed

lemma hole_ord_up:
  assumes ord: "hole_ord w n i" and i: "2 \<le> i" "i \<le> n"
  shows "hole_ord (w(i := w (i div 2))) n (i div 2)"
proof -
  have par: "i div 2 \<noteq> i" "i div 2 div 2 \<noteq> i" using i by auto
  have up: "w (i div 2 div 2) \<le> w (i div 2)" if "2 \<le> i div 2"
    using ord that i par by (auto simp: hole_ord_def)
  have sib: "w (i div 2 div 2) \<le> w c" if "2 \<le> c" "c \<le> n" "c div 2 = i div 2" "2 \<le> i div 2" "c \<noteq> i" for c
  proof -
    have "c div 2 \<noteq> i" using that(3) par(1) by simp
    with ord that have "w (c div 2) \<le> w c" unfolding hole_ord_def by metis
    with up that show ?thesis by simp
  qed
  show ?thesis unfolding hole_ord_def
    using ord up sib par i by (auto simp: hole_ord_def)
qed

lemma hole_ord_down:
  assumes ord: "hole_ord w n i" and j: "j \<le> n" "j div 2 = i" "1 \<le> i"
    and least: "\<And>c. c \<le> n \<Longrightarrow> c div 2 = i \<Longrightarrow> w j \<le> w c"
  shows "hole_ord (w(i := w j)) n j"
proof -
  have j2: "2 \<le> j" "i \<noteq> j" using j by auto
  have below: "w j \<le> w c" if "c \<le> n" "c div 2 = j" for c
  proof -
    have "c \<noteq> i" "c div 2 \<noteq> i" "2 \<le> c" using that j j2 by auto
    with ord that show ?thesis by (auto simp: hole_ord_def)
  qed
  have above: "w (i div 2) \<le> w j" if "2 \<le> i" using ord that j j2 by (auto simp: hole_ord_def)
  show ?thesis unfolding hole_ord_def
    using ord below above least j j2 by (auto simp: hole_ord_def)
qed

lemma hole_ord_fill:
  assumes "hole_ord w n i" "2 \<le> i \<Longrightarrow> w (i div 2) \<le> x"
    "\<And>c. c \<le> n \<Longrightarrow> 2 \<le> c \<Longrightarrow> c div 2 = i \<Longrightarrow> x \<le> w c"
  shows "heap_ord (w(i := x)) n"
  using assms by (auto simp: heap_ord_def hole_ord_def)


subsection \<open>The invariant\<close>

text \<open>The index part with a hole at \<open>i\<close> into which \<open>et\<close> is to go.\<close>

definition hole_idx :: "nat \<Rightarrow> nat \<Rightarrow> timers \<Rightarrow> bool" where
  "hole_idx et i s \<longleftrightarrow>
     1 \<le> i \<and> i \<le> et_heap_size s \<and> et_heap_size s < MAX_EVENT_TIMERS \<and>
     (\<forall>k. 1 \<le> k \<and> k \<le> et_heap_size s \<and> k \<noteq> i \<longrightarrow> h_idx (timer s (et_heap s k)) = k \<and> et_heap s k \<noteq> et) \<and>
     (\<forall>t. t \<noteq> et \<and> h_idx (timer s t) \<noteq> 0 \<longrightarrow>
        h_idx (timer s t) \<le> et_heap_size s \<and> h_idx (timer s t) \<noteq> i \<and> et_heap s (h_idx (timer s t)) = t)"

definition idx_inv :: "timers \<Rightarrow> bool" where
  "idx_inv s \<longleftrightarrow> et_heap_size s < MAX_EVENT_TIMERS \<and> total_timers s = int (et_heap_size s) \<and>
     (\<forall>k. 1 \<le> k \<and> k \<le> et_heap_size s \<longrightarrow> h_idx (timer s (et_heap s k)) = k) \<and>
     (\<forall>t. h_idx (timer s t) \<noteq> 0 \<longrightarrow>
        h_idx (timer s t) \<le> et_heap_size s \<and> et_heap s (h_idx (timer s t)) = t)"

definition key :: "timers \<Rightarrow> nat \<Rightarrow> real" where
  "key s k = wt s (et_heap s k)"

definition timers_inv :: "timers \<Rightarrow> bool" where
  "timers_inv s \<longleftrightarrow> idx_inv s \<and> heap_ord (key s) (et_heap_size s)"

text \<open>What moving the hole leaves alone.\<close>

definition keeps :: "nat \<Rightarrow> timers \<Rightarrow> timers \<Rightarrow> bool" where
  "keeps et s s' \<longleftrightarrow> et_heap_size s' = et_heap_size s \<and> total_timers s' = total_timers s \<and>
     event_timer_insert_ops s' = event_timer_insert_ops s \<and>
     event_timer_remove_ops s' = event_timer_remove_ops s \<and> event_timer_alarms s' = event_timer_alarms s \<and>
     (\<forall>t. wt s' t = wt s t \<and> real_wakeup_time (timer s' t) = real_wakeup_time (timer s t) \<and>
        (t \<noteq> et \<longrightarrow> (h_idx (timer s' t) = 0 \<longleftrightarrow> h_idx (timer s t) = 0)))"

lemma keeps_refl [simp]: "keeps et s s"
  by (simp add: keeps_def)

lemma keeps_trans: "keeps et s s' \<Longrightarrow> keeps et s' s'' \<Longrightarrow> keeps et s s''"
  by (auto simp: keeps_def)

lemma keeps_wt: "keeps et s s' \<Longrightarrow> wt s' t = wt s t"
  by (simp add: keeps_def)

text \<open>One move: the entry at \<open>j\<close> goes into the hole at \<open>i\<close>, which moves to \<open>j\<close>.\<close>

lemma put_at_move:
  assumes idx: "hole_idx et i s" and j: "1 \<le> j" "j \<le> et_heap_size s" "j \<noteq> i"
  obtains s' where "put_at i (et_heap s j) s = Some s'" "hole_idx et j s'" "keeps et s s'"
    "key s' = (key s)(i := key s j)"
proof -
  let ?p = "et_heap s j"
  define s' where "s' = s\<lparr>et_heap := (et_heap s)(i := ?p), timer := (timer s)(?p := timer s ?p\<lparr>h_idx := i\<rparr>)\<rparr>"
  have i: "1 \<le> i" "i < MAX_EVENT_TIMERS" using idx by (auto simp: hole_idx_def)
  have p: "h_idx (timer s ?p) = j" using idx j by (auto simp: hole_idx_def)
  have inj: "k = j" if "et_heap s k = ?p" "1 \<le> k" "k \<le> et_heap_size s" "k \<noteq> i" for k
  proof -
    have "h_idx (timer s (et_heap s k)) = k" using idx that(2-4) by (auto simp: hole_idx_def)
    with that(1) p show ?thesis by simp
  qed
  show thesis
  proof
    show "put_at i ?p s = Some s'" using i by (simp add: put_at_def s'_def)
    show "hole_idx et j s'" using idx j by (auto simp: hole_idx_def s'_def dest: inj)
    show "keeps et s s'" using i p j by (auto simp: keeps_def s'_def)
    show "key s' = (key s)(i := key s j)" by (auto simp: key_def s'_def fun_eq_iff)
  qed
qed

lemma hole_heap_at: "hole_idx et i s \<Longrightarrow> k \<le> et_heap_size s \<Longrightarrow> heap_at s k = Some (et_heap s k)"
  by (simp add: heap_at_def hole_idx_def)

text \<open>The first loop returns with the parent of the hole no later than \<open>et\<close>.\<close>

lemma adjust_up_correct:
  "hole_idx et i s \<Longrightarrow> hole_ord (key s) (et_heap_size s) i \<Longrightarrow>
   \<exists>i' s'. adjust_up et i s = Some (i', s') \<and> hole_idx et i' s' \<and>
     hole_ord (key s') (et_heap_size s') i' \<and> keeps et s s' \<and> (2 \<le> i' \<longrightarrow> key s' (i' div 2) \<le> wt s et)"
proof (induction i arbitrary: s rule: less_induct)
  case (less i)
  note h = less.prems
  have i: "1 \<le> i" "i \<le> et_heap_size s" using h(1) by (auto simp: hole_idx_def)
  show ?case
  proof (cases "i > 1 \<and> \<not> key s (i div 2) \<le> wt s et")
    case False
    then have "adjust_up et i s = Some (i, s)" using h(1) i
      by (auto simp: adjust_up.simps [of et i s] hole_heap_at key_def)
    with False h show ?thesis by auto
  next
    case True
    let ?j = "i div 2"
    have j: "1 \<le> ?j" "?j \<le> et_heap_size s" "?j \<noteq> i" using True i by auto
    from put_at_move [OF h(1) j] obtain s' where s': "put_at i (et_heap s ?j) s = Some s'"
      "hole_idx et ?j s'" "keeps et s s'" "key s' = (key s)(i := key s ?j)" .
    have "hole_ord (key s') (et_heap_size s') ?j"
      using hole_ord_up [OF h(2)] True i s'(3,4) by (simp add: keeps_def)
    from less.IH [OF _ s'(2) this] True obtain i' s'' where rec: "adjust_up et ?j s' = Some (i', s'')"
      "hole_idx et i' s''" "hole_ord (key s'') (et_heap_size s'') i'" "keeps et s' s''"
      "2 \<le> i' \<longrightarrow> key s'' (i' div 2) \<le> wt s' et" by auto
    have "adjust_up et i s = Some (i', s'')" using True i h(1) s'(1) rec(1)
      by (simp add: adjust_up.simps [of et i s] hole_heap_at key_def)
    with rec keeps_trans [OF s'(3) rec(4)] keeps_wt [OF s'(3)] show ?thesis by auto
  qed
qed

lemma smaller_child_correct:
  assumes "hole_idx et i s" "2 * i \<le> et_heap_size s"
  obtains j where "smaller_child (2 * i) s = Some j" "j \<le> et_heap_size s" "j div 2 = i"
    "\<And>c. c \<le> et_heap_size s \<Longrightarrow> c div 2 = i \<Longrightarrow> key s j \<le> key s c"
proof -
  let ?j = "if 2 * i < et_heap_size s \<and> key s (2 * i) > key s (2 * i + 1) then 2 * i + 1 else 2 * i"
  have sc: "smaller_child (2 * i) s = Some ?j"
    using assms by (auto simp: smaller_child_def hole_heap_at key_def)
  have least: "key s ?j \<le> key s c" if "c \<le> et_heap_size s" "c div 2 = i" for c
  proof -
    have "c = 2 * i \<or> c = 2 * i + 1" using that(2) by auto
    then show ?thesis using that(1) by auto
  qed
  show thesis by (rule that [OF sc _ _ least]) (use assms in auto)
qed

text \<open>The second loop returns with the children of the hole no earlier than \<open>et\<close>.\<close>

lemma adjust_down_correct:
  "hole_idx et i s \<Longrightarrow> hole_ord (key s) (et_heap_size s) i \<Longrightarrow>
   (2 \<le> i \<longrightarrow> key s (i div 2) \<le> wt s et) \<Longrightarrow>
   \<exists>i' s'. adjust_down et i (2 * i) s = Some (i', s') \<and> hole_idx et i' s' \<and> keeps et s s' \<and>
     heap_ord ((key s')(i' := wt s et)) (et_heap_size s')"
proof (induction "et_heap_size s - i" arbitrary: i s rule: less_induct)
  case less
  note h = less.prems
  have i: "1 \<le> i" "i \<le> et_heap_size s" using h(1) by (auto simp: hole_idx_def)
  show ?case
  proof (cases "2 * i \<le> et_heap_size s")
    case False
    then have "adjust_down et i (2 * i) s = Some (i, s)" by (simp add: adjust_down.simps [of et i])
    moreover have "heap_ord ((key s)(i := wt s et)) (et_heap_size s)"
      using False h by (intro hole_ord_fill) auto
    ultimately show ?thesis using h by auto
  next
    case True
    from smaller_child_correct [OF h(1) True] obtain j where j: "smaller_child (2 * i) s = Some j"
      "j \<le> et_heap_size s" "j div 2 = i"
      "\<And>c. c \<le> et_heap_size s \<Longrightarrow> c div 2 = i \<Longrightarrow> key s j \<le> key s c" by blast
    have j1: "1 \<le> j" "j \<noteq> i" "i < j" using j(3) i by auto
    show ?thesis
    proof (cases "wt s et \<le> key s j")
      case le: True
      then have "adjust_down et i (2 * i) s = Some (i, s)"
        using True j h(1) by (simp add: adjust_down.simps [of et i] hole_heap_at key_def)
      moreover have "heap_ord ((key s)(i := wt s et)) (et_heap_size s)"
        using h le by (intro hole_ord_fill) (auto dest: j(4))
      ultimately show ?thesis using h by auto
    next
      case gt: False
      from put_at_move [OF h(1) j1(1) j(2) j1(2)] obtain s' where s': "put_at i (et_heap s j) s = Some s'"
        "hole_idx et j s'" "keeps et s s'" "key s' = (key s)(i := key s j)" .
      have ord: "hole_ord (key s') (et_heap_size s') j"
        using hole_ord_down [OF h(2) j(2,3) i(1) j(4)] s'(3,4) by (simp add: keeps_def)
      have up: "2 \<le> j \<longrightarrow> key s' (j div 2) \<le> wt s' et" using gt j(3) s'(3,4) by (simp add: keeps_def)
      have "et_heap_size s' - j < et_heap_size s - i" using s'(3) j j1 by (simp add: keeps_def)
      from less.hyps [OF this s'(2) ord up] obtain i' s'' where rec:
        "adjust_down et j (2 * j) s' = Some (i', s'')" "hole_idx et i' s''" "keeps et s' s''"
        "heap_ord ((key s'')(i' := wt s' et)) (et_heap_size s'')" by blast
      have "adjust_down et i (2 * i) s = Some (i', s'')" using True gt j(1,2) h(1) s'(1) rec(1)
        by (simp add: adjust_down.simps [of et i] hole_heap_at key_def)
      with rec keeps_trans [OF s'(3) rec(3)] keeps_wt [OF s'(3)] show ?thesis by auto
    qed
  qed
qed

lemma put_at_fill:
  assumes "hole_idx et i s" "total_timers s = int (et_heap_size s)" "heap_ord ((key s)(i := wt s et)) (et_heap_size s)"
  obtains s' where "put_at i et s = Some s'" "timers_inv s'" "keeps et s s'" "h_idx (timer s' et) \<noteq> 0"
proof -
  define s' where "s' = s\<lparr>et_heap := (et_heap s)(i := et), timer := (timer s)(et := timer s et\<lparr>h_idx := i\<rparr>)\<rparr>"
  have i: "1 \<le> i" "i < MAX_EVENT_TIMERS" using assms(1) by (auto simp: hole_idx_def)
  have "key s' = (key s)(i := wt s et)" by (auto simp: key_def s'_def fun_eq_iff)
  moreover have "idx_inv s'" using assms(1,2) by (auto simp: hole_idx_def idx_inv_def s'_def)
  ultimately have "timers_inv s'" using assms(3) by (simp add: timers_inv_def s'_def)
  moreover have "put_at i et s = Some s'" using i by (simp add: put_at_def s'_def)
  ultimately show thesis using i by (intro that [of s']) (auto simp: keeps_def s'_def)
qed

text \<open>\<open>basic_et_adjust\<close> returns and restores the invariant, whatever the key of the timer it places.\<close>

lemma basic_et_adjust_correct:
  assumes "hole_idx et i s" "hole_ord (key s) (et_heap_size s) i" "total_timers s = int (et_heap_size s)"
  obtains i' s' where "basic_et_adjust et i s = Some (i', s')" "timers_inv s'" "keeps et s s'"
    "h_idx (timer s' et) \<noteq> 0"
proof -
  from adjust_up_correct [OF assms(1,2)] obtain i1 s1 where up: "adjust_up et i s = Some (i1, s1)"
    "hole_idx et i1 s1" "hole_ord (key s1) (et_heap_size s1) i1" "keeps et s s1"
    "2 \<le> i1 \<longrightarrow> key s1 (i1 div 2) \<le> wt s et" by blast
  from adjust_down_correct [OF up(2,3)] up(4,5) obtain i2 s2 where down:
    "adjust_down et i1 (2 * i1) s1 = Some (i2, s2)" "hole_idx et i2 s2" "keeps et s1 s2"
    "heap_ord ((key s2)(i2 := wt s2 et)) (et_heap_size s2)" by (auto simp: keeps_def)
  have "total_timers s2 = int (et_heap_size s2)" using assms(3) up(4) down(3) by (simp add: keeps_def)
  from put_at_fill [OF down(2) this down(4)] obtain s3 where fill: "put_at i2 et s2 = Some s3"
    "timers_inv s3" "keeps et s2 s3" "h_idx (timer s3 et) \<noteq> 0" .
  have "keeps et s s3" using up(4) down(3) fill(3) by (blast intro: keeps_trans)
  with up(1) down(1) fill show thesis by (intro that) (auto simp: basic_et_adjust_def)
qed

lemma idx_at:
  "idx_inv s \<Longrightarrow> h_idx (timer s t) \<noteq> 0 \<Longrightarrow>
   1 \<le> h_idx (timer s t) \<and> h_idx (timer s t) \<le> et_heap_size s \<and> et_heap s (h_idx (timer s t)) = t"
  by (auto simp: idx_inv_def)

lemma idx_inj: "idx_inv s \<Longrightarrow> h_idx (timer s t) \<noteq> 0 \<Longrightarrow> h_idx (timer s u) = h_idx (timer s t) \<Longrightarrow> u = t"
  by (metis idx_at)

lemma assert_in_heap_holds:
  assumes "idx_inv s" "h_idx (timer s et) \<noteq> 0"
    "et_heap s' = et_heap s" "et_heap_size s' = et_heap_size s" "h_idx (timer s' et) = h_idx (timer s et)"
  shows "assert_in_heap et s' = Some ()"
proof -
  have "et_heap_size s < MAX_EVENT_TIMERS" using assms(1) by (simp add: idx_inv_def)
  with idx_at [OF assms(1,2)] assms(3-5) show ?thesis by (auto simp: assert_in_heap_def heap_at_def Let_def)
qed

subsection \<open>The abstract view: pending timers\<close>

text \<open>The timers that are in the heap, with their times.\<close>

definition pending :: "timers \<Rightarrow> nat \<rightharpoonup> real" where
  "pending s = (\<lambda>t. if h_idx (timer s t) = 0 then None else Some (wt s t))"

lemma keeps_pending:
  "keeps et s s' \<Longrightarrow> h_idx (timer s' et) \<noteq> 0 \<Longrightarrow> pending s' = (pending s)(et \<mapsto> wt s et)"
  by (auto simp: keeps_def pending_def fun_eq_iff)

text \<open>
  Only the key of \<open>et\<close> may differ from a state that satisfies the invariant: callers set the time of
  a timer that is already in the heap and insert it again.
\<close>

lemma timers_inv_hole:
  assumes "timers_inv s" "h_idx (timer s et) \<noteq> 0"
  shows "hole_idx et (h_idx (timer s et)) (set_wakeup et r s)"
    and "hole_ord (key (set_wakeup et r s)) (et_heap_size s) (h_idx (timer s et))"
proof -
  let ?i = "h_idx (timer s et)"
  have inv: "idx_inv s" "heap_ord (key s) (et_heap_size s)" using assms by (auto simp: timers_inv_def)
  have i: "1 \<le> ?i" "?i \<le> et_heap_size s" "et_heap s ?i = et" using inv(1) assms(2) by (auto simp: idx_inv_def)
  have other: "et_heap s k \<noteq> et" if "1 \<le> k" "k \<le> et_heap_size s" "k \<noteq> ?i" for k
    using inv(1) that unfolding idx_inv_def by metis
  show "hole_idx et ?i (set_wakeup et r s)"
    using inv(1) i other by (auto simp: hole_idx_def idx_inv_def set_wakeup_def dest: idx_inj [OF inv(1) assms(2)])
  have "hole_ord ((key s)(?i := r)) (et_heap_size s) ?i" by (rule heap_ord_hole [OF inv(2)])
  moreover have "key (set_wakeup et r s) k = ((key s)(?i := r)) k" if "1 \<le> k" "k \<le> et_heap_size s" for k
    using i other [OF that] by (auto simp: key_def set_wakeup_def)
  ultimately show "hole_ord (key (set_wakeup et r s)) (et_heap_size s) ?i"
    using i unfolding hole_ord_def by auto
qed

lemma insert_event_timer_correct:
  assumes "timers_inv s" "h_idx (timer s et) \<noteq> 0 \<or> et_heap_size s + 1 < MAX_EVENT_TIMERS"
  obtains i s' where "insert_event_timer et (set_wakeup et r s) = Some (i, s')" "timers_inv s'"
    "pending s' = (pending s)(et \<mapsto> r)"
    "et_heap_size s' = (if h_idx (timer s et) = 0 then et_heap_size s + 1 else et_heap_size s)"
    "\<And>t. real_wakeup_time (timer s' t) = real_wakeup_time (timer s t)"
proof (cases "h_idx (timer s et) = 0")
  case False
  let ?s = "set_wakeup et r s\<lparr>event_timer_insert_ops := event_timer_insert_ops s + 1\<rparr>"
  have hole: "hole_idx et (h_idx (timer s et)) ?s" "hole_ord (key ?s) (et_heap_size ?s) (h_idx (timer s et))"
    using timers_inv_hole [OF assms(1) False, of r]
    by (auto simp: hole_idx_def key_def hole_ord_def set_wakeup_def)
  have "total_timers ?s = int (et_heap_size ?s)"
    using assms(1) by (simp add: timers_inv_def idx_inv_def set_wakeup_def)
  from basic_et_adjust_correct [OF hole this] obtain i' s' where adj:
    "basic_et_adjust et (h_idx (timer s et)) ?s = Some (i', s')" "timers_inv s'" "keeps et ?s s'"
    "h_idx (timer s' et) \<noteq> 0" .
  have "assert_in_heap et ?s = Some ()"
    using assms(1) False by (intro assert_in_heap_holds [of s]) (auto simp: timers_inv_def set_wakeup_def)
  with adj(1) False have "insert_event_timer et (set_wakeup et r s) = Some (i', s')"
    by (simp add: insert_event_timer_def set_wakeup_def Let_def)
  moreover have "pending s' = (pending s)(et \<mapsto> r)"
    using keeps_pending [OF adj(3,4)] by (auto simp: pending_def set_wakeup_def fun_eq_iff)
  ultimately show thesis using adj(2,3) False
    by (intro that [of i' s']) (auto simp: keeps_def set_wakeup_def)
next
  case True
  let ?n = "et_heap_size s + 1"
  let ?s = "set_wakeup et r s\<lparr>event_timer_insert_ops := event_timer_insert_ops s + 1,
     total_timers := total_timers s + 1, et_heap_size := ?n\<rparr>"
  have inv: "idx_inv s" "heap_ord (key s) (et_heap_size s)" using assms by (auto simp: timers_inv_def)
  have other: "et_heap s k \<noteq> et" if "1 \<le> k" "k \<le> et_heap_size s" for k
    using inv(1) that True unfolding idx_inv_def by (metis not_one_le_zero)
  have new: "h_idx (timer s t) \<noteq> Suc (et_heap_size s)" for t using idx_at [OF inv(1), of t] by fastforce
  have hole: "hole_idx et ?n ?s"
    using inv(1) True assms(2) other new by (auto simp: hole_idx_def idx_inv_def set_wakeup_def le_Suc_eq)
  have "key ?s k = key s k" if "1 \<le> k" "k \<le> et_heap_size s" for k
    using other [OF that] by (simp add: key_def set_wakeup_def)
  with inv(2) have ord: "hole_ord (key ?s) (et_heap_size ?s) ?n"
    by (auto simp: hole_ord_def heap_ord_def le_Suc_eq)
  have "total_timers ?s = int (et_heap_size ?s)"
    using inv(1) by (simp add: idx_inv_def set_wakeup_def)
  from basic_et_adjust_correct [OF hole ord this] obtain i' s' where adj:
    "basic_et_adjust et ?n ?s = Some (i', s')" "timers_inv s'" "keeps et ?s s'"
    "h_idx (timer s' et) \<noteq> 0" .
  have "insert_event_timer et (set_wakeup et r s) = Some (i', s')"
    using adj(1) True assms(2) by (simp add: insert_event_timer_def set_wakeup_def Let_def)
  moreover have "pending s' = (pending s)(et \<mapsto> r)"
    using keeps_pending [OF adj(3,4)] by (auto simp: pending_def set_wakeup_def fun_eq_iff)
  ultimately show thesis using adj(2,3) True
    by (intro that [of i' s']) (auto simp: keeps_def set_wakeup_def)
qed

lemma clear_h_idx_hole:
  fixes x :: real
  assumes "idx_inv s" "heap_ord (key s) (et_heap_size s)" "h_idx (timer s et) \<noteq> 0"
    "h_idx (timer s et) < et_heap_size s"
  defines "s' \<equiv> clear_h_idx et (set_wakeup et x s)\<lparr>et_heap_size := et_heap_size s - 1\<rparr>"
  shows "hole_idx (et_heap s (et_heap_size s)) (h_idx (timer s et)) s'"
    and "hole_ord (key s') (et_heap_size s') (h_idx (timer s et))"
proof -
  let ?i = "h_idx (timer s et)" and ?n = "et_heap_size s"
  let ?l = "et_heap s ?n"
  have i: "1 \<le> ?i" "et_heap s ?i = et" using idx_at [OF assms(1,3)] by auto
  have l: "h_idx (timer s ?l) = ?n" using assms(1,4) by (auto simp: idx_inv_def)
  then have "?l \<noteq> et" using assms(4) by auto
  have other: "et_heap s k \<noteq> et \<and> et_heap s k \<noteq> ?l" if "1 \<le> k" "k < ?n" "k \<noteq> ?i" for k
    using assms(1) that l unfolding idx_inv_def by (metis less_imp_le_nat nless_le)
  have ts: "h_idx (timer s t) \<noteq> ?n" if "t \<noteq> ?l" "h_idx (timer s t) \<noteq> 0" for t
    using idx_inj [OF assms(1) that(2), of ?l] that(1) l by auto
  show "hole_idx ?l ?i s'"
    unfolding hole_idx_def
  proof (intro conjI allI impI)
    fix k assume "1 \<le> k \<and> k \<le> et_heap_size s' \<and> k \<noteq> ?i"
    then have k: "1 \<le> k" "k < ?n" "k \<noteq> ?i" by (auto simp: s'_def)
    show "h_idx (timer s' (et_heap s' k)) = k" "et_heap s' k \<noteq> ?l"
      using other [OF k] k assms(1) by (auto simp: s'_def clear_h_idx_def set_wakeup_def idx_inv_def)
  next
    fix t assume t: "t \<noteq> ?l \<and> h_idx (timer s' t) \<noteq> 0"
    then have h: "t \<noteq> et" "h_idx (timer s t) \<noteq> 0" "h_idx (timer s' t) = h_idx (timer s t)"
      by (auto simp: s'_def clear_h_idx_def set_wakeup_def split: if_splits)
    show "h_idx (timer s' t) \<le> et_heap_size s'" "h_idx (timer s' t) \<noteq> ?i" "et_heap s' (h_idx (timer s' t)) = t"
      using h t idx_at [OF assms(1) h(2)] ts [of t] idx_inj [OF assms(1) h(2), of et]
      by (auto simp: s'_def clear_h_idx_def set_wakeup_def)
  qed (use i assms(1,4) in \<open>auto simp: s'_def idx_inv_def clear_h_idx_def set_wakeup_def\<close>)
  have "hole_ord ((key s)(?i := x)) (et_heap_size s') ?i"
    by (rule heap_ord_hole) (use assms(2) in \<open>auto simp: heap_ord_def s'_def\<close>)
  moreover have "key s' k = ((key s)(?i := x)) k" if "1 \<le> k" "k < ?n" for k
    using i other [OF that] by (auto simp: key_def s'_def clear_h_idx_def set_wakeup_def)
  ultimately show "hole_ord (key s') (et_heap_size s') ?i"
    using i assms(4) unfolding hole_ord_def by (auto simp: s'_def)
qed

text \<open>The time of the timer to be removed may have been overwritten before.\<close>

lemma set_wakeup_absent_inv:
  assumes "timers_inv s" "h_idx (timer s et) = 0"
  shows "timers_inv (set_wakeup et x s)"
proof -
  have "et_heap s k \<noteq> et" if "1 \<le> k" "k \<le> et_heap_size s" for k
    using assms that unfolding timers_inv_def idx_inv_def by (metis not_one_le_zero)
  then have "key (set_wakeup et x s) k = key s k" if "1 \<le> k" "k \<le> et_heap_size s" for k
    using that by (simp add: key_def set_wakeup_def)
  then have "heap_ord (key (set_wakeup et x s)) (et_heap_size s)"
    using assms(1) by (auto simp: timers_inv_def heap_ord_def)
  then show ?thesis using assms(1) by (auto simp: timers_inv_def idx_inv_def set_wakeup_def)
qed

lemma remove_overwritten_timer:
  assumes "timers_inv s"
  obtains r s' where "remove_event_timer et (set_wakeup et x s) = Some (r, s')" "timers_inv s'" "pending s' = (pending s)(et := None)"
    "r = (if h_idx (timer s et) = 0 then 0 else 1)"
    "et_heap_size s' = (if h_idx (timer s et) = 0 then et_heap_size s else et_heap_size s - 1)"
    "\<And>t. real_wakeup_time (timer s' t) = real_wakeup_time (timer s t) \<and> wt s' t = (if t = et then x else wt s t)"
proof (cases "h_idx (timer s et) = 0")
  case True
  then show thesis using assms 
    by (intro that [of 0 "set_wakeup et x s"] set_wakeup_absent_inv)
      (auto simp: remove_event_timer_def pending_def set_wakeup_def fun_eq_iff)
next
  case False
  have inv: "idx_inv s" "heap_ord (key s) (et_heap_size s)" using assms by (auto simp: timers_inv_def)
  let ?i = "h_idx (timer s et)"
  let ?s = "set_wakeup et x s\<lparr>total_timers := total_timers s - 1, event_timer_remove_ops := event_timer_remove_ops s + 1\<rparr>"
  let ?s' = "clear_h_idx et ?s\<lparr>et_heap_size := et_heap_size s - 1\<rparr>"
  let ?l = "et_heap s (et_heap_size s)"
  note i = idx_at [OF inv(1) False]
  have a: "assert_in_heap et ?s = Some ()" by (rule assert_in_heap_holds [OF inv(1) False]) (auto simp: set_wakeup_def)
  have max: "et_heap_size s < MAX_EVENT_TIMERS" using inv(1) by (simp add: idx_inv_def)
  have tot: "total_timers ?s' = int (et_heap_size ?s')" using inv(1) i by (auto simp: idx_inv_def clear_h_idx_def set_wakeup_def)
  have pend: "pending ?s' = (pending s)(et := None)" by (auto simp: pending_def clear_h_idx_def set_wakeup_def fun_eq_iff)
  show thesis
  proof (cases "?i = et_heap_size s")
    case True
    have "idx_inv ?s'" unfolding idx_inv_def
    proof (intro conjI allI impI)
      fix k assume k: "1 \<le> k \<and> k \<le> et_heap_size ?s'"
      then have "h_idx (timer s (et_heap s k)) = k" using inv(1) by (auto simp: idx_inv_def)
      moreover from this have "et_heap s k \<noteq> et" using k True by auto
      ultimately show "h_idx (timer ?s' (et_heap ?s' k)) = k" by (simp add: clear_h_idx_def set_wakeup_def)
    next
      fix t assume "h_idx (timer ?s' t) \<noteq> 0"
      then have h: "t \<noteq> et" "h_idx (timer s t) \<noteq> 0" by (auto simp: clear_h_idx_def set_wakeup_def split: if_splits)
      moreover have "h_idx (timer s t) \<noteq> et_heap_size s" using idx_inj [OF inv(1) h(2), of et] h(1) True by auto
      ultimately show "h_idx (timer ?s' t) \<le> et_heap_size ?s'" "et_heap ?s' (h_idx (timer ?s' t)) = t"
        using idx_at [OF inv(1) h(2)] by (auto simp: clear_h_idx_def set_wakeup_def)
    qed (use max tot in auto)
    moreover have "key ?s' k = key s k" if "1 \<le> k" "k < et_heap_size s" for k
    proof -
      have "h_idx (timer s (et_heap s k)) = k" using inv(1) that by (auto simp: idx_inv_def)
      then have "et_heap s k \<noteq> et" using that True by auto
      then show ?thesis by (simp add: key_def clear_h_idx_def set_wakeup_def)
    qed
    then have "heap_ord (key ?s') (et_heap_size ?s')" using inv(2) by (auto simp: heap_ord_def)
    ultimately have "timers_inv ?s'" by (simp add: timers_inv_def)
    moreover have "remove_event_timer et (set_wakeup et x s) = Some (1, ?s')"
      using False True a max by (simp add: remove_event_timer_def Let_def heap_at_def clear_h_idx_def set_wakeup_def)
    ultimately show thesis using pend False by (intro that [of 1 "?s'"]) (auto simp: clear_h_idx_def set_wakeup_def)
  next
    case lt: False
    then have lt: "?i < et_heap_size s" using i by simp
    have hole: "hole_idx ?l ?i ?s'" "hole_ord (key ?s') (et_heap_size ?s') ?i"
      using clear_h_idx_hole [OF inv False lt, of x]
      by (auto simp: clear_h_idx_def set_wakeup_def hole_idx_def key_def hole_ord_def)
    from basic_et_adjust_correct [OF hole tot] obtain i' s' where adj:
      "basic_et_adjust ?l ?i ?s' = Some (i', s')" "timers_inv s'" "keeps ?l ?s' s'" "h_idx (timer s' ?l) \<noteq> 0" .
    have l: "h_idx (timer s ?l) = et_heap_size s" using inv(1) lt by (auto simp: idx_inv_def)
    then have "?l \<noteq> et" using lt by auto
    then have "pending s' = (pending s)(et := None)"
      using keeps_pending [OF adj(3,4)] pend l lt by (auto simp: pending_def clear_h_idx_def set_wakeup_def fun_eq_iff)
    moreover have "remove_event_timer et (set_wakeup et x s) = Some (1, s')"
      using False lt a max adj(1) by (simp add: remove_event_timer_def Let_def heap_at_def clear_h_idx_def set_wakeup_def)
    ultimately show thesis using adj(2,3) False
      by (intro that [of 1 s']) (auto simp: keeps_def clear_h_idx_def set_wakeup_def)
  qed
qed

lemma remove_event_timer_correct:
  assumes "timers_inv s"
  obtains r s' where "remove_event_timer et s = Some (r, s')" "timers_inv s'" "pending s' = (pending s)(et := None)"
    "r = (if h_idx (timer s et) = 0 then 0 else 1)"
    "et_heap_size s' = (if h_idx (timer s et) = 0 then et_heap_size s else et_heap_size s - 1)"
    "\<And>t. real_wakeup_time (timer s' t) = real_wakeup_time (timer s t) \<and> wt s' t = wt s t"
proof -
  have same: "set_wakeup et (wt s et) s = s" by (simp add: set_wakeup_def)
  from remove_overwritten_timer [OF assms, of et "wt s et", unfolded same] obtain r s' where
    rm: "remove_event_timer et s = Some (r, s')" "timers_inv s'" "pending s' = (pending s)(et := None)"
    "r = (if h_idx (timer s et) = 0 then 0 else 1)"
    "et_heap_size s' = (if h_idx (timer s et) = 0 then et_heap_size s else et_heap_size s - 1)"
    "\<And>t. real_wakeup_time (timer s' t) = real_wakeup_time (timer s t) \<and> wt s' t = (if t = et then wt s et else wt s t)"
    by blast
  show thesis by (rule that [OF rm(1-5)]) (use rm(6) in \<open>simp split: if_splits\<close>)
qed

subsection \<open>Running the timers\<close>

definition due :: "real \<Rightarrow> timers \<Rightarrow> nat set" where
  "due now s = {t. \<exists>r. pending s t = Some r \<and> r \<le> now}"

lemma finite_pending: "timers_inv s \<Longrightarrow> finite (dom (pending s))"
proof -
  assume "timers_inv s"
  then have "dom (pending s) \<subseteq> et_heap s ` {..et_heap_size s}"
    by (auto simp: timers_inv_def idx_inv_def pending_def image_iff split: if_splits) (metis atMost_iff)
  then show ?thesis by (rule finite_subset) simp
qed

lemma finite_due: "timers_inv s \<Longrightarrow> finite (due now s)"
  by (rule finite_subset [OF _ finite_pending]) (auto simp: due_def)

text \<open>The root of the heap is a pending timer with the least time.\<close>

lemma root_pending:
  assumes "timers_inv s" "et_heap_size s > 0"
  shows "heap_at s 1 = Some (et_heap s 1)" "h_idx (timer s (et_heap s 1)) = 1"
    "pending s (et_heap s 1) = Some (key s 1)"
    "pending s t = Some r \<Longrightarrow> key s 1 \<le> r"
proof -
  show "heap_at s 1 = Some (et_heap s 1)" by (simp add: heap_at_def MAX_EVENT_TIMERS_def)
  show root: "h_idx (timer s (et_heap s 1)) = 1" using assms by (auto simp: timers_inv_def idx_inv_def)
  then show "pending s (et_heap s 1) = Some (key s 1)" by (simp add: pending_def key_def)
  show "key s 1 \<le> r" if "pending s t = Some r"
  proof -
    have t: "h_idx (timer s t) \<noteq> 0" "wt s t = r" using that by (auto simp: pending_def split: if_splits)
    with idx_at [of s t] assms(1) have "1 \<le> h_idx (timer s t)" "h_idx (timer s t) \<le> et_heap_size s"
      "key s (h_idx (timer s t)) = r" by (auto simp: timers_inv_def key_def)
    with heap_ord_min [of "key s"] assms(1) show ?thesis by (auto simp: timers_inv_def)
  qed
qed

lemma no_pending: "timers_inv s \<Longrightarrow> et_heap_size s = 0 \<Longrightarrow> pending s = Map.empty"
  by (auto simp: timers_inv_def idx_inv_def pending_def fun_eq_iff)

text \<open>The delay returned ends less than a millisecond after the first pending timer.\<close>

definition wait_ok :: "real \<Rightarrow> int \<Rightarrow> timers \<Rightarrow> bool" where
  "wait_ok now r s = (if et_heap_size s = 0 then r = 100000
     else timers_get_first s - now < r / 1000 \<and> r / 1000 \<le> timers_get_first s - now + 1 / 1000)"

text \<open>
  The contract of a callback: it keeps the invariant of the timers and of the rest of the world, and
  it arms timers for a later moment only.
\<close>

locale timer_callback =
  fixes wakeup :: "nat \<Rightarrow> timers \<times> 'w \<Rightarrow> (timers \<times> 'w) option"
    and winv :: "timers \<times> 'w \<Rightarrow> bool"
    and removed :: "nat \<Rightarrow> timers \<times> 'w \<Rightarrow> bool"
    and now :: real
  assumes winv_timers: "winv (s, w) \<Longrightarrow> timers_inv s"
    and winv_removed: "winv (s, w) \<Longrightarrow> pending s et = Some (wt s et) \<Longrightarrow> wt s et \<le> now \<Longrightarrow>
      (\<And>t r. pending s t = Some r \<Longrightarrow> wt s et \<le> r) \<Longrightarrow>
      remove_event_timer et s = Some (r, s') \<Longrightarrow> removed et (s', w)"
    and winv_wakeup: "removed et (s, w) \<Longrightarrow>
      \<exists>s' w'. wakeup et (s, w) = Some (s', w') \<and> winv (s'\<lparr>event_timer_alarms := event_timer_alarms s' + 1\<rparr>, w') \<and>
        due now s' \<subseteq> due now s"
begin

lemma run_due_returns:
  "winv (s, w) \<Longrightarrow>
   \<exists>s' w'. run_due wakeup now (s, w) = Some (s', w') \<and> winv (s', w') \<and> due now s' = {} \<and> due now s' \<subseteq> due now s"
proof (induction "card (due now s)" arbitrary: s w rule: less_induct)
  case less
  have inv: "timers_inv s" using less.prems by (rule winv_timers)
  consider (empty) "et_heap_size s = 0" | (later) "et_heap_size s > 0" "\<not> key s 1 \<le> now"
    | (fire) "et_heap_size s > 0" "key s 1 \<le> now" by linarith
  then show ?case
  proof cases
    case empty
    with less.prems no_pending [OF inv] show ?thesis by (auto simp: run_due.simps [of _ _ "(s, w)"] due_def)
  next
    case later
    with root_pending [OF inv later(1)] have "due now s = {}" by (fastforce simp: due_def)
    with less.prems later root_pending(1) [OF inv later(1)] show ?thesis
      by (auto simp: run_due.simps [of _ _ "(s, w)"] key_def)
  next
    case fire
    let ?et = "et_heap s 1"
    note root = root_pending [OF inv fire(1)]
    from remove_event_timer_correct [OF inv, of ?et] obtain r s1 where rm:
      "remove_event_timer ?et s = Some (r, s1)" "timers_inv s1" "pending s1 = (pending s)(?et := None)" by blast
    have "removed ?et (s1, w)" using less.prems _ _ _ rm(1)
      by (rule winv_removed) (use root(3,4) fire(2) in \<open>auto simp: key_def\<close>)
    from winv_wakeup [OF this] obtain s2 w2 where wk: "wakeup ?et (s1, w) = Some (s2, w2)"
      "winv (s2\<lparr>event_timer_alarms := event_timer_alarms s2 + 1\<rparr>, w2)" "due now s2 \<subseteq> due now s1" by blast
    let ?s3 = "s2\<lparr>event_timer_alarms := event_timer_alarms s2 + 1\<rparr>"
    have d: "due now ?s3 = due now s2" by (simp add: due_def pending_def)
    have "due now s1 = due now s - {?et}" using rm(3) by (auto simp: due_def split: if_splits)
    then have sub: "due now ?s3 \<subseteq> due now s - {?et}" using d wk(3) by simp
    moreover have "?et \<in> due now s" using fire(2) root(3) by (auto simp: due_def)
    ultimately have "due now ?s3 \<subset> due now s" by blast
    then have "card (due now ?s3) < card (due now s)" by (rule psubset_card_mono [OF finite_due [OF inv]])
    from less.hyps [OF this wk(2)] obtain s4 w4 where rec: "run_due wakeup now (?s3, w2) = Some (s4, w4)"
      "winv (s4, w4)" "due now s4 = {}" by blast
    have "run_due wakeup now (s, w) = Some (s4, w4)"
      using fire root(1,2) rm(1) wk(1) rec(1) by (simp add: run_due.simps [of _ _ "(s, w)"] key_def)
    with rec show ?thesis by auto
  qed
qed

lemma thread_run_timers_returns:
  assumes "winv (s, w)"
  shows "\<exists>r s' w'. thread_run_timers wakeup now (s, w) = Some (r, s', w') \<and> winv (s', w') \<and> due now s' = {} \<and>
    wait_ok now r s'"
proof -
  have wait: "\<exists>r. timers_wait now s = Some (Some r) \<and> wait_ok now r s"
    if "due now s = {}" "winv (s, w)" for s w
  proof (cases "et_heap_size s = 0")
    case False
    have inv: "timers_inv s" using that(2) by (rule winv_timers)
    have pos: "et_heap_size s > 0" using False by simp
    note root = root_pending [OF inv pos]
    have "key s 1 > now" using that(1) root(3) by (auto simp: due_def not_le)
    then have "timers_wait now s = Some (Some (\<lfloor>(key s 1 - now) * 1000\<rfloor> + 1))"
      using False root(1) by (simp add: timers_wait_def key_def)
    moreover have "(key s 1 - now) * 1000 < real_of_int (\<lfloor>(key s 1 - now) * 1000\<rfloor> + 1)"
      "real_of_int (\<lfloor>(key s 1 - now) * 1000\<rfloor> + 1) \<le> (key s 1 - now) * 1000 + 1" by linarith+
    ultimately show ?thesis using False by (auto simp: wait_ok_def timers_get_first_def key_def field_simps)
  qed (simp add: timers_wait_def wait_ok_def)
  show ?thesis
  proof (cases "due now s = {}")
    case True
    with wait [OF True assms] assms show ?thesis by (auto simp: thread_run_timers_def)
  next
    case False
    have inv: "timers_inv s" using assms by (rule winv_timers)
    then have pos: "et_heap_size s > 0" using False no_pending by (fastforce simp: due_def)
    with False root_pending(4) [OF inv pos] have "key s 1 \<le> now" by (force simp: due_def)
    then have w0: "timers_wait now s = Some None"
      using pos root_pending(1) [OF inv pos] by (simp add: timers_wait_def key_def)
    from run_due_returns [OF assms] obtain s' w' where run: "run_due wakeup now (s, w) = Some (s', w')"
      "winv (s', w')" "due now s' = {}" by blast
    from wait [OF run(3,2)] run w0 show ?thesis by (auto simp: thread_run_timers_def)
  qed
qed

end

text \<open>
  The run of the job timers as a log: \<open>fired\<close> are the timers taken from the heap so far, \<open>acted\<close>
  those whose callback has been called.
\<close>

definition run_log ::
  "real \<Rightarrow> timers \<times> job_world \<Rightarrow> nat list \<Rightarrow> nat list \<Rightarrow> timers \<times> job_world \<Rightarrow> bool" where
  "run_log now sw0 fired acted sw = (case (sw0, sw) of ((s0, w0), (s, w)) \<Rightarrow>
     timers_inv s \<and> (\<forall>t. wt s t = wt s0 t \<and> real_wakeup_time (timer s t) = real_wakeup_time (timer s0 t)) \<and>
     pending s = pending s0 |` (- set fired) \<and> set fired \<subseteq> due now s0 \<and> distinct fired \<and>
     sorted_wrt (\<lambda>t u. wt s0 t \<le> wt s0 u) fired \<and>
     (\<forall>t u r. t \<in> set fired \<and> pending s u = Some r \<longrightarrow> wt s0 t \<le> r) \<and>
     sent_alarms w = sent_alarms w0 @ filter (\<lambda>t. wt s0 t = real_wakeup_time (timer s0 t)) acted \<and>
     (\<forall>t. j_refcnt w t = j_refcnt w0 t - (if t \<in> set acted \<and> wt s0 t \<noteq> real_wakeup_time (timer s0 t) then 1 else 0)))"

interpretation job_timers: timer_callback job_timer_wakeup_gateway
  "\<lambda>sw. \<exists>fired. run_log now sw0 fired fired sw"
  "\<lambda>et sw. \<exists>fired. run_log now sw0 (fired @ [et]) fired sw" now
  for now sw0
proof
  fix s w assume "\<exists>fired. run_log now sw0 fired fired (s, w)"
  then show "timers_inv s" by (auto simp: run_log_def split: prod.splits)
next
  fix s :: timers and w et r s'
  assume log: "\<exists>fired. run_log now sw0 fired fired (s, w)" and p: "pending s et = Some (wt s et)" "wt s et \<le> now"
    and least: "\<And>t r. pending s t = Some r \<Longrightarrow> wt s et \<le> r" and rm: "remove_event_timer et s = Some (r, s')"
  obtain s0 w0 where sw0: "sw0 = (s0, w0)" by (cases sw0)
  from log obtain fired where f: "run_log now sw0 fired fired (s, w)" by blast
  then have inv: "timers_inv s" by (simp add: run_log_def sw0)
  from remove_event_timer_correct [OF inv, of et] rm have s': "timers_inv s'" "pending s' = (pending s)(et := None)"
    "\<And>t. real_wakeup_time (timer s' t) = real_wakeup_time (timer s t) \<and> wt s' t = wt s t" by auto
  have et: "pending s0 et = Some (wt s et)" "et \<notin> set fired" using f p
    by (auto simp: run_log_def sw0 restrict_map_def split: if_splits)
  have least0: "wt s0 et \<le> r" if "pending s0 u = Some r" "u \<notin> set fired" for u r
  proof -
    have "pending s u = Some r" using f that by (simp add: run_log_def sw0)
    then show ?thesis using least f by (auto simp: run_log_def sw0)
  qed
  have "run_log now sw0 (fired @ [et]) fired (s', w)"
    using f s' et p least0 unfolding run_log_def sw0
    by (auto simp: sorted_wrt_append due_def fun_eq_iff restrict_map_def split: if_splits)
  then show "\<exists>fired. run_log now sw0 (fired @ [et]) fired (s', w)" by blast
next
  fix et s w assume "\<exists>fired. run_log now sw0 (fired @ [et]) fired (s, w)"
  then obtain fired where f: "run_log now sw0 (fired @ [et]) fired (s, w)" by blast
  obtain s0 w0 where sw0: "sw0 = (s0, w0)" by (cases sw0)
  let ?up = "\<lambda>s. s\<lparr>event_timer_alarms := event_timer_alarms s + 1\<rparr>"
  have inv: "timers_inv (?up s) = timers_inv s" "pending (?up s) = pending s"
    by (auto simp: timers_inv_def idx_inv_def key_def pending_def heap_ord_def)
  have "\<exists>w'. job_timer_wakeup_gateway et (s, w) = Some (s, w') \<and> run_log now sw0 (fired @ [et]) (fired @ [et]) (?up s, w')"
    using f unfolding run_log_def sw0 job_timer_wakeup_gateway_def
    by (auto simp: inv job_decref_def)
  then show "\<exists>s' w'. job_timer_wakeup_gateway et (s, w) = Some (s', w') \<and>
      (\<exists>fired. run_log now sw0 fired fired (s'\<lparr>event_timer_alarms := event_timer_alarms s' + 1\<rparr>, w')) \<and>
      due now s' \<subseteq> due now s" by blast
qed

lemma run_log_start: "timers_inv s \<Longrightarrow> run_log now (s, w) [] [] (s, w)"
  by (auto simp: run_log_def)

text \<open>
  Three timers for the moments 1, 5 and 3; the job of the last one has asked for the moment 4 since.
\<close>

definition sample_timers :: timers where
  "sample_timers = timers_init\<lparr>et_heap := ((\<lambda>_. 0)(1 := 8, 2 := 7, 3 := 9)), et_heap_size := 3, total_timers := 3,
     timer := ((timer timers_init)
       (8 := \<lparr>h_idx = 1, wakeup_time = 1, real_wakeup_time = 1\<rparr>,
        7 := \<lparr>h_idx = 2, wakeup_time = 5, real_wakeup_time = 5\<rparr>,
        9 := \<lparr>h_idx = 3, wakeup_time = 3, real_wakeup_time = 4\<rparr>))\<rparr>"

definition sample_world :: job_world where
  "sample_world = \<lparr>j_refcnt = (\<lambda>_. 2), sent_alarms = [], thread_wakeup_time = 1\<rparr>"

lemma sample_timers_inv: "timers_inv sample_timers"
proof -
  have "k = 1 \<or> k = 2 \<or> k = 3" if "1 \<le> k" "k \<le> 3" for k :: nat using that by auto
  then show ?thesis
    by (auto simp: timers_inv_def idx_inv_def heap_ord_def key_def sample_timers_def timers_init_def
        MAX_EVENT_TIMERS_def le_Suc_eq numeral_3_eq_3 split: if_splits)
qed

subsection \<open>Properties\<close>


lemma timers_inv_init: "timers_inv timers_init"
  by (auto simp: timers_inv_def idx_inv_def heap_ord_def timers_init_def MAX_EVENT_TIMERS_def)


text \<open>Setting the time a job asks for leaves the heap alone.\<close>

lemma set_real_wakeup_inv:
  assumes "timers_inv s"
  shows "timers_inv (set_real_wakeup et r s)" "pending (set_real_wakeup et r s) = pending s"
proof -
  have "key (set_real_wakeup et r s) = key s" "et_heap_size (set_real_wakeup et r s) = et_heap_size s"
    by (auto simp: set_real_wakeup_def key_def fun_eq_iff)
  moreover have "idx_inv (set_real_wakeup et r s)"
    using assms by (auto simp: timers_inv_def idx_inv_def set_real_wakeup_def)
  ultimately show "timers_inv (set_real_wakeup et r s)" using assms by (simp add: timers_inv_def)
  show "pending (set_real_wakeup et r s) = pending s"
    by (auto simp: pending_def set_real_wakeup_def fun_eq_iff)
qed

lemma timers_get_first_least:
  "timers_inv s \<Longrightarrow> pending s t = Some r \<Longrightarrow> timers_get_first s \<le> r"
  using root_pending(4) [of s t r] no_pending [of s] by (cases "et_heap_size s") (auto simp: timers_get_first_def key_def)

lemma timers_get_first_pending:
  "timers_inv s \<Longrightarrow> pending s \<noteq> Map.empty \<Longrightarrow> timers_get_first s \<in> ran (pending s)"
  using root_pending(3) [of s] no_pending [of s]
  by (cases "et_heap_size s") (auto simp: timers_get_first_def key_def intro!: ranI)


text \<open>Number of heap references to the job of a timer.\<close>

definition heap_ref :: "timers \<Rightarrow> nat \<Rightarrow> int" where
  "heap_ref s t = (if pending s t = None then 0 else 1)"

lemma do_immediate_timer_insert_correct:
  assumes "timers_inv s" "h_idx (timer s job) \<noteq> 0 \<or> et_heap_size s + 1 < MAX_EVENT_TIMERS"
  defines "r \<equiv> real_wakeup_time (timer s job)"
  obtains s' w' where "do_immediate_timer_insert job (s, w) = Some (s', w')" "timers_inv s'"
    "pending s' = (pending s)(job := (if r > 0 then Some r else None))"
    "\<And>t. real_wakeup_time (timer s' t) = real_wakeup_time (timer s t)"
    "\<And>t. j_refcnt w' t - heap_ref s' t = j_refcnt w t - heap_ref s t" "sent_alarms w' = sent_alarms w"
    "thread_wakeup_time w' = timers_get_first s'"
proof (cases "r > 0")
  case True
  from insert_event_timer_correct [OF assms(1,2), of r] obtain i s' where ins:
    "insert_event_timer job (set_wakeup job r s) = Some (i, s')" "timers_inv s'" "pending s' = (pending s)(job \<mapsto> r)"
    "\<And>t. real_wakeup_time (timer s' t) = real_wakeup_time (timer s t)" by blast
  let ?w = "(if h_idx (timer s job) > 0 then w else job_incref job w)\<lparr>thread_wakeup_time := timers_get_first s'\<rparr>"
  have "do_immediate_timer_insert job (s, w) = Some (s', ?w)"
    using True ins(1) unfolding r_def by (simp add: do_immediate_timer_insert_def Let_def)
  then show thesis by (rule that) (use ins True in \<open>auto simp: heap_ref_def job_incref_def pending_def\<close>)
next
  case False
  obtain i s' where rm:
    "remove_event_timer job (set_wakeup job 0 s) = Some (i, s')" "timers_inv s'" "pending s' = (pending s)(job := None)"
    "\<And>t. real_wakeup_time (timer s' t) = real_wakeup_time (timer s t)"
    by (rule remove_overwritten_timer [OF assms(1), of job 0]) simp
  let ?w = "(if h_idx (timer s job) > 0 then job_decref job w else w)\<lparr>thread_wakeup_time := timers_get_first s'\<rparr>"
  have "do_immediate_timer_insert job (s, w) = Some (s', ?w)"
    using False rm(1) unfolding r_def by (simp add: do_immediate_timer_insert_def Let_def)
  then show thesis by (rule that) (use rm False in \<open>auto simp: heap_ref_def job_decref_def pending_def\<close>)
qed

lemma job_timer_insert_correct:
  assumes "timers_inv s" "h_idx (timer s job) \<noteq> 0 \<or> et_heap_size s + 1 < MAX_EVENT_TIMERS"
    "real_wakeup_time (timer s job) \<noteq> timeout"
  obtains s' w' where "job_timer_insert job timeout (s, w) = Some (s', w')" "timers_inv s'"
    "pending s' = (pending s)(job := (if timeout > 0 then Some timeout else None))"
    "real_wakeup_time (timer s' job) = timeout"
    "\<And>t. j_refcnt w' t - heap_ref s' t = j_refcnt w t - heap_ref s t"
    "sent_alarms w' = sent_alarms w" "thread_wakeup_time w' = timers_get_first s'"
proof -
  let ?s = "set_real_wakeup job timeout s"
  have st: "timers_inv ?s" "pending ?s = pending s" by (rule set_real_wakeup_inv [OF assms(1)])+
  have h: "h_idx (timer ?s job) \<noteq> 0 \<or> et_heap_size ?s + 1 < MAX_EVENT_TIMERS"
    "real_wakeup_time (timer ?s job) = timeout"
    using assms(2) by (auto simp: set_real_wakeup_def)
  from do_immediate_timer_insert_correct [OF st(1) h(1), unfolded h(2) st(2), of w] obtain s' w' where ins:
    "do_immediate_timer_insert job (?s, w) = Some (s', w')" "timers_inv s'"
    "pending s' = (pending s)(job := (if timeout > 0 then Some timeout else None))"
    "\<And>t. real_wakeup_time (timer s' t) = real_wakeup_time (timer ?s t)"
    "\<And>t. j_refcnt w' t - heap_ref s' t = j_refcnt w t - heap_ref ?s t"
    "sent_alarms w' = sent_alarms w" "thread_wakeup_time w' = timers_get_first s'" by blast
  have "job_timer_insert job timeout (s, w) = Some (s', w')"
    using assms(3) ins(1) by (simp add: job_timer_insert_def)
  moreover have "heap_ref ?s t = heap_ref s t" for t by (simp add: heap_ref_def st(2))
  ultimately show thesis using ins h(2) by (intro that [of s' w']) simp_all
qed

text \<open>
  C12: Arming, re-arming and cancelling the timer of a job always works while the heap has room. Afterwards
  exactly that timer has changed: it is pending for the new moment, or not at all; the heap holds a
  reference to a job exactly while its timer is pending; and the thread is set to wake up at the earliest
  pending moment.
\<close>

theorem job_timer_insert_arms:
  assumes "timers_inv s" "h_idx (timer s job) \<noteq> 0 \<or> et_heap_size s + 1 < MAX_EVENT_TIMERS"
    "real_wakeup_time (timer s job) \<noteq> timeout"
  shows "\<exists>s' w'. job_timer_insert job timeout (s, w) = Some (s', w') \<and> timers_inv s' \<and>
    pending s' = (pending s)(job := (if timeout > 0 then Some timeout else None)) \<and>
    (job_timer_active job s' \<longleftrightarrow> pending s' job \<noteq> None) \<and>
    (\<forall>t. j_refcnt w' t - heap_ref s' t = j_refcnt w t - heap_ref s t) \<and>
    sent_alarms w' = sent_alarms w \<and>
    (pending s' = Map.empty \<or>
     thread_wakeup_time w' \<in> ran (pending s') \<and> (\<forall>r. r \<in> ran (pending s') \<longrightarrow> thread_wakeup_time w' \<le> r))"
proof -
  from job_timer_insert_correct [OF assms, of w] obtain s' w' where ins:
    "job_timer_insert job timeout (s, w) = Some (s', w')" "timers_inv s'"
    "pending s' = (pending s)(job := (if timeout > 0 then Some timeout else None))"
    "real_wakeup_time (timer s' job) = timeout"
    "\<And>t. j_refcnt w' t - heap_ref s' t = j_refcnt w t - heap_ref s t"
    "sent_alarms w' = sent_alarms w" "thread_wakeup_time w' = timers_get_first s'" by blast
  have "pending s' = Map.empty \<or> timers_get_first s' \<in> ran (pending s')"
    using timers_get_first_pending [OF ins(2)] by blast
  moreover have "timers_get_first s' \<le> r" if "r \<in> ran (pending s')" for r
    using timers_get_first_least [OF ins(2)] that by (auto simp: ran_def)
  ultimately show ?thesis using ins by (auto simp: job_timer_active_def)
qed

lemma job_timer_insert_arms_witness:
  "\<exists>s' w'. job_timer_insert 7 2 (sample_timers, sample_world) = Some (s', w') \<and> timers_inv s' \<and>
    pending s' 7 = Some 2 \<and> j_refcnt w' 7 - heap_ref s' 7 = 1"
proof -
  have "h_idx (timer sample_timers 7) \<noteq> 0 \<or> et_heap_size sample_timers + 1 < MAX_EVENT_TIMERS"
    "real_wakeup_time (timer sample_timers 7) \<noteq> 2" "j_refcnt sample_world 7 - heap_ref sample_timers 7 = 1"
    by (auto simp: sample_timers_def sample_world_def heap_ref_def pending_def)
  with job_timer_insert_arms [OF sample_timers_inv, of 7 2 sample_world] show ?thesis by auto
qed

text \<open>
  The check before the last insertion compares the heap size with the number of allocated pointers,
  although the heap starts at index 1: with \<^verbatim>\<open>MAX_EVENT_TIMERS - 1\<close> timers in the heap the insertion of
  another one passes the check and writes behind the array.
\<close>

theorem insert_event_timer_overruns:
  assumes "h_idx (timer s et) = 0" "et_heap_size s = MAX_EVENT_TIMERS - 1"
  shows "et_heap_size s < MAX_EVENT_TIMERS \<and> insert_event_timer et s = None"
proof -
  let ?s = "s\<lparr>event_timer_insert_ops := event_timer_insert_ops s + 1, total_timers := total_timers s + 1,
    et_heap_size := MAX_EVENT_TIMERS\<rparr>"
  have max: "1 < MAX_EVENT_TIMERS" by (simp add: MAX_EVENT_TIMERS_def)
  have at: "heap_at ?s (MAX_EVENT_TIMERS div 2) = Some (et_heap s (MAX_EVENT_TIMERS div 2))"
    using max by (simp add: heap_at_def)
  have put: "put_at MAX_EVENT_TIMERS p s = None" for p s by (simp add: put_at_def)
  have "adjust_up et MAX_EVENT_TIMERS ?s \<in> {None, Some (MAX_EVENT_TIMERS, ?s)}"
    using max at by (simp add: adjust_up.simps [of et MAX_EVENT_TIMERS] put Let_def)
  moreover have "adjust_down et MAX_EVENT_TIMERS (2 * MAX_EVENT_TIMERS) ?s = Some (MAX_EVENT_TIMERS, ?s)"
    using max by (simp add: adjust_down.simps [of et MAX_EVENT_TIMERS])
  ultimately have "basic_et_adjust et MAX_EVENT_TIMERS ?s = None" by (auto simp: basic_et_adjust_def put)
  then show ?thesis using assms max by (simp add: insert_event_timer_def Let_def)
qed

text \<open>A heap filled with timers for one moment.\<close>

definition full_timers :: timers where
  "full_timers = timers_init\<lparr>et_heap := (\<lambda>i. i), et_heap_size := MAX_EVENT_TIMERS - 1,
     total_timers := int (MAX_EVENT_TIMERS - 1),
     timer := (\<lambda>t. \<lparr>h_idx = (if t < MAX_EVENT_TIMERS then t else 0), wakeup_time = 1, real_wakeup_time = 1\<rparr>)\<rparr>"

lemma insert_event_timer_overruns_witness:
  "timers_inv full_timers \<and> insert_event_timer MAX_EVENT_TIMERS full_timers = None"
proof -
  have max: "0 < MAX_EVENT_TIMERS" by (simp add: MAX_EVENT_TIMERS_def)
  then have "timers_inv full_timers"
    by (auto simp: timers_inv_def idx_inv_def heap_ord_def key_def full_timers_def split: if_splits)
  moreover have "h_idx (timer full_timers MAX_EVENT_TIMERS) = 0" "et_heap_size full_timers = MAX_EVENT_TIMERS - 1"
    by (simp_all add: full_timers_def)
  ultimately show ?thesis using insert_event_timer_overruns [of full_timers MAX_EVENT_TIMERS] by simp
qed

text \<open>
  A timer that is armed again after its alarm was sent and before the alarm is handled fires at once:
  the check made by the handler accepts the old alarm, whatever the new moment is, and cancels the new
  timer.
\<close>

theorem stale_alarm_accepted:
  assumes "timers_inv s" "h_idx (timer s job) \<noteq> 0 \<or> et_heap_size s + 1 < MAX_EVENT_TIMERS"
    "real_wakeup_time (timer s job) \<noteq> timeout" "timeout > 0"
  shows "\<exists>s1 w1 s2 w2. job_timer_insert job timeout (s, w) = Some (s1, w1) \<and> pending s1 job = Some timeout \<and>
    job_timer_check job (s1, w1) = Some (True, s2, w2) \<and> pending s2 job = None"
proof -
  from job_timer_insert_correct [OF assms(1-3), of w] assms(4) obtain s1 w1 where ins:
    "job_timer_insert job timeout (s, w) = Some (s1, w1)" "timers_inv s1" "pending s1 job = Some timeout"
    "real_wakeup_time (timer s1 job) = timeout" by (metis fun_upd_same)
  then have s1: "h_idx (timer s1 job) \<noteq> 0" "wt s1 job = timeout" "real_wakeup_time (timer s1 job) \<noteq> 0"
    using assms(4) by (auto simp: pending_def split: if_splits)
  from job_timer_insert_correct [OF ins(2) disjI1 [OF s1(1)] s1(3), of w1] obtain s2 w2 where rm:
    "job_timer_insert job 0 (s1, w1) = Some (s2, w2)" "pending s2 job = None" by (metis fun_upd_same less_irrefl)
  then have "job_timer_check job (s1, w1) = Some (True, s2, w2)"
    using s1(2,3) ins(4) by (simp add: job_timer_check_def job_timer_remove_def)
  with ins rm(2) show ?thesis by blast
qed

lemma stale_alarm_accepted_witness:
  "\<exists>s1 w1 s2 w2. job_timer_insert 8 100 (sample_timers, sample_world) = Some (s1, w1) \<and>
    pending s1 8 = Some 100 \<and> job_timer_check 8 (s1, w1) = Some (True, s2, w2) \<and> pending s2 8 = None"
proof -
  have "h_idx (timer sample_timers 8) \<noteq> 0 \<or> et_heap_size sample_timers + 1 < MAX_EVENT_TIMERS"
    "real_wakeup_time (timer sample_timers 8) \<noteq> 100" by (auto simp: sample_timers_def)
  with stale_alarm_accepted [OF sample_timers_inv, of 8 100 sample_world] show ?thesis by auto
qed

end
