(* ===== verification/Drs.thy ===== *)
theory Drs
  imports Complex_Main Transport
begin

text \<open>
  Dynamic record sizing for TLS connections (\<^verbatim>\<open>src/src/net/net-tcp-drs.c\<close>): the sizes of the records, the
  output loop with its delays, and the alarm that resumes it (\<^verbatim>\<open>src/src/net/net-tcp-rpc-ext-server.c\<close>), which
  is shared with the pauses of the rate limit, the retries of direct mode and the timeouts.

  The values of \<^verbatim>\<open>lrand48_j\<close> and of the delay sampler are arguments, numbered in the order in which they are
  drawn. Times are real numbers.
\<close>

subsection \<open>Constants and state\<close>

definition DRS_PHASE1_END :: nat where "DRS_PHASE1_END = 40"
definition DRS_PHASE2_END :: nat where "DRS_PHASE2_END = 60"
definition DRS_SIZE_START :: int where "DRS_SIZE_START = 1450"
definition DRS_SIZE_ACCEL :: int where "DRS_SIZE_ACCEL = 4096"
definition DRS_SIZE_MAX :: int where "DRS_SIZE_MAX = 16144"
definition DRS_RESET_AFTER :: real where "DRS_RESET_AFTER = 1"
definition DRS_DELAY_RESET_AFTER :: real where "DRS_DELAY_RESET_AFTER = 30"
definition DRS_NOISE_RANGE :: int where "DRS_NOISE_RANGE = 201"
definition DRS_NOISE_OFFSET :: int where "DRS_NOISE_OFFSET = 100"
definition DRS_BURST_THRESHOLD :: int where "DRS_BURST_THRESHOLD = DRS_SIZE_MAX"
definition DRS_DELAY_RECORDS :: nat where "DRS_DELAY_RECORDS = 1"

record drs_state =
  record_index :: nat
  total_records :: nat
  last_record_time :: real
  delay_pending :: bool

text \<open>
  The part of a connection that is involved: the flags \<^verbatim>\<open>C_IS_TLS\<close> and \<^verbatim>\<open>C_STOPREAD\<close>, the two output buffers,
  the position in the key stream, the job timer, and the counters of the module.
\<close>

record drs_conn =
  drs :: drs_state
  d_is_tls :: bool
  d_stopread :: bool
  d_out :: bytes
  d_out_p :: bytes
  d_pos :: nat
  d_timer :: "real option"
  drs_delays_applied :: int
  drs_delays_skipped :: int

subsection \<open>Record sizes\<close>

definition drs_record_size :: "nat \<Rightarrow> nat \<Rightarrow> int" where
  "drs_record_size i r =
     (let base = (if i < DRS_PHASE1_END then DRS_SIZE_START else if i < DRS_PHASE2_END then DRS_SIZE_ACCEL else DRS_SIZE_MAX);
          noise = int r mod DRS_NOISE_RANGE - DRS_NOISE_OFFSET;
          size = base + noise
      in if size < 64 then 64 else size)"

lemma drs_record_size_bounds: "1350 \<le> drs_record_size i r" "drs_record_size i r \<le> 16244"
proof -
  have "0 \<le> int r mod 201" "int r mod 201 < 201" by simp_all
  then have "1350 \<le> drs_record_size i r \<and> drs_record_size i r \<le> 16244"
    unfolding drs_record_size_def DRS_SIZE_START_def DRS_SIZE_ACCEL_def DRS_SIZE_MAX_def DRS_NOISE_RANGE_def
      DRS_NOISE_OFFSET_def Let_def by (cases "i < DRS_PHASE1_END"; cases "i < DRS_PHASE2_END") auto
  then show "1350 \<le> drs_record_size i r" "drs_record_size i r \<le> 16244" by simp_all
qed

subsection \<open>The output loop\<close>

text \<open>The two resets after a pause.\<close>

definition drs_resets :: "real \<Rightarrow> drs_state \<Rightarrow> drs_state" where
  "drs_resets now d =
     (let idle = now - last_record_time d;
          d = (if idle > DRS_RESET_AFTER then d\<lparr>record_index := 0, delay_pending := False\<rparr> else d)
      in if idle > DRS_DELAY_RESET_AFTER then d\<lparr>total_records := 0\<rparr> else d)"

text \<open>One record: header, encrypted payload, counters.\<close>

definition drs_round :: "(nat \<Rightarrow> byte) \<Rightarrow> real \<Rightarrow> nat \<Rightarrow> drs_conn \<Rightarrow> drs_conn" where
  "drs_round ks now r c =
     (if d_is_tls c then
        let d = drs_resets now (drs c);
            len = min (length (d_out c)) (nat (drs_record_size (record_index d) r))
        in c\<lparr>drs := d\<lparr>record_index := record_index d + 1, total_records := total_records d + 1, last_record_time := now\<rparr>,
             d_out_p := d_out_p c @ [0x17, 0x03, 0x03, word_of_nat (len div 256), word_of_nat len]
                          @ ctr_xor ks (d_pos c) (take len (d_out c)),
             d_out := drop len (d_out c), d_pos := d_pos c + len\<rparr>
      else c\<lparr>d_out_p := d_out_p c @ ctr_xor ks (d_pos c) (d_out c), d_out := [], d_pos := d_pos c + length (d_out c)\<rparr>)"

text \<open>Whether the loop goes on at once although a delay would be possible.\<close>

definition drs_skip_delay :: "drs_conn \<Rightarrow> bool" where
  "drs_skip_delay c \<longleftrightarrow>
     int (length (d_out c)) > DRS_BURST_THRESHOLD \<or> total_records (drs c) \<ge> DRS_PHASE2_END \<or>
     record_index (drs c) > DRS_DELAY_RECORDS"

lemma drs_round_shorter: "d_out c \<noteq> [] \<Longrightarrow> length (d_out (drs_round ks now r c)) < length (d_out c)"
  using drs_record_size_bounds(1) [of "record_index (drs_resets now (drs c))" r]
  by (auto simp: drs_round_def Let_def)

text \<open>\<open>enabled\<close> is \<^verbatim>\<open>drs_delays_enabled\<close>; \<open>rnd\<close> and \<open>delay\<close> are the random numbers and delays from index \<open>i\<close> on.\<close>

function drs_loop :: "(nat \<Rightarrow> byte) \<Rightarrow> bool \<Rightarrow> real \<Rightarrow> (nat \<Rightarrow> nat) \<Rightarrow> (nat \<Rightarrow> real) \<Rightarrow> nat \<Rightarrow> drs_conn \<Rightarrow> drs_conn" where
  "drs_loop ks enabled now rnd delay i c =
     (if d_out c = [] then c
      else let c = drs_round ks now (rnd i) c in
        if enabled \<and> d_is_tls c \<and> d_out c \<noteq> [] then
          if drs_skip_delay c
          then drs_loop ks enabled now rnd delay (i + 1) (c\<lparr>drs_delays_skipped := drs_delays_skipped c + 1\<rparr>)
          else c\<lparr>drs := (drs c)\<lparr>delay_pending := True\<rparr>, drs_delays_applied := drs_delays_applied c + 1,
                 d_timer := Some (now + delay i)\<rparr>
        else drs_loop ks enabled now rnd delay (i + 1) c)"
  by pat_completeness auto
termination
  by (relation "measure (\<lambda>(ks, enabled, now, rnd, delay, i, c). length (d_out c))") (auto simp: drs_round_shorter)

declare drs_loop.simps [simp del]

definition encrypt_output_drs ::
  "(nat \<Rightarrow> byte) \<Rightarrow> bool \<Rightarrow> real \<Rightarrow> (nat \<Rightarrow> nat) \<Rightarrow> (nat \<Rightarrow> real) \<Rightarrow> drs_conn \<Rightarrow> drs_conn" where
  "encrypt_output_drs ks enabled now rnd delay c =
     (if d_is_tls c \<and> delay_pending (drs c) then c else drs_loop ks enabled now rnd delay 0 c)"

subsection \<open>The alarm\<close>

text \<open>\<^verbatim>\<open>rate_limit_after_relay\<close> when the bucket is overdrawn, and \<^verbatim>\<open>rate_limit_resume\<close>.\<close>

definition rate_limit_pause :: "real \<Rightarrow> drs_conn \<Rightarrow> drs_conn" where
  "rate_limit_pause t c = c\<lparr>d_stopread := True, d_timer := Some t\<rparr>"

definition rate_limit_resume :: "drs_conn \<Rightarrow> bool \<times> drs_conn" where
  "rate_limit_resume c = (if d_stopread c then (True, c\<lparr>d_stopread := False\<rparr>) else (False, c))"

text \<open>
  The other tests of the handler: a direct client without a data centre that waits for a retry, an open PROXY
  header, an open handshake. What it does is given back; a write is the output loop above.
\<close>

record alarm_flags =
  retry_waiting :: bool
  pp_open :: bool
  handshake_open :: bool

datatype alarm_action = Alarm_resumed | Alarm_retry | Alarm_pp_timeout | Alarm_handshake_timeout | Alarm_write | Alarm_none

definition tcp_rpcs_ext_drs_alarm :: "alarm_flags \<Rightarrow> drs_conn \<Rightarrow> alarm_action \<times> drs_conn" where
  "tcp_rpcs_ext_drs_alarm fl c =
     (let c = c\<lparr>d_timer := None\<rparr>; (resumed, c) = rate_limit_resume c in
      if resumed then (Alarm_resumed, c)
      else if retry_waiting fl then (Alarm_retry, c)
      else if pp_open fl then (Alarm_pp_timeout, c)
      else if handshake_open fl then (Alarm_handshake_timeout, c)
      else if d_is_tls c \<and> delay_pending (drs c) then (Alarm_write, c\<lparr>drs := (drs c)\<lparr>delay_pending := False\<rparr>\<rparr>)
      else (Alarm_none, c))"

text \<open>The alarm of an established connection with the write it triggers.\<close>

definition drs_alarm_write ::
  "(nat \<Rightarrow> byte) \<Rightarrow> bool \<Rightarrow> real \<Rightarrow> (nat \<Rightarrow> nat) \<Rightarrow> (nat \<Rightarrow> real) \<Rightarrow> drs_conn \<Rightarrow> drs_conn" where
  "drs_alarm_write ks enabled now rnd delay c =
     (case tcp_rpcs_ext_drs_alarm \<lparr>retry_waiting = False, pp_open = False, handshake_open = False\<rparr> c of
        (Alarm_write, c) \<Rightarrow> encrypt_output_drs ks enabled now rnd delay c
      | (_, c) \<Rightarrow> c)"

subsection \<open>What the loop writes\<close>

text \<open>
  The relation between a connection before and after: records were appended whose payloads are the
  encryption of what was taken from the output.
\<close>

definition drs_wrote :: "(nat \<Rightarrow> byte) \<Rightarrow> drs_conn \<Rightarrow> drs_conn \<Rightarrow> bool" where
  "drs_wrote ks c c' \<longleftrightarrow> (\<exists>ps taken.
     d_out c = taken @ d_out c' \<and> d_out_p c' = d_out_p c @ concat (map client_record ps) \<and>
     concat ps = ctr_xor ks (d_pos c) taken \<and> list_all (\<lambda>p. 0 < length p \<and> length p \<le> 16244) ps \<and>
     d_pos c' = d_pos c + length taken \<and> d_is_tls c' = d_is_tls c \<and> d_stopread c' = d_stopread c)"

lemma drs_wrote_refl: "drs_wrote ks c c"
  unfolding drs_wrote_def by (rule exI [of _ "[]"], rule exI [of _ "[]"]) simp

lemma drs_wrote_trans: "drs_wrote ks c c' \<Longrightarrow> drs_wrote ks c' c'' \<Longrightarrow> drs_wrote ks c c''"
proof -
  assume "drs_wrote ks c c'" "drs_wrote ks c' c''"
  then obtain ps taken ps' taken' where
    "d_out c = taken @ d_out c'" "d_out_p c' = d_out_p c @ concat (map client_record ps)"
    "concat ps = ctr_xor ks (d_pos c) taken" "list_all (\<lambda>p. 0 < length p \<and> length p \<le> 16244) ps"
    "d_pos c' = d_pos c + length taken" "d_is_tls c' = d_is_tls c" "d_stopread c' = d_stopread c"
    "d_out c' = taken' @ d_out c''" "d_out_p c'' = d_out_p c' @ concat (map client_record ps')"
    "concat ps' = ctr_xor ks (d_pos c') taken'" "list_all (\<lambda>p. 0 < length p \<and> length p \<le> 16244) ps'"
    "d_pos c'' = d_pos c' + length taken'" "d_is_tls c'' = d_is_tls c'" "d_stopread c'' = d_stopread c'"
    unfolding drs_wrote_def by blast
  then show ?thesis unfolding drs_wrote_def
    by (intro exI [of _ "ps @ ps'"] exI [of _ "taken @ taken'"]) (simp add: ctr_xor_append)
qed

lemma drs_round_wrote:
  assumes "d_is_tls c" "d_out c \<noteq> []"
  shows "drs_wrote ks c (drs_round ks now r c)"
proof -
  define n where "n = min (length (d_out c)) (nat (drs_record_size (record_index (drs_resets now (drs c))) r))"
  have n: "0 < n" "n \<le> length (d_out c)" "n \<le> 16244"
    using drs_record_size_bounds [of "record_index (drs_resets now (drs c))" r] assms(2) by (auto simp: n_def)
  let ?p = "ctr_xor ks (d_pos c) (take n (d_out c))"
  have p: "length ?p = n" using n by simp
  show ?thesis unfolding drs_wrote_def
    using assms n p
    by (intro exI [of _ "[?p]"] exI [of _ "take n (d_out c)"])
      (simp add: drs_round_def Let_def client_record_def flip: n_def)
qed

lemma drs_wrote_update:
  "drs_wrote ks c (c'\<lparr>drs := d, d_timer := t, drs_delays_applied := a, drs_delays_skipped := k\<rparr>) \<longleftrightarrow> drs_wrote ks c c'"
  by (simp add: drs_wrote_def)

text \<open>What holds after the loop: everything is out, or a short rest waits for its timer.\<close>

definition drs_settled :: "drs_conn \<Rightarrow> bool" where
  "drs_settled c \<longleftrightarrow> d_out c = [] \<or>
     delay_pending (drs c) \<and> d_timer c \<noteq> None \<and> int (length (d_out c)) \<le> DRS_BURST_THRESHOLD"

lemma drs_loop_writes:
  "d_is_tls c \<Longrightarrow> drs_wrote ks c (drs_loop ks enabled now rnd delay i c) \<and> drs_settled (drs_loop ks enabled now rnd delay i c) \<and>
   (d_out c \<noteq> [] \<longrightarrow> length (d_out (drs_loop ks enabled now rnd delay i c)) < length (d_out c))"
proof (induction "length (d_out c)" arbitrary: c i rule: less_induct)
  case less
  show ?case
  proof (cases "d_out c = []")
    case True
    then show ?thesis by (simp add: drs_loop.simps drs_wrote_refl drs_settled_def)
  next
    case False
    let ?r = "drs_round ks now (rnd i) c"
    note w = drs_round_wrote [OF less.prems False, of ks now "rnd i"] and s = drs_round_shorter [OF False, of ks now "rnd i"]
    have tls: "d_is_tls ?r" using w less.prems by (auto simp: drs_wrote_def)
    let ?k = "?r\<lparr>drs_delays_skipped := drs_delays_skipped ?r + 1\<rparr>"
    have k: "drs_wrote ks c ?k" using w by (simp add: drs_wrote_def)
    show ?thesis
    proof (cases "enabled \<and> d_out ?r \<noteq> []")
      case True
      show ?thesis
      proof (cases "drs_skip_delay ?r")
        case skip: True
        have "drs_loop ks enabled now rnd delay i c = drs_loop ks enabled now rnd delay (i + 1) ?k"
          using True skip tls False by (subst drs_loop.simps) (simp add: Let_def)
        then show ?thesis using less.hyps [of ?k "i + 1"] s tls drs_wrote_trans [OF k]
          by (cases "d_out ?k = []") (auto simp: drs_loop.simps)
      next
        case stop: False
        let ?c = "?r\<lparr>drs := (drs ?r)\<lparr>delay_pending := True\<rparr>, drs_delays_applied := drs_delays_applied ?r + 1,
                 d_timer := Some (now + delay i)\<rparr>"
        have "drs_loop ks enabled now rnd delay i c = ?c"
          using True stop tls False by (subst drs_loop.simps) (simp add: Let_def)
        moreover have "drs_wrote ks c ?c" using w by (simp add: drs_wrote_def)
        moreover have "drs_settled ?c" using stop by (auto simp: drs_settled_def drs_skip_delay_def)
        ultimately show ?thesis using s by simp
      qed
    next
      case no: False
      have "drs_loop ks enabled now rnd delay i c = drs_loop ks enabled now rnd delay (i + 1) ?r"
        using no False by (subst drs_loop.simps) (auto simp: Let_def)
      then show ?thesis using less.hyps [of ?r "i + 1"] s tls drs_wrote_trans [OF w]
        by (cases "d_out ?r = []") (auto simp: drs_loop.simps)
    qed
  qed
qed

lemma drs_alarm_write_step:
  fixes ks :: "nat \<Rightarrow> byte" and enabled :: bool and now :: real and rnd :: "nat \<Rightarrow> nat" and delay :: "nat \<Rightarrow> real"
  assumes "d_is_tls c" "\<not> d_stopread c" "drs_settled c"
  defines "c' \<equiv> drs_alarm_write ks enabled now rnd delay c"
  shows "drs_wrote ks c c' \<and> drs_settled c' \<and> length (d_out c') \<le> length (d_out c) - 1"
proof (cases "delay_pending (drs c)")
  case True
  let ?c = "c\<lparr>d_timer := None, drs := (drs c)\<lparr>delay_pending := False\<rparr>\<rparr>"
  have "c' = drs_loop ks enabled now rnd delay 0 ?c"
    using True assms(1,2) by (simp add: c'_def drs_alarm_write_def tcp_rpcs_ext_drs_alarm_def rate_limit_resume_def
        encrypt_output_drs_def Let_def)
  moreover have "drs_wrote ks c x" if "drs_wrote ks ?c x" for x using that by (simp add: drs_wrote_def)
  ultimately show ?thesis using drs_loop_writes [of ?c ks enabled now rnd delay 0] assms(1)
    by (cases "d_out c = []") (auto simp: drs_loop.simps drs_settled_def)
next
  case False
  then have "d_out c = []" using assms(3) by (simp add: drs_settled_def)
  moreover have "c' = c\<lparr>d_timer := None\<rparr>"
    using False assms(2) by (simp add: c'_def drs_alarm_write_def tcp_rpcs_ext_drs_alarm_def rate_limit_resume_def Let_def)
  ultimately show ?thesis using drs_wrote_refl [of ks c] by (simp add: drs_settled_def drs_wrote_def)
qed

text \<open>The write of some output followed by the alarms that fire, each with its time and random numbers.\<close>

type_synonym drs_event = "real \<times> (nat \<Rightarrow> nat) \<times> (nat \<Rightarrow> real)"

definition drs_run :: "(nat \<Rightarrow> byte) \<Rightarrow> bool \<Rightarrow> drs_event list \<Rightarrow> drs_conn \<Rightarrow> drs_conn" where
  "drs_run ks enabled evs c = fold (\<lambda>(now, rnd, delay). drs_alarm_write ks enabled now rnd delay) evs c"

lemma drs_run_drains:
  "d_is_tls c \<Longrightarrow> \<not> d_stopread c \<Longrightarrow> drs_settled c \<Longrightarrow>
   drs_wrote ks c (drs_run ks enabled evs c) \<and> drs_settled (drs_run ks enabled evs c) \<and>
   length (d_out (drs_run ks enabled evs c)) \<le> length (d_out c) - length evs"
proof (induction evs arbitrary: c)
  case (Cons e evs)
  obtain now rnd delay where e: "e = (now, rnd, delay)" by (cases e)
  let ?c = "drs_alarm_write ks enabled now rnd delay c"
  note s = drs_alarm_write_step [OF Cons.prems, of ks enabled now rnd delay]
  then have "d_is_tls ?c" "\<not> d_stopread ?c" using Cons.prems by (auto simp: drs_wrote_def)
  from Cons.IH [OF this] s have "drs_wrote ks ?c (drs_run ks enabled evs ?c)" "drs_settled (drs_run ks enabled evs ?c)"
    "length (d_out (drs_run ks enabled evs ?c)) \<le> length (d_out ?c) - length evs" by blast+
  with s drs_wrote_trans [of ks c ?c] show ?case by (auto simp: drs_run_def e)
qed (simp add: drs_run_def drs_wrote_refl)

text \<open>
  C8: All output of a TLS connection with dynamic record sizes is sent, if its alarms fire: a write sends at
  least one record and either empties the output or leaves at most 16144 bytes and a timer, and each alarm
  goes on. Whatever the random sizes and delays, what is written is a sequence of well-formed
  records of at most 16244 bytes whose payloads are the encryption of the output, in order.
\<close>

theorem drs_output_drains:
  assumes "d_is_tls c" "\<not> d_stopread c" "\<not> delay_pending (drs c)" "length evs \<ge> length (d_out c)"
  shows "let c1 = encrypt_output_drs ks enabled now rnd delay c; c2 = drs_run ks enabled evs c1 in
    drs_wrote ks c c1 \<and> drs_settled c1 \<and> d_out c2 = [] \<and> drs_wrote ks c c2"
proof -
  define c1 where "c1 = encrypt_output_drs ks enabled now rnd delay c"
  have "c1 = drs_loop ks enabled now rnd delay 0 c" using assms(3) by (simp add: c1_def encrypt_output_drs_def)
  with drs_loop_writes [OF assms(1), of ks enabled now rnd delay 0] have w: "drs_wrote ks c c1" "drs_settled c1" by simp_all
  then have f: "d_is_tls c1" "\<not> d_stopread c1" "length (d_out c1) \<le> length (d_out c)"
    using assms(1,2) by (auto simp: drs_wrote_def)
  from drs_run_drains [OF f(1,2) w(2), of ks enabled evs] f(3) assms(4)
  have "drs_wrote ks c1 (drs_run ks enabled evs c1)" "d_out (drs_run ks enabled evs c1) = []" by auto
  with w drs_wrote_trans [OF w(1)] show ?thesis by (simp add: c1_def Let_def)
qed

text \<open>
  C35: The timer is shared with the pauses of the rate limit, and the alarm handler returns after resuming a
  paused connection. If a pause begins while a record is delayed, the alarm that ends the pause leaves the
  delay pending without a timer: from then on no call writes anything, however much output is added.
\<close>

theorem drs_rate_limit_stalls:
  assumes "d_is_tls c" "delay_pending (drs c)"
  shows "let (act, c') = tcp_rpcs_ext_drs_alarm fl (rate_limit_pause t c) in
    act = Alarm_resumed \<and> d_timer c' = None \<and> d_out c' = d_out c \<and>
    encrypt_output_drs ks enabled now rnd delay (c'\<lparr>d_out := d_out c' @ out\<rparr>) = c'\<lparr>d_out := d_out c' @ out\<rparr>"
  using assms
  by (simp add: tcp_rpcs_ext_drs_alarm_def rate_limit_pause_def rate_limit_resume_def encrypt_output_drs_def Let_def)

definition sample_drs :: drs_conn where
  "sample_drs = \<lparr>drs = \<lparr>record_index = 0, total_records = 0, last_record_time = 0, delay_pending = False\<rparr>, d_is_tls = True,
     d_stopread = False, d_out = replicate 2000 7, d_out_p = [], d_pos = 0, d_timer = None, drs_delays_applied = 0,
     drs_delays_skipped = 0\<rparr>"

lemma drs_output_drains_witness:
  "d_out (drs_run (\<lambda>_. 0) True (replicate 2000 (2, \<lambda>_. 0, \<lambda>_. 1)) (encrypt_output_drs (\<lambda>_. 0) True 1 (\<lambda>_. 0) (\<lambda>_. 1) sample_drs)) = []"
proof -
  have "d_is_tls sample_drs" "\<not> d_stopread sample_drs" "\<not> delay_pending (drs sample_drs)"
    "length (replicate 2000 (2 :: real, (\<lambda>_ :: nat. 0 :: nat), (\<lambda>_ :: nat. 1 :: real))) \<ge> length (d_out sample_drs)"
    by (simp_all add: sample_drs_def)
  from drs_output_drains [OF this, of "\<lambda>_. 0" True 1 "\<lambda>_. 0" "\<lambda>_. 1"] show ?thesis by (simp add: Let_def)
qed

lemma drs_rate_limit_stalls_witness:
  "d_timer (snd (tcp_rpcs_ext_drs_alarm \<lparr>retry_waiting = False, pp_open = False, handshake_open = False\<rparr>
     (rate_limit_pause 3 (sample_drs\<lparr>drs := (drs sample_drs)\<lparr>delay_pending := True\<rparr>\<rparr>)))) = None"
proof -
  have "d_is_tls (sample_drs\<lparr>drs := (drs sample_drs)\<lparr>delay_pending := True\<rparr>\<rparr>)"
    "delay_pending (drs (sample_drs\<lparr>drs := (drs sample_drs)\<lparr>delay_pending := True\<rparr>\<rparr>))" by (simp_all add: sample_drs_def)
  from drs_rate_limit_stalls [OF this] show ?thesis by (auto simp: Let_def case_prod_beta)
qed

end
