(* ===== verification/Msg_Buffers.thy ===== *)
theory Msg_Buffers
  imports Prelude
begin

text \<open>
  The allocator of message buffers (\<^verbatim>\<open>src/src/net/net-msg-buffers.c\<close>): buffers of five sizes are cut from
  chunks of two megabytes; each chunk keeps a complete binary tree of counters of free buffers.

  The model is that of one thread: the locks of chunks and chunk heads are always free and the queue of
  buffers freed by other threads is empty. \<^verbatim>\<open>malloc\<close> succeeds; the limit on the number of chunks
  is modelled. A buffer is addressed by the number of its chunk and its distance in bytes from
  \<^verbatim>\<open>first_buffer\<close>. The values of \<^verbatim>\<open>lrand48_j\<close> are a sequence of the state.
\<close>

subsection \<open>Constants and geometry of a chunk\<close>

definition default_buffer_sizes :: "nat list" where
  "default_buffer_sizes = [48, 512, 2048, 16384, 262144]"

definition MSG_BUFFERS_CHUNK_SIZE :: nat where "MSG_BUFFERS_CHUNK_SIZE = 2097088"
definition BUFF_HD_BYTES :: nat where "BUFF_HD_BYTES = 16"

text \<open>\<^verbatim>\<open>offsetof (struct msg_buffers_chunk, free_cnt)\<close> on a 64-bit machine.\<close>

definition FREE_CNT_OFFSET :: nat where "FREE_CNT_OFFSET = 84"

record msg_buffers_chunk =
  buffer_size :: nat
  two_power :: nat
  tot_buffers :: nat
  bs_inverse :: u32
  bs_shift :: nat
  free_cnt :: "nat list"
  ch_head :: nat

text \<open>The least power of two above \<open>t\<close>, as the loop in \<^verbatim>\<open>alloc_new_msg_buffers_chunk\<close> finds it.\<close>

function two_power_above :: "nat \<Rightarrow> nat \<Rightarrow> nat" where
  "two_power_above t p = (if 0 < p \<and> p \<le> t then two_power_above t (2 * p) else p)"
  by pat_completeness auto
termination by (relation "measure (\<lambda>(t, p). Suc t - p)") auto

declare two_power_above.simps [simp del]

text \<open>\<^verbatim>\<open>__builtin_ctz\<close>.\<close>

fun ctz :: "nat \<Rightarrow> nat" where
  "ctz n = (if n = 0 \<or> odd n then 0 else Suc (ctz (n div 2)))"

declare ctz.simps [simp del]

text \<open>\<^verbatim>\<open>n & -n\<close>, clamped to the range from 8 to 64.\<close>

definition chunk_align :: "nat \<Rightarrow> nat" where
  "chunk_align n = (let a = 2 ^ ctz n; a = (if a < 8 then 8 else a) in if a > 64 then 64 else a)"

definition chunk_two_power :: "nat \<Rightarrow> nat" where
  "chunk_two_power bsz = two_power_above ((MSG_BUFFERS_CHUNK_SIZE - FREE_CNT_OFFSET) div (bsz + BUFF_HD_BYTES + 4)) 1"

definition chunk_buffers :: "nat \<Rightarrow> nat" where
  "chunk_buffers bsz =
     (MSG_BUFFERS_CHUNK_SIZE - FREE_CNT_OFFSET - chunk_two_power bsz * 4 - chunk_align (bsz + BUFF_HD_BYTES)) div (bsz + BUFF_HD_BYTES)"

subsection \<open>The number of a buffer\<close>

text \<open>
  The loop of \<^verbatim>\<open>prepare_bs_inv\<close>: \<open>y\<close> collects the product of \<open>1 + x\<close>, \<open>1 + x\<^sup>2\<close>, \<open>1 + x\<^sup>4\<close> and so on, in 32-bit
  arithmetic.
\<close>

partial_function (option) inverse_loop :: "u32 \<Rightarrow> u32 \<Rightarrow> u32 option" where
  [code]: "inverse_loop x y = (if x = 0 then Some y else inverse_loop (x * x) (y * (1 + x)))"

definition prepare_bs_inv :: "nat \<Rightarrow> (u32 \<times> nat) option" where
  "prepare_bs_inv bsz =
     (let x = bsz + 16; i = ctz x in
      map_option (\<lambda>y. (y, i)) (inverse_loop (1 - drop_bit i (word_of_nat x)) 1))"

definition get_buffer_no :: "msg_buffers_chunk \<Rightarrow> nat \<Rightarrow> nat option" where
  "get_buffer_no C off =
     (let x = unat (drop_bit (bs_shift C) (word_of_nat off) * bs_inverse C) in
      if x \<le> tot_buffers C \<and> off = (buffer_size C + 16) * x then Some x else None)"

subsection \<open>The tree of counters\<close>

text \<open>Counters are 16 bits wide. An access outside the array is a fault.\<close>

definition cnt_at :: "nat list \<Rightarrow> nat \<Rightarrow> nat option" where
  "cnt_at fc i = (if i < length fc then Some (fc ! i) else None)"

definition dec16 :: "nat \<Rightarrow> nat" where "dec16 n = (n + 65535) mod 65536"
definition inc16 :: "nat \<Rightarrow> nat" where "inc16 n = (n + 1) mod 65536"

definition cnt_dec :: "nat list \<Rightarrow> nat \<Rightarrow> nat list option" where
  "cnt_dec fc i = (if i < length fc then Some (fc[i := dec16 (fc ! i)]) else None)"

text \<open>The new tree: one for each leaf that stands for a buffer, inner nodes filled from the bottom.\<close>

definition init_counts :: "nat \<Rightarrow> nat \<Rightarrow> nat list" where
  "init_counts tp n =
     fold (\<lambda>i fc. fc[i := (fc ! (2 * i) + fc ! (2 * i + 1)) mod 65536]) (rev [1..<tp])
       (replicate tp 0 @ replicate n 1 @ replicate (tp - n) 0)"

text \<open>A change of all counters from a node up to the root.\<close>

fun path_upd :: "(nat \<Rightarrow> nat) \<Rightarrow> nat \<Rightarrow> nat list \<Rightarrow> nat list option" where
  "path_upd f k fc =
     (if k = 0 then Some fc
      else if k < length fc then path_upd f (k div 2) (fc[k := f (fc ! k)]) else None)"

declare path_upd.simps [simp del]

text \<open>The \<open>j\<close>-th free buffer, with the counters decremented on the way down.\<close>

partial_function (option) descend_rand :: "nat \<Rightarrow> nat \<Rightarrow> nat \<Rightarrow> nat list \<Rightarrow> (nat \<times> nat list) option" where
  [code]: "descend_rand tp i j fc =
     (if i < tp then do {
        fc \<leftarrow> cnt_dec fc i;
        c \<leftarrow> cnt_at fc (2 * i);
        if c \<le> j then descend_rand tp (2 * i + 1) (j - c) fc else descend_rand tp (2 * i) j fc
      }
      else do {
        fc \<leftarrow> cnt_dec fc i;
        c \<leftarrow> cnt_at fc i;
        if c = 0 then Some (i, fc) else None
      })"

text \<open>The first free buffer below a node, with the counters below it decremented.\<close>

partial_function (option) descend_first :: "nat \<Rightarrow> nat \<Rightarrow> nat list \<Rightarrow> (nat \<times> nat list) option" where
  [code]: "descend_first tp i fc =
     (if i < tp then do {
        c \<leftarrow> cnt_at fc (2 * i);
        let i = (if c = 0 then 2 * i + 1 else 2 * i);
        fc \<leftarrow> cnt_dec fc i;
        descend_first tp i fc
      }
      else Some (i, fc))"

text \<open>
  The search after the buffer \<open>x\<close>: \<open>i\<close> is the current node with the range from \<open>l\<close> to \<open>r\<close>, \<open>j\<close> the last node
  to the right of \<open>x\<close> with a free buffer. The result is the node from which the counters above are
  still to be decremented, the leaf and the counters.
\<close>

partial_function (option) neighbor_search ::
  "nat \<Rightarrow> nat \<Rightarrow> nat \<Rightarrow> nat \<Rightarrow> nat \<Rightarrow> nat \<Rightarrow> nat list \<Rightarrow> (nat \<times> nat \<times> nat list) option" where
  [code]: "neighbor_search tp x i j l r fc =
     (if i < tp then do {
        let m = (l + r) div 2;
        cl \<leftarrow> cnt_at fc (2 * i);
        cr \<leftarrow> cnt_at fc (2 * i + 1);
        if x < m then
          (if cl > 0 then neighbor_search tp x (2 * i) (if cr > 0 then 2 * i + 1 else j) l m fc
           else neighbor_search tp x (2 * i + 1) j m r fc)
        else if cr > 0 then neighbor_search tp x (2 * i + 1) j m r fc
        else do {
          (i, fc) \<leftarrow> descend_first tp j fc;
          Some (j, i, fc)
        }
      }
      else Some (i, i, fc))"

definition alloc_near :: "nat \<Rightarrow> nat \<Rightarrow> nat list \<Rightarrow> (nat \<times> nat list) option" where
  "alloc_near tp x fc = do {
     near \<leftarrow> (if x < tp - 1 then map_option (\<lambda>c. c \<noteq> 0) (cnt_at fc (tp + x + 1)) else Some False);
     (k, i, fc) \<leftarrow> (if near then Some (tp + x + 1, tp + x + 1, fc) else neighbor_search tp x 1 1 0 tp fc);
     fc \<leftarrow> path_upd dec16 k fc;
     Some (i, fc)
   }"

subsection \<open>The pool\<close>

text \<open>
  The chunks in the order of their allocation, the lists that start at the chunk heads, the chunk last
  used for each size, the limit and the statistics.
\<close>

record buffer_pool =
  chunks :: "msg_buffers_chunk list"
  ch_lists :: "nat list list"
  chunk_save :: "nat option list"
  max_buffer_chunks :: nat
  lrand :: "nat \<Rightarrow> nat"
  lrand_pos :: nat
  total_used_buffers :: int
  total_used_buffers_size :: int

type_synonym buffer_ptr = "nat \<times> nat"

definition init_pool :: "nat \<Rightarrow> (nat \<Rightarrow> nat) \<Rightarrow> buffer_pool" where
  "init_pool max_chunks rnd =
     \<lparr>chunks = [], ch_lists = replicate 5 [], chunk_save = replicate 5 None, max_buffer_chunks = max_chunks,
      lrand = rnd, lrand_pos = 0, total_used_buffers = 0, total_used_buffers_size = 0\<rparr>"

definition new_chunk :: "nat \<Rightarrow> msg_buffers_chunk option" where
  "new_chunk si =
     (let bsz = default_buffer_sizes ! si; n = chunk_buffers bsz; tp = chunk_two_power bsz in
      if 0 < n \<and> n < 65536 \<and> n \<le> tp then
        map_option (\<lambda>(y, i). \<lparr>buffer_size = bsz, two_power = tp, tot_buffers = n, bs_inverse = y, bs_shift = i,
          free_cnt = init_counts tp n, ch_head = si\<rparr>) (prepare_bs_inv bsz)
      else None)"

text \<open>
  \<^verbatim>\<open>alloc_new_msg_buffers_chunk\<close>: the inner option is the null pointer when the limit is reached.
\<close>

definition alloc_new_msg_buffers_chunk :: "nat \<Rightarrow> buffer_pool \<Rightarrow> (nat option \<times> buffer_pool) option" where
  "alloc_new_msg_buffers_chunk si p =
     (if length (chunks p) \<ge> max_buffer_chunks p then Some (None, p)
      else do {
        C \<leftarrow> new_chunk si;
        let c = length (chunks p);
        Some (Some c, p\<lparr>chunks := chunks p @ [C], ch_lists := (ch_lists p)[si := c # ch_lists p ! si]\<rparr>)
      })"

definition has_free :: "buffer_pool \<Rightarrow> nat \<Rightarrow> bool" where
  "has_free p c \<longleftrightarrow> free_cnt (chunks p ! c) ! 1 \<noteq> 0"

text \<open>The chunks of a size in the order of the scan: from the hint on, round the head.\<close>

definition scan_order :: "nat \<Rightarrow> nat list \<Rightarrow> nat list" where
  "scan_order hint cs = dropWhile (\<lambda>c. c \<noteq> hint) cs @ takeWhile (\<lambda>c. c \<noteq> hint) cs"

text \<open>The choice of the chunk in \<^verbatim>\<open>alloc_msg_buffer_internal\<close>.\<close>

definition choose_chunk :: "nat \<Rightarrow> buffer_pool \<Rightarrow> (nat option \<times> buffer_pool) option" where
  "choose_chunk si p =
     (case chunk_save p ! si of
        None \<Rightarrow> alloc_new_msg_buffers_chunk si p
      | Some hint \<Rightarrow>
          if has_free p hint then (if ch_head (chunks p ! hint) = si then Some (Some hint, p) else None)
          else (case find (has_free p) (scan_order hint (ch_lists p ! si)) of
                  Some c \<Rightarrow> Some (Some c, p)
                | None \<Rightarrow> alloc_new_msg_buffers_chunk si p))"

text \<open>The choice of the buffer: after its neighbour if that is in the same chunk, else one of the first 16.\<close>

definition choose_buffer :: "buffer_ptr option \<Rightarrow> nat \<Rightarrow> nat \<Rightarrow> msg_buffers_chunk \<Rightarrow> (nat \<times> nat list) option" where
  "choose_buffer nb c rnd C =
     (let fc = free_cnt C; tp = two_power C in
      case nb of
        Some (c', off) \<Rightarrow>
          if c' = c then do { x \<leftarrow> get_buffer_no C off; alloc_near tp x fc }
          else descend_rand tp 1 (rnd * min (fc ! 1) 16 div 2 ^ 31) fc
      | None \<Rightarrow> descend_rand tp 1 (rnd * min (fc ! 1) 16 div 2 ^ 31) fc)"

definition uses_rand :: "buffer_ptr option \<Rightarrow> nat \<Rightarrow> bool" where
  "uses_rand nb c \<longleftrightarrow> (case nb of Some (c', off) \<Rightarrow> c' \<noteq> c | None \<Rightarrow> True)"

definition alloc_msg_buffer_internal ::
  "buffer_ptr option \<Rightarrow> nat \<Rightarrow> buffer_pool \<Rightarrow> (buffer_ptr option \<times> buffer_pool) option" where
  "alloc_msg_buffer_internal nb si p = do {
     (found, p) \<leftarrow> choose_chunk si p;
     case found of
       None \<Rightarrow> Some (None, p)
     | Some c \<Rightarrow>
         let C = chunks p ! c in
         if free_cnt C ! 1 = 0 then None
         else do {
           (i, fc) \<leftarrow> choose_buffer nb c (lrand p (lrand_pos p)) C;
           let x = i - two_power C;
           if x < tot_buffers C then
             Some (Some (c, x * (buffer_size C + 16)),
               p\<lparr>chunks := (chunks p)[c := C\<lparr>free_cnt := fc\<rparr>], chunk_save := (chunk_save p)[si := Some c],
                 lrand_pos := (if uses_rand nb c then lrand_pos p + 1 else lrand_pos p),
                 total_used_buffers := total_used_buffers p + 1,
                 total_used_buffers_size := total_used_buffers_size p + int (buffer_size C)\<rparr>)
           else None
         }
   }"

text \<open>The loop that chooses the size: the smallest one that is large enough, or the largest.\<close>

fun size_index :: "int \<Rightarrow> nat \<Rightarrow> nat" where
  "size_index hint 0 = 0"
| "size_index hint (Suc si) = (if int (default_buffer_sizes ! si) \<ge> hint then size_index hint si else Suc si)"

definition alloc_msg_buffer :: "buffer_ptr option \<Rightarrow> int \<Rightarrow> buffer_pool \<Rightarrow> (buffer_ptr option \<times> buffer_pool) option" where
  "alloc_msg_buffer nb hint p =
     alloc_msg_buffer_internal nb (if hint \<ge> 0 then size_index hint 4 else 4) p"

definition free_std_msg_buffer :: "buffer_ptr \<Rightarrow> buffer_pool \<Rightarrow> buffer_pool option" where
  "free_std_msg_buffer b p =
     (let c = fst b in
      if c < length (chunks p) then do {
        let C = chunks p ! c;
        x \<leftarrow> get_buffer_no C (snd b);
        v \<leftarrow> cnt_at (free_cnt C) (two_power C + x);
        if v = 0 then do {
          fc \<leftarrow> path_upd inc16 (two_power C + x) (free_cnt C);
          Some (p\<lparr>chunks := (chunks p)[c := C\<lparr>free_cnt := fc\<rparr>],
                  total_used_buffers := total_used_buffers p - 1,
                  total_used_buffers_size := total_used_buffers_size p - int (buffer_size C)\<rparr>)
        } else None
      } else None)"

subsection \<open>The inverse\<close>

text \<open>In 32 bits the loop ends after at most five rounds, for then \<open>x\<close> is divisible by \<open>2\<^sup>3\<^sup>2\<close>.\<close>

lemma two_pow_32 [simp]: "(4294967296 :: u32) = 0"
  by code_simp

lemma inverse_loop_returns:
  "x = 2 ^ (2 ^ (5 - n)) * z \<Longrightarrow> n \<le> 5 \<Longrightarrow> \<exists>w. (\<forall>y. inverse_loop x y = Some (y * w)) \<and> w * (1 - x) = 1"
proof (induction n arbitrary: x z)
  case 0
  then have "x = 0" by simp
  then show ?case by (intro exI [of _ 1]) (simp add: inverse_loop.simps)
next
  case (Suc n)
  show ?case
  proof (cases "x = 0")
    case True
    then show ?thesis by (intro exI [of _ 1]) (simp add: inverse_loop.simps)
  next
    case False
    define e where "e = (2 :: nat) ^ (5 - Suc n)"
    have "2 ^ (5 - n) = e + e" using Suc.prems(2) by (simp add: e_def Suc_diff_le flip: power_Suc mult_2)
    moreover have "x * x = (2 ^ e * 2 ^ e) * (z * z)" unfolding Suc.prems(1) e_def by (simp only: ac_simps)
    ultimately have "x * x = 2 ^ (2 ^ (5 - n)) * (z * z)" by (simp only: power_add)
    from Suc.IH [OF this] Suc.prems(2) obtain w where
      w: "\<And>y. inverse_loop (x * x) y = Some (y * w)" "w * (1 - x * x) = 1" by auto
    have "inverse_loop x y = Some (y * ((1 + x) * w))" for y
      using False w(1) by (subst inverse_loop.simps) (simp add: mult.assoc)
    moreover have "(1 + x) * w * (1 - x) = 1" using w(2) by (simp add: algebra_simps)
    ultimately show ?thesis by blast
  qed
qed

lemma odd_inverse:
  assumes "bit (m :: u32) 0"
  obtains w where "inverse_loop (1 - m) 1 = Some w" "w * m = 1"
proof -
  have "even (1 - m)" using assms by (simp add: bit_0)
  then obtain z where "1 - m = 2 * z" by (rule evenE)
  then have "1 - m = 2 ^ (2 ^ (5 - 5)) * z" by simp
  from inverse_loop_returns [OF this] that show ?thesis by auto
qed

lemma ctz_decomp:
  assumes "0 < n"
  obtains m where "odd m" "n = 2 ^ ctz n * m"
proof -
  have "\<exists>m. odd m \<and> n = 2 ^ ctz n * m"
    using assms
  proof (induction n rule: ctz.induct)
    case (1 n)
    show ?case
    proof (cases "odd n")
      case False
      with 1 obtain m where "odd m" "n div 2 = 2 ^ ctz (n div 2) * m" by fastforce
      with False 1 show ?thesis by (intro exI [of _ m]) (auto simp: ctz.simps [of n])
    qed (simp add: ctz.simps)
  qed
  with that show ?thesis by blast
qed

text \<open>The number of a buffer is recovered from its address by one multiplication, for every size.\<close>

lemma get_buffer_no_inverse:
  assumes "bsz + 16 < 2 ^ 32"
  obtains y i where "prepare_bs_inv bsz = Some (y, i)"
    "\<And>x. (bsz + 16) * x < 2 ^ 32 \<Longrightarrow> unat (drop_bit i (word_of_nat ((bsz + 16) * x)) * y) = x"
proof -
  obtain m where m: "odd m" "bsz + 16 = 2 ^ ctz (bsz + 16) * m" by (rule ctz_decomp [of "bsz + 16"]) simp
  define i where "i = ctz (bsz + 16)"
  have im: "bsz + 16 = 2 ^ i * m" using m(2) by (simp add: i_def)
  have drop: "drop_bit i (word_of_nat ((bsz + 16) * x) :: u32) = word_of_nat (m * x)" if "(bsz + 16) * x < 2 ^ 32" for x
  proof -
    have "drop_bit i (word_of_nat ((bsz + 16) * x) :: u32) = word_of_nat ((bsz + 16) * x div 2 ^ i)"
    proof -
      have "(bsz + 16) * x div 2 ^ i < 2 ^ 32" using that div_le_dividend [of "(bsz + 16) * x" "2 ^ i"] by linarith
      then show ?thesis unfolding word_unat_eq_iff unat_drop_bit_eq unsigned_of_nat using that
        by (simp add: drop_bit_eq_div take_bit_eq_mod)
    qed
    then show ?thesis by (simp add: im)
  qed
  have md: "drop_bit i (word_of_nat (bsz + 16) :: u32) = word_of_nat m" using drop [of 1] assms by simp
  have "bit (word_of_nat m :: u32) 0" using m(1) by (simp add: bit_simps bit_0)
  then obtain y where y: "inverse_loop (1 - word_of_nat m) 1 = Some y" "y * word_of_nat m = 1" by (rule odd_inverse)
  have "prepare_bs_inv bsz = Some (y, i)" using y(1) md by (simp add: prepare_bs_inv_def Let_def flip: i_def)
  moreover have "unat (drop_bit i (word_of_nat ((bsz + 16) * x)) * y) = x" if "(bsz + 16) * x < 2 ^ 32" for x
  proof -
    have "word_of_nat (m * x) * y = y * word_of_nat m * word_of_nat x" by (simp only: of_nat_mult ac_simps)
    then have "word_of_nat (m * x) * y = word_of_nat x" by (simp only: y(2) mult_1)
    moreover have "x < 2 ^ 32" using that by (rule le_less_trans [rotated]) simp
    ultimately show ?thesis using drop [OF that] by (simp add: unsigned_of_nat take_bit_eq_mod)
  qed
  ultimately show ?thesis by (rule that)
qed

subsection \<open>The tree\<close>

text \<open>\<open>anc n l\<close>: node \<open>n\<close> lies on the way from \<open>l\<close> to the root.\<close>

definition anc :: "nat \<Rightarrow> nat \<Rightarrow> bool" where
  "anc n l \<longleftrightarrow> (\<exists>d. l div 2 ^ d = n)"

text \<open>The counters of a tree whose free leaves are \<open>F\<close>.\<close>

definition counts :: "nat \<Rightarrow> nat set \<Rightarrow> nat list \<Rightarrow> bool" where
  "counts tp F fc \<longleftrightarrow> (\<exists>k. tp = 2 ^ k) \<and> length fc = 2 * tp \<and> F \<subseteq> {tp..<2 * tp} \<and> card F < 65536 \<and>
     (\<forall>n. 0 < n \<and> n < 2 * tp \<longrightarrow> fc ! n = card {l \<in> F. anc n l})"

lemma anc_refl [simp]: "anc n n"
  by (auto simp: anc_def intro: exI [of _ 0])

lemma anc_step: "anc n l \<longleftrightarrow> n = l \<or> anc n (l div 2)"
proof -
  have "(\<exists>d. l div 2 ^ d = n) \<longleftrightarrow> l div 2 ^ 0 = n \<or> (\<exists>d. l div 2 ^ Suc d = n)"
    by (metis not0_implies_Suc)
  then show ?thesis by (auto simp: anc_def div_mult2_eq)
qed

lemma anc_le: "anc n l \<Longrightarrow> n \<le> l"
  by (auto simp: anc_def)

lemma anc_parent: "anc n l \<Longrightarrow> anc (n div 2) l"
proof -
  assume "anc n l"
  then obtain d where "l div 2 ^ d = n" by (auto simp: anc_def)
  then have "l div 2 ^ Suc d = n div 2" by (simp add: div_mult2_eq mult.commute [of 2])
  then show ?thesis unfolding anc_def by blast
qed

lemma anc_children:
  assumes "n < l" "0 < n"
  shows "anc n l \<longleftrightarrow> anc (2 * n) l \<or> anc (2 * n + 1) l"
proof
  assume "anc n l"
  then obtain d where d: "l div 2 ^ d = n" by (auto simp: anc_def)
  with assms obtain e where "d = Suc e" by (cases d) auto
  with d have "l div 2 ^ e div 2 = n" by (simp add: div_mult2_eq mult.commute [of 2])
  then have "l div 2 ^ e = 2 * n \<or> l div 2 ^ e = 2 * n + 1" by linarith
  then show "anc (2 * n) l \<or> anc (2 * n + 1) l" unfolding anc_def by blast
next
  assume "anc (2 * n) l \<or> anc (2 * n + 1) l"
  then show "anc n l" using anc_parent [of "2 * n" l] anc_parent [of "2 * n + 1" l] by auto
qed

lemma anc_siblings: "0 < n \<Longrightarrow> anc (2 * n) l \<Longrightarrow> \<not> anc (2 * n + 1) l"
proof
  assume n: "0 < n" "anc (2 * n) l" "anc (2 * n + 1) l"
  then obtain d e where de: "l div 2 ^ d = 2 * n" "l div 2 ^ e = 2 * n + 1" by (auto simp: anc_def)
  have gap: "l div 2 ^ (a + Suc b) \<le> l div 2 ^ a div 2" for a b
    by (simp add: div_mult2_eq power_add) (metis div_le_dividend div_le_mono mult.commute div_mult2_eq)
  consider "d = e" | b where "e = d + Suc b" | b where "d = e + Suc b" by (metis less_iff_Suc_add linorder_neqE_nat add_Suc_right)
  then show False
  proof cases
    case 1
    then show ?thesis using de by simp
  next
    case 2
    then show ?thesis using gap [of d b] de n(1) by simp
  next
    case 3
    then show ?thesis using gap [of e b] de n(1) by simp
  qed
qed

lemma anc_leaf: "tp \<le> n \<Longrightarrow> l < 2 * tp \<Longrightarrow> anc n l \<longleftrightarrow> n = l"
  using anc_le [of n "l div 2"] by (subst anc_step) auto

lemma anc_root: "0 < l \<Longrightarrow> anc 1 l"
proof (induction l rule: less_induct)
  case (less l)
  show ?case
  proof (cases "l = 1")
    case False
    then have "anc 1 (l div 2)" using less by (intro less.IH) auto
    then show ?thesis by (subst anc_step) simp
  qed simp
qed

lemma counts_split:
  assumes "counts tp F fc" "0 < n" "n < tp"
  shows "fc ! n = fc ! (2 * n) + fc ! (2 * n + 1)"
proof -
  from assms have F: "F \<subseteq> {tp..<2 * tp}" "finite F" by (auto simp: counts_def intro: finite_subset)
  have "{l \<in> F. anc n l} = {l \<in> F. anc (2 * n) l} \<union> {l \<in> F. anc (2 * n + 1) l}"
    using F assms anc_children [of n] by fastforce
  moreover have "{l \<in> F. anc (2 * n) l} \<inter> {l \<in> F. anc (2 * n + 1) l} = {}"
    using anc_siblings [OF assms(2)] by blast
  ultimately have "card {l \<in> F. anc n l} = card {l \<in> F. anc (2 * n) l} + card {l \<in> F. anc (2 * n + 1) l}"
    using F by (simp add: card_Un_disjoint)
  with assms show ?thesis by (auto simp: counts_def)
qed

lemma counts_leaf:
  assumes "counts tp F fc" "tp \<le> n" "n < 2 * tp"
  shows "fc ! n = (if n \<in> F then 1 else 0)"
proof -
  have "{l \<in> F. anc n l} = (if n \<in> F then {n} else {})"
    using assms anc_leaf [of tp n] by (auto simp: counts_def)
  moreover have "0 < n" using assms by (auto simp: counts_def)
  ultimately show ?thesis using assms by (simp add: counts_def)
qed

lemma counts_root:
  assumes "counts tp F fc"
  shows "fc ! 1 = card F"
proof -
  have tp: "0 < tp" "F \<subseteq> {tp..<2 * tp}" using assms by (auto simp: counts_def)
  then have "{l \<in> F. anc 1 l} = F" using anc_root by auto
  with assms tp show ?thesis unfolding counts_def by simp
qed

lemma dec16_pos:
  assumes "0 < n" "n < 65536"
  shows "dec16 n = n - 1"
proof -
  from assms obtain m where "n = Suc m" by (cases n) auto
  with assms show ?thesis by (simp add: dec16_def)
qed

text \<open>A path update touches the ancestors of the leaf.\<close>

lemma path_upd_nth:
  "k < length fc \<Longrightarrow> \<exists>fc'. path_upd f k fc = Some fc' \<and> length fc' = length fc \<and>
     (\<forall>n. n < length fc \<longrightarrow> fc' ! n = (if 0 < n \<and> anc n k then f (fc ! n) else fc ! n))"
proof (induction k arbitrary: fc rule: less_induct)
  case (less k)
  show ?case
  proof (cases "k = 0")
    case True
    then show ?thesis using anc_le [of _ 0] by (auto simp: path_upd.simps)
  next
    case False
    let ?fc = "fc[k := f (fc ! k)]"
    have "k div 2 < k" "k div 2 < length ?fc" using False less.prems by auto
    from less.IH [OF this] obtain fc' where fc':
      "path_upd f (k div 2) ?fc = Some fc'" "length fc' = length fc"
      "\<And>n. n < length fc \<Longrightarrow> fc' ! n = (if 0 < n \<and> anc n (k div 2) then f (?fc ! n) else ?fc ! n)" by auto
    have "\<not> anc k (k div 2)" using anc_le [of k "k div 2"] False by auto
    with fc' show ?thesis using False less.prems
      by (intro exI [of _ fc']) (auto simp: path_upd.simps [of f k] anc_step [of _ k] nth_list_update)
  qed
qed

lemma counts_dec:
  assumes "counts tp F fc" "i \<in> F"
  obtains fc' where "path_upd dec16 i fc = Some fc'" "counts tp (F - {i}) fc'"
proof -
  from assms have F: "F \<subseteq> {tp..<2 * tp}" "finite F" and len: "length fc = 2 * tp" by (auto simp: counts_def intro: finite_subset)
  from path_upd_nth [of i fc dec16] F assms(2) len obtain fc' where fc':
    "path_upd dec16 i fc = Some fc'" "length fc' = length fc"
    "\<And>n. n < length fc \<Longrightarrow> fc' ! n = (if 0 < n \<and> anc n i then dec16 (fc ! n) else fc ! n)" by fastforce
  have "fc' ! n = card {l \<in> F - {i}. anc n l}" if n: "0 < n" "n < 2 * tp" for n
  proof -
    have c: "fc ! n = card {l \<in> F. anc n l}" using assms n by (simp add: counts_def)
    have eq: "{l \<in> F - {i}. anc n l} = {l \<in> F. anc n l} - {i}" by blast
    show ?thesis
    proof (cases "anc n i")
      case True
      then have i: "i \<in> {l \<in> F. anc n l}" using assms(2) by blast
      have fin: "finite {l \<in> F. anc n l}" using F by simp
      have "0 < fc ! n" unfolding c using i fin by (auto simp: card_gt_0_iff)
      moreover have "fc ! n < 65536"
        unfolding c using assms card_mono [OF F(2), of "{l \<in> F. anc n l}"] by (auto simp: counts_def)
      ultimately have "dec16 (fc ! n) = fc ! n - 1" by (rule dec16_pos)
      with fc'(3) [of n] n len True i fin show ?thesis unfolding eq by (simp add: c)
    qed (unfold eq, use fc'(3) [of n] n len c in simp)
  qed
  moreover have "card (F - {i}) < 65536" using assms card_mono [OF F(2), of "F - {i}"] by (auto simp: counts_def)
  ultimately have "counts tp (F - {i}) fc'" using assms fc'(2) by (auto simp: counts_def)
  with fc'(1) show ?thesis by (rule that)
qed

lemma counts_inc:
  assumes "counts tp F fc" "i \<notin> F" "tp \<le> i" "i < 2 * tp" "card F < 65535"
  obtains fc' where "path_upd inc16 i fc = Some fc'" "counts tp (insert i F) fc'"
proof -
  from assms have F: "F \<subseteq> {tp..<2 * tp}" "finite F" and len: "length fc = 2 * tp" by (auto simp: counts_def intro: finite_subset)
  from path_upd_nth [of i fc inc16] assms len obtain fc' where fc':
    "path_upd inc16 i fc = Some fc'" "length fc' = length fc"
    "\<And>n. n < length fc \<Longrightarrow> fc' ! n = (if 0 < n \<and> anc n i then inc16 (fc ! n) else fc ! n)" by fastforce
  have "fc' ! n = card {l \<in> insert i F. anc n l}" if n: "0 < n" "n < 2 * tp" for n
  proof -
    have c: "fc ! n = card {l \<in> F. anc n l}" using assms n by (simp add: counts_def)
    have eq: "{l \<in> insert i F. anc n l} = (if anc n i then insert i {l \<in> F. anc n l} else {l \<in> F. anc n l})" by auto
    have "fc ! n < 65535" unfolding c using assms card_mono [OF F(2), of "{l \<in> F. anc n l}"] by auto
    then have "inc16 (fc ! n) = fc ! n + 1" by (simp add: inc16_def)
    then show ?thesis unfolding eq using fc'(3) [of n] n len assms(2) F(2) by (simp add: c)
  qed
  with assms fc'(2) F have "counts tp (insert i F) fc'" by (auto simp: counts_def card_insert_if)
  with fc'(1) show ?thesis by (rule that)
qed

lemma path_upd_step:
  assumes "0 < i" "i < length fc" "path_upd f (i div 2) fc = Some fc1"
  shows "path_upd f i fc = Some (fc1[i := f (fc ! i)])" "length fc1 = length fc" "\<And>n. i div 2 < n \<Longrightarrow> n < length fc \<Longrightarrow> fc1 ! n = fc ! n"
proof -
  have len: "i div 2 < length fc" using assms by linarith
  from path_upd_nth [OF this, of f] assms(3) have fc1: "length fc1 = length fc"
    "\<And>n. n < length fc \<Longrightarrow> fc1 ! n = (if 0 < n \<and> anc n (i div 2) then f (fc ! n) else fc ! n)" by auto
  from path_upd_nth [OF assms(2), of f] obtain fc2 where fc2: "path_upd f i fc = Some fc2" "length fc2 = length fc"
    "\<And>n. n < length fc \<Longrightarrow> fc2 ! n = (if 0 < n \<and> anc n i then f (fc ! n) else fc ! n)" by auto
  have "fc2 = fc1[i := f (fc ! i)]"
    using fc1 fc2 assms(1,2) by (intro nth_equalityI) (auto simp: nth_list_update anc_step [of _ i])
  with fc2(1) show "path_upd f i fc = Some (fc1[i := f (fc ! i)])" by simp
  show "length fc1 = length fc" by (fact fc1(1))
  show "fc1 ! n = fc ! n" if "i div 2 < n" "n < length fc" for n
    using fc1(2) [OF that(2)] anc_le [of n "i div 2"] that(1) by auto
qed

lemma descend_rand_path:
  assumes "counts tp F fc0"
  shows "0 < i \<Longrightarrow> i < 2 * tp \<Longrightarrow> j < fc0 ! i \<Longrightarrow> path_upd dec16 (i div 2) fc0 = Some fc \<Longrightarrow>
    \<exists>leaf fc'. leaf \<in> F \<and> descend_rand tp i j fc = Some (leaf, fc') \<and> path_upd dec16 leaf fc0 = Some fc'"
proof (induction "2 * tp - i" arbitrary: i j fc rule: less_induct)
  case less
  have len: "length fc0 = 2 * tp" using assms by (simp add: counts_def)
  note st = path_upd_step [OF less.prems(1) _ less.prems(4), unfolded len, OF less.prems(2)]
  have ci: "fc ! i = fc0 ! i" using st(3) [of i] less.prems(1,2) by simp
  let ?fc = "fc[i := dec16 (fc0 ! i)]"
  show ?case
  proof (cases "i < tp")
    case True
    have ch: "?fc ! (2 * i) = fc0 ! (2 * i)" using st(3) [of "2 * i"] less.prems(1) True by simp
    have m: "2 * tp - (2 * i + 1) < 2 * tp - i" "2 * tp - 2 * i < 2 * tp - i" using True less.prems(1) by linarith+
    show ?thesis
    proof (cases "fc0 ! (2 * i) \<le> j")
      case right: True
      have "j - fc0 ! (2 * i) < fc0 ! (2 * i + 1)"
        using counts_split [OF assms less.prems(1) True] less.prems(3) right by linarith
      from less.hyps [OF m(1) _ _ this, of ?fc] True less.prems(1) st(1) obtain leaf fc' where
        "leaf \<in> F" "descend_rand tp (2 * i + 1) (j - fc0 ! (2 * i)) ?fc = Some (leaf, fc')" "path_upd dec16 leaf fc0 = Some fc'"
        by auto
      then show ?thesis using True right ci ch st(2)
        by (subst descend_rand.simps) (simp add: cnt_dec_def cnt_at_def len)
    next
      case left: False
      then have "j < fc0 ! (2 * i)" by simp
      from less.hyps [OF m(2) _ _ this, of ?fc] True less.prems(1) st(1) obtain leaf fc' where
        "leaf \<in> F" "descend_rand tp (2 * i) j ?fc = Some (leaf, fc')" "path_upd dec16 leaf fc0 = Some fc'"
        by auto
      then show ?thesis using True left ci ch st(2)
        by (subst descend_rand.simps) (simp add: cnt_dec_def cnt_at_def len)
    qed
  next
    case False
    then have leaf: "i \<in> F" "fc0 ! i = 1" using counts_leaf [OF assms, of i] less.prems(2,3) by (auto split: if_splits)
    then show ?thesis using False ci st less.prems(2)
      by (intro exI [of _ i] exI [of _ ?fc], subst descend_rand.simps) (simp add: cnt_dec_def cnt_at_def len dec16_def)
  qed
qed

lemma path_upd_outside:
  assumes "i < n" "n < length fc"
  shows "path_upd f i (fc[n := v]) = map_option (\<lambda>fc'. fc'[n := v]) (path_upd f i fc)"
proof -
  from path_upd_nth [of i fc f] assms obtain fc1 where fc1: "path_upd f i fc = Some fc1" "length fc1 = length fc"
    "\<And>n. n < length fc \<Longrightarrow> fc1 ! n = (if 0 < n \<and> anc n i then f (fc ! n) else fc ! n)" by auto
  from path_upd_nth [of i "fc[n := v]" f] assms obtain fc2 where fc2: "path_upd f i (fc[n := v]) = Some fc2" "length fc2 = length fc"
    "\<And>m. m < length fc \<Longrightarrow> fc2 ! m = (if 0 < m \<and> anc m i then f (fc[n := v] ! m) else fc[n := v] ! m)" by auto
  have "fc2 = fc1[n := v]"
    using fc1 fc2 assms anc_le [of n i] by (intro nth_equalityI) (auto simp: nth_list_update)
  with fc1 fc2 show ?thesis by simp
qed

lemma descend_first_path:
  assumes "counts tp F fc0"
  shows "0 < i \<Longrightarrow> i < 2 * tp \<Longrightarrow> 0 < fc0 ! i \<Longrightarrow> k \<le> i \<Longrightarrow> length fc = 2 * tp \<Longrightarrow> \<forall>n. i < n \<and> n < 2 * tp \<longrightarrow> fc ! n = fc0 ! n \<Longrightarrow>
    path_upd dec16 k fc = path_upd dec16 i fc0 \<Longrightarrow>
    \<exists>leaf fc'. leaf \<in> F \<and> descend_first tp i fc = Some (leaf, fc') \<and> path_upd dec16 k fc' = path_upd dec16 leaf fc0"
proof (induction "2 * tp - i" arbitrary: i fc rule: less_induct)
  case less
  have len: "length fc0 = 2 * tp" using assms by (simp add: counts_def)
  show ?case
  proof (cases "i < tp")
    case True
    define i' where "i' = (if fc ! (2 * i) = 0 then 2 * i + 1 else 2 * i)"
    have i': "i < i'" "i' < 2 * tp" "i' div 2 = i" using True less.prems(1) by (auto simp: i'_def)
    have "fc ! (2 * i) = fc0 ! (2 * i)" using less.prems(1,6) True by simp
    then have pos: "0 < fc0 ! i'" using counts_split [OF assms less.prems(1) True] less.prems(3) by (auto simp: i'_def)
    have at': "fc ! i' = fc0 ! i'" using less.prems(6) i' by simp
    let ?fc = "fc[i' := dec16 (fc0 ! i')]"
    obtain z where z: "path_upd dec16 i fc0 = Some z" using path_upd_nth [of i fc0 dec16] less.prems(2) len by auto
    have "path_upd dec16 k ?fc = path_upd dec16 i' fc0"
      using path_upd_step(1) [of i' fc0 dec16 z] path_upd_outside [of k i' fc] i' less.prems(4,5,7) len z by simp
    moreover have "\<forall>n. i' < n \<and> n < 2 * tp \<longrightarrow> ?fc ! n = fc0 ! n" using less.prems(6) i'(1) by simp
    moreover have "2 * tp - i' < 2 * tp - i" "0 < i'" "k \<le> i'" "length ?fc = 2 * tp" using i'(1,2) less.prems(4,5) by simp_all
    ultimately obtain leaf fc' where
      "leaf \<in> F" "descend_first tp i' ?fc = Some (leaf, fc')" "path_upd dec16 k fc' = path_upd dec16 leaf fc0"
      using less.hyps [of i' ?fc] i'(2) pos by blast
    then show ?thesis using True less.prems(5) i'(2) at'
      by (subst descend_first.simps) (simp add: cnt_at_def cnt_dec_def flip: i'_def)
  next
    case False
    then have "i \<in> F" using counts_leaf [OF assms, of i] less.prems(2,3) by (auto split: if_splits)
    then show ?thesis using False less.prems(7) by (subst descend_first.simps) auto
  qed
qed

lemma neighbor_search_path:
  assumes "counts tp F fc"
  shows "0 < i \<Longrightarrow> i < 2 * tp \<Longrightarrow> 0 < fc ! i \<Longrightarrow> 0 < j \<Longrightarrow> j < 2 * tp \<Longrightarrow> 0 < fc ! j \<Longrightarrow>
    \<exists>k leaf fc'. leaf \<in> F \<and> neighbor_search tp x i j l r fc = Some (k, leaf, fc') \<and> path_upd dec16 k fc' = path_upd dec16 leaf fc"
proof (induction "2 * tp - i" arbitrary: i j l r rule: less_induct)
  case less
  have len: "length fc = 2 * tp" using assms by (simp add: counts_def)
  show ?case
  proof (cases "i < tp")
    case True
    let ?m = "(l + r) div 2"
    note split = counts_split [OF assms less.prems(1) True]
    have go: "\<exists>k leaf fc'. leaf \<in> F \<and> neighbor_search tp x i' j' l' r' fc = Some (k, leaf, fc') \<and>
        path_upd dec16 k fc' = path_upd dec16 leaf fc"
      if "i' = 2 * i \<or> i' = 2 * i + 1" "0 < fc ! i'" "j' = j \<or> j' = 2 * i + 1 \<and> 0 < fc ! j'" for i' j' l' r'
    proof -
      have "2 * tp - i' < 2 * tp - i" "0 < i'" "i' < 2 * tp" using that(1) True less.prems(1) by auto
      moreover have "0 < j'" "j' < 2 * tp" "0 < fc ! j'" using that(3) True less.prems(4,5,6) by auto
      ultimately show ?thesis using less.hyps [of i' j' l' r'] that(2) by blast
    qed
    consider "x < ?m" "0 < fc ! (2 * i)" | "x < ?m" "fc ! (2 * i) = 0" "0 < fc ! (2 * i + 1)"
      | "\<not> x < ?m" "0 < fc ! (2 * i + 1)" | "\<not> x < ?m" "fc ! (2 * i + 1) = 0"
      using split less.prems(3) by fastforce
    then show ?thesis
    proof cases
      case 4
      from descend_first_path [OF assms less.prems(4,5,6), of j fc] len obtain leaf fc' where
        "leaf \<in> F" "descend_first tp j fc = Some (leaf, fc')" "path_upd dec16 j fc' = path_upd dec16 leaf fc" by auto
      with 4 True show ?thesis by (subst neighbor_search.simps) (simp add: cnt_at_def len Let_def)
    next
      case 1
      then show ?thesis using True go [of "2 * i" "if fc ! (2 * i + 1) > 0 then 2 * i + 1 else j" l ?m]
        by (subst neighbor_search.simps) (auto simp: cnt_at_def len Let_def)
    next
      case 2
      then show ?thesis using True go [of "2 * i + 1" j ?m r] by (subst neighbor_search.simps) (simp add: cnt_at_def len Let_def)
    next
      case 3
      then show ?thesis using True go [of "2 * i + 1" j ?m r] by (subst neighbor_search.simps) (simp add: cnt_at_def len Let_def)
    qed
  next
    case False
    then have "i \<in> F" using counts_leaf [OF assms, of i] less.prems(2,3) by (auto split: if_splits)
    then show ?thesis using False by (subst neighbor_search.simps) auto
  qed
qed

lemma alloc_near_counts:
  assumes "counts tp F fc" "F \<noteq> {}" "x < tp"
  obtains leaf fc' where "leaf \<in> F" "alloc_near tp x fc = Some (leaf, fc')" "counts tp (F - {leaf}) fc'"
proof -
  have len: "length fc = 2 * tp" and fin: "finite F" using assms(1) by (auto simp: counts_def intro: finite_subset)
  have tp: "0 < tp" using assms(1) by (auto simp: counts_def)
  have root: "0 < fc ! 1" using counts_root [OF assms(1)] assms(2) fin by (simp add: card_gt_0_iff)
  have "\<exists>leaf fc'. leaf \<in> F \<and> alloc_near tp x fc = Some (leaf, fc') \<and> path_upd dec16 leaf fc = Some fc'"
  proof (cases "x < tp - 1 \<and> fc ! (tp + x + 1) \<noteq> 0")
    case True
    then have F: "tp + x + 1 \<in> F" using counts_leaf [OF assms(1), of "tp + x + 1"] by (auto split: if_splits)
    then obtain fc' where "path_upd dec16 (tp + x + 1) fc = Some fc'" by (rule counts_dec [OF assms(1)])
    with True F show ?thesis by (intro exI [of _ "tp + x + 1"] exI [of _ fc']) (auto simp: alloc_near_def cnt_at_def len)
  next
    case False
    from neighbor_search_path [OF assms(1), of 1 1 x 0 tp] root tp obtain k leaf fc1 where
      k: "leaf \<in> F" "neighbor_search tp x 1 1 0 tp fc = Some (k, leaf, fc1)" "path_upd dec16 k fc1 = path_upd dec16 leaf fc" by auto
    obtain fc' where "path_upd dec16 leaf fc = Some fc'" using k(1) by (rule counts_dec [OF assms(1)])
    with k False show ?thesis
      by (intro exI [of _ leaf] exI [of _ fc']) (cases "x < tp - 1"; simp add: alloc_near_def cnt_at_def len)
  qed
  then show ?thesis using counts_dec [OF assms(1)] that by (metis option.inject)
qed

lemma descend_rand_counts:
  assumes "counts tp F fc" "j < card F"
  obtains leaf fc' where "leaf \<in> F" "descend_rand tp 1 j fc = Some (leaf, fc')" "counts tp (F - {leaf}) fc'"
proof -
  have "0 < tp" using assms(1) by (auto simp: counts_def)
  with descend_rand_path [OF assms(1), of 1 j fc] counts_root [OF assms(1)] assms(2) obtain leaf fc' where
    "leaf \<in> F" "descend_rand tp 1 j fc = Some (leaf, fc')" "path_upd dec16 leaf fc = Some fc'"
    by (auto simp: path_upd.simps [of _ 0])
  with counts_dec [OF assms(1), of leaf] that show ?thesis by (metis option.inject)
qed

lemma init_counts_counts:
  assumes "tp = 2 ^ k" "n \<le> tp" "n < 65536"
  shows "counts tp {tp..<tp + n} (init_counts tp n)"
proof -
  let ?S = "{tp..<tp + n}"
  let ?leaves = "replicate tp 0 @ replicate n 1 @ replicate (tp - n) 0 :: nat list"
  define st where "st m = fold (\<lambda>i fc. fc[i := (fc ! (2 * i) + fc ! (2 * i + 1)) mod 65536]) (rev [m..<tp]) ?leaves" for m
  have tp: "1 \<le> tp" using assms(1) by simp
  have sum: "card {l \<in> ?S. anc i l} = card {l \<in> ?S. anc (2 * i) l} + card {l \<in> ?S. anc (2 * i + 1) l}" if "0 < i" "i < tp" for i
  proof -
    have "{l \<in> ?S. anc i l} = {l \<in> ?S. anc (2 * i) l} \<union> {l \<in> ?S. anc (2 * i + 1) l}"
      using that anc_children [of i] by fastforce
    then show ?thesis using anc_siblings [OF that(1)] by (simp add: card_Un_disjoint disjoint_iff)
  qed
  have small: "card {l \<in> ?S. anc i l} < 65536" for i
  proof -
    have "card {l \<in> ?S. anc i l} \<le> card ?S" by (intro card_mono) auto
    then show ?thesis using assms(3) by simp
  qed
  have "length (st 1) = 2 * tp \<and> (\<forall>i. 1 \<le> i \<and> i < 2 * tp \<longrightarrow> st 1 ! i = card {l \<in> ?S. anc i l})"
    using tp
  proof (induction rule: inc_induct)
    case base
    have "?leaves ! i = card {l \<in> ?S. anc i l}" if "tp \<le> i" "i < 2 * tp" for i
    proof -
      have "anc i l \<longleftrightarrow> i = l" if "l \<in> ?S" for l using \<open>tp \<le> i\<close> that assms(2) by (intro anc_leaf [of tp]) auto
      then have "{l \<in> ?S. anc i l} = (if i < tp + n then {i} else {})" using that(1) by (auto split: if_splits)
      then show ?thesis using that by (cases "i < tp + n") (simp_all add: nth_append less_diff_conv2 add.commute)
    qed
    then show ?case using assms(2) by (simp add: st_def)
  next
    case (step m)
    have eq: "st m = (st (Suc m))[m := (st (Suc m) ! (2 * m) + st (Suc m) ! (2 * m + 1)) mod 65536]"
      using step.hyps(2) by (simp add: st_def upt_conv_Cons)
    have "st m ! i = card {l \<in> ?S. anc i l}" if "m \<le> i" "i < 2 * tp" for i
    proof (cases "i = m")
      case True
      have "st (Suc m) ! (2 * m) = card {l \<in> ?S. anc (2 * m) l}" "st (Suc m) ! (2 * m + 1) = card {l \<in> ?S. anc (2 * m + 1) l}"
        using step that by auto
      then show ?thesis using True step sum [of m] small [of m] by (simp add: eq)
    qed (use step that in \<open>simp add: eq\<close>)
    then show ?case using step by (simp add: eq)
  qed
  then show ?thesis using assms by (auto simp: counts_def init_counts_def st_def)
qed

subsection \<open>The invariant of the pool\<close>

definition free_leaves :: "msg_buffers_chunk \<Rightarrow> nat set" where
  "free_leaves C = {l. two_power C \<le> l \<and> l < 2 * two_power C \<and> free_cnt C ! l \<noteq> 0}"

definition chunk_ok :: "msg_buffers_chunk \<Rightarrow> bool" where
  "chunk_ok C \<longleftrightarrow> counts (two_power C) (free_leaves C) (free_cnt C) \<and> free_leaves C \<subseteq> {two_power C..<two_power C + tot_buffers C} \<and>
     tot_buffers C \<le> two_power C \<and> tot_buffers C < 65536 \<and>
     (\<forall>x<tot_buffers C. get_buffer_no C (x * (buffer_size C + 16)) = Some x) \<and>
     ch_head C < 5 \<and> buffer_size C = default_buffer_sizes ! ch_head C"

definition used :: "buffer_pool \<Rightarrow> buffer_ptr set" where
  "used p = {(c, x * (buffer_size (chunks p ! c) + 16)) | c x. c < length (chunks p) \<and> x < tot_buffers (chunks p ! c) \<and>
     two_power (chunks p ! c) + x \<notin> free_leaves (chunks p ! c)}"

definition ptr_size :: "buffer_pool \<Rightarrow> buffer_ptr \<Rightarrow> nat" where
  "ptr_size p b = buffer_size (chunks p ! fst b)"

definition lists_ok :: "buffer_pool \<Rightarrow> bool" where
  "lists_ok p \<longleftrightarrow> length (ch_lists p) = 5 \<and> length (chunk_save p) = 5 \<and>
     (\<forall>si<5. set (ch_lists p ! si) = {c. c < length (chunks p) \<and> ch_head (chunks p ! c) = si} \<and>
        (\<forall>h. chunk_save p ! si = Some h \<longrightarrow> h \<in> set (ch_lists p ! si)))"

definition pool_ok :: "buffer_pool \<Rightarrow> bool" where
  "pool_ok p \<longleftrightarrow> list_all chunk_ok (chunks p) \<and> lists_ok p \<and> (\<forall>n. lrand p n < 2 ^ 31) \<and>
     total_used_buffers p = int (card (used p)) \<and> total_used_buffers_size p = int (\<Sum>b\<in>used p. ptr_size p b)"

lemma chunk_geometry:
  assumes "si < 5"
  shows "let n = default_buffer_sizes ! si in
    0 < chunk_buffers n \<and> chunk_buffers n < 65536 \<and> chunk_buffers n \<le> chunk_two_power n \<and>
    (\<exists>k. chunk_two_power n = 2 ^ k) \<and> (n + 16) * chunk_buffers n < 2 ^ 32"
proof -
  have tps: "map chunk_two_power default_buffer_sizes = [2 ^ 15, 2 ^ 12, 2 ^ 10, 2 ^ 7, 2 ^ 3]"
    by (simp add: default_buffer_sizes_def chunk_two_power_def MSG_BUFFERS_CHUNK_SIZE_def FREE_CNT_OFFSET_def BUFF_HD_BYTES_def
        two_power_above.simps)
  then have ns: "map chunk_buffers default_buffer_sizes = [30716, 3940, 1013, 127, 7]"
    by (simp add: default_buffer_sizes_def chunk_buffers_def MSG_BUFFERS_CHUNK_SIZE_def FREE_CNT_OFFSET_def BUFF_HD_BYTES_def
        chunk_align_def ctz.simps Let_def)
  from assms have si: "si = 0 \<or> si = 1 \<or> si = 2 \<or> si = 3 \<or> si = 4" by linarith
  have "chunk_two_power (default_buffer_sizes ! si) = 2 ^ ([15, 12, 10, 7, 3] ! si)"
    using si tps by (elim disjE) (simp_all add: default_buffer_sizes_def)
  moreover have "let n = default_buffer_sizes ! si in
      0 < chunk_buffers n \<and> chunk_buffers n < 65536 \<and> chunk_buffers n \<le> chunk_two_power n \<and> (n + 16) * chunk_buffers n < 2 ^ 32"
    using si tps ns by (elim disjE) (simp_all add: default_buffer_sizes_def Let_def)
  ultimately show ?thesis unfolding Let_def by blast
qed

lemma free_leaves_counts: "counts (two_power C) F (free_cnt C) \<Longrightarrow> free_leaves C = F"
proof (intro set_eqI iffI)
  assume cnt: "counts (two_power C) F (free_cnt C)"
  then have F: "F \<subseteq> {two_power C..<2 * two_power C}" by (simp add: counts_def)
  show "l \<in> F" if "l \<in> free_leaves C" for l
    using that counts_leaf [OF cnt, of l] by (auto simp: free_leaves_def split: if_splits)
  show "l \<in> free_leaves C" if "l \<in> F" for l
    using that F counts_leaf [OF cnt, of l] by (auto simp: free_leaves_def)
qed

lemma new_chunk_ok:
  assumes "si < 5"
  obtains C where "new_chunk si = Some C" "chunk_ok C" "ch_head C = si" "free_leaves C = {two_power C..<two_power C + tot_buffers C}"
    "0 < tot_buffers C"
proof -
  let ?n = "default_buffer_sizes ! si"
  from chunk_geometry [OF assms] obtain k where g: "0 < chunk_buffers ?n" "chunk_buffers ?n < 65536" "chunk_buffers ?n \<le> chunk_two_power ?n"
    "chunk_two_power ?n = 2 ^ k" "(?n + 16) * chunk_buffers ?n < 2 ^ 32" by (auto simp: Let_def)
  have "?n + 16 < 2 ^ 32" using g(1,5) by (cases "chunk_buffers ?n") auto
  from get_buffer_no_inverse [OF this] obtain y i where yi: "prepare_bs_inv ?n = Some (y, i)"
    "\<And>x. (?n + 16) * x < 2 ^ 32 \<Longrightarrow> unat (drop_bit i (word_of_nat ((?n + 16) * x)) * y) = x" by metis
  define C where "C = \<lparr>buffer_size = ?n, two_power = chunk_two_power ?n, tot_buffers = chunk_buffers ?n, bs_inverse = y,
    bs_shift = i, free_cnt = init_counts (chunk_two_power ?n) (chunk_buffers ?n), ch_head = si\<rparr>"
  have new: "new_chunk si = Some C" using g yi(1) by (simp add: new_chunk_def Let_def C_def)
  have cnt: "counts (two_power C) {two_power C..<two_power C + tot_buffers C} (free_cnt C)"
    using init_counts_counts [OF g(4,3,2)] by (simp add: C_def)
  note fl = free_leaves_counts [OF cnt]
  have "get_buffer_no C (x * (buffer_size C + 16)) = Some x" if "x < tot_buffers C" for x
  proof -
    have "(?n + 16) * x < 2 ^ 32"
      using that g(5) by (intro le_less_trans [OF mult_le_mono2 g(5)]) (simp add: C_def)
    from yi(2) [OF this] that show ?thesis by (simp add: get_buffer_no_def C_def mult.commute Let_def)
  qed
  then have "chunk_ok C" using cnt fl g assms by (simp add: chunk_ok_def) (simp add: C_def)
  with new fl g(1) that show ?thesis by (simp add: C_def)
qed

lemma used_chunk_upd:
  assumes "c < length (chunks p)" "two_power C' = two_power (chunks p ! c)" "tot_buffers C' = tot_buffers (chunks p ! c)"
    "buffer_size C' = buffer_size (chunks p ! c)" "x < tot_buffers C'"
  shows "free_leaves C' = free_leaves (chunks p ! c) - {two_power C' + x} \<Longrightarrow>
      used (p\<lparr>chunks := (chunks p)[c := C']\<rparr>) = insert (c, x * (buffer_size C' + 16)) (used p)"
    "free_leaves C' = insert (two_power C' + x) (free_leaves (chunks p ! c)) \<Longrightarrow>
      used (p\<lparr>chunks := (chunks p)[c := C']\<rparr>) = used p - {(c, x * (buffer_size C' + 16))}"
  using assms by (auto simp: used_def nth_list_update split: if_splits)

lemma finite_used: "finite (used p)"
proof -
  have "used p \<subseteq> (\<Union>c<length (chunks p). (\<lambda>x. (c, x * (buffer_size (chunks p ! c) + 16))) ` {..<tot_buffers (chunks p ! c)})"
    by (auto simp: used_def)
  then show ?thesis by (rule finite_subset) simp
qed

lemma used_ptr:
  assumes "pool_ok p" "b \<in> used p"
  obtains c x where "b = (c, x * (buffer_size (chunks p ! c) + 16))" "c < length (chunks p)" "x < tot_buffers (chunks p ! c)"
    "two_power (chunks p ! c) + x \<notin> free_leaves (chunks p ! c)" "chunk_ok (chunks p ! c)"
    "get_buffer_no (chunks p ! c) (snd b) = Some x"
  using assms by (auto simp: used_def pool_ok_def list_all_length chunk_ok_def)

text \<open>The choice of a buffer in a chunk with a free one takes a free leaf.\<close>

lemma choose_buffer_ok:
  assumes ok: "chunk_ok C" "free_leaves C \<noteq> {}" "rnd < 2 ^ 31"
    and nb: "\<And>off. nb = Some (c, off) \<Longrightarrow> \<exists>x < tot_buffers C. get_buffer_no C off = Some x"
  obtains i fc where "i \<in> free_leaves C" "choose_buffer nb c rnd C = Some (i, fc)" "counts (two_power C) (free_leaves C - {i}) fc"
proof -
  have cnt: "counts (two_power C) (free_leaves C) (free_cnt C)" and tot: "tot_buffers C \<le> two_power C"
    using ok by (auto simp: chunk_ok_def)
  have fin: "finite (free_leaves C)" by (simp add: free_leaves_def)
  let ?n = "card (free_leaves C)"
  have pos: "0 < ?n" using ok(2) fin by (simp add: card_gt_0_iff)
  have j: "rnd * min ?n 16 div 2 ^ 31 < ?n"
  proof -
    define m where "m = min ?n 16"
    have m: "0 < m" "m \<le> ?n" using pos by (auto simp: m_def)
    then have "rnd * m < 2 ^ 31 * m" using ok(3) by (intro mult_strict_right_mono)
    then have "rnd * m div 2 ^ 31 < m" by (simp add: div_less_iff_less_mult mult.commute)
    then show ?thesis using m(2) by (simp flip: m_def)
  qed
  show ?thesis
  proof (cases "\<exists>off. nb = Some (c, off)")
    case True
    then obtain off x where nb': "nb = Some (c, off)" "x < tot_buffers C" "get_buffer_no C off = Some x" using nb by blast
    then have "x < two_power C" using tot by simp
    then obtain leaf fc where "leaf \<in> free_leaves C" "alloc_near (two_power C) x (free_cnt C) = Some (leaf, fc)"
      "counts (two_power C) (free_leaves C - {leaf}) fc" by (rule alloc_near_counts [OF cnt ok(2)])
    with nb' show ?thesis by (intro that [of leaf fc]) (simp_all add: choose_buffer_def Let_def)
  next
    case False
    obtain leaf fc where l: "leaf \<in> free_leaves C"
      "descend_rand (two_power C) 1 (rnd * min ?n 16 div 2 ^ 31) (free_cnt C) = Some (leaf, fc)"
      "counts (two_power C) (free_leaves C - {leaf}) fc" by (rule descend_rand_counts [OF cnt j])
    then have "choose_buffer nb c rnd C = Some (leaf, fc)"
      using False counts_root [OF cnt] by (auto simp: choose_buffer_def Let_def split: option.splits)
    with l show ?thesis by (intro that [of leaf fc])
  qed
qed

lemma pool_ok_chunk:
  "pool_ok p \<Longrightarrow> c < length (chunks p) \<Longrightarrow> chunk_ok (chunks p ! c)"
  by (simp add: pool_ok_def list_all_length)

lemma get_buffer_no_free_cnt [simp]: "get_buffer_no (C\<lparr>free_cnt := fc\<rparr>) off = get_buffer_no C off"
  by (simp add: get_buffer_no_def)

text \<open>A change of one chunk that keeps its geometry.\<close>

lemma chunk_ok_free_cnt:
  assumes "chunk_ok C" "counts (two_power C) F fc" "F \<subseteq> {two_power C..<two_power C + tot_buffers C}"
  shows "chunk_ok (C\<lparr>free_cnt := fc\<rparr>)" "free_leaves (C\<lparr>free_cnt := fc\<rparr>) = F"
proof -
  show fl: "free_leaves (C\<lparr>free_cnt := fc\<rparr>) = F" using free_leaves_counts [of "C\<lparr>free_cnt := fc\<rparr>" F] assms(2) by simp
  then show "chunk_ok (C\<lparr>free_cnt := fc\<rparr>)" using assms by (auto simp: chunk_ok_def)
qed

lemma has_free_iff: "chunk_ok (chunks p ! c) \<Longrightarrow> has_free p c \<longleftrightarrow> free_leaves (chunks p ! c) \<noteq> {}"
proof -
  assume "chunk_ok (chunks p ! c)"
  then have "free_cnt (chunks p ! c) ! 1 = card (free_leaves (chunks p ! c))" by (auto simp: chunk_ok_def dest: counts_root)
  moreover have "finite (free_leaves (chunks p ! c))" by (simp add: free_leaves_def)
  ultimately show ?thesis by (simp add: has_free_def)
qed

text \<open>The chunk chosen has a free buffer; only when there is none and the limit is reached, nothing is found.\<close>

definition pool_full :: "buffer_pool \<Rightarrow> nat \<Rightarrow> bool" where
  "pool_full p si \<longleftrightarrow> max_buffer_chunks p \<le> length (chunks p) \<and> (chunk_save p ! si = None \<or> (\<forall>c<length (chunks p).
     ch_head (chunks p ! c) = si \<longrightarrow> \<not> has_free p c))"

lemma alloc_new_ok:
  assumes "pool_ok p" "si < 5"
  obtains "alloc_new_msg_buffers_chunk si p = Some (None, p)" "max_buffer_chunks p \<le> length (chunks p)"
  | c p' where "alloc_new_msg_buffers_chunk si p = Some (Some c, p')" "pool_ok p'" "used p' = used p" "c < length (chunks p')"
      "ch_head (chunks p' ! c) = si" "has_free p' c" "\<forall>b\<in>used p. ptr_size p' b = ptr_size p b" "\<forall>b\<in>used p. fst b < length (chunks p)"
      "\<forall>c<length (chunks p). chunks p' ! c = chunks p ! c" "lrand p' = lrand p" "lrand_pos p' = lrand_pos p"
proof (cases "max_buffer_chunks p \<le> length (chunks p)")
  case True
  then show ?thesis by (intro that(1)) (simp_all add: alloc_new_msg_buffers_chunk_def)
next
  case False
  obtain C where C: "new_chunk si = Some C" "chunk_ok C" "ch_head C = si" "free_leaves C = {two_power C..<two_power C + tot_buffers C}"
    "0 < tot_buffers C" by (rule new_chunk_ok [OF assms(2)])
  define p' where "p' = p\<lparr>chunks := chunks p @ [C], ch_lists := (ch_lists p)[si := length (chunks p) # ch_lists p ! si]\<rparr>"
  have us: "used p' = used p" using C by (auto simp: used_def p'_def nth_append)
  have sz: "\<forall>b\<in>used p. ptr_size p' b = ptr_size p b" by (auto simp: ptr_size_def p'_def nth_append used_def)
  have ls: "lists_ok p'" using assms C(3) by (auto simp: lists_ok_def pool_ok_def p'_def nth_append nth_list_update less_Suc_eq)
  have "pool_ok p'" using assms(1) C(2) us sz ls by (simp add: pool_ok_def) (simp add: p'_def)
  moreover have "has_free p' (length (chunks p))" using C has_free_iff [of p' "length (chunks p)"] by (simp add: p'_def)
  ultimately show ?thesis using False C us sz
    by (intro that(2) [of "length (chunks p)" p'])
      (auto simp: alloc_new_msg_buffers_chunk_def p'_def nth_append Let_def used_def)
qed

lemma set_scan_order: "set (scan_order h cs) = set cs"
  unfolding scan_order_def by (metis set_append sup_commute takeWhile_dropWhile_id)

text \<open>What is kept while a chunk is looked for.\<close>

definition pool_ext :: "buffer_pool \<Rightarrow> buffer_pool \<Rightarrow> bool" where
  "pool_ext p p' \<longleftrightarrow> pool_ok p' \<and> used p' = used p \<and> (\<forall>b\<in>used p. ptr_size p' b = ptr_size p b)"

lemma choose_chunk_ok:
  assumes "pool_ok p" "si < 5"
  obtains "choose_chunk si p = Some (None, p)" "pool_full p si"
  | c p' where "choose_chunk si p = Some (Some c, p')" "pool_ext p p'" "c < length (chunks p')"
      "ch_head (chunks p' ! c) = si" "has_free p' c"
proof -
  have ls: "lists_ok p" using assms(1) by (simp add: pool_ok_def)
  then have cl: "set (ch_lists p ! si) = {c. c < length (chunks p) \<and> ch_head (chunks p ! c) = si}"
    using assms(2) by (simp add: lists_ok_def)
  have refl: "pool_ext p p" using assms(1) by (simp add: pool_ext_def)
  note none = that(1) and found = that(2)
  have new: thesis if eq: "choose_chunk si p = alloc_new_msg_buffers_chunk si p"
    and full: "chunk_save p ! si = None \<or> (\<forall>c<length (chunks p). ch_head (chunks p ! c) = si \<longrightarrow> \<not> has_free p c)"
    using assms
  proof (cases rule: alloc_new_ok)
    case 1
    then show ?thesis using eq full by (intro none) (simp_all add: pool_full_def)
  next
    case (2 c p')
    then show ?thesis using eq by (intro found [of c p']) (simp_all add: pool_ext_def)
  qed
  show ?thesis
  proof (cases "chunk_save p ! si")
    case None
    then show ?thesis by (intro new) (simp_all add: choose_chunk_def)
  next
    case (Some h)
    then have h: "h \<in> set (ch_lists p ! si)" using ls assms(2) unfolding lists_ok_def by blast
    then have h': "h < length (chunks p)" "ch_head (chunks p ! h) = si" using cl by auto
    show ?thesis
    proof (cases "has_free p h")
      case True
      then show ?thesis using Some h' refl by (intro found [of h p]) (simp_all add: choose_chunk_def)
    next
      case full: False
      show ?thesis
      proof (cases "find (has_free p) (scan_order h (ch_lists p ! si))")
        case None
        then have "\<forall>c<length (chunks p). ch_head (chunks p ! c) = si \<longrightarrow> \<not> has_free p c"
          using cl by (auto simp: find_None_iff set_scan_order)
        then show ?thesis using None Some full by (intro new) (simp_all add: choose_chunk_def)
      next
        case c: (Some c)
        from find_SomeD [OF c] have "c < length (chunks p)" "ch_head (chunks p ! c) = si" "has_free p c"
          using cl by (auto simp: set_scan_order)
        then show ?thesis using c Some full refl by (intro found [of c p]) (simp_all add: choose_chunk_def)
      qed
    qed
  qed
qed

lemma size_index_bound: "size_index hint n \<le> n"
  by (induction n) auto

lemma size_index_fits:
  assumes "n < 5" "hint \<le> int (default_buffer_sizes ! n)"
  shows "hint \<le> int (default_buffer_sizes ! size_index hint n)"
  using assms by (induction n) auto

text \<open>
  The effect of an allocation: a buffer that was not in use, of at least the given size if there is one that
  large, or nothing when no chunk of the size has a free buffer and no chunk can be added.
\<close>

definition alloc_result :: "int \<Rightarrow> buffer_pool \<Rightarrow> buffer_ptr option \<Rightarrow> buffer_pool \<Rightarrow> bool" where
  "alloc_result hint p r p' \<longleftrightarrow> pool_ok p' \<and> (\<forall>b\<in>used p. ptr_size p' b = ptr_size p b) \<and>
     (case r of
        None \<Rightarrow> p' = p \<and> pool_full p (if hint \<ge> 0 then size_index hint 4 else 4)
      | Some b \<Rightarrow> b \<notin> used p \<and> used p' = insert b (used p) \<and> (hint \<le> 262144 \<longrightarrow> hint \<le> int (ptr_size p' b)) \<and>
          ptr_size p' b = default_buffer_sizes ! (if hint \<ge> 0 then size_index hint 4 else 4))"

lemma alloc_msg_buffer_internal_ok:
  assumes "pool_ok p" "si < 5" and nb: "\<And>b. nb = Some b \<Longrightarrow> b \<in> used p"
  obtains "alloc_msg_buffer_internal nb si p = Some (None, p)" "pool_full p si"
  | b p' where "alloc_msg_buffer_internal nb si p = Some (Some b, p')" "pool_ok p'" "b \<notin> used p" "used p' = insert b (used p)"
      "\<forall>b\<in>used p. ptr_size p' b = ptr_size p b" "ptr_size p' b = default_buffer_sizes ! si"
  using assms(1,2)
proof (cases rule: choose_chunk_ok)
  case 1
  then show ?thesis by (intro that(1)) (simp_all add: alloc_msg_buffer_internal_def)
next
  case (2 c p1)
  let ?C = "chunks p1 ! c"
  from 2(2) have p1: "pool_ok p1" "used p1 = used p" "\<forall>b\<in>used p. ptr_size p1 b = ptr_size p b" by (simp_all add: pool_ext_def)
  then have C: "chunk_ok ?C" using 2(3) by (auto dest: pool_ok_chunk)
  then have free: "free_leaves ?C \<noteq> {}" using 2(5) has_free_iff by blast
  have rnd: "lrand p1 (lrand_pos p1) < 2 ^ 31" using p1(1) by (simp add: pool_ok_def)
  have "\<exists>x < tot_buffers ?C. get_buffer_no ?C off = Some x" if "nb = Some (c, off)" for off
    using used_ptr [OF p1(1), of "(c, off)"] nb [OF that] p1(2) by (metis fst_conv snd_conv)
  then obtain i fc where i: "i \<in> free_leaves ?C" "choose_buffer nb c (lrand p1 (lrand_pos p1)) ?C = Some (i, fc)"
    "counts (two_power ?C) (free_leaves ?C - {i}) fc" by (rule choose_buffer_ok [OF C free rnd])
  have fl: "free_leaves ?C \<subseteq> {two_power ?C..<two_power ?C + tot_buffers ?C}" using C by (simp add: chunk_ok_def)
  define x where "x = i - two_power ?C"
  have x: "i = two_power ?C + x" "x < tot_buffers ?C" using subsetD [OF fl i(1)] by (auto simp: x_def)
  let ?C' = "?C\<lparr>free_cnt := fc\<rparr>"
  let ?b = "(c, x * (buffer_size ?C + 16))"
  have C': "chunk_ok ?C'" "free_leaves ?C' = free_leaves ?C - {i}"
    using chunk_ok_free_cnt [OF C i(3)] fl by auto
  define p' where "p' = p1\<lparr>chunks := (chunks p1)[c := ?C'], chunk_save := (chunk_save p1)[si := Some c],
    lrand_pos := (if uses_rand nb c then lrand_pos p1 + 1 else lrand_pos p1), total_used_buffers := total_used_buffers p1 + 1,
    total_used_buffers_size := total_used_buffers_size p1 + int (buffer_size ?C)\<rparr>"
  have us: "used p' = insert ?b (used p)"
    using used_chunk_upd(1) [OF 2(3), of ?C' x] C'(2) x p1(2) by (simp add: p'_def used_def)
  have fresh: "?b \<notin> used p"
    unfolding p1(2) [symmetric] using i(1) x(1) by (auto simp: used_def)
  have sz: "ptr_size p' b = ptr_size p1 b" for b
    using 2(3) by (cases "fst b = c") (auto simp: ptr_size_def p'_def)
  have "lists_ok p'" using p1(1) 2(3,4) assms(2)
    by (auto simp: lists_ok_def pool_ok_def p'_def nth_list_update split: if_splits)
  moreover have "list_all chunk_ok (chunks p')" using p1(1) C'(1) by (simp add: pool_ok_def p'_def list_all_update)
  moreover have "ptr_size p1 ?b = buffer_size ?C" by (simp add: ptr_size_def)
  ultimately have "pool_ok p'" using p1 us fresh sz finite_used [of p]
    by (simp add: pool_ok_def) (simp add: p'_def)
  moreover have "alloc_msg_buffer_internal nb si p = Some (Some ?b, p')"
    using 2(1,5) i(2) x by (simp add: alloc_msg_buffer_internal_def Let_def has_free_def p'_def)
  moreover have "ptr_size p' ?b = default_buffer_sizes ! si" unfolding sz using C 2(4) by (simp add: ptr_size_def chunk_ok_def)
  ultimately show ?thesis using fresh us sz p1(3) by (intro that(2) [of ?b p']) auto
qed

subsection \<open>The contract of the allocator\<close>

text \<open>
  What a client may rely on: a buffer that is handed out was not in use and is used until it is freed, and
  the sizes of the buffers in use do not change.
\<close>

locale buffer_store =
  fixes ok :: "'p \<Rightarrow> bool"
    and live :: "'p \<Rightarrow> 'b set"
    and bsize :: "'p \<Rightarrow> 'b \<Rightarrow> nat"
    and alloc :: "'b option \<Rightarrow> int \<Rightarrow> 'p \<Rightarrow> ('b option \<times> 'p) option"
    and release :: "'b \<Rightarrow> 'p \<Rightarrow> 'p option"
  assumes alloc_law: "ok p \<Longrightarrow> (\<And>b. nb = Some b \<Longrightarrow> b \<in> live p) \<Longrightarrow> \<exists>r p'. alloc nb hint p = Some (r, p') \<and> ok p' \<and>
      (\<forall>b\<in>live p. bsize p' b = bsize p b) \<and>
      (case r of None \<Rightarrow> live p' = live p
       | Some b \<Rightarrow> b \<notin> live p \<and> live p' = insert b (live p) \<and> 0 < bsize p' b \<and> (hint \<le> 262144 \<longrightarrow> hint \<le> int (bsize p' b)))"
    and release_law: "ok p \<Longrightarrow> b \<in> live p \<Longrightarrow> \<exists>p'. release b p = Some p' \<and> ok p' \<and> live p' = live p - {b} \<and>
      (\<forall>b\<in>live p'. bsize p' b = bsize p b)"
begin

lemma alloc_cases:
  assumes "ok p" "\<And>b. nb = Some b \<Longrightarrow> b \<in> live p"
  obtains p' where "alloc nb hint p = Some (None, p')" "ok p'" "live p' = live p" "\<And>b. b \<in> live p \<Longrightarrow> bsize p' b = bsize p b"
  | b p' where "alloc nb hint p = Some (Some b, p')" "ok p'" "b \<notin> live p" "live p' = insert b (live p)"
      "0 < bsize p' b" "hint \<le> 262144 \<Longrightarrow> hint \<le> int (bsize p' b)" "\<And>b. b \<in> live p \<Longrightarrow> bsize p' b = bsize p b"
proof -
  from alloc_law [of p nb hint] assms obtain r p' where r: "alloc nb hint p = Some (r, p')" "ok p'" "\<forall>b\<in>live p. bsize p' b = bsize p b"
    "case r of None \<Rightarrow> live p' = live p
       | Some b \<Rightarrow> b \<notin> live p \<and> live p' = insert b (live p) \<and> 0 < bsize p' b \<and> (hint \<le> 262144 \<longrightarrow> hint \<le> int (bsize p' b))" by auto
  show ?thesis
  proof (cases r)
    case None
    then show ?thesis using r by (intro that(1) [of p']) simp_all
  next
    case (Some b)
    then show ?thesis using r by (intro that(2) [of b p']) simp_all
  qed
qed

lemma release_cases:
  assumes "ok p" "b \<in> live p"
  obtains p' where "release b p = Some p'" "ok p'" "live p' = live p - {b}" "\<And>b. b \<in> live p' \<Longrightarrow> bsize p' b = bsize p b"
  using release_law [OF assms] by blast

end

lemma alloc_msg_buffer_ok:
  assumes "pool_ok p" and nb: "\<And>b. nb = Some b \<Longrightarrow> b \<in> used p"
  obtains r p' where "alloc_msg_buffer nb hint p = Some (r, p')" "alloc_result hint p r p'"
proof -
  let ?si = "if hint \<ge> 0 then size_index hint 4 else 4"
  have si: "?si < 5" using size_index_bound [of hint 4] by auto
  have fits: "hint \<le> 262144 \<longrightarrow> hint \<le> int (default_buffer_sizes ! ?si)"
    using size_index_fits [of 4 hint] by (simp add: default_buffer_sizes_def)
  show ?thesis
  proof (rule alloc_msg_buffer_internal_ok [OF assms(1) si nb])
    assume "alloc_msg_buffer_internal nb ?si p = Some (None, p)" "pool_full p ?si"
    then show thesis using assms(1) by (intro that [of None p]) (simp_all add: alloc_msg_buffer_def alloc_result_def)
  next
    fix b p'
    assume "alloc_msg_buffer_internal nb ?si p = Some (Some b, p')" "pool_ok p'" "b \<notin> used p" "used p' = insert b (used p)"
      "\<forall>b\<in>used p. ptr_size p' b = ptr_size p b" "ptr_size p' b = default_buffer_sizes ! ?si"
    then show thesis using fits by (intro that [of "Some b" p']) (simp_all add: alloc_msg_buffer_def alloc_result_def)
  qed
qed

lemma free_std_msg_buffer_ok:
  assumes "pool_ok p" "b \<in> used p"
  obtains p' where "free_std_msg_buffer b p = Some p'" "pool_ok p'" "used p' = used p - {b}" "ptr_size p' = ptr_size p"
proof -
  obtain c x where cx: "b = (c, x * (buffer_size (chunks p ! c) + 16))" "c < length (chunks p)" "x < tot_buffers (chunks p ! c)"
    "two_power (chunks p ! c) + x \<notin> free_leaves (chunks p ! c)" "chunk_ok (chunks p ! c)"
    "get_buffer_no (chunks p ! c) (snd b) = Some x" by (rule used_ptr [OF assms])
  let ?C = "chunks p ! c"
  let ?i = "two_power ?C + x"
  have cnt: "counts (two_power ?C) (free_leaves ?C) (free_cnt ?C)" and fl: "free_leaves ?C \<subseteq> {two_power ?C..<two_power ?C + tot_buffers ?C}"
    and tot: "tot_buffers ?C \<le> two_power ?C" "tot_buffers ?C < 65536" using cx(5) by (auto simp: chunk_ok_def)
  have "card (free_leaves ?C) < card {two_power ?C..<two_power ?C + tot_buffers ?C}"
    using fl cx(3,4) by (intro psubset_card_mono) auto
  then have small: "card (free_leaves ?C) < 65535" using tot by simp
  obtain fc where fc: "path_upd inc16 ?i (free_cnt ?C) = Some fc" "counts (two_power ?C) (insert ?i (free_leaves ?C)) fc"
    using counts_inc [OF cnt cx(4) _ _ small] cx(3) tot by auto
  let ?C' = "?C\<lparr>free_cnt := fc\<rparr>"
  have C': "chunk_ok ?C'" "free_leaves ?C' = insert ?i (free_leaves ?C)"
    using chunk_ok_free_cnt [OF cx(5) fc(2)] fl cx(3) by auto
  define p' where "p' = p\<lparr>chunks := (chunks p)[c := ?C'], total_used_buffers := total_used_buffers p - 1,
    total_used_buffers_size := total_used_buffers_size p - int (buffer_size ?C)\<rparr>"
  have us: "used p' = used p - {b}"
    using used_chunk_upd(2) [OF cx(2), of ?C' x] C'(2) cx(1,3) by (simp add: p'_def used_def)
  have sz: "ptr_size p' b = ptr_size p b" for b using cx(2) by (cases "fst b = c") (auto simp: ptr_size_def p'_def)
  have "lists_ok p'" using assms(1) cx(2) by (auto simp: lists_ok_def pool_ok_def p'_def nth_list_update split: if_splits)
  moreover have "list_all chunk_ok (chunks p')" using assms(1) C'(1) by (simp add: pool_ok_def p'_def list_all_update)
  moreover have "int (card (used p - {b})) = int (card (used p)) - 1"
    using card_Suc_Diff1 [OF finite_used assms(2)] by simp
  moreover have "(\<Sum>b\<in>used p - {b}. int (ptr_size p b)) = (\<Sum>b\<in>used p. int (ptr_size p b)) - int (buffer_size ?C)"
    using assms(2) finite_used [of p] by (simp add: sum_diff1 ptr_size_def cx(1))
  ultimately have "pool_ok p'" using assms(1) us sz by (simp add: pool_ok_def) (simp add: p'_def)
  moreover have "free_std_msg_buffer b p = Some p'"
  proof -
    have "?i < length (free_cnt ?C)" using cnt cx(3) tot(1) by (simp add: counts_def)
    moreover have "free_cnt ?C ! ?i = 0" using cx(3,4) tot(1) by (simp add: free_leaves_def)
    ultimately show ?thesis using cx(1,2,6) fc(1) by (simp add: free_std_msg_buffer_def Let_def cnt_at_def p'_def)
  qed
  ultimately show ?thesis using us sz by (intro that [of p']) auto
qed

interpretation msg_pool: buffer_store pool_ok used ptr_size alloc_msg_buffer free_std_msg_buffer
proof
  fix p and nb :: "buffer_ptr option" and hint :: int
  assume p: "pool_ok p" and nb: "\<And>b. nb = Some b \<Longrightarrow> b \<in> used p"
  then obtain r p' where r: "alloc_msg_buffer nb hint p = Some (r, p')" "alloc_result hint p r p'" by (rule alloc_msg_buffer_ok)
  have pos: "0 < default_buffer_sizes ! n" if "n < 5" for n
  proof -
    from that have "n = 0 \<or> n = 1 \<or> n = 2 \<or> n = 3 \<or> n = 4" by linarith
    then show ?thesis by (elim disjE) (simp_all add: default_buffer_sizes_def)
  qed
  have "(if hint \<ge> 0 then size_index hint 4 else 4) < 5" using size_index_bound [of hint 4] by auto
  from pos [OF this] r show "\<exists>r p'. alloc_msg_buffer nb hint p = Some (r, p') \<and> pool_ok p' \<and>
      (\<forall>b\<in>used p. ptr_size p' b = ptr_size p b) \<and>
      (case r of None \<Rightarrow> used p' = used p
       | Some b \<Rightarrow> b \<notin> used p \<and> used p' = insert b (used p) \<and> 0 < ptr_size p' b \<and> (hint \<le> 262144 \<longrightarrow> hint \<le> int (ptr_size p' b)))"
    by (intro exI [of _ r] exI [of _ p']) (auto simp: alloc_result_def split: option.splits)
next
  fix p and b :: buffer_ptr
  assume "pool_ok p" "b \<in> used p"
  then obtain p' where "free_std_msg_buffer b p = Some p'" "pool_ok p'" "used p' = used p - {b}" "ptr_size p' = ptr_size p"
    by (rule free_std_msg_buffer_ok)
  then show "\<exists>p'. free_std_msg_buffer b p = Some p' \<and> pool_ok p' \<and> used p' = used p - {b} \<and> (\<forall>b\<in>used p'. ptr_size p' b = ptr_size p b)"
    by simp
qed

lemma init_pool_ok: "(\<And>n. rnd n < 2 ^ 31) \<Longrightarrow> pool_ok (init_pool max_chunks rnd)"
  by (simp add: pool_ok_def init_pool_def lists_ok_def used_def)

lemma init_pool_unused: "used (init_pool max_chunks rnd) = {}"
  by (simp add: init_pool_def used_def)



text \<open>
  The number of a buffer is found from its address by a shift and one 32-bit multiplication: for every buffer
  size the loop that computes the inverse ends, and for every buffer whose distance fits in 32 bits the product is
  its number.
\<close>

theorem buffer_number_recovered:
  assumes "bsz + 16 < 2 ^ 32"
  shows "\<exists>y i. prepare_bs_inv bsz = Some (y, i) \<and>
    (\<forall>x. (bsz + 16) * x < 2 ^ 32 \<longrightarrow> unat (drop_bit i (word_of_nat ((bsz + 16) * x)) * y) = x)"
  by (rule get_buffer_no_inverse [OF assms]) blast

lemma buffer_number_recovered_witness:
  "\<exists>y i. prepare_bs_inv 2048 = Some (y, i) \<and> unat (drop_bit i (word_of_nat ((2048 + 16) * 1012)) * y) = 1012"
proof -
  from buffer_number_recovered [of 2048] obtain y i where "prepare_bs_inv 2048 = Some (y, i)"
    "\<And>x. (2048 + 16) * x < 2 ^ 32 \<Longrightarrow> unat (drop_bit i (word_of_nat ((2048 + 16) * x)) * y) = x" by auto
  from this(1) this(2) [of 1012] show ?thesis by (intro exI [of _ y] exI [of _ i]) simp
qed

text \<open>
  Freeing a buffer that is in use passes all assertions and makes exactly this buffer free again; the other
  buffers in use keep their sizes, the counters and the statistics stay exact.
\<close>

theorem free_msg_buffer_returns:
  assumes "pool_ok p" "b \<in> used p"
  shows "\<exists>p'. free_std_msg_buffer b p = Some p' \<and> pool_ok p' \<and> used p' = used p - {b} \<and> ptr_size p' = ptr_size p"
  by (rule free_std_msg_buffer_ok [OF assms]) blast

lemma free_msg_buffer_returns_witness:
  "\<exists>b p p'. b \<in> used p \<and> free_std_msg_buffer b p = Some p' \<and> used p' = used p - {b}"
proof -
  let ?p = "init_pool 4 (\<lambda>_. 7)"
  have "pool_ok ?p" by (simp add: init_pool_ok)
  then obtain r p where r: "alloc_msg_buffer None 100 ?p = Some (r, p)" "alloc_result 100 ?p r p" by (rule alloc_msg_buffer_ok [where nb = None and hint = 100]) simp_all
  then obtain b where "r = Some b" by (cases r) (simp_all add: alloc_result_def pool_full_def init_pool_def)
  with r(2) have "pool_ok p" "b \<in> used p" by (simp_all add: alloc_result_def)
  from this(2) free_msg_buffer_returns [OF this] show ?thesis by blast
qed

end
