(* ===== verification/Raw_Msg.thy ===== *)
theory Raw_Msg
  imports Msg_Buffers "HOL-Library.Multiset"
begin

text \<open>
  Raw messages (\<^verbatim>\<open>src/src/net/net-msg.c\<close>): byte sequences as chains of reference-counted parts of
  reference-counted buffers, shared between messages. The model has an explicit heap of parts and buffers, so that
  aliasing is visible. A message is given by its structure, which belongs to its owner.

  The model is that of one thread. A failed \<^verbatim>\<open>assert\<close>, a null or dangling pointer and an access outside a buffer are
  the result \<open>None\<close>. Temporary messages (\<^verbatim>\<open>RM_TMP_MAGIC\<close>) are not created anywhere in the program; the
  branches for them are left out, as are the counters of messages and parts. A new part gets
  an address that was not used before, and the data of a new buffer are zero.
\<close>

subsection \<open>Parts, buffers and messages\<close>

record msg_part =
  mp_refcnt :: nat
  mp_locked :: bool
  mp_next :: "nat option"
  mp_part :: buffer_ptr
  mp_offset :: nat
  mp_data_end :: nat

record msg_buffer =
  buf_refcnt :: nat
  buf_data :: bytes

record msg_heap =
  parts :: "nat \<rightharpoonup> msg_part"
  bufs :: "buffer_ptr \<rightharpoonup> msg_buffer"
  pool :: buffer_pool
  next_part :: nat

record raw_message =
  rm_first :: "nat option"
  rm_last :: "nat option"
  rm_total :: nat
  rm_first_offset :: nat
  rm_last_offset :: nat

definition empty_rwm :: raw_message where
  "empty_rwm = \<lparr>rm_first = None, rm_last = None, rm_total = 0, rm_first_offset = 0, rm_last_offset = 0\<rparr>"

definition MSG_STD_BUFFER :: nat where "MSG_STD_BUFFER = 2048"
definition MSG_SMALL_BUFFER :: nat where "MSG_SMALL_BUFFER = 512"
definition RM_PREPEND_RESERVE :: nat where "RM_PREPEND_RESERVE = 128"

definition slice :: "nat \<Rightarrow> nat \<Rightarrow> bytes \<Rightarrow> bytes" where
  "slice a b d = take (b - a) (drop a d)"

text \<open>\<^verbatim>\<open>memcpy\<close> into a buffer.\<close>

definition overwrite :: "nat \<Rightarrow> bytes \<Rightarrow> bytes \<Rightarrow> bytes" where
  "overwrite off bs d = take off d @ bs @ drop (off + length bs) d"

definition upd_part :: "nat \<Rightarrow> (msg_part \<Rightarrow> msg_part) \<Rightarrow> msg_heap \<Rightarrow> msg_heap option" where
  "upd_part p f h = (case parts h p of None \<Rightarrow> None | Some mp \<Rightarrow> Some (h\<lparr>parts := (parts h)(p \<mapsto> f mp)\<rparr>))"

definition write_buf :: "buffer_ptr \<Rightarrow> nat \<Rightarrow> bytes \<Rightarrow> msg_heap \<Rightarrow> msg_heap option" where
  "write_buf b off bs h =
     (case bufs h b of None \<Rightarrow> None
      | Some mb \<Rightarrow> if off + length bs \<le> length (buf_data mb)
          then Some (h\<lparr>bufs := (bufs h)(b \<mapsto> mb\<lparr>buf_data := overwrite off bs (buf_data mb)\<rparr>)\<rparr>) else None)"

definition read_buf :: "buffer_ptr \<Rightarrow> nat \<Rightarrow> nat \<Rightarrow> msg_heap \<Rightarrow> bytes option" where
  "read_buf b off len h =
     (case bufs h b of None \<Rightarrow> None
      | Some mb \<Rightarrow> if off + len \<le> length (buf_data mb) then Some (take len (drop off (buf_data mb))) else None)"

text \<open>A new buffer through the allocator; the inner option is its null pointer.\<close>

definition new_buffer :: "buffer_ptr option \<Rightarrow> nat \<Rightarrow> msg_heap \<Rightarrow> (buffer_ptr option \<times> msg_heap) option" where
  "new_buffer nb size_hint h = do {
     (r, p) \<leftarrow> alloc_msg_buffer nb (int size_hint) (pool h);
     case r of
       None \<Rightarrow> Some (None, h\<lparr>pool := p\<rparr>)
     | Some b \<Rightarrow> Some (Some b, h\<lparr>pool := p,
         bufs := (bufs h)(b \<mapsto> \<lparr>buf_refcnt = 1, buf_data = replicate (ptr_size p b) 0\<rparr>)\<rparr>)
   }"

definition buffer_room :: "buffer_ptr \<Rightarrow> msg_heap \<Rightarrow> nat option" where
  "buffer_room b h = map_option (\<lambda>mb. length (buf_data mb)) (bufs h b)"

definition new_msg_part :: "buffer_ptr \<Rightarrow> nat option \<Rightarrow> nat \<Rightarrow> nat \<Rightarrow> msg_heap \<Rightarrow> nat \<times> msg_heap" where
  "new_msg_part b nxt off data_end h =
     (next_part h, h\<lparr>next_part := next_part h + 1,
        parts := (parts h)(next_part h \<mapsto> \<lparr>mp_refcnt = 1, mp_locked = False, mp_next = nxt, mp_part = b,
          mp_offset = off, mp_data_end = data_end\<rparr>)\<rparr>)"

definition incref_part :: "nat \<Rightarrow> msg_heap \<Rightarrow> msg_heap option" where
  "incref_part p h = upd_part p (\<lambda>mp. mp\<lparr>mp_refcnt := mp_refcnt mp + 1\<rparr>) h"

definition incref_buf :: "buffer_ptr \<Rightarrow> msg_heap \<Rightarrow> msg_heap option" where
  "incref_buf b h =
     (case bufs h b of None \<Rightarrow> None | Some mb \<Rightarrow> Some (h\<lparr>bufs := (bufs h)(b \<mapsto> mb\<lparr>buf_refcnt := buf_refcnt mb + 1\<rparr>)\<rparr>))"

definition msg_buffer_decref :: "buffer_ptr \<Rightarrow> msg_heap \<Rightarrow> msg_heap option" where
  "msg_buffer_decref b h =
     (case bufs h b of None \<Rightarrow> None
      | Some mb \<Rightarrow>
          if buf_refcnt mb = 1 then map_option (\<lambda>p. h\<lparr>pool := p, bufs := (bufs h)(b := None)\<rparr>) (free_std_msg_buffer b (pool h))
          else Some (h\<lparr>bufs := (bufs h)(b \<mapsto> mb\<lparr>buf_refcnt := buf_refcnt mb - 1\<rparr>)\<rparr>))"

partial_function (option) msg_part_decref :: "nat option \<Rightarrow> msg_heap \<Rightarrow> msg_heap option" where
  [code]: "msg_part_decref ptr h =
     (case ptr of
        None \<Rightarrow> Some h
      | Some p \<Rightarrow>
          (case parts h p of
             None \<Rightarrow> None
           | Some mp \<Rightarrow>
               if mp_refcnt mp > 1 then Some (h\<lparr>parts := (parts h)(p \<mapsto> mp\<lparr>mp_refcnt := mp_refcnt mp - 1\<rparr>)\<rparr>)
               else if mp_refcnt mp = 1 \<and> \<not> mp_locked mp then do {
                 h \<leftarrow> msg_buffer_decref (mp_part mp) h;
                 msg_part_decref (mp_next mp) (h\<lparr>parts := (parts h)(p := None)\<rparr>)
               }
               else None))"

subsection \<open>Exclusive access\<close>

text \<open>
  \<^verbatim>\<open>fork_message_chain\<close>. The first loop passes over the parts that only this message refers to; it gives the
  part where it stops, its predecessor and the bytes that remain. The second loop copies the parts from there on,
  sharing their buffers.
\<close>

partial_function (option) fork_skip ::
  "nat option \<Rightarrow> nat \<Rightarrow> nat option \<Rightarrow> int \<Rightarrow> msg_heap \<Rightarrow> (nat \<times> nat option \<times> int) option" where
  [code]: "fork_skip lst p pred rest h =
     (case parts h p of
        None \<Rightarrow> None
      | Some mp \<Rightarrow>
          if Some p \<noteq> lst \<and> mp_refcnt mp = 1 then
            (if mp_locked mp then None
             else case mp_next mp of
               None \<Rightarrow> None
             | Some q \<Rightarrow> fork_skip lst q (Some p) (rest - (int (mp_data_end mp) - int (mp_offset mp))) h)
          else Some (p, pred, rest))"

text \<open>\<open>*mpp = n\<close>: the link to the copy, in the message or in the part before.\<close>

definition set_link :: "nat option \<Rightarrow> nat \<Rightarrow> raw_message \<Rightarrow> msg_heap \<Rightarrow> (raw_message \<times> msg_heap) option" where
  "set_link pred n raw h =
     (case pred of
        None \<Rightarrow> Some (raw\<lparr>rm_first := Some n\<rparr>, h)
      | Some p \<Rightarrow> map_option (\<lambda>h. (raw, h)) (upd_part p (\<lambda>mp. mp\<lparr>mp_next := Some n\<rparr>) h))"

partial_function (option) fork_copy ::
  "nat \<Rightarrow> nat option \<Rightarrow> int \<Rightarrow> raw_message \<Rightarrow> msg_heap \<Rightarrow> (int \<times> raw_message \<times> msg_heap) option" where
  [code]: "fork_copy p pred rest raw h =
     (case parts h p of
        None \<Rightarrow> None
      | Some mp \<Rightarrow> do {
          let off = (if Some p = rm_first raw then rm_first_offset raw else mp_offset mp);
          let is_last = (Some p = rm_last raw);
          let data_end = (if is_last then rm_last_offset raw else mp_data_end mp);
          h \<leftarrow> incref_buf (mp_part mp) h;
          let (n, h) = new_msg_part (mp_part mp) None off data_end h;
          let raw = (if is_last then raw\<lparr>rm_last := Some n\<rparr> else raw);
          (raw, h) \<leftarrow> set_link pred n raw h;
          let rest = rest - (int data_end - int off);
          if is_last then Some (rest, raw, h)
          else case mp_next mp of
            None \<Rightarrow> None
          | Some q \<Rightarrow> fork_copy q (Some n) rest raw h
        })"

definition fork_message_chain :: "raw_message \<Rightarrow> msg_heap \<Rightarrow> (raw_message \<times> msg_heap) option" where
  "fork_message_chain raw h =
     (case rm_first raw of
        None \<Rightarrow> Some (raw, h)
      | Some f \<Rightarrow> do {
          mp \<leftarrow> parts h f;
          let differs = (rm_first_offset raw \<noteq> mp_offset mp);
          let own = (mp_refcnt mp = 1);
          h \<leftarrow> (if differs \<and> own then upd_part f (\<lambda>mp. mp\<lparr>mp_offset := rm_first_offset raw\<rparr>) h else Some h);
          let ok = (\<not> differs \<or> own);
          (p, pred, rest) \<leftarrow> (if ok then fork_skip (rm_last raw) f None (int (rm_total raw)) h else Some (f, None, int (rm_total raw)));
          mp \<leftarrow> parts h p;
          if \<not> ok \<or> mp_refcnt mp \<noteq> 1 \<or> Some p \<noteq> rm_last raw then do {
            (rest, raw, h) \<leftarrow> fork_copy p pred rest raw h;
            h \<leftarrow> msg_part_decref (Some p) h;
            if rest = 0 then Some (raw, h) else None
          }
          else if mp_locked mp then None
          else do {
            h \<leftarrow> upd_part p (\<lambda>mp. mp\<lparr>mp_data_end := rm_last_offset raw\<rparr>) h;
            h \<leftarrow> msg_part_decref (mp_next mp) h;
            h \<leftarrow> upd_part p (\<lambda>mp. mp\<lparr>mp_next := None\<rparr>) h;
            if rest - (int (rm_last_offset raw) - int (mp_offset mp)) = 0 then Some (raw, h) else None
          }
        })"

definition rwm_lock_last_part :: "raw_message \<Rightarrow> msg_heap \<Rightarrow> (nat option \<times> raw_message \<times> msg_heap) option" where
  "rwm_lock_last_part raw h =
     (if rm_first raw = None then Some (None, raw, h)
      else do {
        l \<leftarrow> rm_last raw;
        mp \<leftarrow> parts h l;
        if mp_next mp \<noteq> None \<or> rm_last_offset raw \<noteq> mp_data_end mp then
          (if rm_last_offset raw \<le> mp_data_end mp then do {
             (raw, h) \<leftarrow> fork_message_chain raw h;
             Some (None, raw, h)
           } else None)
        else if mp_locked mp then do {
          (raw, h) \<leftarrow> fork_message_chain raw h;
          Some (None, raw, h)
        }
        else do {
          h \<leftarrow> upd_part l (\<lambda>mp. mp\<lparr>mp_locked := True\<rparr>) h;
          Some (Some l, raw, h)
        }
      })"

definition unlock_part :: "nat option \<Rightarrow> msg_heap \<Rightarrow> msg_heap option" where
  "unlock_part lk h = (case lk of None \<Rightarrow> Some h | Some p \<Rightarrow> upd_part p (\<lambda>mp. mp\<lparr>mp_locked := False\<rparr>) h)"

definition rwm_lock_first_part :: "raw_message \<Rightarrow> msg_heap \<Rightarrow> (raw_message \<times> msg_heap) option" where
  "rwm_lock_first_part raw h =
     (case rm_first raw of
        None \<Rightarrow> Some (raw, h)
      | Some f \<Rightarrow> do {
          mp \<leftarrow> parts h f;
          if mp_refcnt mp = 1 then map_option (\<lambda>h. (raw, h)) (upd_part f (\<lambda>mp. mp\<lparr>mp_offset := rm_first_offset raw\<rparr>) h)
          else if mp_offset mp = rm_first_offset raw then Some (raw, h)
          else do {
            h \<leftarrow> incref_buf (mp_part mp) h;
            let single = (rm_last raw = rm_first raw);
            let (n, h) = new_msg_part (mp_part mp) (if single then None else mp_next mp) (rm_first_offset raw)
                  (if single then rm_last_offset raw else mp_data_end mp) h;
            h \<leftarrow> (if single then Some h else case mp_next mp of None \<Rightarrow> None | Some q \<Rightarrow> incref_part q h);
            h \<leftarrow> msg_part_decref (Some f) h;
            Some (raw\<lparr>rm_first := Some n, rm_last := (if single then Some n else rm_last raw)\<rparr>, h)
          }
        })"

subsection \<open>Operations on whole messages\<close>

definition rwm_free :: "raw_message \<Rightarrow> msg_heap \<Rightarrow> msg_heap option" where
  "rwm_free raw h = msg_part_decref (rm_first raw) h"

definition rwm_clear :: "raw_message \<Rightarrow> msg_heap \<Rightarrow> (raw_message \<times> msg_heap) option" where
  "rwm_clear raw h = map_option (\<lambda>h. (empty_rwm, h)) (msg_part_decref (rm_first raw) h)"

definition rwm_clone :: "raw_message \<Rightarrow> msg_heap \<Rightarrow> (raw_message \<times> msg_heap) option" where
  "rwm_clone src h =
     (case rm_first src of None \<Rightarrow> Some (src, h) | Some f \<Rightarrow> map_option (\<lambda>h. (src, h)) (incref_part f h))"

definition rwm_union :: "raw_message \<Rightarrow> raw_message \<Rightarrow> msg_heap \<Rightarrow> (raw_message \<times> msg_heap) option" where
  "rwm_union raw tail h =
     (if rm_last raw = None then Some (tail, h)
      else if rm_first tail = None then map_option (\<lambda>h. (raw, h)) (rwm_free tail h)
      else do {
        (locked, raw, h) \<leftarrow> rwm_lock_last_part raw h;
        (l2, tail, h) \<leftarrow> rwm_lock_last_part tail h;
        h \<leftarrow> unlock_part l2 h;
        (tail, h) \<leftarrow> rwm_lock_first_part tail h;
        l \<leftarrow> rm_last raw;
        f \<leftarrow> rm_first tail;
        h \<leftarrow> upd_part l (\<lambda>mp. mp\<lparr>mp_next := Some f\<rparr>) h;
        h \<leftarrow> incref_part f h;
        let raw = raw\<lparr>rm_last_offset := rm_last_offset tail, rm_last := rm_last tail, rm_total := rm_total raw + rm_total tail\<rparr>;
        h \<leftarrow> rwm_free tail h;
        h \<leftarrow> unlock_part locked h;
        Some (raw, h)
      })"

subsection \<open>Adding bytes\<close>

text \<open>The loop at the end of \<^verbatim>\<open>rwm_push_data_ext\<close>: further parts behind the last one. \<open>res\<close> counts the bytes added.\<close>

partial_function (option) push_parts ::
  "nat \<Rightarrow> nat \<Rightarrow> nat \<Rightarrow> bytes \<Rightarrow> nat \<Rightarrow> raw_message \<Rightarrow> msg_heap \<Rightarrow> (nat \<times> raw_message \<times> msg_heap) option" where
  [code]: "push_parts small std mp bs res raw h =
     (if bs = [] then Some (res, raw, h)
      else case parts h mp of
        None \<Rightarrow> None
      | Some m \<Rightarrow> do {
          (X, h) \<leftarrow> new_buffer (Some (mp_part m)) (if rm_total raw + length bs \<ge> std then std else small) h;
          case X of
            None \<Rightarrow> Some (res, raw, h)
          | Some b \<Rightarrow> do {
              size \<leftarrow> buffer_room b h;
              let n = min size (length bs);
              let (p, h) = new_msg_part b None 0 n h;
              h \<leftarrow> upd_part mp (\<lambda>m. m\<lparr>mp_next := Some p\<rparr>) h;
              h \<leftarrow> write_buf b 0 (take n bs) h;
              let raw = raw\<lparr>rm_last := Some p, rm_total := rm_total raw + n, rm_last_offset := n\<rparr>;
              push_parts small std p (drop n bs) (res + n) raw h
            }
        })"

definition rwm_push_data_ext ::
  "raw_message \<Rightarrow> bytes \<Rightarrow> nat \<Rightarrow> nat \<Rightarrow> nat \<Rightarrow> msg_heap \<Rightarrow> (nat \<times> raw_message \<times> msg_heap) option" where
  "rwm_push_data_ext raw bs prepend small std h =
     (if bs = [] then Some (0, raw, h)
      else if rm_first raw = None then do {
        (X, h) \<leftarrow> new_buffer None (if int (length bs) \<ge> int small - int prepend then std else small) h;
        case X of
          None \<Rightarrow> Some (0, raw, h)
        | Some b \<Rightarrow> do {
            size \<leftarrow> buffer_room b h;
            let prepend = (if length bs \<le> std \<and> prepend > std - length bs then std - length bs else prepend);
            if prepend > size then None
            else do {
              let n = min (size - prepend) (length bs);
              let (p, h) = new_msg_part b None prepend (prepend + n) h;
              h \<leftarrow> write_buf b prepend (take n bs) h;
              let raw = raw\<lparr>rm_first := Some p, rm_last := Some p, rm_first_offset := prepend, rm_total := n,
                            rm_last_offset := prepend + n\<rparr>;
              push_parts small std p (drop n bs) n raw h
            }
          }
      }
      else do {
        (locked, raw, h) \<leftarrow> rwm_lock_last_part raw h;
        l \<leftarrow> rm_last raw;
        m \<leftarrow> parts h l;
        mb \<leftarrow> bufs h (mp_part m);
        if mp_next m \<noteq> None \<or> rm_last_offset raw \<noteq> mp_data_end m then None
        else do {
          let n = (if buf_refcnt mb = 1 then min (length (buf_data mb) - rm_last_offset raw) (length bs) else 0);
          h \<leftarrow> write_buf (mp_part m) (rm_last_offset raw) (take n bs) h;
          h \<leftarrow> upd_part l (\<lambda>m. m\<lparr>mp_data_end := mp_data_end m + n\<rparr>) h;
          let raw = raw\<lparr>rm_total := rm_total raw + n, rm_last_offset := rm_last_offset raw + n\<rparr>;
          (res, raw, h) \<leftarrow> push_parts small std l (drop n bs) n raw h;
          h \<leftarrow> unlock_part locked h;
          Some (res, raw, h)
        }
      })"

definition rwm_push_data :: "raw_message \<Rightarrow> bytes \<Rightarrow> msg_heap \<Rightarrow> (nat \<times> raw_message \<times> msg_heap) option" where
  "rwm_push_data raw bs h = rwm_push_data_ext raw bs RM_PREPEND_RESERVE MSG_SMALL_BUFFER MSG_STD_BUFFER h"

definition rwm_create :: "bytes \<Rightarrow> msg_heap \<Rightarrow> (nat \<times> raw_message \<times> msg_heap) option" where
  "rwm_create bs h = rwm_push_data empty_rwm bs h"

text \<open>
  The loop of \<^verbatim>\<open>rwm_push_data_front\<close>: parts in front, filled from their end, with the last bytes first. The program ends with
  a failed assertion if there is no buffer; this is the result \<open>Inl\<close>, with the heap at that moment.
\<close>

partial_function (option) push_front_parts :: "bytes \<Rightarrow> raw_message \<Rightarrow> msg_heap \<Rightarrow> (msg_heap + raw_message \<times> msg_heap) option" where
  [code]: "push_front_parts bs raw h = do {
     nb \<leftarrow> (case rm_first raw of None \<Rightarrow> Some None | Some f \<Rightarrow> map_option (\<lambda>m. Some (mp_part m)) (parts h f));
     (X, h) \<leftarrow> new_buffer nb (if length bs \<ge> MSG_SMALL_BUFFER then MSG_STD_BUFFER else MSG_SMALL_BUFFER) h;
     case X of
       None \<Rightarrow> Some (Inl h)
     | Some b \<Rightarrow> do {
         size \<leftarrow> buffer_room b h;
         let n = min size (length bs);
         let (p, h) = new_msg_part b (rm_first raw) (size - n) size h;
         h \<leftarrow> write_buf b (size - n) (drop (length bs - n) bs) h;
         let raw = raw\<lparr>rm_first := Some p, rm_total := rm_total raw + n\<rparr>;
         let raw = (if rm_last raw = None then raw\<lparr>rm_last := Some p, rm_last_offset := size\<rparr> else raw);
         if length bs > size then push_front_parts (take (length bs - n) bs) raw h
         else Some (Inr (raw\<lparr>rm_first_offset := size - n\<rparr>, h))
       }
   }"

definition rwm_push_data_front :: "raw_message \<Rightarrow> bytes \<Rightarrow> msg_heap \<Rightarrow> (msg_heap + raw_message \<times> msg_heap) option" where
  "rwm_push_data_front raw bs h =
     (if bs = [] then Some (Inr (raw, h))
      else if rm_first raw = None then push_front_parts bs raw h
      else do {
        (raw, h) \<leftarrow> rwm_lock_first_part raw h;
        f \<leftarrow> rm_first raw;
        m \<leftarrow> parts h f;
        mb \<leftarrow> bufs h (mp_part m);
        if buf_refcnt mb = 1 \<and> mp_refcnt m = 1 then do {
          let n = min (rm_first_offset raw) (length bs);
          let off = rm_first_offset raw - n;
          h \<leftarrow> write_buf (mp_part m) off (drop (length bs - n) bs) h;
          h \<leftarrow> upd_part f (\<lambda>m. m\<lparr>mp_offset := off\<rparr>) h;
          let raw = raw\<lparr>rm_first_offset := off, rm_total := rm_total raw + n\<rparr>;
          if length bs > n then push_front_parts (take (length bs - n) bs) raw h else Some (Inr (raw, h))
        }
        else push_front_parts bs raw h
      })"

subsection \<open>Splitting\<close>

text \<open>The loop of \<^verbatim>\<open>rwm_split\<close> that finds the part with the border.\<close>

partial_function (option) split_at :: "nat \<Rightarrow> nat \<Rightarrow> raw_message \<Rightarrow> msg_heap \<Rightarrow> (nat \<times> nat) option" where
  [code]: "split_at p bytes raw h =
     (case parts h p of
        None \<Rightarrow> None
      | Some mp \<Rightarrow>
          let start = (if Some p = rm_first raw then rm_first_offset raw else mp_offset mp);
              stop = (if Some p = rm_last raw then rm_last_offset raw else mp_data_end mp) in
          if stop - start < bytes then
            (case mp_next mp of None \<Rightarrow> None | Some q \<Rightarrow> split_at q (bytes - (stop - start)) raw h)
          else Some (p, start + bytes))"

text \<open>
  \<^verbatim>\<open>rwm_split\<close>; \<open>tail\<close> is what the structure of the tail holds before the call. The loop is not entered
  for 0 bytes.
\<close>

definition rwm_split ::
  "raw_message \<Rightarrow> raw_message \<Rightarrow> nat \<Rightarrow> msg_heap \<Rightarrow> (int \<times> raw_message \<times> raw_message \<times> msg_heap) option" where
  "rwm_split raw tail bytes h =
     (if bytes \<ge> rm_total raw then Some (if bytes = rm_total raw then 0 else - 1, raw, empty_rwm, h)
      else do {
        l \<leftarrow> rm_last raw;
        ml \<leftarrow> parts h l;
        if rm_total raw - bytes \<le> rm_last_offset raw - mp_offset ml then do {
          let s = rm_total raw - bytes;
          let lo = rm_last_offset raw - s;
          h \<leftarrow> incref_part l h;
          Some (0, raw\<lparr>rm_last_offset := lo, rm_total := rm_total raw - s\<rparr>,
            \<lparr>rm_first = Some l, rm_last = Some l, rm_total = s, rm_first_offset = lo, rm_last_offset = lo + s\<rparr>, h)
        }
        else if bytes = 0 then Some (0, raw\<lparr>rm_total := 0\<rparr>, tail\<lparr>rm_total := rm_total raw\<rparr>, h)
        else do {
          f \<leftarrow> rm_first raw;
          (p, off) \<leftarrow> split_at f bytes raw h;
          h \<leftarrow> incref_part p h;
          Some (0, raw\<lparr>rm_total := bytes, rm_last := Some p, rm_last_offset := off\<rparr>,
            \<lparr>rm_first = Some p, rm_last = rm_last raw, rm_total = rm_total raw - bytes, rm_first_offset = off,
             rm_last_offset = rm_last_offset raw\<rparr>, h)
        }
      })"

text \<open>The result is the code, the head, the rest and the heap.\<close>

definition rwm_split_head :: "raw_message \<Rightarrow> nat \<Rightarrow> msg_heap \<Rightarrow> (int \<times> raw_message \<times> raw_message \<times> msg_heap) option" where
  "rwm_split_head raw bytes h = rwm_split raw raw bytes h"

subsection \<open>Reading and removing bytes\<close>

text \<open>
  \<^verbatim>\<open>rwm_process_ex\<close>. The block function gets its state and a block and returns a code and a new state; a
  negative code ends the processing. The first loop finds the part with the start offset; its result is the part, the
  offset that remains in it and whether all parts up to it belong to this message alone.
\<close>

partial_function (option) seek_part :: "nat \<Rightarrow> nat \<Rightarrow> bool \<Rightarrow> raw_message \<Rightarrow> msg_heap \<Rightarrow> (nat \<times> nat \<times> bool) option" where
  [code]: "seek_part p offset ok raw h =
     (case parts h p of
        None \<Rightarrow> None
      | Some mp \<Rightarrow>
          let ok = (ok \<and> mp_refcnt mp = 1);
              start = (if Some p = rm_first raw then rm_first_offset raw else mp_offset mp);
              len = (if Some p = rm_last raw then rm_last_offset raw else mp_data_end mp) - start in
          if len \<ge> offset then Some (p, start + offset, ok)
          else (case mp_next mp of None \<Rightarrow> None | Some q \<Rightarrow> seek_part q (offset - len) ok raw h))"

text \<open>
  The second loop processes the blocks; its result is the code, the state, the last part, the offset behind the last
  byte and the flag \<^verbatim>\<open>ok2\<close>.
\<close>

partial_function (option) process_parts ::
  "('x \<Rightarrow> bytes \<Rightarrow> int \<times> 'x) \<Rightarrow> 'x \<Rightarrow> nat \<Rightarrow> nat \<Rightarrow> nat \<Rightarrow> bool \<Rightarrow> raw_message \<Rightarrow> msg_heap \<Rightarrow>
   (int \<times> 'x \<times> nat \<times> nat \<times> bool) option" where
  [code]: "process_parts f x p start bytes ok raw h =
     (case parts h p of
        None \<Rightarrow> None
      | Some mp \<Rightarrow> do {
          let len = (if Some p = rm_last raw then rm_last_offset raw else mp_data_end mp) - start;
          let n = min len bytes;
          blk \<leftarrow> read_buf (mp_part mp) start n h;
          let (r, x) = (if n > 0 then f x blk else (0, x));
          if r < 0 \<or> len \<ge> bytes then Some (r, x, p, start + n, ok)
          else case mp_next mp of
            None \<Rightarrow> None
          | Some q \<Rightarrow> do {
              mq \<leftarrow> parts h q;
              process_parts f x q (if Some q = rm_first raw then rm_first_offset raw else mp_offset mq) (bytes - n)
                (ok \<and> mp_refcnt mq = 1) raw h
            }
        })"

definition process_advance :: "nat \<Rightarrow> nat \<Rightarrow> bool \<Rightarrow> nat \<Rightarrow> raw_message \<Rightarrow> msg_heap \<Rightarrow> (raw_message \<times> msg_heap) option" where
  "process_advance p off ok cnt raw h =
     (if cnt = rm_total raw then rwm_clear raw h
      else do {
        h \<leftarrow> (if Some p \<noteq> rm_first raw then do { h \<leftarrow> incref_part p h; msg_part_decref (rm_first raw) h } else Some h);
        h \<leftarrow> (if ok then upd_part p (\<lambda>mp. mp\<lparr>mp_offset := off\<rparr>) h else Some h);
        Some (raw\<lparr>rm_first := Some p, rm_first_offset := off, rm_total := rm_total raw - cnt\<rparr>, h)
      })"

definition process_truncate :: "nat \<Rightarrow> nat \<Rightarrow> bool \<Rightarrow> nat \<Rightarrow> raw_message \<Rightarrow> msg_heap \<Rightarrow> (raw_message \<times> msg_heap) option" where
  "process_truncate p off ok keep raw h =
     (if keep = 0 then rwm_clear raw h
      else do {
        h \<leftarrow> (if ok then do {
                h \<leftarrow> upd_part p (\<lambda>mp. mp\<lparr>mp_data_end := off\<rparr>) h;
                mp \<leftarrow> parts h p;
                h \<leftarrow> msg_part_decref (mp_next mp) h;
                upd_part p (\<lambda>mp. mp\<lparr>mp_next := None\<rparr>) h
              } else Some h);
        Some (raw\<lparr>rm_total := keep, rm_last := Some p, rm_last_offset := off\<rparr>, h)
      })"

text \<open>The two flags are never given together.\<close>

datatype process_flag = Keep | Advance | Truncate

definition rwm_process_ex ::
  "raw_message \<Rightarrow> nat \<Rightarrow> nat \<Rightarrow> process_flag \<Rightarrow> ('x \<Rightarrow> bytes \<Rightarrow> int \<times> 'x) \<Rightarrow> 'x \<Rightarrow> msg_heap \<Rightarrow>
   (int \<times> 'x \<times> raw_message \<times> msg_heap) option" where
  "rwm_process_ex raw bytes offset flag f x h =
     (let bytes = (if bytes + offset > rm_total raw then rm_total raw - offset else bytes) in
      if bytes = 0 then Some (0, x, raw, h)
      else do {
        l \<leftarrow> rm_last raw;
        ml \<leftarrow> parts h l;
        first \<leftarrow> rm_first raw;
        if rm_total raw - offset \<le> rm_last_offset raw - mp_offset ml then do {
          let y = rm_total raw - offset;
          blk \<leftarrow> read_buf (mp_part ml) (rm_last_offset raw - y) bytes h;
          let (r, x) = f x blk;
          if r < 0 then Some (r, x, raw, h)
          else case flag of
            Keep \<Rightarrow> Some (int bytes, x, raw, h)
          | Advance \<Rightarrow> do {
              h \<leftarrow> incref_part l h;
              h \<leftarrow> msg_part_decref (rm_first raw) h;
              Some (int bytes, x, raw\<lparr>rm_first := Some l, rm_first_offset := rm_last_offset raw - y + bytes,
                rm_total := rm_total raw - (offset + bytes)\<rparr>, h)
            }
          | Truncate \<Rightarrow> Some (int bytes, x, raw\<lparr>rm_total := rm_total raw - y, rm_last_offset := rm_last_offset raw - y\<rparr>, h)
        }
        else do {
          (np, save_start, ok) \<leftarrow> seek_part first offset True raw h;
          (r, x, p, off, ok2) \<leftarrow> process_parts f x np save_start bytes ok raw h;
          if r < 0 then Some (r, x, raw, h)
          else do {
            (raw, h) \<leftarrow> (case flag of
                Keep \<Rightarrow> Some (raw, h)
              | Advance \<Rightarrow> process_advance p off ok2 (offset + bytes) raw h
              | Truncate \<Rightarrow> process_truncate np save_start ok offset raw h);
            (raw, h) \<leftarrow> (if rm_total raw = 0 then rwm_clear raw h else Some (raw, h));
            Some (int bytes, x, raw, h)
          }
        }
      })"

text \<open>The block function that copies, and the operations made with it.\<close>

definition process_memcpy :: "bytes \<Rightarrow> bytes \<Rightarrow> int \<times> bytes" where
  "process_memcpy d blk = (0, d @ blk)"

definition rwm_fetch_data :: "raw_message \<Rightarrow> nat \<Rightarrow> msg_heap \<Rightarrow> (int \<times> bytes \<times> raw_message \<times> msg_heap) option" where
  "rwm_fetch_data raw bytes h = rwm_process_ex raw bytes 0 Advance process_memcpy [] h"

definition rwm_skip_data :: "raw_message \<Rightarrow> nat \<Rightarrow> msg_heap \<Rightarrow> (int \<times> unit \<times> raw_message \<times> msg_heap) option" where
  "rwm_skip_data raw bytes h = rwm_process_ex raw bytes 0 Advance (\<lambda>x blk. (0, x)) () h"

definition rwm_fetch_lookup :: "raw_message \<Rightarrow> nat \<Rightarrow> msg_heap \<Rightarrow> (int \<times> bytes \<times> raw_message \<times> msg_heap) option" where
  "rwm_fetch_lookup raw bytes h = rwm_process_ex raw bytes 0 Keep process_memcpy [] h"

definition rwm_fetch_data_back :: "raw_message \<Rightarrow> nat \<Rightarrow> msg_heap \<Rightarrow> (int \<times> bytes \<times> raw_message \<times> msg_heap) option" where
  "rwm_fetch_data_back raw bytes h =
     (let bytes = min bytes (rm_total raw) in
      if bytes = 0 then Some (0, [], raw, h)
      else rwm_process_ex raw bytes (rm_total raw - bytes) Truncate process_memcpy [] h)"

definition rwm_trunc :: "raw_message \<Rightarrow> nat \<Rightarrow> msg_heap \<Rightarrow> (nat \<times> raw_message \<times> msg_heap) option" where
  "rwm_trunc raw len h =
     (if len \<ge> rm_total raw then Some (rm_total raw, raw, h)
      else do {
        (r, d, raw, h) \<leftarrow> rwm_fetch_data_back raw (rm_total raw - len) h;
        Some (len, raw, h)
      })"

end
