(* ===== verification/Msg_Chain.thy ===== *)
theory Msg_Chain
  imports Raw_Msg
begin

text \<open>
  The invariant of the heap of message parts: reference counts are exact, chains are acyclic, data lie inside their
  buffers. The references held from outside the heap are a multiset. Each elementary change
  of the heap has a lemma; the release of a reference is proved to end and to leave all that is still
  reachable.
\<close>

subsection \<open>The invariant\<close>

definition links :: "msg_heap \<Rightarrow> (nat \<times> nat) set" where
  "links h = {(p, q). \<exists>mp. parts h p = Some mp \<and> mp_next mp = Some q}"

definition preds :: "msg_heap \<Rightarrow> nat \<Rightarrow> nat set" where
  "preds h p = {q. (q, p) \<in> links h}"

definition users :: "msg_heap \<Rightarrow> buffer_ptr \<Rightarrow> nat set" where
  "users h b = {p. \<exists>mp. parts h p = Some mp \<and> mp_part mp = b}"

text \<open>References: \<open>R\<close> counts those from outside.\<close>

definition refcount :: "nat multiset \<Rightarrow> msg_heap \<Rightarrow> nat \<Rightarrow> nat" where
  "refcount R h p = count R p + card (preds h p)"

definition counted :: "nat \<Rightarrow> nat \<Rightarrow> nat \<Rightarrow> msg_part \<Rightarrow> bool" where
  "counted n limit p mp \<longleftrightarrow> mp_refcnt mp = n \<and> 0 < n \<and> p < limit"

definition refs_ok :: "nat multiset \<Rightarrow> msg_heap \<Rightarrow> bool" where
  "refs_ok R h \<longleftrightarrow> finite (dom (parts h)) \<and> set_mset R \<subseteq> dom (parts h) \<and> acyclic (links h) \<and> Range (links h) \<subseteq> dom (parts h) \<and>
     (\<forall>p mp. parts h p = Some mp \<longrightarrow> counted (refcount R h p) (next_part h) p mp)"

definition part_in_buffer :: "msg_heap \<Rightarrow> msg_part \<Rightarrow> bool" where
  "part_in_buffer h mp \<longleftrightarrow> mp_offset mp \<le> mp_data_end mp \<and>
     (case bufs h (mp_part mp) of None \<Rightarrow> False | Some mb \<Rightarrow> mp_data_end mp \<le> length (buf_data mb))"

definition buf_counted :: "nat \<Rightarrow> nat \<Rightarrow> msg_buffer \<Rightarrow> bool" where
  "buf_counted n sz mb \<longleftrightarrow> buf_refcnt mb = n \<and> 0 < n \<and> length (buf_data mb) = sz"

definition data_ok :: "msg_heap \<Rightarrow> bool" where
  "data_ok h \<longleftrightarrow> pool_ok (pool h) \<and> dom (bufs h) = used (pool h) \<and>
     (\<forall>b mb. bufs h b = Some mb \<longrightarrow> buf_counted (card (users h b)) (ptr_size (pool h) b) mb) \<and>
     (\<forall>p mp. parts h p = Some mp \<longrightarrow> part_in_buffer h mp)"

definition reach :: "msg_heap \<Rightarrow> nat multiset \<Rightarrow> nat set" where
  "reach h R = (links h)\<^sup>* `` set_mset R"

definition locks :: "msg_heap \<Rightarrow> nat set" where
  "locks h = {p. \<exists>mp. parts h p = Some mp \<and> mp_locked mp}"

lemma links_fun: "(p, q) \<in> links h \<Longrightarrow> (p, q') \<in> links h \<Longrightarrow> q = q'"
  by (auto simp: links_def)

lemma links_upd:
  "parts h p = Some mp \<Longrightarrow> links (h\<lparr>parts := (parts h)(p \<mapsto> mp')\<rparr>) =
     {(a, b) \<in> links h. a \<noteq> p} \<union> {(p, q) | q. mp_next mp' = Some q}"
  by (auto simp: links_def split: if_splits)

lemma links_same_next:
  "parts h p = Some mp \<Longrightarrow> mp_next mp' = mp_next mp \<Longrightarrow> links (h\<lparr>parts := (parts h)(p \<mapsto> mp')\<rparr>) = links h"
  by (auto simp: links_def split: if_splits)

lemma finite_preds: "refs_ok R h \<Longrightarrow> finite (preds h p)"
  by (rule finite_subset [of _ "dom (parts h)"]) (auto simp: refs_ok_def preds_def links_def)

lemma finite_users: "finite (dom (parts h)) \<Longrightarrow> finite (users h b)"
  by (rule finite_subset [of _ "dom (parts h)"]) (auto simp: users_def)

lemma acyclic_self: "acyclic r \<Longrightarrow> (p, p) \<notin> r"
  by (auto simp: acyclic_def)

lemma refs_okD: "refs_ok R h \<Longrightarrow> parts h p = Some mp \<Longrightarrow> counted (refcount R h p) (next_part h) p mp"
  by (simp add: refs_ok_def)

lemma link_target: "refs_ok R h \<Longrightarrow> (p, q) \<in> links h \<Longrightarrow> \<exists>mq. parts h q = Some mq"
  by (auto simp: refs_ok_def)

subsection \<open>Elementary changes: references\<close>

text \<open>Changes of one part that keep its successor.\<close>

lemma refs_ok_count:
  assumes ok: "refs_ok R h" and p: "parts h p = Some mp" "mp_next mp' = mp_next mp"
    and R: "set_mset R' \<subseteq> insert p (set_mset R)" "\<And>x. x \<noteq> p \<Longrightarrow> count R' x = count R x"
    and cnt: "mp_refcnt mp' = count R' p + card (preds h p)" "0 < mp_refcnt mp'"
  shows "refs_ok R' (h\<lparr>parts := (parts h)(p \<mapsto> mp')\<rparr>)"
proof -
  let ?h = "h\<lparr>parts := (parts h)(p \<mapsto> mp')\<rparr>"
  have l: "links ?h = links h" by (rule links_same_next [OF p])
  have "refcount R' ?h x = (if x = p then mp_refcnt mp' else refcount R h x)" for x
    using R(2) [of x] cnt(1) by (simp add: refcount_def preds_def l)
  moreover have "counted (mp_refcnt mp') (next_part h) p mp'" using refs_okD [OF ok p(1)] cnt(2) by (simp add: counted_def)
  ultimately show ?thesis using ok p(1) R(1) by (auto simp: refs_ok_def l)
qed

lemma refs_ok_upd:
  assumes "refs_ok R h" "parts h p = Some mp" "mp_next mp' = mp_next mp" "mp_refcnt mp' = mp_refcnt mp"
  shows "refs_ok R (h\<lparr>parts := (parts h)(p \<mapsto> mp')\<rparr>)"
  using refs_okD [OF assms(1,2)] assms(4) by (intro refs_ok_count [OF assms(1-3)]) (auto simp: counted_def refcount_def)

lemma refs_ok_incref:
  assumes "refs_ok R h" "parts h p = Some mp" "mp_next mp' = mp_next mp" "mp_refcnt mp' = mp_refcnt mp + 1"
  shows "refs_ok (add_mset p R) (h\<lparr>parts := (parts h)(p \<mapsto> mp')\<rparr>)"
  using refs_okD [OF assms(1,2)] assms(4) by (intro refs_ok_count [OF assms(1-3)]) (auto simp: counted_def refcount_def)

lemma refs_ok_decref:
  assumes "refs_ok (add_mset p R) h" "parts h p = Some mp" "mp_refcnt mp > 1"
  shows "refs_ok R (h\<lparr>parts := (parts h)(p \<mapsto> mp\<lparr>mp_refcnt := mp_refcnt mp - 1\<rparr>)\<rparr>)"
  using refs_okD [OF assms(1,2)] assms(3)
  by (intro refs_ok_count [OF assms(1,2)]) (auto simp: counted_def refcount_def)

text \<open>A pointer to \<open>q\<close> is stored in the last part \<open>p\<close> of a chain, in exchange for a reference from outside.\<close>

lemma refs_ok_link:
  assumes ok: "refs_ok (add_mset q R) h" and p: "parts h p = Some mp" "mp_next mp = None"
    and mp': "mp_next mp' = Some q" "mp_refcnt mp' = mp_refcnt mp" and nocycle: "(q, p) \<notin> (links h)\<^sup>*"
  shows "refs_ok R (h\<lparr>parts := (parts h)(p \<mapsto> mp')\<rparr>)" "links (h\<lparr>parts := (parts h)(p \<mapsto> mp')\<rparr>) = insert (p, q) (links h)"
proof -
  let ?h = "h\<lparr>parts := (parts h)(p \<mapsto> mp')\<rparr>"
  show l: "links ?h = insert (p, q) (links h)" using links_upd [OF p(1), of mp'] mp'(1) p by (auto simp: links_def)
  have pr: "preds ?h x = (if x = q then insert p (preds h x) else preds h x)" for x by (auto simp: preds_def l)
  have "p \<notin> preds h q" using p by (auto simp: preds_def links_def)
  then have "card (preds ?h q) = card (preds h q) + 1" using finite_preds [OF ok] by (simp add: pr)
  then have "refcount R ?h x = refcount (add_mset q R) h x" for x by (cases "x = q") (simp_all add: refcount_def pr)
  moreover have "acyclic (links ?h)" unfolding l using ok nocycle by (simp add: refs_ok_def)
  moreover have "parts h q \<noteq> None" using ok by (auto simp: refs_ok_def)
  ultimately show "refs_ok R ?h"
    unfolding refs_ok_def l using ok p mp'(2) by (auto simp: refs_ok_def counted_def)
qed

lemma refs_ok_unlink:
  assumes ok: "refs_ok R h" and p: "parts h p = Some mp" "mp_next mp = Some q"
    and mp': "mp_next mp' = None" "mp_refcnt mp' = mp_refcnt mp"
  shows "refs_ok (add_mset q R) (h\<lparr>parts := (parts h)(p \<mapsto> mp')\<rparr>)"
    "links (h\<lparr>parts := (parts h)(p \<mapsto> mp')\<rparr>) = links h - {(p, q)}"
proof -
  let ?h = "h\<lparr>parts := (parts h)(p \<mapsto> mp')\<rparr>"
  show l: "links ?h = links h - {(p, q)}" using links_upd [OF p(1), of mp'] mp'(1) p by (auto simp: links_def)
  have pq: "(p, q) \<in> links h" using p by (auto simp: links_def)
  have pr: "preds ?h x = (if x = q then preds h x - {p} else preds h x)" for x by (auto simp: preds_def l)
  have "card (preds h q) = card (preds ?h q) + 1"
    using card_Suc_Diff1 [OF finite_preds [OF ok, of q], of p] pq by (simp add: pr) (simp add: preds_def)
  then have "refcount (add_mset q R) ?h x = refcount R h x" for x by (cases "x = q") (simp_all add: refcount_def pr)
  moreover have "acyclic (links ?h)" unfolding l using ok by (auto simp: refs_ok_def intro: acyclic_subset)
  ultimately show "refs_ok (add_mset q R) ?h"
    unfolding refs_ok_def l using ok p mp'(2) link_target [OF ok pq] by (auto simp: refs_ok_def counted_def)
qed

text \<open>A new part without successor, referred to from outside.\<close>

lemma refs_ok_new:
  assumes ok: "refs_ok R h" and mp: "mp_next mp = None" "mp_refcnt mp = 1"
  defines "h' \<equiv> h\<lparr>next_part := next_part h + 1, parts := (parts h)(next_part h \<mapsto> mp)\<rparr>"
  shows "refs_ok (add_mset (next_part h) R) h'" "links h' = links h" "parts h (next_part h) = None"
proof -
  let ?n = "next_part h"
  show n: "parts h ?n = None" using ok by (cases "parts h ?n") (auto simp: refs_ok_def counted_def)
  then show l: "links h' = links h" using mp(1) by (auto simp: links_def h'_def split: if_splits)
  have nn: "preds h ?n = {}" "?n \<notin># R" using ok n by (auto simp: refs_ok_def preds_def Range_def domIff)
  then have "count R ?n = 0" by (simp add: count_eq_zero_iff)
  with nn(1) have "refcount (add_mset ?n R) h' x = (if x = ?n then 1 else refcount R h x)" for x
    by (simp add: refcount_def preds_def l)
  then show "refs_ok (add_mset ?n R) h'"
    unfolding refs_ok_def l using ok mp(2) n by (auto simp: refs_ok_def h'_def counted_def less_Suc_eq)
qed

text \<open>The last reference to a part without successor is given up with the part.\<close>

lemma refs_ok_drop:
  assumes ok: "refs_ok (add_mset p R) h" and p: "parts h p = Some mp" "mp_refcnt mp = 1" "mp_next mp = None"
  shows "refs_ok R (h\<lparr>parts := (parts h)(p := None)\<rparr>)" "links (h\<lparr>parts := (parts h)(p := None)\<rparr>) = links h"
    "p \<notin># R" "preds h p = {}"
proof -
  let ?h = "h\<lparr>parts := (parts h)(p := None)\<rparr>"
  show l: "links ?h = links h" using p by (auto simp: links_def split: if_splits)
  have "refcount (add_mset p R) h p = 1" using refs_okD [OF ok p(1)] p(2) by (simp add: counted_def)
  then show R: "p \<notin># R" and pr: "preds h p = {}" using finite_preds [OF ok, of p] by (auto simp: refcount_def count_eq_zero_iff)
  have "Range (links h) \<subseteq> dom (parts h) - {p}" using ok pr by (auto simp: refs_ok_def preds_def)
  moreover have "x \<noteq> p \<Longrightarrow> refcount R ?h x = refcount (add_mset p R) h x" for x by (simp add: refcount_def preds_def l)
  ultimately show "refs_ok R ?h"
    unfolding refs_ok_def l using ok R by (auto simp: refs_ok_def)
qed

subsection \<open>Elementary changes: data\<close>

definition bdata :: "msg_heap \<Rightarrow> buffer_ptr \<Rightarrow> bytes option" where
  "bdata h b = map_option buf_data (bufs h b)"

lemma part_in_buffer_iff:
  "part_in_buffer h mp \<longleftrightarrow> (\<exists>d. bdata h (mp_part mp) = Some d \<and> mp_offset mp \<le> mp_data_end mp \<and> mp_data_end mp \<le> length d)"
  by (auto simp: part_in_buffer_def bdata_def split: option.splits)

lemma data_okI:
  assumes "pool_ok (pool h)" "dom (bufs h) = used (pool h)"
    "\<And>b mb. bufs h b = Some mb \<Longrightarrow> buf_counted (card (users h b)) (ptr_size (pool h) b) mb"
    "\<And>p mp. parts h p = Some mp \<Longrightarrow> part_in_buffer h mp"
  shows "data_ok h"
  using assms by (simp add: data_ok_def)

lemma data_okD:
  assumes "data_ok h"
  shows "pool_ok (pool h)" "dom (bufs h) = used (pool h)"
    "bufs h b = Some mb \<Longrightarrow> buf_counted (card (users h b)) (ptr_size (pool h) b) mb"
    "parts h p = Some mp \<Longrightarrow> part_in_buffer h mp"
    "parts h p = Some mp \<Longrightarrow> \<exists>mb. bufs h (mp_part mp) = Some mb"
proof -
  note ok = assms [unfolded data_ok_def]
  show "pool_ok (pool h)" "dom (bufs h) = used (pool h)" using ok by simp_all
  show "bufs h b = Some mb \<Longrightarrow> buf_counted (card (users h b)) (ptr_size (pool h) b) mb" using ok by blast
  show pib: "parts h p = Some mp \<Longrightarrow> part_in_buffer h mp" using ok by blast
  then show "parts h p = Some mp \<Longrightarrow> \<exists>mb. bufs h (mp_part mp) = Some mb"
    by (cases "bufs h (mp_part mp)") (auto simp: part_in_buffer_def)
qed

lemma data_ok_upd:
  assumes ok: "data_ok h" and p: "parts h p = Some mp" "mp_part mp' = mp_part mp" "part_in_buffer h mp'"
  shows "data_ok (h\<lparr>parts := (parts h)(p \<mapsto> mp')\<rparr>)"
proof (rule data_okI)
  let ?h = "h\<lparr>parts := (parts h)(p \<mapsto> mp')\<rparr>"
  have u: "users ?h b = users h b" for b using p(1,2) by (auto simp: users_def split: if_splits)
  show "buf_counted (card (users ?h b)) (ptr_size (pool ?h) b) mb" if "bufs ?h b = Some mb" for b mb
    using data_okD(3) [OF ok, of b mb] that by (simp add: u)
  show "part_in_buffer ?h mx" if "parts ?h x = Some mx" for x mx
    using data_okD(4) [OF ok, of x mx] p(3) that by (auto simp: part_in_buffer_def split: if_splits)
qed (use data_okD(1,2) [OF ok] in simp_all)

text \<open>A new part for a buffer that other parts use.\<close>

lemma data_ok_share:
  assumes ok: "data_ok h" "finite (dom (parts h))" "parts h n = None" "bufs h (mp_part mp) = Some mb" "part_in_buffer h mp"
  shows "data_ok (h\<lparr>bufs := (bufs h)(mp_part mp \<mapsto> mb\<lparr>buf_refcnt := buf_refcnt mb + 1\<rparr>), next_part := k, parts := (parts h)(n \<mapsto> mp)\<rparr>)"
    (is "data_ok ?h")
proof (rule data_okI)
  have u: "users ?h b = (if b = mp_part mp then insert n (users h b) else users h b)" for b
    using ok(3) by (auto simp: users_def split: if_splits)
  have n: "n \<notin> users h b" for b using ok(3) by (auto simp: users_def)
  have bd: "bdata ?h b = bdata h b" for b using ok(4) by (auto simp: bdata_def)
  show "dom (bufs ?h) = used (pool ?h)" using data_okD(2) [OF ok(1)] ok(4) by auto
  show "buf_counted (card (users ?h b)) (ptr_size (pool ?h) b) mc" if "bufs ?h b = Some mc" for b mc
  proof (cases "b = mp_part mp")
    case True
    then show ?thesis using data_okD(3) [OF ok(1,4)] that finite_users [OF ok(2)] n unfolding u by (auto simp: buf_counted_def)
  next
    case False
    then show ?thesis using data_okD(3) [OF ok(1), of b mc] that unfolding u by simp
  qed
  show "part_in_buffer ?h mx" if "parts ?h x = Some mx" for x mx
    using data_okD(4) [OF ok(1), of x mx] ok(5) that unfolding part_in_buffer_iff bd by (cases "x = n") simp_all
qed (use data_okD(1) [OF ok(1)] in simp)

text \<open>A new part for a new buffer.\<close>

lemma data_ok_new:
  assumes ok: "data_ok h" "parts h n = None"
    and p': "pool_ok p'" "b \<notin> used (pool h)" "used p' = insert b (used (pool h))" "\<And>b. b \<in> used (pool h) \<Longrightarrow> ptr_size p' b = ptr_size (pool h) b"
    and d: "length d = ptr_size p' b"
    and mp: "mp_part mp = b" "mp_offset mp \<le> mp_data_end mp" "mp_data_end mp \<le> length d"
  shows "data_ok (h\<lparr>pool := p', bufs := (bufs h)(b \<mapsto> \<lparr>buf_refcnt = 1, buf_data = d\<rparr>), next_part := k, parts := (parts h)(n \<mapsto> mp)\<rparr>)"
    (is "data_ok ?h")
proof (rule data_okI)
  note dm = data_okD(2) [OF ok(1)]
  have in_use: "mp_part mx \<in> used (pool h)" if "parts h x = Some mx" for x mx
    using data_okD(5) [OF ok(1) that] dm by auto
  have far: "mp_part mx \<noteq> b" if "parts h x = Some mx" for x mx using in_use [OF that] p'(2) by auto
  have u: "users ?h c = (if c = b then {n} else users h c)" for c
    using ok(2) mp(1) far by (fastforce simp: users_def split: if_splits)
  show "dom (bufs ?h) = used (pool ?h)" using dm p'(3) by auto
  show "buf_counted (card (users ?h c)) (ptr_size (pool ?h) c) mc" if "bufs ?h c = Some mc" for c mc
  proof (cases "c = b")
    case True
    then show ?thesis using that d unfolding u by (auto simp: buf_counted_def)
  next
    case False
    then have c: "bufs h c = Some mc" using that by simp
    then have "c \<in> used (pool h)" using dm by auto
    then show ?thesis using data_okD(3) [OF ok(1) c] False p'(4) unfolding u by simp
  qed
  show "part_in_buffer ?h mx" if "parts ?h x = Some mx" for x mx
  proof (cases "x = n")
    case False
    then have "parts h x = Some mx" using that by simp
    then show ?thesis using data_okD(4) [OF ok(1)] far by (auto simp: part_in_buffer_def)
  qed (use mp that in \<open>auto simp: part_in_buffer_def\<close>)
qed (use p'(1) in simp)

lemma data_ok_write:
  assumes ok: "data_ok h" "bufs h b = Some mb" "length d = length (buf_data mb)"
  shows "data_ok (h\<lparr>bufs := (bufs h)(b \<mapsto> mb\<lparr>buf_data := d\<rparr>)\<rparr>)" (is "data_ok ?h")
proof (rule data_okI)
  have u: "users ?h = users h" by (simp add: users_def fun_eq_iff)
  show "dom (bufs ?h) = used (pool ?h)" using data_okD(2) [OF ok(1)] ok(2) by auto
  show "buf_counted (card (users ?h c)) (ptr_size (pool ?h) c) mc" if "bufs ?h c = Some mc" for c mc
    using data_okD(3) [OF ok(1), of c] data_okD(3) [OF ok(1,2)] ok(3) that by (auto simp: u buf_counted_def split: if_splits)
  show "part_in_buffer ?h mx" if "parts ?h x = Some mx" for x mx
    using data_okD(4) [OF ok(1), of x mx] ok(2,3) that by (auto simp: part_in_buffer_def)
qed (use data_okD(1) [OF ok(1)] in simp)

text \<open>A part is given up with its reference to its buffer.\<close>

lemma data_ok_drop:
  assumes ok: "data_ok h" "finite (dom (parts h))" "parts h p = Some mp"
  obtains h1 where "msg_buffer_decref (mp_part mp) h = Some h1" "parts h1 = parts h" "next_part h1 = next_part h"
    "data_ok (h1\<lparr>parts := (parts h)(p := None)\<rparr>)"
    "\<forall>x mx. x \<noteq> p \<longrightarrow> parts h x = Some mx \<longrightarrow> bdata h1 (mp_part mx) = bdata h (mp_part mx)"
proof -
  let ?b = "mp_part mp" and ?P = "(parts h)(p := None)"
  from data_okD(5) [OF ok(1,3)] obtain mb where mb: "bufs h ?b = Some mb" by blast
  note cnt = data_okD(3) [OF ok(1) mb]
  have pu: "p \<in> users h ?b" using ok(3) by (auto simp: users_def)
  have card: "card (users h ?b) = card (users h ?b - {p}) + 1" using card_Suc_Diff1 [OF finite_users [OF ok(2)] pu] by simp
  have u: "users (h1\<lparr>parts := ?P\<rparr>) c = (if c = ?b then users h c - {p} else users h c)" for h1 :: msg_heap and c
    using ok(3) by (auto simp: users_def)
  show ?thesis
  proof (cases "buf_refcnt mb = 1")
    case True
    have "?b \<in> used (pool h)" using mb data_okD(2) [OF ok(1)] by auto
    then obtain p' where p': "free_std_msg_buffer ?b (pool h) = Some p'" "pool_ok p'" "used p' = used (pool h) - {?b}"
      "ptr_size p' = ptr_size (pool h)" by (rule free_std_msg_buffer_ok [OF data_okD(1) [OF ok(1)]])
    define h1 where "h1 = h\<lparr>pool := p', bufs := (bufs h)(?b := None)\<rparr>"
    have "users h ?b - {p} = {}" using True cnt card finite_users [OF ok(2), of ?b] by (auto simp: buf_counted_def)
    then have far: "mp_part mx \<noteq> ?b" if "x \<noteq> p" "parts h x = Some mx" for x mx using that by (auto simp: users_def)
    have "data_ok (h1\<lparr>parts := ?P\<rparr>)"
    proof (rule data_okI)
      show "dom (bufs (h1\<lparr>parts := ?P\<rparr>)) = used (pool (h1\<lparr>parts := ?P\<rparr>))" using p'(3) data_okD(2) [OF ok(1)] by (auto simp: h1_def)
      show "buf_counted (card (users (h1\<lparr>parts := ?P\<rparr>) c)) (ptr_size (pool (h1\<lparr>parts := ?P\<rparr>)) c) mc"
        if "bufs (h1\<lparr>parts := ?P\<rparr>) c = Some mc" for c mc
        using that data_okD(3) [OF ok(1), of c mc] p'(4) unfolding u by (auto simp: h1_def split: if_splits)
      show "part_in_buffer (h1\<lparr>parts := ?P\<rparr>) mx" if "parts (h1\<lparr>parts := ?P\<rparr>) x = Some mx" for x mx
        using that far [of x mx] data_okD(4) [OF ok(1), of x mx] by (auto simp: part_in_buffer_def h1_def split: if_splits)
    qed (use p'(2) in \<open>simp add: h1_def\<close>)
    then show ?thesis using p' mb True far
      by (intro that [of h1]) (auto simp: msg_buffer_decref_def h1_def bdata_def)
  next
    case False
    define h1 where "h1 = h\<lparr>bufs := (bufs h)(?b \<mapsto> mb\<lparr>buf_refcnt := buf_refcnt mb - 1\<rparr>)\<rparr>"
    have bd: "bdata h1 c = bdata h c" for c using mb by (auto simp: h1_def bdata_def)
    have "data_ok (h1\<lparr>parts := ?P\<rparr>)"
    proof (rule data_okI)
      show "dom (bufs (h1\<lparr>parts := ?P\<rparr>)) = used (pool (h1\<lparr>parts := ?P\<rparr>))" using data_okD(2) [OF ok(1)] mb by (auto simp: h1_def)
      show "buf_counted (card (users (h1\<lparr>parts := ?P\<rparr>) c)) (ptr_size (pool (h1\<lparr>parts := ?P\<rparr>)) c) mc"
        if "bufs (h1\<lparr>parts := ?P\<rparr>) c = Some mc" for c mc
        using that data_okD(3) [OF ok(1), of c mc] cnt card False unfolding u by (auto simp: h1_def buf_counted_def split: if_splits)
      show "part_in_buffer (h1\<lparr>parts := ?P\<rparr>) mx" if "parts (h1\<lparr>parts := ?P\<rparr>) x = Some mx" for x mx
        using that data_okD(4) [OF ok(1), of x mx] bd [of "mp_part mx"] by (auto simp: part_in_buffer_iff bdata_def split: if_splits)
    qed (use data_okD(1) [OF ok(1)] in \<open>simp add: h1_def\<close>)
    then show ?thesis using mb False bd by (intro that [of h1]) (auto simp: msg_buffer_decref_def h1_def)
  qed
qed

subsection \<open>Reachability\<close>

lemma reach_root: "p \<in># R \<Longrightarrow> p \<in> reach h R"
  by (auto simp: reach_def)

lemma reach_link: "p \<in> reach h R \<Longrightarrow> (p, q) \<in> links h \<Longrightarrow> q \<in> reach h R"
  by (auto simp: reach_def intro: rtrancl_into_rtrancl)

lemma reach_induct [consumes 1, case_names root link]:
  assumes "x \<in> reach h R" "\<And>p. p \<in># R \<Longrightarrow> P p" "\<And>p q. p \<in> reach h R \<Longrightarrow> P p \<Longrightarrow> (p, q) \<in> links h \<Longrightarrow> P q"
  shows "P x"
proof -
  from assms(1) obtain r where r: "r \<in># R" "(r, x) \<in> (links h)\<^sup>*" by (auto simp: reach_def)
  from r(2) show ?thesis
  proof (induction rule: rtrancl_induct)
    case (step y z)
    moreover have "y \<in> reach h R" using r(1) step(1) by (auto simp: reach_def)
    ultimately show ?case using assms(3) by blast
  qed (use r(1) assms(2) in blast)
qed

lemma reach_dom:
  assumes "refs_ok R h" "x \<in> reach h R"
  shows "\<exists>mp. parts h x = Some mp"
  using assms(2)
proof (induction rule: reach_induct)
  case (root p)
  then show ?case using assms(1) by (auto simp: refs_ok_def)
qed (use link_target assms(1) in blast)

lemma reach_mono_links:
  assumes "\<And>p q. p \<in> reach h R \<Longrightarrow> (p, q) \<in> links h \<Longrightarrow> (p, q) \<in> links h'" "set_mset R \<subseteq> set_mset R'"
  shows "reach h R \<subseteq> reach h' R'"
proof
  fix x assume "x \<in> reach h R"
  then show "x \<in> reach h' R'"
  proof (induction rule: reach_induct)
    case (link p q)
    then show ?case using assms(1) reach_link by blast
  qed (use assms(2) reach_root in blast)
qed

lemma reach_mono: "set_mset R \<subseteq> set_mset R' \<Longrightarrow> reach h R \<subseteq> reach h R'"
  by (auto simp: reach_def)

lemma reach_add: "reach h R \<subseteq> reach h (add_mset p R)" "reach h R \<subseteq> reach h (R + S)"
  by (auto simp: reach_def)

lemma reach_cong:
  assumes "\<And>p q. p \<in> reach h R \<Longrightarrow> (p, q) \<in> links h \<longleftrightarrow> (p, q) \<in> links h'"
  shows "reach h' R = reach h R"
proof
  show "reach h R \<subseteq> reach h' R" using assms by (intro reach_mono_links) auto
  show "reach h' R \<subseteq> reach h R"
  proof
    fix x assume "x \<in> reach h' R"
    then show "x \<in> reach h R"
    proof (induction rule: reach_induct)
      case (link p q)
      then show ?case using assms reach_link by blast
    qed (use reach_root in blast)
  qed
qed

lemma reach_unrooted:
  assumes "p \<notin># R" "preds h p = {}"
  shows "p \<notin> reach h R"
proof -
  have "x \<noteq> p" if "x \<in> reach h R" for x
    using that by (induction rule: reach_induct) (use assms in \<open>auto simp: preds_def\<close>)
  then show ?thesis by blast
qed

text \<open>Parts are the same up to their reference counts and locks, with the same data.\<close>

definition core :: "msg_part \<Rightarrow> msg_part" where "core mp = mp\<lparr>mp_refcnt := 0, mp_locked := False\<rparr>"

definition same :: "nat set \<Rightarrow> msg_heap \<Rightarrow> msg_heap \<Rightarrow> bool" where
  "same S h h' \<longleftrightarrow> (\<forall>x\<in>S. \<exists>mp mp'. parts h x = Some mp \<and> parts h' x = Some mp' \<and> core mp' = core mp \<and>
     bdata h' (mp_part mp) = bdata h (mp_part mp))"

lemma core_eqD:
  "core mp' = core mp \<Longrightarrow> mp_next mp' = mp_next mp \<and> mp_part mp' = mp_part mp \<and> mp_offset mp' = mp_offset mp \<and>
     mp_data_end mp' = mp_data_end mp"
  by (cases mp; cases mp') (simp add: core_def)

lemma core_refcnt [simp]: "core (mp\<lparr>mp_refcnt := n\<rparr>) = core mp"
  by (simp add: core_def)

lemma core_locked [simp]: "core (mp\<lparr>mp_locked := b\<rparr>) = core mp"
  by (simp add: core_def)

lemma sameD:
  assumes "same S h h'" "x \<in> S" "parts h x = Some mp"
  obtains mp' where "parts h' x = Some mp'" "core mp' = core mp" "bdata h' (mp_part mp) = bdata h (mp_part mp)"
  using assms by (auto simp: same_def)

lemma same_trans: "same S h h' \<Longrightarrow> same S h' h'' \<Longrightarrow> same S h h''"
  unfolding same_def by (metis core_eqD option.inject)

lemma same_subset: "same S h h' \<Longrightarrow> T \<subseteq> S \<Longrightarrow> same T h h'"
  by (auto simp: same_def)

lemma same_links: "same S h h' \<Longrightarrow> p \<in> S \<Longrightarrow> (p, q) \<in> links h' \<longleftrightarrow> (p, q) \<in> links h"
  unfolding same_def links_def by (auto dest!: bspec core_eqD)

lemma reach_same: "same (reach h R) h h' \<Longrightarrow> reach h' R = reach h R"
  by (rule reach_cong) (simp add: same_links)

subsection \<open>Giving up a reference\<close>

lemma refs_ok_heap: "refs_ok R h \<Longrightarrow> parts h' = parts h \<Longrightarrow> next_part h' = next_part h \<Longrightarrow> refs_ok R h'"
  by (simp add: refs_ok_def links_def refcount_def preds_def)

definition heap_ok :: "nat multiset \<Rightarrow> msg_heap \<Rightarrow> bool" where
  "heap_ok R h \<longleftrightarrow> refs_ok R h \<and> data_ok h"

text \<open>The last reference to a part goes over to its successor.\<close>

definition root :: "nat option \<Rightarrow> nat multiset" where
  "root ptr = (case ptr of None \<Rightarrow> {#} | Some p \<Rightarrow> {#p#})"

lemma root_simps [simp]: "root None = {#}" "root (Some p) = {#p#}"
  by (simp_all add: root_def)

lemma refs_ok_drop_next:
  assumes ok: "refs_ok (add_mset p R) h" and p: "parts h p = Some mp" "mp_refcnt mp = 1"
  defines "h' \<equiv> h\<lparr>parts := (parts h)(p := None)\<rparr>"
  shows "refs_ok (R + root (mp_next mp)) h'" "p \<notin> reach h R" "same (reach h R) h h'"
proof -
  have "refcount (add_mset p R) h p = 1" using refs_okD [OF ok p(1)] p(2) by (simp add: counted_def)
  then have "p \<notin># R" "preds h p = {}" using finite_preds [OF ok, of p] by (auto simp: refcount_def count_eq_zero_iff)
  then show far: "p \<notin> reach h R" by (rule reach_unrooted)
  show "same (reach h R) h h'"
    unfolding same_def
  proof
    fix x assume x: "x \<in> reach h R"
    then have "x \<in> reach h (add_mset p R)" using reach_add(1) by blast
    then obtain mx where "parts h x = Some mx" using reach_dom [OF ok] by blast
    then show "\<exists>mp mp'. parts h x = Some mp \<and> parts h' x = Some mp' \<and> core mp' = core mp \<and> bdata h' (mp_part mp) = bdata h (mp_part mp)"
      using x far by (auto simp: h'_def bdata_def)
  qed
  show "refs_ok (R + root (mp_next mp)) h'"
  proof (cases "mp_next mp")
    case None
    then show ?thesis using refs_ok_drop(1) [OF ok p] by (simp add: h'_def)
  next
    case (Some q)
    let ?mp = "mp\<lparr>mp_next := None\<rparr>"
    have "refs_ok (add_mset p (add_mset q R)) (h\<lparr>parts := (parts h)(p \<mapsto> ?mp)\<rparr>)"
      using refs_ok_unlink(1) [OF ok p(1) Some, of ?mp] by (simp add: add_mset_commute)
    from refs_ok_drop(1) [OF this, of ?mp] p(2) Some show ?thesis by (simp add: h'_def)
  qed
qed

lemma msg_part_decref_ok:
  "heap_ok (add_mset p R) h \<Longrightarrow> locks h \<subseteq> reach h R \<Longrightarrow>
   \<exists>h'. msg_part_decref (Some p) h = Some h' \<and> heap_ok R h' \<and> same (reach h R) h h' \<and> next_part h' = next_part h \<and>
     locks h' \<subseteq> locks h"
proof (induction "card (dom (parts h))" arbitrary: h p rule: less_induct)
  case less
  from less.prems(1) have ok: "refs_ok (add_mset p R) h" "data_ok h" by (simp_all add: heap_ok_def)
  have fin: "finite (dom (parts h))" using ok(1) by (simp add: refs_ok_def)
  obtain mp where p: "parts h p = Some mp" using ok(1) by (auto simp: refs_ok_def)
  have pos: "0 < mp_refcnt mp" using refs_okD [OF ok(1) p] by (auto simp: counted_def)
  show ?case
  proof (cases "mp_refcnt mp > 1")
    case True
    let ?mp = "mp\<lparr>mp_refcnt := mp_refcnt mp - 1\<rparr>"
    let ?h = "h\<lparr>parts := (parts h)(p \<mapsto> ?mp)\<rparr>"
    have "part_in_buffer h ?mp" using data_okD(4) [OF ok(2) p] by (simp add: part_in_buffer_iff)
    then have "heap_ok R ?h" using refs_ok_decref [OF ok(1) p True] data_ok_upd [OF ok(2) p, of ?mp] by (simp add: heap_ok_def)
    moreover have "same (reach h R) h ?h"
      unfolding same_def
    proof
      fix x assume "x \<in> reach h R"
      then have "x \<in> reach h (add_mset p R)" using reach_add(1) by blast
      then obtain mx where "parts h x = Some mx" using reach_dom [OF ok(1)] by blast
      then show "\<exists>mp mp'. parts h x = Some mp \<and> parts ?h x = Some mp' \<and> core mp' = core mp \<and> bdata ?h (mp_part mp) = bdata h (mp_part mp)"
        using p by (auto simp: bdata_def)
    qed
    moreover have "locks ?h \<subseteq> locks h" using p by (auto simp: locks_def split: if_splits)
    ultimately show ?thesis using p True by (subst msg_part_decref.simps) simp
  next
    case False
    then have one: "mp_refcnt mp = 1" using pos by simp
    note d = refs_ok_drop_next [OF ok(1) p one]
    have "p \<notin> locks h" using less.prems(2) d(2) by blast
    then have unl: "\<not> mp_locked mp" using p by (auto simp: locks_def)
    obtain h1 where h1: "msg_buffer_decref (mp_part mp) h = Some h1" "parts h1 = parts h" "next_part h1 = next_part h"
      "data_ok (h1\<lparr>parts := (parts h)(p := None)\<rparr>)"
      "\<forall>x mx. x \<noteq> p \<longrightarrow> parts h x = Some mx \<longrightarrow> bdata h1 (mp_part mx) = bdata h (mp_part mx)"
      by (rule data_ok_drop [OF ok(2) fin p])
    let ?h = "h1\<lparr>parts := (parts h)(p := None)\<rparr>"
    have ok': "heap_ok (R + root (mp_next mp)) ?h"
      using refs_ok_heap [OF d(1), of ?h] h1(2,3,4) by (simp add: heap_ok_def)
    have sm: "same (reach h R) h ?h"
      using d(2,3) h1(5) by (fastforce simp: same_def bdata_def)
    have step: "msg_part_decref (Some p) h = msg_part_decref (mp_next mp) ?h"
      using p one unl h1(1,2) by (subst msg_part_decref.simps) simp
    have lk: "locks ?h \<subseteq> locks h" by (auto simp: locks_def split: if_splits)
    show ?thesis
    proof (cases "mp_next mp")
      case None
      then show ?thesis using step ok' sm h1(3) lk by (subst (asm) (2) msg_part_decref.simps) simp
    next
      case (Some q)
      have "dom (parts ?h) = dom (parts h) - {p}" by auto
      then have "card (dom (parts ?h)) < card (dom (parts h))" using fin p by (metis card_Diff1_less domI)
      moreover have "heap_ok (add_mset q R) ?h" using ok' Some by simp
      moreover have "locks ?h \<subseteq> reach ?h R"
        using less.prems(2) unfolding reach_same [OF sm] by (auto simp: locks_def split: if_splits)
      ultimately obtain h' where "msg_part_decref (Some q) ?h = Some h'" "heap_ok R h'" "same (reach ?h R) ?h h'"
        "next_part h' = next_part ?h" "locks h' \<subseteq> locks ?h" using less.hyps [of ?h q] by blast
      then show ?thesis using step Some sm h1(3) same_trans lk unfolding reach_same [OF sm] by auto
    qed
  qed
qed

end
