(* ===== verification/Msg_View.thy ===== *)
theory Msg_View
  imports Msg_Chain
begin

text \<open>
  What a raw message denotes: the bytes of a path of parts. A message is not disturbed by changes outside its
  path, nor by growth behind its last part; parts that only one message refers to are not on the path of another.
\<close>

subsection \<open>Paths\<close>

definition part_at :: "msg_heap \<Rightarrow> nat \<Rightarrow> msg_part \<Rightarrow> bytes \<Rightarrow> bool" where
  "part_at h p mp d \<longleftrightarrow> parts h p = Some mp \<and> bdata h (mp_part mp) = Some d"

inductive seg :: "msg_heap \<Rightarrow> nat list \<Rightarrow> nat \<Rightarrow> nat \<Rightarrow> bytes \<Rightarrow> bool" for h where
  seg_last: "part_at h p mp d \<Longrightarrow> mp_offset mp \<le> fo \<Longrightarrow> fo \<le> lo \<Longrightarrow> lo \<le> mp_data_end mp \<Longrightarrow> seg h [p] fo lo (slice fo lo d)"
| seg_cons: "part_at h p mp d \<Longrightarrow> mp_offset mp \<le> fo \<Longrightarrow> fo \<le> mp_data_end mp \<Longrightarrow> mp_next mp = Some q \<Longrightarrow> parts h q = Some mq \<Longrightarrow>
    seg h (q # ps) (mp_offset mq) lo bs \<Longrightarrow> seg h (p # q # ps) fo lo (slice fo (mp_data_end mp) d @ bs)"

inductive_cases seg_singleE: "seg h [p] fo lo bs"
inductive_cases seg_consE: "seg h (p # q # ps) fo lo bs"
inductive_simps seg_nil [simp]: "seg h [] fo lo bs"

text \<open>The bytes that a message stands for.\<close>

definition denotes :: "msg_heap \<Rightarrow> raw_message \<Rightarrow> bytes \<Rightarrow> bool" where
  "denotes h r bs \<longleftrightarrow> rm_total r = length bs \<and>
     (case rm_first r of
        None \<Rightarrow> rm_last r = None \<and> bs = []
      | Some f \<Rightarrow> \<exists>ps. seg h ps (rm_first_offset r) (rm_last_offset r) bs \<and> hd ps = f \<and> rm_last r = Some (last ps))"

lemma denotes_None: "denotes h r bs \<Longrightarrow> rm_first r = None \<Longrightarrow> rm_last r = None \<and> bs = [] \<and> rm_total r = 0"
  by (auto simp: denotes_def)

lemma denotesE:
  assumes "denotes h r bs" "rm_first r = Some f"
  obtains ps where "seg h ps (rm_first_offset r) (rm_last_offset r) bs" "hd ps = f" "rm_last r = Some (last ps)" "ps \<noteq> []"
proof -
  from assms obtain ps where ps: "seg h ps (rm_first_offset r) (rm_last_offset r) bs" "hd ps = f" "rm_last r = Some (last ps)"
    by (auto simp: denotes_def)
  moreover have "ps \<noteq> []" using ps(1) by auto
  ultimately show ?thesis by (rule that)
qed

lemma slice_length: "b \<le> length d \<Longrightarrow> length (slice a b d) = b - a"
  by (simp add: slice_def)

lemma slice_append: "a \<le> b \<Longrightarrow> b \<le> c \<Longrightarrow> slice a b d @ slice b c d = slice a c d"
proof -
  assume "a \<le> b" "b \<le> c"
  then have "c - a = (b - a) + (c - b)" by simp
  then have "take (c - a) (drop a d) = take (b - a) (drop a d) @ take (c - b) (drop (b - a) (drop a d))" by (simp only: take_add)
  then show ?thesis using \<open>a \<le> b\<close> by (simp add: slice_def)
qed

lemma slice_empty [simp]: "slice a a d = []"
  by (simp add: slice_def)

lemma slice_sub:
  assumes "slice a b d' = slice a b d" "a \<le> x" "y \<le> b"
  shows "slice x y d' = slice x y d"
proof -
  have "slice x y e = take (y - x) (drop (x - a) (slice a b e))" for e
    using assms(2,3) by (simp add: slice_def drop_take min_def)
  then show ?thesis using assms(1) by simp
qed

lemma seg_part: "seg h ps fo lo bs \<Longrightarrow> x \<in> set ps \<Longrightarrow> \<exists>mp d. part_at h x mp d"
  by (induction rule: seg.induct) auto

lemma seg_path: "seg h ps fo lo bs \<Longrightarrow> successively (\<lambda>p q. (p, q) \<in> links h) ps"
  by (induction rule: seg.induct) (auto simp: links_def part_at_def)

lemma path_reach:
  "successively (\<lambda>p q. (p, q) \<in> links h) ps \<Longrightarrow> x \<in> set ps \<Longrightarrow> (hd ps, x) \<in> (links h)\<^sup>*"
proof (induction ps arbitrary: x)
  case (Cons p ps)
  then show ?case
    by (cases ps) (auto intro: converse_rtrancl_into_rtrancl)
qed simp

lemma path_distinct:
  "successively (\<lambda>p q. (p, q) \<in> links h) ps \<Longrightarrow> acyclic (links h) \<Longrightarrow> distinct ps"
proof (induction ps)
  case (Cons p ps)
  show ?case
  proof (cases ps)
    case (Cons q qs)
    have "p \<notin> set ps"
    proof
      assume "p \<in> set ps"
      then have "(q, p) \<in> (links h)\<^sup>*" using path_reach [of h ps p] Cons Cons.prems(1) by simp
      moreover have "(p, q) \<in> links h" using Cons.prems(1) Cons by simp
      ultimately have "(p, p) \<in> (links h)\<^sup>+" by (rule rtrancl_into_trancl2 [rotated])
      then show False using Cons.prems(2) by (simp add: acyclic_def)
    qed
    then show ?thesis using Cons.IH Cons.prems Cons by simp
  qed simp
qed simp

lemma seg_distinct: "seg h ps fo lo bs \<Longrightarrow> refs_ok R h \<Longrightarrow> distinct ps"
  using path_distinct [OF seg_path] by (auto simp: refs_ok_def)

lemma seg_reach: "seg h ps fo lo bs \<Longrightarrow> hd ps \<in># R \<Longrightarrow> set ps \<subseteq> reach h R"
  by (auto simp: reach_def dest!: seg_path dest: path_reach)

text \<open>
  The part of a path before \<open>p\<close>: the parts \<open>xs\<close> are used from the offset \<open>fo\<close> on to their ends, and \<open>p\<close> from the offset
  \<open>fo'\<close> on.
\<close>

primrec pre :: "msg_heap \<Rightarrow> nat list \<Rightarrow> nat \<Rightarrow> nat \<Rightarrow> bytes \<Rightarrow> nat \<Rightarrow> bool" where
  "pre h [] p fo bs fo' \<longleftrightarrow> bs = [] \<and> fo' = fo"
| "pre h (x # xs) p fo bs fo' \<longleftrightarrow> (\<exists>mp d mq bs'. part_at h x mp d \<and> mp_offset mp \<le> fo \<and> fo \<le> mp_data_end mp \<and>
     mp_next mp = Some (hd (xs @ [p])) \<and> parts h (hd (xs @ [p])) = Some mq \<and> bs = slice fo (mp_data_end mp) d @ bs' \<and>
     pre h xs p (mp_offset mq) bs' fo')"

lemma seg_split:
  "seg h (xs @ p # ys) fo lo bs \<longleftrightarrow> (\<exists>bs1 bs2 fo'. bs = bs1 @ bs2 \<and> pre h xs p fo bs1 fo' \<and> seg h (p # ys) fo' lo bs2)"
proof (induction xs arbitrary: fo bs)
  case (Cons x xs)
  have eq: "xs @ p # ys = hd (xs @ [p]) # tl (xs @ p # ys)" by (cases xs) auto
  have "seg h ((x # xs) @ p # ys) fo lo bs \<longleftrightarrow> (\<exists>mp d mq bs'. part_at h x mp d \<and> mp_offset mp \<le> fo \<and> fo \<le> mp_data_end mp \<and>
      mp_next mp = Some (hd (xs @ [p])) \<and> parts h (hd (xs @ [p])) = Some mq \<and> bs = slice fo (mp_data_end mp) d @ bs' \<and>
      seg h (xs @ p # ys) (mp_offset mq) lo bs')" (is "_ \<longleftrightarrow> ?rhs")
  proof
    assume "seg h ((x # xs) @ p # ys) fo lo bs"
    then have "seg h (x # hd (xs @ [p]) # tl (xs @ p # ys)) fo lo bs" using eq by simp
    then show ?rhs by (rule seg_consE) (metis eq)
  next
    assume ?rhs
    then show "seg h ((x # xs) @ p # ys) fo lo bs" using eq seg_cons [of h x _ _ fo "hd (xs @ [p])" _ "tl (xs @ p # ys)" lo] by auto
  qed
  also have "\<dots> \<longleftrightarrow> (\<exists>bs1 bs2 fo'. bs = bs1 @ bs2 \<and> pre h (x # xs) p fo bs1 fo' \<and> seg h (p # ys) fo' lo bs2)"
  proof
    assume ?rhs
    then obtain mp d mq bs' where a: "part_at h x mp d" "mp_offset mp \<le> fo" "fo \<le> mp_data_end mp" "mp_next mp = Some (hd (xs @ [p]))"
      "parts h (hd (xs @ [p])) = Some mq" "bs = slice fo (mp_data_end mp) d @ bs'" "seg h (xs @ p # ys) (mp_offset mq) lo bs'" by blast
    from a(7) [unfolded Cons.IH] obtain bs1 bs2 fo' where b: "bs' = bs1 @ bs2" "pre h xs p (mp_offset mq) bs1 fo'" "seg h (p # ys) fo' lo bs2"
      by blast
    have "pre h (x # xs) p fo (slice fo (mp_data_end mp) d @ bs1) fo'" unfolding pre.simps using a b(2) by blast
    with a(6) b show "\<exists>bs1 bs2 fo'. bs = bs1 @ bs2 \<and> pre h (x # xs) p fo bs1 fo' \<and> seg h (p # ys) fo' lo bs2"
      by (intro exI [of _ "slice fo (mp_data_end mp) d @ bs1"] exI [of _ bs2] exI [of _ fo']) simp
  next
    assume "\<exists>bs1 bs2 fo'. bs = bs1 @ bs2 \<and> pre h (x # xs) p fo bs1 fo' \<and> seg h (p # ys) fo' lo bs2"
    then obtain bs1 bs2 fo' where b: "bs = bs1 @ bs2" "pre h (x # xs) p fo bs1 fo'" "seg h (p # ys) fo' lo bs2" by blast
    from b(2) obtain mp d mq bs' where a: "part_at h x mp d" "mp_offset mp \<le> fo" "fo \<le> mp_data_end mp" "mp_next mp = Some (hd (xs @ [p]))"
      "parts h (hd (xs @ [p])) = Some mq" "bs1 = slice fo (mp_data_end mp) d @ bs'" "pre h xs p (mp_offset mq) bs' fo'" by auto
    have "seg h (xs @ p # ys) (mp_offset mq) lo (bs' @ bs2)" unfolding Cons.IH using a(7) b(3) by blast
    with a b(1) show ?rhs by (intro exI [of _ mp] exI [of _ d] exI [of _ mq] exI [of _ "bs' @ bs2"]) simp
  qed
  finally show ?case .
qed auto

lemma pre_snoc:
  "pre h (xs @ [x]) p fo bs fo' \<longleftrightarrow> (\<exists>bs1 fo1 mp d mq. pre h xs x fo bs1 fo1 \<and> part_at h x mp d \<and> mp_offset mp \<le> fo1 \<and>
     fo1 \<le> mp_data_end mp \<and> mp_next mp = Some p \<and> parts h p = Some mq \<and> bs = bs1 @ slice fo1 (mp_data_end mp) d \<and> fo' = mp_offset mq)"
proof (induction xs arbitrary: fo bs)
  case (Cons y ys)
  have hd: "hd ((ys @ [x]) @ [p]) = hd (ys @ [x])" by (cases ys) auto
  show ?case
  proof
    assume "pre h ((y # ys) @ [x]) p fo bs fo'"
    then obtain mp d mq bs' where a: "part_at h y mp d" "mp_offset mp \<le> fo" "fo \<le> mp_data_end mp" "mp_next mp = Some (hd (ys @ [x]))"
      "parts h (hd (ys @ [x])) = Some mq" "bs = slice fo (mp_data_end mp) d @ bs'" "pre h (ys @ [x]) p (mp_offset mq) bs' fo'"
      using hd by auto
    from a(7) [unfolded Cons.IH] obtain bs1 fo1 mp1 d1 mq1 where b: "pre h ys x (mp_offset mq) bs1 fo1" "part_at h x mp1 d1"
      "mp_offset mp1 \<le> fo1" "fo1 \<le> mp_data_end mp1" "mp_next mp1 = Some p" "parts h p = Some mq1"
      "bs' = bs1 @ slice fo1 (mp_data_end mp1) d1" "fo' = mp_offset mq1" by blast
    have "pre h (y # ys) x fo (slice fo (mp_data_end mp) d @ bs1) fo1" unfolding pre.simps using a b(1) by blast
    with a(6) b show "\<exists>bs1 fo1 mp d mq. pre h (y # ys) x fo bs1 fo1 \<and> part_at h x mp d \<and> mp_offset mp \<le> fo1 \<and>
     fo1 \<le> mp_data_end mp \<and> mp_next mp = Some p \<and> parts h p = Some mq \<and> bs = bs1 @ slice fo1 (mp_data_end mp) d \<and> fo' = mp_offset mq"
      by (intro exI [of _ "slice fo (mp_data_end mp) d @ bs1"] exI [of _ fo1] exI [of _ mp1] exI [of _ d1] exI [of _ mq1]) simp
  next
    assume "\<exists>bs1 fo1 mp d mq. pre h (y # ys) x fo bs1 fo1 \<and> part_at h x mp d \<and> mp_offset mp \<le> fo1 \<and>
     fo1 \<le> mp_data_end mp \<and> mp_next mp = Some p \<and> parts h p = Some mq \<and> bs = bs1 @ slice fo1 (mp_data_end mp) d \<and> fo' = mp_offset mq"
    then obtain bs1 fo1 mp1 d1 mq1 where b: "pre h (y # ys) x fo bs1 fo1" "part_at h x mp1 d1" "mp_offset mp1 \<le> fo1"
      "fo1 \<le> mp_data_end mp1" "mp_next mp1 = Some p" "parts h p = Some mq1" "bs = bs1 @ slice fo1 (mp_data_end mp1) d1" "fo' = mp_offset mq1" by blast
    from b(1) obtain mp d mq bs' where a: "part_at h y mp d" "mp_offset mp \<le> fo" "fo \<le> mp_data_end mp" "mp_next mp = Some (hd (ys @ [x]))"
      "parts h (hd (ys @ [x])) = Some mq" "bs1 = slice fo (mp_data_end mp) d @ bs'" "pre h ys x (mp_offset mq) bs' fo1" by auto
    have "pre h (ys @ [x]) p (mp_offset mq) (bs' @ slice fo1 (mp_data_end mp1) d1) fo'" unfolding Cons.IH using a(7) b by blast
    then show "pre h ((y # ys) @ [x]) p fo bs fo'"
      unfolding append_Cons pre.simps hd using a b(7)
      by (intro exI [of _ mp] exI [of _ d] exI [of _ mq] exI [of _ "bs' @ slice fo1 (mp_data_end mp1) d1"]) simp
  qed
qed auto

lemma pre_offset: "pre h xs p fo bs fo' \<Longrightarrow> xs \<noteq> [] \<Longrightarrow> parts h p = Some mq \<Longrightarrow> fo' = mp_offset mq"
  by (cases xs rule: rev_cases) (auto simp: pre_snoc)

lemma pre_cong:
  assumes "\<And>x mp d. x \<in> set xs \<Longrightarrow> part_at h x mp d \<Longrightarrow> \<exists>mp'. part_at h' x mp' d \<and> mp_next mp' = mp_next mp \<and>
      mp_offset mp' = mp_offset mp \<and> mp_data_end mp' = mp_data_end mp"
    and "\<And>mq. parts h p = Some mq \<Longrightarrow> \<exists>mq'. parts h' p = Some mq' \<and> mp_offset mq' = mp_offset mq"
  shows "pre h xs p fo bs fo' \<Longrightarrow> pre h' xs p fo bs fo'"
  using assms
proof (induction xs arbitrary: fo bs)
  case (Cons x xs)
  from Cons.prems(1) obtain mp d mq bs' where m: "part_at h x mp d" "mp_offset mp \<le> fo" "fo \<le> mp_data_end mp"
    "mp_next mp = Some (hd (xs @ [p]))" "parts h (hd (xs @ [p])) = Some mq" "bs = slice fo (mp_data_end mp) d @ bs'"
    "pre h xs p (mp_offset mq) bs' fo'" by auto
  obtain mp' where mp': "part_at h' x mp' d" "mp_next mp' = mp_next mp" "mp_offset mp' = mp_offset mp" "mp_data_end mp' = mp_data_end mp"
    using Cons.prems(2) [OF _ m(1)] by auto
  obtain mq' where mq': "parts h' (hd (xs @ [p])) = Some mq'" "mp_offset mq' = mp_offset mq"
  proof (cases xs)
    case Nil
    then show ?thesis using Cons.prems(3) m(5) that by auto
  next
    case c: (Cons y ys)
    from m(7) c obtain my dy where y: "part_at h y my dy" by auto
    with m(5) c have "my = mq" by (simp add: part_at_def)
    with Cons.prems(2) [OF _ y] c that show ?thesis by (auto simp: part_at_def)
  qed
  have "pre h' xs p (mp_offset mq) bs' fo'" using Cons.IH [OF m(7)] Cons.prems(2,3) by auto
  then show ?case unfolding pre.simps using m(2,3,4,6) mp' mq'
    by (intro exI [of _ mp'] exI [of _ d] exI [of _ mq'] exI [of _ bs']) simp
qed simp

lemma same_part_at:
  assumes "same S h h'" "x \<in> S" "part_at h x mp d"
  obtains mp' where "part_at h' x mp' d" "core mp' = core mp"
proof -
  from assms(3) have m: "parts h x = Some mp" "bdata h (mp_part mp) = Some d" by (simp_all add: part_at_def)
  obtain mp' where "parts h' x = Some mp'" "core mp' = core mp" "bdata h' (mp_part mp) = bdata h (mp_part mp)"
    by (rule sameD [OF assms(1,2) m(1)])
  then show ?thesis using m(2) core_eqD [of mp' mp] by (intro that [of mp']) (simp_all add: part_at_def)
qed

lemma same_pre:
  assumes "same (insert p (set xs)) h h'"
  shows "pre h xs p fo bs fo' \<Longrightarrow> pre h' xs p fo bs fo'"
proof (rule pre_cong)
  show "\<exists>mp'. part_at h' x mp' d \<and> mp_next mp' = mp_next mp \<and> mp_offset mp' = mp_offset mp \<and> mp_data_end mp' = mp_data_end mp"
    if x: "x \<in> set xs" "part_at h x mp d" for x mp d
  proof -
    obtain mp' where "part_at h' x mp' d" "core mp' = core mp" using same_part_at [OF assms _ x(2)] x(1) by blast
    then show ?thesis using core_eqD [of mp' mp] by blast
  qed
  show "\<exists>mq'. parts h' p = Some mq' \<and> mp_offset mq' = mp_offset mq" if mq: "parts h p = Some mq" for mq
  proof -
    obtain mq' where "parts h' p = Some mq'" "core mq' = core mq" using sameD [OF assms insertI1 mq] by blast
    then show ?thesis using core_eqD [of mq' mq] by blast
  qed
qed

subsection \<open>Changes that do not disturb\<close>

text \<open>A part may grow at its end, if it is the last of its chain, and get a successor.\<close>

definition ext :: "msg_part \<Rightarrow> bytes \<Rightarrow> msg_part \<Rightarrow> bytes \<Rightarrow> bool" where
  "ext mp d mp' d' \<longleftrightarrow> mp_offset mp' = mp_offset mp \<and> mp_data_end mp \<le> mp_data_end mp' \<and>
     (mp_next mp \<noteq> None \<longrightarrow> mp_next mp' = mp_next mp \<and> mp_data_end mp' = mp_data_end mp) \<and>
     slice (mp_offset mp) (mp_data_end mp) d' = slice (mp_offset mp) (mp_data_end mp) d"

definition hext :: "nat set \<Rightarrow> msg_heap \<Rightarrow> msg_heap \<Rightarrow> bool" where
  "hext S h h' \<longleftrightarrow> (\<forall>x\<in>S. \<exists>mp d mp' d'. part_at h x mp d \<and> part_at h' x mp' d' \<and> ext mp d mp' d')"

lemma hextD:
  assumes "hext S h h'" "x \<in> S" "part_at h x mp d"
  obtains mp' d' where "part_at h' x mp' d'" "ext mp d mp' d'"
  using assms by (fastforce simp: hext_def part_at_def)

lemma ext_refl [simp]: "ext mp d mp d"
  by (simp add: ext_def)

lemma ext_trans: "ext mp d mp' d' \<Longrightarrow> ext mp' d' mp'' d'' \<Longrightarrow> ext mp d mp'' d''"
  unfolding ext_def by (metis order.trans slice_sub order_refl)

lemma hext_trans: "hext S h h' \<Longrightarrow> hext S h' h'' \<Longrightarrow> hext S h h''"
proof -
  assume a: "hext S h h'" "hext S h' h''"
  show ?thesis unfolding hext_def
  proof
    fix x assume x: "x \<in> S"
    with a(1) obtain mp d mp' d' where b: "part_at h x mp d" "part_at h' x mp' d'" "ext mp d mp' d'" by (fastforce simp: hext_def)
    from hextD [OF a(2) x b(2)] obtain mp'' d'' where "part_at h'' x mp'' d''" "ext mp' d' mp'' d''" .
    with b ext_trans show "\<exists>mp d mp' d'. part_at h x mp d \<and> part_at h'' x mp' d' \<and> ext mp d mp' d'" by blast
  qed
qed

lemma hext_subset: "hext S h h' \<Longrightarrow> T \<subseteq> S \<Longrightarrow> hext T h h'"
  by (auto simp: hext_def)

lemma seg_hext:
  assumes "hext S h h'"
  shows "seg h ps fo lo bs \<Longrightarrow> set ps \<subseteq> S \<Longrightarrow> seg h' ps fo lo bs"
proof (induction rule: seg.induct)
  case (seg_last p mp d fo lo)
  from hextD [OF assms _ seg_last(1)] seg_last(5) obtain mp' d' where e: "part_at h' p mp' d'" "ext mp d mp' d'" by auto
  then have "slice fo lo d' = slice fo lo d" using seg_last slice_sub [of "mp_offset mp" "mp_data_end mp" d' d fo lo] by (simp add: ext_def)
  then show ?case using e seg_last seg.seg_last [of h' p mp' d' fo lo] by (simp add: ext_def)
next
  case (seg_cons p mp d fo q mq ps lo bs)
  from hextD [OF assms _ seg_cons(1)] seg_cons.prems obtain mp' d' where e: "part_at h' p mp' d'" "ext mp d mp' d'" by auto
  have sl: "slice fo (mp_data_end mp) d' = slice fo (mp_data_end mp) d"
    using e(2) seg_cons slice_sub [of "mp_offset mp" "mp_data_end mp" d' d fo] by (simp add: ext_def)
  have "q \<in> S" using seg_cons.prems by simp
  then obtain dq mq' dq' where "part_at h q mq dq" "part_at h' q mq' dq'" "ext mq dq mq' dq'"
    using assms seg_cons(5) by (fastforce simp: hext_def part_at_def)
  then have "parts h' q = Some mq'" "mp_offset mq' = mp_offset mq" by (auto simp: part_at_def ext_def)
  moreover have "seg h' (q # ps) (mp_offset mq) lo bs" using seg_cons by simp
  ultimately show ?case
    using e seg_cons sl seg.seg_cons [of h' p mp' d' fo q mq' ps lo bs] by (simp add: ext_def)
qed

lemma hext_links: "hext S h h' \<Longrightarrow> p \<in> S \<Longrightarrow> (p, q) \<in> links h \<Longrightarrow> (p, q) \<in> links h'"
proof -
  assume "hext S h h'" "p \<in> S" "(p, q) \<in> links h"
  then obtain mp d mp' d' where m: "part_at h p mp d" "part_at h' p mp' d'" "ext mp d mp' d'" unfolding hext_def by blast
  moreover have "mp_next mp = Some q" using m(1) \<open>(p, q) \<in> links h\<close> by (auto simp: links_def part_at_def)
  ultimately have "part_at h' p mp' d'" "mp_next mp' = Some q" by (simp_all add: ext_def)
  then show ?thesis by (auto simp: links_def part_at_def)
qed

lemma reach_hext: "hext (reach h R) h h' \<Longrightarrow> reach h R \<subseteq> reach h' R"
  by (rule reach_mono_links) (auto intro: hext_links)

lemma hext_reach_trans: "hext (reach h R) h h' \<Longrightarrow> hext (reach h' R) h' h'' \<Longrightarrow> hext (reach h R) h h''"
  by (rule hext_trans [OF _ hext_subset]) (auto dest: reach_hext)

lemma same_hext:
  assumes "same S h h'" "data_ok h"
  shows "hext S h h'"
  unfolding hext_def
proof
  fix x assume "x \<in> S"
  with assms(1) obtain mp mp' where m: "parts h x = Some mp" "parts h' x = Some mp'" "core mp' = core mp"
    "bdata h' (mp_part mp) = bdata h (mp_part mp)" by (auto simp: same_def)
  obtain d where "bdata h (mp_part mp) = Some d" using data_okD(4) [OF assms(2) m(1)] by (auto simp: part_in_buffer_iff)
  with m core_eqD [OF m(3)] show "\<exists>mp d mp' d'. part_at h x mp d \<and> part_at h' x mp' d' \<and> ext mp d mp' d'"
    by (intro exI [of _ mp] exI [of _ d] exI [of _ mp'] exI [of _ d]) (simp add: part_at_def ext_def)
qed

lemma denotes_hext:
  assumes "denotes h r bs" "hext (reach h R) h h'" "set_mset (root (rm_first r)) \<subseteq> set_mset R"
  shows "denotes h' r bs"
proof (cases "rm_first r")
  case (Some f)
  with assms(1) obtain ps where ps: "seg h ps (rm_first_offset r) (rm_last_offset r) bs" "hd ps = f" "rm_last r = Some (last ps)" "ps \<noteq> []"
    by (rule denotesE)
  have "set ps \<subseteq> reach h R" using seg_reach [OF ps(1)] ps(2) assms(3) Some by simp
  with seg_hext [OF assms(2) ps(1)] ps Some assms(1) show ?thesis by (auto simp: denotes_def)
qed (use assms(1) in \<open>simp add: denotes_def\<close>)

subsection \<open>Exclusive parts\<close>

text \<open>A chain of parts with one reference each, beginning at a root, is not reachable from the other roots.\<close>

lemma exclusive_path:
  assumes ok: "refs_ok (add_mset f R) h" and ps: "successively (\<lambda>p q. (p, q) \<in> links h) ps" "hd ps = f" "distinct ps"
    and one: "\<And>p mp. p \<in> set ps \<Longrightarrow> parts h p = Some mp \<Longrightarrow> mp_refcnt mp = 1"
  shows "set ps \<inter> reach h R = {}"
proof -
  have cnt: "count R p + (if p = f then 1 else 0) + card (preds h p) = 1" if p: "p \<in> set ps" for p
  proof -
    have "p \<in> reach h (add_mset f R)" using path_reach [OF ps(1) p] ps(2) by (auto simp: reach_def)
    then obtain mp where mp: "parts h p = Some mp" using reach_dom [OF ok] by blast
    from refs_okD [OF ok mp] one [OF p mp] show ?thesis by (simp add: counted_def refcount_def split: if_splits)
  qed
  have pred: "\<exists>q \<in> set ps. q \<in> preds h p" if p: "p \<in> set ps" "p \<noteq> f" for p
  proof -
    obtain ys zs where "ps = ys @ p # zs" using p(1) by (meson split_list)
    moreover from this p(2) ps(2) obtain ys' q where "ys = ys' @ [q]" by (cases ys rule: rev_cases) auto
    ultimately show ?thesis using ps(1) by (auto simp: successively_append_iff preds_def)
  qed
  have "x \<notin> set ps" if "x \<in> reach h R" for x
    using that
  proof (induction rule: reach_induct)
    case (root x)
    show ?case
    proof
      assume x: "x \<in> set ps"
      from root obtain n where "count R x = Suc n" by (auto dest: multi_member_split)
      then have "card (preds h x) = 0" "x \<noteq> f" using cnt [OF x] by (auto split: if_splits)
      then show False using pred [OF x] finite_preds [OF ok, of x] by auto
    qed
  next
    case (link y x)
    show ?case
    proof
      assume x: "x \<in> set ps"
      have y: "y \<in> preds h x" using link.hyps by (simp add: preds_def)
      then have pos: "0 < card (preds h x)" using finite_preds [OF ok] by (auto simp: card_gt_0_iff)
      then have "card (preds h x) = 1" "x \<noteq> f" using cnt [OF x] by (auto split: if_splits)
      then obtain q where "q \<in> set ps" "q \<in> preds h x" using pred [OF x] by blast
      then have "q = y" using \<open>card (preds h x) = 1\<close> y by (auto simp: card_1_singleton_iff)
      then show False using link.IH \<open>q \<in> set ps\<close> by blast
    qed
  qed
  then show ?thesis by blast
qed

subsection \<open>Views\<close>

text \<open>
  One message with the bytes it denotes, in a heap where the other references from outside are \<open>R\<close>. Parts
  that are locked belong to other messages.
\<close>

definition view :: "nat multiset \<Rightarrow> msg_heap \<Rightarrow> raw_message \<Rightarrow> bytes \<Rightarrow> bool" where
  "view R h r bs \<longleftrightarrow> heap_ok (R + root (rm_first r)) h \<and> denotes h r bs \<and> locks h \<subseteq> reach h R"

text \<open>What the other messages see: nothing that was reachable is disturbed, and nothing is locked anew.\<close>

definition framed :: "nat multiset \<Rightarrow> msg_heap \<Rightarrow> msg_heap \<Rightarrow> bool" where
  "framed R h h' \<longleftrightarrow> hext (reach h R) h h' \<and> locks h' \<subseteq> locks h"

lemma framed_trans: "framed R h h' \<Longrightarrow> framed R h' h'' \<Longrightarrow> framed R h h''"
  by (auto simp: framed_def intro: hext_reach_trans)

lemma framed_locks: "framed R h h' \<Longrightarrow> locks h \<subseteq> reach h R \<Longrightarrow> locks h' \<subseteq> reach h' R"
  using reach_hext [of h R h'] by (auto simp: framed_def)

lemma heap_okD: "heap_ok R h \<Longrightarrow> refs_ok R h" "heap_ok R h \<Longrightarrow> data_ok h"
  by (simp_all add: heap_ok_def)

lemma same_refl: "S \<subseteq> dom (parts h) \<Longrightarrow> same S h h"
  unfolding same_def by (auto dest!: subsetD)

lemma sameI:
  assumes "S \<subseteq> dom (parts h)" "\<And>x. x \<in> S \<Longrightarrow> parts h' x = parts h x"
    "\<And>x mp. x \<in> S \<Longrightarrow> parts h x = Some mp \<Longrightarrow> bdata h' (mp_part mp) = bdata h (mp_part mp)"
  shows "same S h h'"
  unfolding same_def using assms by (fastforce dest!: subsetD)

text \<open>A release as an instance of this.\<close>

lemma release_ok:
  assumes "heap_ok (R + root ptr) h" "locks h \<subseteq> reach h R"
  obtains h' where "msg_part_decref ptr h = Some h'" "heap_ok R h'" "same (reach h R) h h'" "framed R h h'" "next_part h' = next_part h"
proof (cases ptr)
  case None
  have "same (reach h R) h h" using reach_dom [of R h] assms(1) None by (intro same_refl) (auto simp: heap_ok_def)
  moreover from this have "framed R h h" using same_hext assms(1) by (auto simp: framed_def heap_ok_def)
  ultimately show ?thesis using assms None by (intro that [of h]) (simp_all add: msg_part_decref.simps)
next
  case (Some p)
  then obtain h' where "msg_part_decref (Some p) h = Some h'" "heap_ok R h'" "same (reach h R) h h'" "next_part h' = next_part h"
    "locks h' \<subseteq> locks h" using msg_part_decref_ok [of p R h] assms by auto
  then show ?thesis using Some same_hext heap_okD(2) [OF assms(1)] by (intro that [of h']) (auto simp: framed_def)
qed

text \<open>A reference more.\<close>

lemma incref_ok:
  assumes "heap_ok R h" "parts h p = Some mp"
  obtains h' where "incref_part p h = Some h'" "heap_ok (add_mset p R) h'" "same (dom (parts h)) h h'" "framed R h h'"
    "next_part h' = next_part h" "parts h' = (parts h)(p \<mapsto> mp\<lparr>mp_refcnt := mp_refcnt mp + 1\<rparr>)" "bufs h' = bufs h" "locks h' = locks h"
proof -
  let ?mp = "mp\<lparr>mp_refcnt := mp_refcnt mp + 1\<rparr>"
  define h' where "h' = h\<lparr>parts := (parts h)(p \<mapsto> ?mp)\<rparr>"
  have "part_in_buffer h ?mp" using data_okD(4) [OF heap_okD(2) [OF assms(1)] assms(2)] by (simp add: part_in_buffer_iff)
  then have "heap_ok (add_mset p R) h'"
    using refs_ok_incref [OF heap_okD(1) [OF assms(1)] assms(2), of ?mp] data_ok_upd [OF heap_okD(2) [OF assms(1)] assms(2), of ?mp]
    by (simp add: heap_ok_def h'_def)
  moreover have sm: "same (dom (parts h)) h h'" using assms(2) by (auto simp: same_def h'_def bdata_def)
  moreover have lk: "locks h' = locks h" using assms(2) by (auto simp: locks_def h'_def split: if_splits)
  moreover have "framed R h h'"
    using same_hext [OF sm heap_okD(2) [OF assms(1)]] reach_dom [OF heap_okD(1) [OF assms(1)]] lk
    by (auto simp: framed_def intro: hext_subset)
  ultimately show ?thesis using assms(2) by (intro that [of h']) (simp_all add: incref_part_def upd_part_def h'_def)
qed

end
