(* ===== verification/Msg_Ops.thy ===== *)
theory Msg_Ops
  imports Msg_View
begin

text \<open>
  The operations on raw messages: each keeps the invariant, has its effect on the bytes of its message, and does not disturb
  other messages, whatever parts and buffers they share.
\<close>

subsection \<open>New parts\<close>

definition fresh_part :: "buffer_ptr \<Rightarrow> nat option \<Rightarrow> nat \<Rightarrow> nat \<Rightarrow> msg_part" where
  "fresh_part b nxt off e = \<lparr>mp_refcnt = 1, mp_locked = False, mp_next = nxt, mp_part = b, mp_offset = off, mp_data_end = e\<rparr>"

lemma fresh_part_simps [simp]:
  "mp_refcnt (fresh_part b nxt off e) = 1" "mp_locked (fresh_part b nxt off e) = False" "mp_next (fresh_part b nxt off e) = nxt"
  "mp_part (fresh_part b nxt off e) = b" "mp_offset (fresh_part b nxt off e) = off" "mp_data_end (fresh_part b nxt off e) = e"
  "(fresh_part b nxt off e)\<lparr>mp_next := nxt'\<rparr> = fresh_part b nxt' off e"
  by (simp_all add: fresh_part_def)

lemma new_msg_part_eq:
  "new_msg_part b nxt off e h =
     (next_part h, h\<lparr>next_part := next_part h + 1, parts := (parts h)(next_part h \<mapsto> fresh_part b nxt off e)\<rparr>)"
  by (simp add: new_msg_part_def fresh_part_def)

text \<open>What is true after a part was added: everything else is as before.\<close>

definition added :: "nat \<Rightarrow> msg_part \<Rightarrow> msg_heap \<Rightarrow> msg_heap \<Rightarrow> bool" where
  "added n mp h h' \<longleftrightarrow> parts h n = None \<and> parts h' = (parts h)(n \<mapsto> mp) \<and> next_part h' = next_part h + 1 \<and> n = next_part h \<and>
     (\<forall>x mx. parts h x = Some mx \<longrightarrow> bdata h' (mp_part mx) = bdata h (mp_part mx))"

lemma added_same: "added n mp h h' \<Longrightarrow> same (dom (parts h)) h h'"
  by (auto simp: added_def same_def)

lemma added_locks: "added n mp h h' \<Longrightarrow> \<not> mp_locked mp \<Longrightarrow> locks h' = locks h"
  by (auto simp: added_def locks_def split: if_splits)

lemma share_part_ok:
  assumes ok: "heap_ok R h" and p: "parts h p = Some mp" "off \<le> e" "e \<le> mp_data_end mp"
  obtains h1 h' where "incref_buf (mp_part mp) h = Some h1" "next_part h1 = next_part h" "parts h1 = parts h"
    "h' = h1\<lparr>next_part := next_part h + 1, parts := (parts h)(next_part h \<mapsto> fresh_part (mp_part mp) None off e)\<rparr>"
    "heap_ok (add_mset (next_part h) R) h'" "added (next_part h) (fresh_part (mp_part mp) None off e) h h'" "links h' = links h"
    "bdata h' = bdata h"
proof -
  let ?b = "mp_part mp" and ?np = "fresh_part (mp_part mp) None off e" and ?n = "next_part h"
  obtain mb where mb: "bufs h ?b = Some mb" using data_okD(5) [OF heap_okD(2) [OF ok] p(1)] by blast
  define h1 where "h1 = h\<lparr>bufs := (bufs h)(?b \<mapsto> mb\<lparr>buf_refcnt := buf_refcnt mb + 1\<rparr>)\<rparr>"
  define h' where "h' = h1\<lparr>next_part := ?n + 1, parts := (parts h)(?n \<mapsto> ?np)\<rparr>"
  note new = refs_ok_new [OF heap_okD(1) [OF ok], of ?np, simplified]
  have refs: "refs_ok (add_mset ?n R) h'" using refs_ok_heap [OF new(1), of h'] by (simp add: h'_def h1_def)
  have data: "data_ok h'"
  proof -
    have "part_in_buffer h ?np" using data_okD(4) [OF heap_okD(2) [OF ok] p(1)] p(2,3) by (auto simp: part_in_buffer_iff)
    moreover have "finite (dom (parts h))" using heap_okD(1) [OF ok] by (simp add: refs_ok_def)
    ultimately show ?thesis using data_ok_share [OF heap_okD(2) [OF ok] _ new(3), of ?np mb "?n + 1"] mb
      by (simp add: h'_def h1_def)
  qed
  have bd: "bdata h' = bdata h" using mb by (auto simp: h'_def h1_def bdata_def)
  have "links h' = links h" using new(2) by (simp add: h'_def h1_def links_def)
  moreover have "added ?n ?np h h'" using new(3) bd by (simp add: added_def) (simp add: h'_def h1_def)
  moreover have "incref_buf ?b h = Some h1" using mb by (simp add: incref_buf_def h1_def)
  moreover have "next_part h1 = ?n" "parts h1 = parts h" by (simp_all add: h1_def)
  ultimately show ?thesis using refs data bd by (intro that [of h1 h']) (simp_all add: heap_ok_def h'_def)
qed

text \<open>A link from a new part to a part of the heap.\<close>

lemma link_fresh_ok:
  assumes ok: "heap_ok (add_mset q R) h" and n: "parts h n = Some mp" "mp_next mp = None" and nocycle: "(q, n) \<notin> (links h)\<^sup>*"
  defines "h' \<equiv> h\<lparr>parts := (parts h)(n \<mapsto> mp\<lparr>mp_next := Some q\<rparr>)\<rparr>"
  shows "heap_ok R h'" "links h' = insert (n, q) (links h)" "bdata h' = bdata h" "locks h' = locks h" "same (dom (parts h) - {n}) h h'"
proof -
  let ?mp = "mp\<lparr>mp_next := Some q\<rparr>"
  have "part_in_buffer h ?mp" using data_okD(4) [OF heap_okD(2) [OF ok] n(1)] by (simp add: part_in_buffer_iff)
  then show "heap_ok R h'"
    using refs_ok_link(1) [OF heap_okD(1) [OF ok] n, of ?mp] nocycle data_ok_upd [OF heap_okD(2) [OF ok] n(1), of ?mp]
    by (simp add: heap_ok_def h'_def)
  show "links h' = insert (n, q) (links h)"
    using refs_ok_link(2) [OF heap_okD(1) [OF ok] n, of ?mp] nocycle by (simp add: h'_def)
  show "bdata h' = bdata h" by (auto simp: h'_def bdata_def)
  then show "same (dom (parts h) - {n}) h h'" by (intro sameI) (auto simp: h'_def)
  show "locks h' = locks h" using n(1) by (auto simp: locks_def h'_def split: if_splits)
qed

subsection \<open>Locking the first part\<close>

text \<open>The last part of a message has no successor and ends where the message ends.\<close>

definition closed :: "msg_heap \<Rightarrow> raw_message \<Rightarrow> bool" where
  "closed h r \<longleftrightarrow> (\<exists>l mp. rm_last r = Some l \<and> parts h l = Some mp \<and> mp_next mp = None \<and> mp_data_end mp = rm_last_offset r)"

definition opened :: "msg_heap \<Rightarrow> raw_message \<Rightarrow> bool" where
  "opened h r \<longleftrightarrow> (\<exists>f mp. rm_first r = Some f \<and> parts h f = Some mp \<and> mp_offset mp = rm_first_offset r)"

lemma seg_headE:
  assumes "seg h ps fo lo bs"
  obtains p mp d where "ps = [p]" "part_at h p mp d" "mp_offset mp \<le> fo" "fo \<le> lo" "lo \<le> mp_data_end mp" "bs = slice fo lo d"
  | p q qs mp d mq bs' where "ps = p # q # qs" "part_at h p mp d" "mp_offset mp \<le> fo" "fo \<le> mp_data_end mp" "mp_next mp = Some q"
      "parts h q = Some mq" "seg h (q # qs) (mp_offset mq) lo bs'" "bs = slice fo (mp_data_end mp) d @ bs'"
  using assms by (cases rule: seg.cases) auto

text \<open>A first part that others do not reach, with a new offset.\<close>

lemma set_offset_ok:
  assumes v: "view R h r bs" and f: "rm_first r = Some f" "parts h f = Some mp" and far: "f \<notin> reach h R"
  defines "h' \<equiv> h\<lparr>parts := (parts h)(f \<mapsto> mp\<lparr>mp_offset := rm_first_offset r\<rparr>)\<rparr>"
  shows "view R h' r bs" "same (reach h R) h h'" "locks h' = locks h" "opened h' r" "closed h r \<Longrightarrow> closed h' r"
proof -
  let ?mp = "mp\<lparr>mp_offset := rm_first_offset r\<rparr>"
  from v f(1) have ok: "heap_ok (add_mset f R) h" and d: "denotes h r bs" and lk: "locks h \<subseteq> reach h R" by (simp_all add: view_def)
  obtain ps where ps: "seg h ps (rm_first_offset r) (rm_last_offset r) bs" "hd ps = f" "rm_last r = Some (last ps)" "ps \<noteq> []"
    by (rule denotesE [OF d f(1)])
  have bd: "bdata h' = bdata h" by (auto simp: h'_def bdata_def)
  have sub: "reach h R \<subseteq> dom (parts h)"
    using reach_dom [OF heap_okD(1) [OF ok]] reach_add(1) [of h R f] by auto
  then show sm: "same (reach h R) h h'" using far bd by (intro sameI) (auto simp: h'_def)
  show lk': "locks h' = locks h" using f(2) by (auto simp: locks_def h'_def split: if_splits)
  have bounds: "rm_first_offset r \<le> mp_data_end mp"
    using ps(1) by (cases rule: seg_headE) (use ps(2) f(2) in \<open>auto simp: part_at_def\<close>)
  have "part_in_buffer h ?mp" using data_okD(4) [OF heap_okD(2) [OF ok] f(2)] bounds by (auto simp: part_in_buffer_iff)
  then have ok': "heap_ok (add_mset f R) h'"
    using refs_ok_upd [OF heap_okD(1) [OF ok] f(2), of ?mp] data_ok_upd [OF heap_okD(2) [OF ok] f(2), of ?mp]
    by (simp add: heap_ok_def h'_def)
  have "distinct ps" using seg_distinct [OF ps(1) heap_okD(1) [OF ok]] .
  have "seg h' ps (rm_first_offset r) (rm_last_offset r) bs"
    using ps(1)
  proof (cases rule: seg_headE)
    case (1 p mp' d)
    then have "p = f" "mp' = mp" using ps(2) f(2) by (auto simp: part_at_def)
    with 1 bd have "part_at h' f ?mp d" by (simp add: part_at_def h'_def)
    from seg_last [OF this, of "rm_first_offset r" "rm_last_offset r"] 1 \<open>p = f\<close> \<open>mp' = mp\<close> show ?thesis by simp
  next
    case (2 p q qs mp' d mq bs')
    then have eq: "p = f" "mp' = mp" using ps(2) f(2) by (auto simp: part_at_def)
    have nf: "f \<notin> set (q # qs)" using \<open>distinct ps\<close> 2(1) eq(1) by auto
    have "set (q # qs) \<subseteq> dom (parts h)" using seg_part [OF 2(7)] by (auto simp: part_at_def)
    then have "same (set (q # qs)) h h'" using nf bd by (intro sameI) (auto simp: h'_def)
    from seg_hext [OF same_hext [OF this heap_okD(2) [OF ok]] 2(7)] have s: "seg h' (q # qs) (mp_offset mq) (rm_last_offset r) bs'" by simp
    have "part_at h' f ?mp d" using 2(2) eq bd by (simp add: part_at_def h'_def)
    moreover have "parts h' q = Some mq" using 2(6) nf by (simp add: h'_def)
    ultimately show ?thesis using seg_cons [of h' f ?mp d "rm_first_offset r" q mq qs "rm_last_offset r" bs'] 2 eq s by simp
  qed
  then have "denotes h' r bs" using ps d f(1) by (auto simp: denotes_def)
  with ok' lk lk' show "view R h' r bs" using f(1) by (simp add: view_def reach_same [OF sm])
  show "opened h' r" using f(1) by (auto simp: opened_def h'_def)
  show "closed h' r" if "closed h r"
    using that f(2) by (auto simp: closed_def h'_def)
qed

lemma own_first:
  assumes "heap_ok (add_mset f R) h" "parts h f = Some mp" "mp_refcnt mp = 1"
  shows "f \<notin> reach h R"
proof -
  have "{f} \<inter> reach h R = {}" using exclusive_path [OF heap_okD(1) [OF assms(1)], of "[f]"] assms(2,3) by auto
  then show ?thesis by simp
qed

lemma own_offset_ok:
  assumes v: "view R h r bs" and f: "rm_first r = Some f" "parts h f = Some mp" "mp_refcnt mp = 1"
  defines "h' \<equiv> h\<lparr>parts := (parts h)(f \<mapsto> mp\<lparr>mp_offset := rm_first_offset r\<rparr>)\<rparr>"
  shows "view R h' r bs" "same (reach h R) h h'" "locks h' = locks h" "opened h' r" "closed h r \<Longrightarrow> closed h' r"
proof -
  have "heap_ok (add_mset f R) h" using v f(1) by (simp add: view_def)
  from set_offset_ok [OF v f(1,2) own_first [OF this f(2,3)]]
  show "view R h' r bs" "same (reach h R) h h'" "locks h' = locks h" "opened h' r" "closed h r \<Longrightarrow> closed h' r"
    unfolding h'_def by blast+
qed

lemma unreferenced:
  assumes "refs_ok R h" "parts h n = None" "q \<noteq> n"
  shows "(q, n) \<notin> (links h)\<^sup>*"
proof
  assume "(q, n) \<in> (links h)\<^sup>*"
  then obtain y where "(y, n) \<in> links h" using assms(3) by (auto elim: rtranclE)
  then show False using link_target [OF assms(1)] assms(2) by fastforce
qed

lemma share_linked_ok:
  assumes ok: "heap_ok R h" and p: "parts h p = Some mp" "off \<le> mp_data_end mp" "mp_next mp = Some q"
  obtains h1 h' where "incref_buf (mp_part mp) h = Some h1" "next_part h1 = next_part h" "parts h1 = parts h"
    "incref_part q (h1\<lparr>next_part := next_part h + 1, parts := (parts h)(next_part h \<mapsto> fresh_part (mp_part mp) (Some q) off (mp_data_end mp))\<rparr>) = Some h'"
    "heap_ok (add_mset (next_part h) R) h'" "parts h (next_part h) = None" "same (dom (parts h)) h h'" "locks h' = locks h" "bdata h' = bdata h"
    "parts h' (next_part h) = Some (fresh_part (mp_part mp) (Some q) off (mp_data_end mp))" "next_part h' = next_part h + 1"
    "links h' = insert (next_part h, q) (links h)"
proof -
  let ?n = "next_part h" and ?b = "mp_part mp" and ?e = "mp_data_end mp"
  let ?f0 = "fresh_part ?b None off ?e" and ?f1 = "fresh_part ?b (Some q) off ?e"
  obtain h1 h2 where s: "incref_buf ?b h = Some h1" "next_part h1 = ?n" "parts h1 = parts h"
    "h2 = h1\<lparr>next_part := ?n + 1, parts := (parts h)(?n \<mapsto> ?f0)\<rparr>"
    "heap_ok (add_mset ?n R) h2" "added ?n ?f0 h h2" "links h2 = links h" "bdata h2 = bdata h"
    using share_part_ok [OF ok p(1,2) order_refl] by blast
  have none: "parts h ?n = None" using s(6) by (simp add: added_def)
  have pq: "(p, q) \<in> links h" using p(1,3) by (auto simp: links_def)
  then obtain mq where mq: "parts h q = Some mq" using link_target [OF heap_okD(1) [OF ok]] by blast
  then have qn: "q \<noteq> ?n" using none by auto
  have "parts h2 q = Some mq" using mq qn s(4) by simp
  then obtain h3 where h3: "incref_part q h2 = Some h3" "heap_ok (add_mset q (add_mset ?n R)) h3" "same (dom (parts h2)) h2 h3"
    "framed (add_mset ?n R) h2 h3" "next_part h3 = next_part h2" "parts h3 = (parts h2)(q \<mapsto> mq\<lparr>mp_refcnt := mp_refcnt mq + 1\<rparr>)" "bufs h3 = bufs h2"
    "locks h3 = locks h2" by (rule incref_ok [OF s(5)])
  have n3: "parts h3 ?n = Some ?f0" using h3(6) qn s(4) by simp
  have l3: "links h3 = links h2" using h3(6) \<open>parts h2 q = Some mq\<close> by (auto simp: links_def split: if_splits)
  have "(q, ?n) \<notin> (links h3)\<^sup>*" unfolding l3 s(7) by (rule unreferenced [OF heap_okD(1) [OF ok] none qn])
  note lf = link_fresh_ok [OF h3(2) n3 _ this, simplified]
  let ?h = "h3\<lparr>parts := (parts h3)(?n \<mapsto> ?f1)\<rparr>"
  have "incref_part q (h1\<lparr>next_part := ?n + 1, parts := (parts h)(?n \<mapsto> ?f1)\<rparr>) = Some ?h"
    using h3(1) mq qn s(4) by (auto simp: incref_part_def upd_part_def fun_upd_twist)
  moreover have "same (dom (parts h)) h ?h"
  proof -
    have "same (dom (parts h)) h h2" by (rule added_same [OF s(6)])
    moreover have "same (dom (parts h)) h2 h3" using h3(3) s(4) by (auto intro: same_subset)
    moreover have "dom (parts h) \<subseteq> dom (parts h3) - {?n}" using h3(6) s(4) none by auto
    then have "same (dom (parts h)) h3 ?h" using lf(5) by (auto intro: same_subset)
    ultimately show ?thesis using same_trans by blast
  qed
  moreover have "locks ?h = locks h" using lf(4) h3(8) added_locks [OF s(6)] by simp
  moreover have "bdata ?h = bdata h" using lf(3) h3(7) s(8) by (simp add: bdata_def fun_eq_iff)
  moreover have "links ?h = insert (?n, q) (links h)" using lf(2) l3 s(7) by simp
  ultimately show ?thesis using s(1,2,3) lf(1) none h3(5) s(4) by (intro that [of h1 ?h]) simp_all
qed

text \<open>The seg of a message whose first part was exchanged for a copy with the same data.\<close>

lemma seg_new_head:
  assumes s: "seg h (p # qs) fo lo bs" and sm: "same (set qs) h h'" "data_ok h" and bd: "bdata h' = bdata h"
    and n: "parts h p = Some mp" "parts h' n = Some mn" "mp_part mn = mp_part mp" "mp_offset mn = fo"
      "qs \<noteq> [] \<Longrightarrow> mp_next mn = mp_next mp \<and> mp_data_end mn = mp_data_end mp" "qs = [] \<Longrightarrow> mp_data_end mn = lo"
  shows "seg h' (n # qs) fo lo bs"
  using s
proof (cases rule: seg_headE)
  case (1 p' mp' d)
  then have "mp' = mp" "qs = []" using n(1) by (auto simp: part_at_def)
  with 1 n bd have "part_at h' n mn d" by (simp add: part_at_def)
  from seg_last [OF this, of fo lo] 1 n(4,6) \<open>qs = []\<close> show ?thesis by simp
next
  case (2 p' q qs' mp' d mq bs')
  then have eq: "mp' = mp" "qs = q # qs'" using n(1) by (auto simp: part_at_def)
  from seg_hext [OF same_hext [OF sm] 2(7)] eq(2) have "seg h' (q # qs') (mp_offset mq) lo bs'" by simp
  moreover obtain mq' where "parts h' q = Some mq'" "mp_offset mq' = mp_offset mq"
    using sameD [OF sm(1) _ 2(6)] core_eqD eq(2) by (metis list.set_intros(1))
  moreover have "part_at h' n mn d" using 2(2) eq n bd by (simp add: part_at_def)
  ultimately show ?thesis using seg_cons [of h' n mn d fo q mq' qs' lo bs'] 2 eq n(4,5) by simp
qed

lemma lock_first_ok:
  assumes v: "view R h r bs" and f: "rm_first r = Some f"
  obtains r' h' where "rwm_lock_first_part r h = Some (r', h')" "view R h' r' bs" "same (reach h R) h h'" "locks h' \<subseteq> locks h"
    "opened h' r'" "closed h r \<longrightarrow> closed h' r'" "rm_first_offset r' = rm_first_offset r" "rm_last_offset r' = rm_last_offset r"
    "rm_total r' = rm_total r" "rm_first r' \<noteq> None" "rm_last r' = rm_last r \<or> rm_last r' = Some (next_part h)"
proof -
  from v f have ok: "heap_ok (add_mset f R) h" and d: "denotes h r bs" and lk: "locks h \<subseteq> reach h R" by (simp_all add: view_def)
  obtain mp where mp: "parts h f = Some mp" using heap_okD(1) [OF ok] by (auto simp: refs_ok_def)
  have sub: "reach h R \<subseteq> dom (parts h)"
    using reach_dom [OF heap_okD(1) [OF ok]] reach_add(1) [of h R f] by auto
  show ?thesis
  proof (cases "mp_refcnt mp = 1")
    case True
    note own = own_offset_ok [OF v f mp True]
    show ?thesis using f mp True own
      by (intro that [of r "h\<lparr>parts := (parts h)(f \<mapsto> mp\<lparr>mp_offset := rm_first_offset r\<rparr>)\<rparr>"])
        (simp_all add: rwm_lock_first_part_def upd_part_def)
  next
    case shared: False
    show ?thesis
    proof (cases "mp_offset mp = rm_first_offset r")
      case True
      then show ?thesis using f mp shared v same_refl [OF sub]
        by (intro that [of r h]) (auto simp: rwm_lock_first_part_def opened_def)
    next
      case False
      obtain ps where ps: "seg h ps (rm_first_offset r) (rm_last_offset r) bs" "hd ps = f" "rm_last r = Some (last ps)" "ps \<noteq> []"
        by (rule denotesE [OF d f])
      then obtain qs where qs: "ps = f # qs" by (cases ps) auto
      have dist: "distinct ps" by (rule seg_distinct [OF ps(1) heap_okD(1) [OF ok]])
      have single: "rm_last r = rm_first r \<longleftrightarrow> qs = []" using ps(3) f qs dist by auto
      have bounds: "rm_first_offset r \<le> mp_data_end mp" "qs = [] \<Longrightarrow> rm_first_offset r \<le> rm_last_offset r \<and> rm_last_offset r \<le> mp_data_end mp"
        "qs \<noteq> [] \<Longrightarrow> mp_next mp = Some (hd qs)"
        using ps(1) by (cases rule: seg_headE; use qs mp in \<open>auto simp: part_at_def\<close>)+
      let ?n = "next_part h"
      have "\<exists>h2 mn. heap_ok (add_mset ?n (add_mset f R)) h2 \<and> same (dom (parts h)) h h2 \<and> locks h2 = locks h \<and> bdata h2 = bdata h \<and>
          parts h2 ?n = Some mn \<and> mp_part mn = mp_part mp \<and> mp_offset mn = rm_first_offset r \<and>
          (qs \<noteq> [] \<longrightarrow> mp_next mn = mp_next mp \<and> mp_data_end mn = mp_data_end mp) \<and>
          (qs = [] \<longrightarrow> mp_next mn = None \<and> mp_data_end mn = rm_last_offset r) \<and>
          rwm_lock_first_part r h = do { h \<leftarrow> msg_part_decref (Some f) h2;
            Some (r\<lparr>rm_first := Some ?n, rm_last := (if qs = [] then Some ?n else rm_last r)\<rparr>, h) }"
      proof (cases "qs = []")
        case True
        obtain h1 h2 where s: "incref_buf (mp_part mp) h = Some h1" "next_part h1 = ?n" "parts h1 = parts h"
          "h2 = h1\<lparr>next_part := ?n + 1, parts := (parts h)(?n \<mapsto> fresh_part (mp_part mp) None (rm_first_offset r) (rm_last_offset r))\<rparr>"
          "heap_ok (add_mset ?n (add_mset f R)) h2" "added ?n (fresh_part (mp_part mp) None (rm_first_offset r) (rm_last_offset r)) h h2"
          "links h2 = links h" "bdata h2 = bdata h"
          using share_part_ok [OF ok mp, of "rm_first_offset r" "rm_last_offset r"] bounds(2) [OF True] by blast
        have "rwm_lock_first_part r h = do { h \<leftarrow> msg_part_decref (Some f) h2; Some (r\<lparr>rm_first := Some ?n, rm_last := Some ?n\<rparr>, h) }"
          using f mp shared False s(1,2,3) single True
          by (simp add: rwm_lock_first_part_def Let_def new_msg_part_eq s(4))
        then show ?thesis using s(5,8) added_same [OF s(6)] added_locks [OF s(6)] True
          by (intro exI [of _ h2] exI [of _ "fresh_part (mp_part mp) None (rm_first_offset r) (rm_last_offset r)"]) (simp add: s(4))
      next
        case mult: False
        obtain h1 h2 where s: "incref_buf (mp_part mp) h = Some h1" "next_part h1 = ?n" "parts h1 = parts h"
          "incref_part (hd qs) (h1\<lparr>next_part := ?n + 1, parts := (parts h)(?n \<mapsto> fresh_part (mp_part mp) (Some (hd qs)) (rm_first_offset r) (mp_data_end mp))\<rparr>) = Some h2"
          "heap_ok (add_mset ?n (add_mset f R)) h2" "same (dom (parts h)) h h2" "locks h2 = locks h" "bdata h2 = bdata h"
          "parts h2 ?n = Some (fresh_part (mp_part mp) (Some (hd qs)) (rm_first_offset r) (mp_data_end mp))"
          using share_linked_ok [OF ok mp bounds(1) bounds(3) [OF mult]] by metis
        have "rwm_lock_first_part r h = do { h \<leftarrow> msg_part_decref (Some f) h2; Some (r\<lparr>rm_first := Some ?n, rm_last := rm_last r\<rparr>, h) }"
          using f mp shared False s(1,2,3,4) single mult bounds(3) [OF mult]
          by (simp add: rwm_lock_first_part_def Let_def new_msg_part_eq)
        then show ?thesis using s(5-9) mult bounds(3) [OF mult] by (intro exI [of _ h2]) simp
      qed
      then obtain h2 mn where c: "heap_ok (add_mset ?n (add_mset f R)) h2" "same (dom (parts h)) h h2" "locks h2 = locks h" "bdata h2 = bdata h"
        "parts h2 ?n = Some mn" "mp_part mn = mp_part mp" "mp_offset mn = rm_first_offset r"
        "qs \<noteq> [] \<Longrightarrow> mp_next mn = mp_next mp \<and> mp_data_end mn = mp_data_end mp"
        "qs = [] \<Longrightarrow> mp_next mn = None \<and> mp_data_end mn = rm_last_offset r"
        "rwm_lock_first_part r h = do { h \<leftarrow> msg_part_decref (Some f) h2;
            Some (r\<lparr>rm_first := Some ?n, rm_last := (if qs = [] then Some ?n else rm_last r)\<rparr>, h) }" by blast
      let ?r = "r\<lparr>rm_first := Some ?n, rm_last := (if qs = [] then Some ?n else rm_last r)\<rparr>"
      have sm2: "same (reach h R) h h2" by (rule same_subset [OF c(2) sub])
      have ok2: "heap_ok (add_mset ?n R + root (Some f)) h2" using c(1) by (simp add: add_mset_commute)
      have "locks h2 \<subseteq> reach h2 (add_mset ?n R)"
        using lk c(3) reach_same [OF sm2] reach_add(1) [of h2 R ?n] by auto
      with ok2 obtain h3 where h3: "msg_part_decref (Some f) h2 = Some h3" "heap_ok (add_mset ?n R) h3"
        "same (reach h2 (add_mset ?n R)) h2 h3" "framed (add_mset ?n R) h2 h3" "next_part h3 = next_part h2" by (rule release_ok)
      have "reach h R \<subseteq> reach h2 (add_mset ?n R)" using reach_add(1) [of h2 R ?n] reach_same [OF sm2] by simp
      then have sm3: "same (reach h R) h h3" by (rule same_trans [OF sm2 same_subset [OF h3(3)]])
      have "set qs \<subseteq> dom (parts h)" using seg_part [OF ps(1)] qs by (auto simp: part_at_def)
      then have "same (set qs) h h2" by (rule same_subset [OF c(2)])
      then have "seg h2 (?n # qs) (rm_first_offset r) (rm_last_offset r) bs"
        using c(9) by (intro seg_new_head [OF ps(1) [unfolded qs] _ heap_okD(2) [OF ok] c(4) mp c(5,6,7,8)]) simp_all
      moreover from this have "set (?n # qs) \<subseteq> reach h2 (add_mset ?n R)" by (rule seg_reach) simp
      ultimately have s3: "seg h3 (?n # qs) (rm_first_offset r) (rm_last_offset r) bs"
        using seg_hext [OF same_hext [OF h3(3) heap_okD(2) [OF c(1)]]] by blast
      have "denotes h3 ?r bs" using s3 d qs ps(3) by (auto simp: denotes_def intro!: exI [of _ "?n # qs"])
      moreover have "locks h3 \<subseteq> locks h" using h3(4) c(3) by (simp add: framed_def)
      ultimately have "view R h3 ?r bs" using h3(2) lk unfolding view_def reach_same [OF sm3] by auto
      moreover obtain mn' where n3: "parts h3 ?n = Some mn'" "core mn' = core mn"
        by (rule sameD [OF h3(3) reach_root c(5)]) simp_all
      moreover have "closed h r \<longrightarrow> closed h3 ?r"
      proof
        assume "closed h r"
        then obtain ml where ml: "parts h (last ps) = Some ml" "mp_next ml = None" "mp_data_end ml = rm_last_offset r"
          using ps(3) by (auto simp: closed_def)
        show "closed h3 ?r"
        proof (cases "qs = []")
          case True
          then show ?thesis using n3(1) c(9) [OF True] core_eqD [OF n3(2)] by (simp add: closed_def)
        next
          case mult: False
          have "last ps \<in> set qs" using mult qs by simp
          then have "last ps \<in> reach h2 (add_mset ?n R)" "last ps \<in> dom (parts h)"
            using \<open>set (?n # qs) \<subseteq> reach h2 (add_mset ?n R)\<close> \<open>set qs \<subseteq> dom (parts h)\<close> by auto
          then obtain m2 where m2: "parts h2 (last ps) = Some m2" "core m2 = core ml" using sameD [OF c(2) _ ml(1)] by metis
          obtain m3 where m3: "parts h3 (last ps) = Some m3" "core m3 = core m2"
            using sameD [OF h3(3) \<open>last ps \<in> reach h2 (add_mset ?n R)\<close> m2(1)] by metis
          show ?thesis using m3(1) ml(2,3) core_eqD [OF m3(2)] core_eqD [OF m2(2)] mult ps(3) by (simp add: closed_def)
        qed
      qed
      moreover have "opened h3 ?r" using n3(1) c(7) core_eqD [OF n3(2)] by (simp add: opened_def)
      ultimately show ?thesis using c(10) h3(1) sm3 \<open>locks h3 \<subseteq> locks h\<close> by (intro that [of ?r h3]) simp_all
    qed
  qed
qed

end
