(* ===== verification/Msg_Fork.thy ===== *)
theory Msg_Fork
  imports Msg_Ops
begin

text \<open>Forking a chain: the parts that are shared are replaced by copies that share their buffers.\<close>

subsection \<open>Copying\<close>

lemma terminal_reach:
  assumes "parts h n = Some mp" "mp_next mp = None" "(n, y) \<in> (links h)\<^sup>*"
  shows "y = n"
  using assms by (auto simp: links_def elim: converse_rtranclE)

text \<open>One copied part, linked behind the part \<open>x\<close>.\<close>

lemma copy_behind_ok:
  assumes ok: "heap_ok R h" and p: "parts h p = Some mp" "off \<le> e" "e \<le> mp_data_end mp" and x: "parts h x = Some mx" "mp_next mx = None"
  obtains h1 h' where "incref_buf (mp_part mp) h = Some h1" "next_part h1 = next_part h" "parts h1 = parts h"
    "upd_part x (\<lambda>mp. mp\<lparr>mp_next := Some (next_part h)\<rparr>)
       (h1\<lparr>next_part := next_part h + 1, parts := (parts h)(next_part h \<mapsto> fresh_part (mp_part mp) None off e)\<rparr>) = Some h'"
    "heap_ok R h'" "same (dom (parts h) - {x}) h h'" "parts h' x = Some (mx\<lparr>mp_next := Some (next_part h)\<rparr>)"
    "parts h' (next_part h) = Some (fresh_part (mp_part mp) None off e)" "parts h (next_part h) = None" "bdata h' = bdata h" "locks h' = locks h"
    "dom (parts h') = insert (next_part h) (dom (parts h))"
proof -
  let ?n = "next_part h" and ?fp = "fresh_part (mp_part mp) None off e"
  obtain h1 h2 where s: "incref_buf (mp_part mp) h = Some h1" "next_part h1 = ?n" "parts h1 = parts h"
    "h2 = h1\<lparr>next_part := ?n + 1, parts := (parts h)(?n \<mapsto> ?fp)\<rparr>" "heap_ok (add_mset ?n R) h2" "added ?n ?fp h h2" "links h2 = links h" "bdata h2 = bdata h"
    using share_part_ok [OF ok p] by blast
  have none: "parts h ?n = None" using s(6) by (simp add: added_def)
  then have xn: "x \<noteq> ?n" using x(1) by auto
  have x2: "parts h2 x = Some mx" and n2: "parts h2 ?n = Some ?fp" using x(1) xn s(4) by simp_all
  have "(?n, x) \<notin> (links h2)\<^sup>*" using terminal_reach [OF n2, of x] xn by auto
  note lf = link_fresh_ok [OF s(5) x2 x(2) this]
  let ?h = "h2\<lparr>parts := (parts h2)(x \<mapsto> mx\<lparr>mp_next := Some ?n\<rparr>)\<rparr>"
  have "same (dom (parts h) - {x}) h ?h"
  proof -
    have "same (dom (parts h) - {x}) h h2" using added_same [OF s(6)] by (rule same_subset) auto
    moreover have "same (dom (parts h) - {x}) h2 ?h" using lf(5) by (rule same_subset) (auto simp: s(4))
    ultimately show ?thesis by (rule same_trans)
  qed
  moreover have "locks ?h = locks h" using lf(4) added_locks [OF s(6)] by simp
  moreover have "upd_part x (\<lambda>mp. mp\<lparr>mp_next := Some ?n\<rparr>) (h1\<lparr>next_part := ?n + 1, parts := (parts h)(?n \<mapsto> ?fp)\<rparr>) = Some ?h"
    using x2 s(4) by (simp add: upd_part_def)
  moreover have "dom (parts ?h) = insert ?n (dom (parts h))" using x(1) s(4) by auto
  ultimately show ?thesis using s(1,2,3,8) lf(1,3) n2 none xn by (intro that [of h1 ?h]) simp_all
qed

text \<open>The result of copying the path \<open>ps\<close> behind \<open>x\<close>: new parts \<open>ns\<close> for the same bytes.\<close>

definition copied :: "nat multiset \<Rightarrow> msg_heap \<Rightarrow> nat \<Rightarrow> msg_part \<Rightarrow> nat \<Rightarrow> nat \<Rightarrow> bytes \<Rightarrow> nat list \<Rightarrow> msg_heap \<Rightarrow> bool" where
  "copied R h x mx off lo bs ns h' \<longleftrightarrow> ns \<noteq> [] \<and> heap_ok R h' \<and> same (dom (parts h) - {x}) h h' \<and>
     (\<exists>mx'. parts h' x = Some mx' \<and> core mx' = core (mx\<lparr>mp_next := Some (hd ns)\<rparr>)) \<and> seg h' ns off lo bs \<and> set ns \<inter> dom (parts h) = {} \<and>
     (\<exists>mn. parts h' (hd ns) = Some mn \<and> mp_offset mn = off) \<and>
     (\<exists>ml. parts h' (last ns) = Some ml \<and> mp_next ml = None \<and> mp_data_end ml = lo) \<and>
     bdata h' = bdata h \<and> locks h' = locks h \<and> dom (parts h) \<subseteq> dom (parts h')"

lemma fork_copy_ok:
  assumes "heap_ok R h" "parts h x = Some mx" "mp_next mx = None" "parts h p = Some mp" "seg h (p # ys) (mp_offset mp) lo bs"
    "x \<notin> set (p # ys)" "distinct (p # ys)" "rm_first raw \<notin> Some ` set (p # ys)" "rm_last raw = Some (last (p # ys))" "rm_last_offset raw = lo"
  shows "\<exists>ns h'. fork_copy p (Some x) rest raw h = Some (rest - int (length bs), raw\<lparr>rm_last := Some (last ns)\<rparr>, h') \<and>
    copied R h x mx (mp_offset mp) lo bs ns h'"
  using assms
proof (induction ys arbitrary: p mp x mx h rest bs)
  case Nil
  let ?n = "next_part h"
  from Nil.prems(5) obtain mp' d where m: "part_at h p mp' d" "mp_offset mp \<le> lo" "lo \<le> mp_data_end mp'" "bs = slice (mp_offset mp) lo d"
    by (rule seg_singleE) auto
  then have mp': "mp' = mp" using Nil.prems(4) by (simp add: part_at_def)
  obtain h1 h' where c: "incref_buf (mp_part mp) h = Some h1" "next_part h1 = ?n" "parts h1 = parts h"
    "upd_part x (\<lambda>mp. mp\<lparr>mp_next := Some ?n\<rparr>)
       (h1\<lparr>next_part := ?n + 1, parts := (parts h)(?n \<mapsto> fresh_part (mp_part mp) None (mp_offset mp) lo)\<rparr>) = Some h'"
    "heap_ok R h'" "same (dom (parts h) - {x}) h h'" "parts h' x = Some (mx\<lparr>mp_next := Some ?n\<rparr>)"
    "parts h' ?n = Some (fresh_part (mp_part mp) None (mp_offset mp) lo)" "parts h ?n = None" "bdata h' = bdata h" "locks h' = locks h"
    "dom (parts h') = insert ?n (dom (parts h))"
    by (rule copy_behind_ok [OF Nil.prems(1,4) m(2) m(3) [unfolded mp'] Nil.prems(2,3)])
  have len: "length bs = lo - mp_offset mp" using m data_okD(4) [OF heap_okD(2) [OF Nil.prems(1)] Nil.prems(4)] mp'
    by (auto simp: slice_def part_in_buffer_iff part_at_def)
  have "seg h' [?n] (mp_offset mp) lo bs"
    unfolding m(4) using c(8,10) m(1,2) mp' by (intro seg_last [of h' ?n "fresh_part (mp_part mp) None (mp_offset mp) lo"]) (simp_all add: part_at_def)
  then have "copied R h x mx (mp_offset mp) lo bs [?n] h'" using c by (auto simp: copied_def)
  moreover have "fork_copy p (Some x) rest raw h = Some (rest - int (length bs), raw\<lparr>rm_last := Some ?n\<rparr>, h')"
    using Nil.prems c(1-4) len m(2)
    by (subst fork_copy.simps) (simp add: Let_def new_msg_part_eq set_link_def)
  ultimately show ?case by (intro exI [of _ "[?n]"] exI [of _ h']) simp
next
  case (Cons q ys)
  let ?n = "next_part h"
  from Cons.prems(5) obtain mp' d mq bs' where m: "part_at h p mp' d" "mp_offset mp \<le> mp_data_end mp'" "mp_next mp' = Some q" "parts h q = Some mq"
    "seg h (q # ys) (mp_offset mq) lo bs'" "bs = slice (mp_offset mp) (mp_data_end mp') d @ bs'"
    by (rule seg_consE) auto
  then have mp': "mp' = mp" using Cons.prems(4) by (simp add: part_at_def)
  let ?fp = "fresh_part (mp_part mp) None (mp_offset mp) (mp_data_end mp)"
  obtain h1 h2 where c: "incref_buf (mp_part mp) h = Some h1" "next_part h1 = ?n" "parts h1 = parts h"
    "upd_part x (\<lambda>mp. mp\<lparr>mp_next := Some ?n\<rparr>) (h1\<lparr>next_part := ?n + 1, parts := (parts h)(?n \<mapsto> ?fp)\<rparr>) = Some h2"
    "heap_ok R h2" "same (dom (parts h) - {x}) h h2" "parts h2 x = Some (mx\<lparr>mp_next := Some ?n\<rparr>)"
    "parts h2 ?n = Some ?fp" "parts h ?n = None" "bdata h2 = bdata h" "locks h2 = locks h" "dom (parts h2) = insert ?n (dom (parts h))"
    by (rule copy_behind_ok [OF Cons.prems(1,4) m(2) [unfolded mp'] order_refl Cons.prems(2,3)])
  have sub: "set (q # ys) \<subseteq> dom (parts h) - {x}" using seg_part [OF m(5)] Cons.prems(6) by (auto simp: part_at_def)
  have n: "?n \<notin> set (q # ys)" using sub c(9) by auto
  from seg_hext [OF same_hext [OF same_subset [OF c(6) sub] heap_okD(2) [OF Cons.prems(1)]] m(5)]
  have s2: "seg h2 (q # ys) (mp_offset mq) lo bs'" by simp
  obtain mq2 where mq2: "parts h2 q = Some mq2" "core mq2 = core mq" using sameD [OF c(6) _ m(4)] sub by auto
  then have off2: "mp_offset mq2 = mp_offset mq" using core_eqD by blast
  let ?rest = "rest - (int (mp_data_end mp) - int (mp_offset mp))"
  have "\<exists>ns h'. fork_copy q (Some ?n) ?rest raw h2 = Some (?rest - int (length bs'), raw\<lparr>rm_last := Some (last ns)\<rparr>, h') \<and>
      copied R h2 ?n ?fp (mp_offset mq2) lo bs' ns h'"
  proof (rule Cons.IH [OF c(5,8) _ mq2(1) s2 [folded off2] n])
    show "distinct (q # ys)" "rm_first raw \<notin> Some ` set (q # ys)" "rm_last raw = Some (last (q # ys))" "rm_last_offset raw = lo"
      using Cons.prems(7-10) by auto
  qed simp
  then obtain ns h' where ih:
    "fork_copy q (Some ?n) ?rest raw h2 = Some (?rest - int (length bs'), raw\<lparr>rm_last := Some (last ns)\<rparr>, h')"
    "copied R h2 ?n ?fp (mp_offset mq) lo bs' ns h'" unfolding off2 by blast
  note ih2 = ih(2) [unfolded copied_def]
  have len: "int (length bs) = int (mp_data_end mp) - int (mp_offset mp) + int (length bs')"
    using m(1,2,6) data_okD(4) [OF heap_okD(2) [OF Cons.prems(1)] Cons.prems(4)] mp' by (auto simp: slice_def part_in_buffer_iff part_at_def)
  have ne: "Some p \<noteq> rm_first raw" "Some p \<noteq> rm_last raw" using Cons.prems(7,8,9) by auto
  have eq: "fork_copy p (Some x) rest raw h = Some (rest - int (length bs), raw\<lparr>rm_last := Some (last ns)\<rparr>, h')"
    using Cons.prems(4) c(1-4) ne m(3) mp' ih(1) len
    by (subst fork_copy.simps) (simp add: Let_def new_msg_part_eq set_link_def)
  have bd: "bdata h' = bdata h" using ih2 c(10) by simp
  have xs: "x \<noteq> ?n" using Cons.prems(2) c(9) by auto
  have sub2: "dom (parts h) - {x} \<subseteq> dom (parts h2) - {?n}" using c(9,12) by auto
  have sm: "same (dom (parts h) - {x}) h h'" using ih2 by (intro same_trans [OF c(6) same_subset [OF _ sub2]]) simp
  obtain mx' where mx': "parts h' x = Some mx'" "core mx' = core (mx\<lparr>mp_next := Some ?n\<rparr>)"
    using sameD [of "dom (parts h2) - {?n}" h2 h' x] ih2 c(7) xs by auto
  obtain mn where mn: "parts h' ?n = Some mn" "core mn = core (fresh_part (mp_part mp) (Some (hd ns)) (mp_offset mp) (mp_data_end mp))"
    using ih2 by auto
  obtain m1 where m1: "parts h' (hd ns) = Some m1" "mp_offset m1 = mp_offset mq" using ih2 by blast
  have ns: "ns = hd ns # tl ns" "seg h' ns (mp_offset mq) lo bs'" using ih2 by auto
  have "part_at h' ?n mn d" using mn core_eqD [OF mn(2)] m(1) mp' bd by (simp add: part_at_def)
  then have "seg h' (?n # hd ns # tl ns) (mp_offset mp) lo (slice (mp_offset mp) (mp_data_end mn) d @ bs')"
    using core_eqD [OF mn(2)] m(2) mp' m1 ns by (intro seg_cons [of h' ?n mn d _ _ m1]) simp_all
  then have "seg h' (?n # ns) (mp_offset mp) lo bs" using ns(1) core_eqD [OF mn(2)] m(6) mp' by simp
  then have "copied R h x mx (mp_offset mp) lo bs (?n # ns) h'"
    unfolding copied_def using ih2 sm mx' mn core_eqD [OF mn(2)] c(9,11,12) bd by auto
  with eq ns(1) show ?case by (intro exI [of _ "?n # ns"] exI [of _ h']) (simp, metis last.simps list.distinct(1))
qed

subsection \<open>The exclusive prefix\<close>

definition owned :: "msg_heap \<Rightarrow> nat \<Rightarrow> bool" where
  "owned h x \<longleftrightarrow> (case parts h x of None \<Rightarrow> False | Some mp \<Rightarrow> mp_refcnt mp = 1)"

lemma ownedD: "owned h x \<Longrightarrow> parts h x = Some mp \<Longrightarrow> mp_refcnt mp = 1"
  by (simp add: owned_def)

lemma slice_part_length:
  assumes "data_ok h" "part_at h p mp d" "e \<le> mp_data_end mp"
  shows "length (slice a e d) = e - a"
proof -
  have "mp_data_end mp \<le> length d" using assms(2) data_okD(4) [OF assms(1), of p mp] by (auto simp: part_at_def part_in_buffer_iff)
  then show ?thesis using assms(3) by (simp add: slice_length)
qed

lemma fork_skip_ok:
  assumes "seg h (p # ys) (mp_offset mp) lo bs" "parts h p = Some mp" "distinct (p # ys)" "data_ok h"
    "\<And>xs q zs. p # ys = xs @ q # zs \<Longrightarrow> \<forall>x\<in>set xs. owned h x \<Longrightarrow> set xs \<inter> locks h = {}"
  shows "\<exists>xs q zs mq bs1 bs2. p # ys = xs @ q # zs \<and> (\<forall>x\<in>set xs. owned h x) \<and> (q = last (p # ys) \<or> \<not> owned h q) \<and>
    parts h q = Some mq \<and> bs = bs1 @ bs2 \<and> pre h xs q (mp_offset mp) bs1 (mp_offset mq) \<and> seg h (q # zs) (mp_offset mq) lo bs2 \<and>
    fork_skip (Some (last (p # ys))) p pred rest h = Some (q, if xs = [] then pred else Some (last xs), rest - int (length bs1))"
  using assms
proof (induction ys arbitrary: p mp bs pred rest)
  case Nil
  then show ?case
    by (intro exI [of _ "[]"] exI [of _ p] exI [of _ mp] exI [of _ bs]) (simp add: fork_skip.simps)
next
  case (Cons q ys)
  show ?case
  proof (cases "owned h p")
    case False
    then have "fork_skip (Some (last (p # q # ys))) p pred rest h = Some (p, pred, rest)"
      using Cons.prems(2) by (subst fork_skip.simps) (simp add: owned_def)
    then show ?thesis using False Cons.prems(1,2)
      by (intro exI [of _ "[]"] exI [of _ p] exI [of _ "q # ys"] exI [of _ mp] exI [of _ "[]"] exI [of _ bs]) simp
  next
    case own: True
    from Cons.prems(1) obtain mp' d mq bs' where m: "part_at h p mp' d" "mp_offset mp \<le> mp_data_end mp'" "mp_next mp' = Some q"
      "parts h q = Some mq" "seg h (q # ys) (mp_offset mq) lo bs'" "bs = slice (mp_offset mp) (mp_data_end mp') d @ bs'"
      by (rule seg_consE) auto
    have mp': "mp' = mp" using m(1) Cons.prems(2) by (simp add: part_at_def)
    let ?rest = "rest - (int (mp_data_end mp) - int (mp_offset mp))"
    have "\<exists>xs q' zs mq' bs1 bs2. q # ys = xs @ q' # zs \<and> (\<forall>x\<in>set xs. owned h x) \<and> (q' = last (q # ys) \<or> \<not> owned h q') \<and>
      parts h q' = Some mq' \<and> bs' = bs1 @ bs2 \<and> pre h xs q' (mp_offset mq) bs1 (mp_offset mq') \<and> seg h (q' # zs) (mp_offset mq') lo bs2 \<and>
      fork_skip (Some (last (q # ys))) q (Some p) ?rest h = Some (q', if xs = [] then Some p else Some (last xs), ?rest - int (length bs1))"
    proof (rule Cons.IH [OF m(5,4) _ Cons.prems(4)])
      show "set xs \<inter> locks h = {}" if "q # ys = xs @ q' # zs" "\<forall>x\<in>set xs. owned h x" for xs q' zs
        using Cons.prems(5) [of "p # xs" q' zs] that own by simp
    qed (use Cons.prems(3) in simp)
    then obtain xs q' zs mq' bs1 bs2 where ih: "q # ys = xs @ q' # zs" "\<forall>x\<in>set xs. owned h x" "q' = last (q # ys) \<or> \<not> owned h q'"
      "parts h q' = Some mq'" "bs' = bs1 @ bs2" "pre h xs q' (mp_offset mq) bs1 (mp_offset mq')" "seg h (q' # zs) (mp_offset mq') lo bs2"
      "fork_skip (Some (last (q # ys))) q (Some p) ?rest h = Some (q', if xs = [] then Some p else Some (last xs), ?rest - int (length bs1))"
      by blast
    have hd: "hd (xs @ [q']) = q" using ih(1) by (cases xs) auto
    have "p \<notin> locks h" using Cons.prems(5) [of "[p]" q ys] own by simp
    then have unl: "\<not> mp_locked mp" using Cons.prems(2) by (auto simp: locks_def)
    have "last (p # q # ys) \<noteq> p" using Cons.prems(3) by (metis distinct.simps(2) last_ConsR last_in_set list.distinct(1))
    then have "fork_skip (Some (last (p # q # ys))) p pred rest h = fork_skip (Some (last (q # ys))) q (Some p) ?rest h"
      using Cons.prems(2) own unl m(3) mp' by (subst fork_skip.simps) (simp add: owned_def)
    moreover have "int (length (slice (mp_offset mp) (mp_data_end mp) d @ bs1)) = int (mp_data_end mp) - int (mp_offset mp) + int (length bs1)"
      using slice_part_length [OF Cons.prems(4) m(1)] m(2) mp' by simp
    moreover have "pre h (p # xs) q' (mp_offset mp) (slice (mp_offset mp) (mp_data_end mp) d @ bs1) (mp_offset mq')"
      unfolding pre.simps hd using m mp' ih(6) by (intro exI [of _ mp] exI [of _ d] exI [of _ mq] exI [of _ bs1]) simp
    ultimately show ?thesis using ih own m(6) mp'
      by (intro exI [of _ "p # xs"] exI [of _ q'] exI [of _ zs] exI [of _ mq'] exI [of _ "slice (mp_offset mp) (mp_data_end mp) d @ bs1"] exI [of _ bs2]) simp
  qed
qed

subsection \<open>Commuting a release with a change elsewhere\<close>

lemma msg_buffer_decref_parts:
  "msg_buffer_decref b (h\<lparr>parts := P\<rparr>) = map_option (\<lambda>h'. h'\<lparr>parts := P\<rparr>) (msg_buffer_decref b h)"
  by (cases "free_std_msg_buffer b (pool h)") (auto simp: msg_buffer_decref_def split: option.splits)

lemma msg_buffer_decref_keeps: "msg_buffer_decref b h = Some h' \<Longrightarrow> parts h' = parts h"
  by (auto simp: msg_buffer_decref_def split: option.splits if_splits)

lemma msg_part_decref_commute:
  "msg_part_decref ptr h = Some h' \<Longrightarrow> (\<And>q. ptr = Some q \<Longrightarrow> (q, p) \<notin> (links h)\<^sup>*) \<Longrightarrow>
   msg_part_decref ptr (h\<lparr>parts := (parts h)(p \<mapsto> X)\<rparr>) = Some (h'\<lparr>parts := (parts h')(p \<mapsto> X)\<rparr>) \<and> parts h' p = parts h p"
proof (induction arbitrary: p X rule: msg_part_decref.raw_induct [rotated, consumes 1, case_names step])
  case (step rec ptr h h')
  show ?case
  proof (cases ptr)
    case None
    then show ?thesis using step(2) by (subst msg_part_decref.simps) simp
  next
    case (Some q)
    with step(2) obtain mp where mp: "parts h q = Some mp" by (auto split: option.splits)
    have qp: "q \<noteq> p" using step(3) [OF Some] by auto
    show ?thesis
    proof (cases "mp_refcnt mp > 1")
      case True
      then show ?thesis using step(2) Some mp qp by (subst msg_part_decref.simps) (auto simp: fun_upd_twist)
    next
      case False
      with step(2) Some mp obtain h1 where h1: "mp_refcnt mp = 1 \<and> \<not> mp_locked mp" "msg_buffer_decref (mp_part mp) h = Some h1"
        "rec (mp_next mp) (h1\<lparr>parts := (parts h1)(q := None)\<rparr>) = Some h'"
        by (auto split: if_splits Option.bind_splits)
      let ?h = "h1\<lparr>parts := (parts h1)(q := None)\<rparr>"
      have k: "parts h1 = parts h" by (rule msg_buffer_decref_keeps [OF h1(2)])
      have sub: "links ?h \<subseteq> links h" using k by (auto simp: links_def split: if_splits)
      have far: "(q', p) \<notin> (links ?h)\<^sup>*" if "mp_next mp = Some q'" for q'
      proof
        assume "(q', p) \<in> (links ?h)\<^sup>*"
        then have "(q', p) \<in> (links h)\<^sup>*" using rtrancl_mono [OF sub] by blast
        moreover have "(q, q') \<in> links h" using mp that by (auto simp: links_def)
        ultimately show False using step(3) [OF Some] by (meson converse_rtrancl_into_rtrancl)
      qed
      from step(1) [OF h1(3) far] have ih: "msg_part_decref (mp_next mp) (?h\<lparr>parts := (parts ?h)(p \<mapsto> X)\<rparr>) = Some (h'\<lparr>parts := (parts h')(p \<mapsto> X)\<rparr>)"
        "parts h' p = parts ?h p" by blast+
      have "msg_part_decref ptr (h\<lparr>parts := (parts h)(p \<mapsto> X)\<rparr>) =
          msg_part_decref (mp_next mp) (h1\<lparr>parts := ((parts h)(p \<mapsto> X))(q := None)\<rparr>)"
        using Some mp qp h1(1,2) by (subst msg_part_decref.simps) (simp add: msg_buffer_decref_parts)
      also have "h1\<lparr>parts := ((parts h)(p \<mapsto> X))(q := None)\<rparr> = ?h\<lparr>parts := (parts ?h)(p \<mapsto> X)\<rparr>"
        using qp k by (simp add: fun_upd_twist)
      finally have "msg_part_decref ptr (h\<lparr>parts := (parts h)(p \<mapsto> X)\<rparr>) = Some (h'\<lparr>parts := (parts h')(p \<mapsto> X)\<rparr>)"
        unfolding ih(1) .
      moreover have "parts h' p = parts h p" using ih(2) k qp by simp
      ultimately show ?thesis by (rule conjI)
    qed
  qed
qed

subsection \<open>The result of a fork\<close>

definition forked :: "nat multiset \<Rightarrow> msg_heap \<Rightarrow> raw_message \<Rightarrow> bytes \<Rightarrow> msg_heap \<Rightarrow> raw_message \<Rightarrow> bool" where
  "forked R h r bs h' r' \<longleftrightarrow> view R h' r' bs \<and> same (reach h R) h h' \<and> locks h' \<subseteq> locks h \<and> closed h' r' \<and>
     (\<exists>l. rm_last r' = Some l \<and> l \<notin> reach h' R) \<and> rm_first r' \<noteq> None \<and> rm_total r' = rm_total r \<and> rm_last_offset r' = rm_last_offset r"

lemma release_forked:
  assumes ok: "heap_ok (add_mset p (add_mset g R)) h1" and sm: "same (reach h R) h h1" and lk: "locks h1 = locks h" "locks h \<subseteq> reach h R"
    and ps: "seg h1 ps (rm_first_offset r') (rm_last_offset r') bs" "rm_first r' = Some g" "hd ps = g" "rm_last r' = Some (last ps)"
    and l: "parts h1 (last ps) = Some ml" "mp_next ml = None" "mp_data_end ml = rm_last_offset r'" "last ps \<notin> reach h R"
    and tot: "rm_total r' = rm_total r" "rm_last_offset r' = rm_last_offset r" "rm_total r = length bs"
  obtains h2 where "msg_part_decref (Some p) h1 = Some h2" "forked R h r bs h2 r'"
proof -
  have "locks h1 \<subseteq> reach h1 (add_mset g R)" using lk reach_same [OF sm] reach_add(1) [of h1 R g] by auto
  with ok obtain h2 where h2: "msg_part_decref (Some p) h1 = Some h2" "heap_ok (add_mset g R) h2" "same (reach h1 (add_mset g R)) h1 h2"
    "framed (add_mset g R) h1 h2" "next_part h2 = next_part h1"
    using release_ok [of "add_mset g R" "Some p" h1] by auto
  have "reach h R \<subseteq> reach h1 (add_mset g R)" using reach_add(1) [of h1 R g] reach_same [OF sm] by simp
  then have sm2: "same (reach h R) h h2" by (rule same_trans [OF sm same_subset [OF h2(3)]])
  have in_reach: "set ps \<subseteq> reach h1 (add_mset g R)" using seg_reach [OF ps(1)] ps(3) by simp
  have s2: "seg h2 ps (rm_first_offset r') (rm_last_offset r') bs"
    using seg_hext [OF same_hext [OF h2(3) heap_okD(2) [OF ok]] ps(1) in_reach] .
  have "ps \<noteq> []" using ps(1) by auto
  then have "last ps \<in> reach h1 (add_mset g R)" using in_reach by auto
  from sameD [OF h2(3) this l(1)] obtain ml' where ml': "parts h2 (last ps) = Some ml'" "core ml' = core ml" by blast
  have "denotes h2 r' bs" using s2 ps(2,3,4) tot by (auto simp: denotes_def)
  moreover have lk2: "locks h2 \<subseteq> locks h" using h2(4) lk(1) by (simp add: framed_def)
  ultimately have "view R h2 r' bs" using h2(2) ps(2) lk(2) unfolding view_def reach_same [OF sm2] by auto
  moreover have "closed h2 r'" using ml'(1) core_eqD [OF ml'(2)] l(2,3) ps(4) by (simp add: closed_def)
  ultimately show ?thesis using h2(1) sm2 lk2 l(4) ps(2,4) tot unfolding forked_def
    by (intro that [of h2]) (simp_all add: forked_def reach_same [OF sm2])
qed

subsection \<open>Copying the whole chain\<close>

lemma fork_copy_all_ok:
  assumes v: "view R h r bs" and f: "rm_first r = Some f"
  obtains r' h1 h2 where "fork_copy f None (int (rm_total r)) r h = Some (0, r', h1)" "msg_part_decref (Some f) h1 = Some h2"
    "forked R h r bs h2 r'"
proof -
  let ?n = "next_part h" and ?fo = "rm_first_offset r" and ?lo = "rm_last_offset r"
  from v f have ok: "heap_ok (add_mset f R) h" and d: "denotes h r bs" and lk: "locks h \<subseteq> reach h R" by (simp_all add: view_def)
  have tot: "rm_total r = length bs" using d by (simp add: denotes_def)
  obtain ps where ps: "seg h ps ?fo ?lo bs" "hd ps = f" "rm_last r = Some (last ps)" "ps \<noteq> []"
    by (rule denotesE [OF d f])
  then obtain qs where qs: "ps = f # qs" by (cases ps) auto
  have dist: "distinct ps" by (rule seg_distinct [OF ps(1) heap_okD(1) [OF ok]])
  have sub: "reach h R \<subseteq> dom (parts h)"
    using reach_dom [OF heap_okD(1) [OF ok]] reach_add(1) [of h R f] by auto
  show ?thesis
    using ps(1)
  proof (cases rule: seg_headE)
    case (1 p mp d)
    then have p: "p = f" "qs = []" "rm_last r = Some f" using qs ps(3) by auto
    then have mp: "parts h f = Some mp" using 1 by (simp add: part_at_def)
    let ?fp = "fresh_part (mp_part mp) None ?fo ?lo"
    obtain h1 h2 where s: "incref_buf (mp_part mp) h = Some h1" "next_part h1 = ?n" "parts h1 = parts h"
      "h2 = h1\<lparr>next_part := ?n + 1, parts := (parts h)(?n \<mapsto> ?fp)\<rparr>"
      "heap_ok (add_mset ?n (add_mset f R)) h2" "added ?n ?fp h h2" "links h2 = links h" "bdata h2 = bdata h"
      using share_part_ok [OF ok mp 1(4,5)] by blast
    let ?r = "r\<lparr>rm_last := Some ?n, rm_first := Some ?n\<rparr>"
    have n2: "parts h2 ?n = Some ?fp" using s(4) by simp
    have far: "?n \<notin> reach h R" using s(6) sub by (auto simp: added_def)
    have sm: "same (reach h R) h h2" by (rule same_subset [OF added_same [OF s(6)] sub])
    have sg: "seg h2 [?n] ?fo ?lo bs"
      unfolding 1(6) using n2 1(2,4) s(8) by (intro seg_last [of h2 ?n ?fp]) (simp_all add: part_at_def)
    have len: "length bs = ?lo - ?fo" using slice_part_length [OF heap_okD(2) [OF ok] 1(2,5)] 1(6) by simp
    have eq: "fork_copy f None (int (rm_total r)) r h = Some (0, ?r, h2)"
      using mp f p(3) s(1,2,3) tot len 1(4)
      by (subst fork_copy.simps) (simp add: Let_def new_msg_part_eq set_link_def s(4))
    have "heap_ok (add_mset f (add_mset ?n R)) h2" using s(5) by (simp add: add_mset_commute)
    then obtain h3 where "msg_part_decref (Some f) h2 = Some h3" "forked R h r bs h3 ?r"
      by (rule release_forked [of f ?n R h2 h "[?n]" ?r bs ?fp r])
        (use sm added_locks [OF s(6)] lk sg n2 far tot in simp_all)
    with eq show ?thesis by (rule that)
  next
    case (2 p q qs' mp d mq bs')
    then have p: "p = f" "qs = q # qs'" using qs by auto
    then have mp: "parts h f = Some mp" using 2 by (simp add: part_at_def)
    let ?fp = "fresh_part (mp_part mp) None ?fo (mp_data_end mp)" and ?r = "r\<lparr>rm_first := Some ?n\<rparr>"
    obtain h1 h2 where s: "incref_buf (mp_part mp) h = Some h1" "next_part h1 = ?n" "parts h1 = parts h"
      "h2 = h1\<lparr>next_part := ?n + 1, parts := (parts h)(?n \<mapsto> ?fp)\<rparr>"
      "heap_ok (add_mset ?n (add_mset f R)) h2" "added ?n ?fp h h2" "links h2 = links h" "bdata h2 = bdata h"
      using share_part_ok [OF ok mp 2(4) order_refl] by blast
    have n2: "parts h2 ?n = Some ?fp" using s(4) by simp
    have none: "parts h ?n = None" using s(6) by (simp add: added_def)
    have sq: "set (q # qs') \<subseteq> dom (parts h)" using seg_part [OF 2(7)] by (auto simp: part_at_def)
    then have nq: "?n \<notin> set (q # qs')" using none by auto
    have sg2: "seg h2 (q # qs') (mp_offset mq) ?lo bs'"
      using seg_hext [OF same_hext [OF same_subset [OF added_same [OF s(6)] sq] heap_okD(2) [OF ok]] 2(7)] by simp
    have mq2: "parts h2 q = Some mq" using 2(6) nq s(4) by simp
    let ?rest = "int (rm_total r) - (int (mp_data_end mp) - int ?fo)"
    have "\<exists>ns h'. fork_copy q (Some ?n) ?rest ?r h2 = Some (?rest - int (length bs'), ?r\<lparr>rm_last := Some (last ns)\<rparr>, h') \<and>
        copied (add_mset ?n (add_mset f R)) h2 ?n ?fp (mp_offset mq) ?lo bs' ns h'"
    proof (rule fork_copy_ok [OF s(5) n2 _ mq2 sg2 nq])
      show "distinct (q # qs')" "rm_first ?r \<notin> Some ` set (q # qs')" "rm_last ?r = Some (last (q # qs'))"
        using dist qs p(2) nq ps(3) by auto
    qed simp_all
    then obtain ns h' where c0: "fork_copy q (Some ?n) ?rest ?r h2 = Some (?rest - int (length bs'), ?r\<lparr>rm_last := Some (last ns)\<rparr>, h')"
      and "copied (add_mset ?n (add_mset f R)) h2 ?n ?fp (mp_offset mq) ?lo bs' ns h'" by blast
    note c = this(2) [unfolded copied_def]
    let ?r' = "?r\<lparr>rm_last := Some (last ns)\<rparr>"
    have "length bs = (mp_data_end mp - ?fo) + length bs'" using slice_part_length [OF heap_okD(2) [OF ok] 2(2)] 2(8) by simp
    then have eq: "fork_copy f None (int (rm_total r)) r h = Some (0, ?r', h')"
      using mp f s(1,2,3) c0 tot 2(4,5) ps(3) dist qs p(2)
      by (subst fork_copy.simps) (auto simp: Let_def new_msg_part_eq set_link_def s(4))
    obtain mn where mn: "parts h' ?n = Some mn" "core mn = core (?fp\<lparr>mp_next := Some (hd ns)\<rparr>)" using c by auto
    obtain m1 where m1: "parts h' (hd ns) = Some m1" "mp_offset m1 = mp_offset mq" using c by blast
    obtain ml where ml: "parts h' (last ns) = Some ml" "mp_next ml = None" "mp_data_end ml = ?lo" using c by blast
    have ns: "ns = hd ns # tl ns" "seg h' ns (mp_offset mq) ?lo bs'" using c by auto
    have "part_at h' ?n mn d" using mn core_eqD [OF mn(2)] 2(2) c s(8) by (simp add: part_at_def)
    then have "seg h' (?n # hd ns # tl ns) ?fo ?lo (slice ?fo (mp_data_end mn) d @ bs')"
      using core_eqD [OF mn(2)] 2(4) m1 ns by (intro seg_cons [of h' ?n mn d _ _ m1]) simp_all
    then have sg: "seg h' (?n # ns) ?fo ?lo bs" using ns(1) core_eqD [OF mn(2)] 2(8) by simp
    have sm: "same (reach h R) h h'"
    proof -
      have "reach h R \<subseteq> dom (parts h2) - {?n}" using sub none s(4) by auto
      then have "same (reach h R) h2 h'" using c by (blast intro: same_subset)
      then show ?thesis by (rule same_trans [OF same_subset [OF added_same [OF s(6)] sub]])
    qed
    have "last ns \<in> set ns" using ns(1) by (metis last_in_set list.distinct(1))
    moreover have "set ns \<inter> dom (parts h2) = {}" "dom (parts h) \<subseteq> dom (parts h2)" using c by (blast, auto simp: s(4))
    ultimately have far: "last ns \<notin> reach h R" using sub by blast
    have last: "last (?n # ns) = last ns" using ns(1) by (metis last_ConsR list.distinct(1))
    have "heap_ok (add_mset f (add_mset ?n R)) h'" using c by (simp add: add_mset_commute)
    then obtain h3 where "msg_part_decref (Some f) h' = Some h3" "forked R h r bs h3 ?r'"
      by (rule release_forked [of f ?n R h' h "?n # ns" ?r' bs ml r])
        (use sm c added_locks [OF s(6)] lk sg ml far tot last in simp_all)
    with eq show ?thesis by (rule that)
  qed
qed


subsection \<open>Copying the rest behind exclusive parts\<close>

lemma fork_copy_unlink:
  assumes "parts h x = Some mx" "parts h p = Some mp" "x \<noteq> p" "x \<noteq> next_part h"
  shows "fork_copy p (Some x) rest raw h = fork_copy p (Some x) rest raw (h\<lparr>parts := (parts h)(x \<mapsto> mx\<lparr>mp_next := None\<rparr>)\<rparr>)"
proof (cases "bufs h (mp_part mp)")
  case None
  then show ?thesis using assms by (subst (1 2) fork_copy.simps) (simp add: incref_buf_def Let_def)
next
  case (Some mb)
  then show ?thesis using assms
    by (subst (1 2) fork_copy.simps) (cases "mp_next mp"; simp add: incref_buf_def Let_def new_msg_part_eq set_link_def upd_part_def fun_upd_twist)
qed

text \<open>A path of a message, with the parts \<open>xs\<close> before \<open>q\<close> exclusive.\<close>

lemma owned_path:
  assumes "refs_ok (add_mset f R) h" "successively (\<lambda>p q. (p, q) \<in> links h) ps" "hd ps = f" "distinct ps" "\<forall>x\<in>set ps. owned h x"
  shows "set ps \<inter> reach h R = {}"
proof (rule exclusive_path [OF assms(1-4)])
  show "mp_refcnt mp = 1" if "p \<in> set ps" "parts h p = Some mp" for p mp
    using that assms(5) ownedD by blast
qed

lemma owned_prefix:
  assumes ok: "refs_ok (add_mset f R) h" and ps: "seg h (xs @ q # zs) fo lo bs" "hd (xs @ q # zs) = f" and own: "\<forall>x\<in>set xs. owned h x"
  shows "set xs \<inter> reach h R = {}"
proof (cases "xs = []")
  case False
  have "successively (\<lambda>p q. (p, q) \<in> links h) (xs @ q # zs)" "distinct (xs @ q # zs)"
    using seg_path [OF ps(1)] seg_distinct [OF ps(1) ok] by simp_all
  then have "successively (\<lambda>p q. (p, q) \<in> links h) xs" "distinct xs" by (auto simp: successively_append_iff)
  then show ?thesis using owned_path [OF ok, of xs] False ps(2) own by simp
qed simp

lemma fork_copy_rest_ok:
  assumes v: "view R h r bs" and f: "rm_first r = Some f" and lst: "rm_last r = Some (last (xs @ q # zs))" "hd (xs @ q # zs) = f"
    and own: "xs \<noteq> []" "\<forall>x\<in>set xs. owned h x"
    and bs: "bs = bs1 @ bs2" "pre h xs q (rm_first_offset r) bs1 (mp_offset mq)" "parts h q = Some mq"
      "seg h (q # zs) (mp_offset mq) (rm_last_offset r) bs2"
  obtains r' h1 h2 where "fork_copy q (Some (last xs)) (int (length bs2)) r h = Some (0, r', h1)" "msg_part_decref (Some q) h1 = Some h2"
    "forked R h r bs h2 r'"
proof -
  let ?fo = "rm_first_offset r" and ?lo = "rm_last_offset r"
  from v f have ok: "heap_ok (add_mset f R) h" and d: "denotes h r bs" and lk: "locks h \<subseteq> reach h R" by (simp_all add: view_def)
  have tot: "rm_total r = length bs" using d by (simp add: denotes_def)
  have sg0: "seg h (xs @ q # zs) ?fo ?lo bs" unfolding seg_split using bs by blast
  have dist: "distinct (xs @ q # zs)" by (rule seg_distinct [OF sg0 heap_okD(1) [OF ok]])
  have far: "set xs \<inter> reach h R = {}" by (rule owned_prefix [OF heap_okD(1) [OF ok] sg0 lst(2) own(2)])
  have sub: "reach h R \<subseteq> dom (parts h)"
    using reach_dom [OF heap_okD(1) [OF ok]] reach_add(1) [of h R f] by auto
  obtain us x where xs: "xs = us @ [x]" using own(1) by (cases xs rule: rev_cases) auto
  have xin: "x \<in> set xs" "x \<notin> set us" "x \<notin> set (q # zs)" "x \<noteq> q" using dist xs by auto
  from bs(2) [unfolded xs pre_snoc] obtain b1 fo1 mx dx mq' where px: "pre h us x ?fo b1 fo1" "part_at h x mx dx" "mp_offset mx \<le> fo1"
    "fo1 \<le> mp_data_end mx" "mp_next mx = Some q" "bs1 = b1 @ slice fo1 (mp_data_end mx) dx" by blast
  have mx: "parts h x = Some mx" using px(2) by (simp add: part_at_def)
  let ?mx = "mx\<lparr>mp_next := None\<rparr>"
  define h0 where "h0 = h\<lparr>parts := (parts h)(x \<mapsto> ?mx)\<rparr>"
  have bd0: "bdata h0 = bdata h" by (auto simp: h0_def bdata_def)
  have "part_in_buffer h ?mx" using data_okD(4) [OF heap_okD(2) [OF ok] mx] by (simp add: part_in_buffer_iff)
  then have ok0: "heap_ok (add_mset q (add_mset f R)) h0"
    using refs_ok_unlink(1) [OF heap_okD(1) [OF ok] mx px(5), of ?mx] data_ok_upd [OF heap_okD(2) [OF ok] mx, of ?mx]
    by (simp add: heap_ok_def h0_def)
  have sm0: "same (dom (parts h) - {x}) h h0" by (rule sameI) (simp_all add: bd0, auto simp: h0_def)
  have sz: "set (q # zs) \<subseteq> dom (parts h) - {x}" using seg_part [OF bs(4)] xin(3) by (auto simp: part_at_def)
  have sg: "seg h0 (q # zs) (mp_offset mq) ?lo bs2"
    using seg_hext [OF same_hext [OF same_subset [OF sm0 sz] heap_okD(2) [OF ok]] bs(4)] by simp
  have x0: "parts h0 x = Some ?mx" and q0: "parts h0 q = Some mq" using bs(3) xin(4) by (simp_all add: h0_def)
  have fz: "rm_first r \<notin> Some ` set (q # zs)" using dist f lst(2) own(1) xs by (cases us) auto
  have "\<exists>ns h'. fork_copy q (Some x) (int (length bs2)) r h0 = Some (int (length bs2) - int (length bs2), r\<lparr>rm_last := Some (last ns)\<rparr>, h') \<and>
      copied (add_mset q (add_mset f R)) h0 x ?mx (mp_offset mq) ?lo bs2 ns h'"
    by (rule fork_copy_ok [OF ok0 x0 _ q0 sg xin(3) _ fz]) (use dist lst(1) in simp_all)
  then obtain ns h1 where c0: "fork_copy q (Some x) (int (length bs2)) r h0 = Some (0, r\<lparr>rm_last := Some (last ns)\<rparr>, h1)"
    and "copied (add_mset q (add_mset f R)) h0 x ?mx (mp_offset mq) ?lo bs2 ns h1" by auto
  note c = this(2) [unfolded copied_def]
  let ?r = "r\<lparr>rm_last := Some (last ns)\<rparr>"
  have dom0: "dom (parts h0) = dom (parts h)" using mx by (auto simp: h0_def)
  have "x \<noteq> next_part h" using mx refs_okD [OF heap_okD(1) [OF ok] mx] by (simp add: counted_def)
  then have eq: "fork_copy q (Some x) (int (length bs2)) r h = Some (0, ?r, h1)"
    using fork_copy_unlink [OF mx bs(3) xin(4)] c0 by (simp add: h0_def)
  have sm1: "same (dom (parts h) - {x}) h h1" using c dom0 by (intro same_trans [OF sm0]) simp
  have "reach h R \<subseteq> dom (parts h) - {x}" using sub far xin(1) by auto
  then have sm: "same (reach h R) h h1" by (rule same_subset [OF sm1])
  obtain mx' where mx': "parts h1 x = Some mx'" "core mx' = core (mx\<lparr>mp_next := Some (hd ns)\<rparr>)" using c by auto
  obtain mn where mn: "parts h1 (hd ns) = Some mn" "mp_offset mn = mp_offset mq" using c by blast
  obtain ml where ml: "parts h1 (last ns) = Some ml" "mp_next ml = None" "mp_data_end ml = ?lo" using c by blast
  have ns: "ns = hd ns # tl ns" "seg h1 ns (mp_offset mq) ?lo bs2" using c by auto
  have su: "set us \<subseteq> dom (parts h) - {x}" using seg_part [OF sg0] xin(2) xs by (auto simp: part_at_def)
  have "pre h1 us x ?fo b1 fo1"
  proof (rule pre_cong [OF _ _ px(1)])
    show "\<exists>mp'. part_at h1 u mp' d \<and> mp_next mp' = mp_next mp \<and> mp_offset mp' = mp_offset mp \<and> mp_data_end mp' = mp_data_end mp"
      if u: "u \<in> set us" "part_at h u mp d" for u mp d
    proof -
      obtain mp' where "part_at h1 u mp' d" "core mp' = core mp" using same_part_at [OF sm1 _ u(2)] u(1) su by blast
      then show ?thesis using core_eqD [of mp' mp] by blast
    qed
  qed (use mx mx' core_eqD [OF mx'(2)] in auto)
  moreover have "part_at h1 x mx' dx" using px(2) mx' core_eqD [OF mx'(2)] c bd0 by (simp add: part_at_def)
  ultimately have "pre h1 xs (hd ns) ?fo bs1 (mp_offset mn)"
    unfolding xs pre_snoc using px(3,4,6) core_eqD [OF mx'(2)] mn by (intro exI [of _ b1] exI [of _ fo1] exI [of _ mx'] exI [of _ dx] exI [of _ mn]) simp
  then have "seg h1 (xs @ hd ns # tl ns) ?fo ?lo bs"
    unfolding seg_split using bs(1) ns mn(2) by (intro exI [of _ bs1] exI [of _ bs2] exI [of _ "mp_offset mn"]) simp
  then have s1: "seg h1 (xs @ ns) ?fo ?lo bs" using ns(1) by simp
  have nn: "ns \<noteq> []" using c by blast
  have "set ns \<inter> dom (parts h) = {}" using c dom0 by simp
  then have fn: "last ns \<notin> reach h R" using sub last_in_set [OF nn] by blast
  have hdx: "hd (xs @ ns) = f" "last (xs @ ns) = last ns" using lst(2) own(1) nn by simp_all
  have lk0: "locks h0 = locks h" using mx by (auto simp: locks_def h0_def split: if_splits)
  have "heap_ok (add_mset q (add_mset f R)) h1" using c by blast
  then obtain h3 where "msg_part_decref (Some q) h1 = Some h3" "forked R h r bs h3 ?r"
    by (rule release_forked [of q f R h1 h "xs @ ns" ?r bs ml r])
      (use sm c lk0 lk s1 ml fn tot hdx f in simp_all)
  with eq show ?thesis using xs by (intro that) simp_all
qed


subsection \<open>Cutting off what follows the last part\<close>

lemma fork_cut_ok:
  assumes v: "view R h r bs" and f: "rm_first r = Some f" and lst: "rm_last r = Some q" "hd (xs @ [q]) = f"
    and own: "\<forall>x\<in>set (xs @ [q]). owned h x"
    and bs: "bs = bs1 @ bs2" "pre h xs q (rm_first_offset r) bs1 fo'" "parts h q = Some mq"
      "seg h [q] fo' (rm_last_offset r) bs2"
  obtains h1 h2 where "upd_part q (\<lambda>mp. mp\<lparr>mp_data_end := rm_last_offset r\<rparr>) h = Some h1" "q \<notin> locks h"
    "do { h \<leftarrow> msg_part_decref (mp_next mq) h1; upd_part q (\<lambda>mp. mp\<lparr>mp_next := None\<rparr>) h } = Some h2"
    "forked R h r bs h2 r" "int (length bs2) = int (rm_last_offset r) - int fo'"
proof -
  let ?fo = "rm_first_offset r" and ?lo = "rm_last_offset r"
  from v f have ok: "heap_ok (add_mset f R) h" and d: "denotes h r bs" and lk: "locks h \<subseteq> reach h R" by (simp_all add: view_def)
  have tot: "rm_total r = length bs" using d by (simp add: denotes_def)
  have sg0: "seg h (xs @ [q]) ?fo ?lo bs" unfolding seg_split using bs by blast
  have dist: "distinct (xs @ [q])" by (rule seg_distinct [OF sg0 heap_okD(1) [OF ok]])
  have far: "set (xs @ [q]) \<inter> reach h R = {}"
    by (rule owned_path [OF heap_okD(1) [OF ok] seg_path [OF sg0] lst(2) dist own])
  have sub: "reach h R \<subseteq> dom (parts h)"
    using reach_dom [OF heap_okD(1) [OF ok]] reach_add(1) [of h R f] by auto
  from bs(4) obtain m dq where "part_at h q m dq" "mp_offset m \<le> fo'" "fo' \<le> ?lo" "?lo \<le> mp_data_end m" "bs2 = slice fo' ?lo dq"
    by (rule seg_singleE) auto
  then have q: "part_at h q mq dq" "fo' \<le> ?lo" "?lo \<le> mp_data_end mq" "bs2 = slice fo' ?lo dq" "mp_offset mq \<le> fo'"
    using bs(3) by (simp_all add: part_at_def)
  have len: "int (length bs2) = int ?lo - int fo'" using slice_part_length [OF heap_okD(2) [OF ok] q(1,3)] q(2,4) by simp
  have ql: "q \<notin> locks h" using lk far by auto
  let ?me = "mq\<lparr>mp_data_end := ?lo\<rparr>" and ?m0 = "mq\<lparr>mp_data_end := ?lo, mp_next := None\<rparr>"
  define h1 where "h1 = h\<lparr>parts := (parts h)(q \<mapsto> ?me)\<rparr>"
  define h0 where "h0 = h\<lparr>parts := (parts h)(q \<mapsto> ?m0)\<rparr>"
  have u1: "upd_part q (\<lambda>mp. mp\<lparr>mp_data_end := ?lo\<rparr>) h = Some h1" using bs(3) by (simp add: upd_part_def h1_def)
  have bd0: "bdata h0 = bdata h" by (auto simp: h0_def bdata_def)
  have pib: "part_in_buffer h ?m0" using data_okD(4) [OF heap_okD(2) [OF ok] bs(3)] q(2,3,5) by (auto simp: part_in_buffer_iff)
  have ok0: "heap_ok (add_mset f R + root (mp_next mq)) h0"
  proof (cases "mp_next mq")
    case None
    then show ?thesis using refs_ok_upd [OF heap_okD(1) [OF ok] bs(3), of ?m0] data_ok_upd [OF heap_okD(2) [OF ok] bs(3) _ pib]
      by (simp add: heap_ok_def h0_def)
  next
    case (Some s)
    then show ?thesis using refs_ok_unlink(1) [OF heap_okD(1) [OF ok] bs(3) Some, of ?m0] data_ok_upd [OF heap_okD(2) [OF ok] bs(3) _ pib]
      by (simp add: heap_ok_def h0_def)
  qed
  have sm0: "same (dom (parts h) - {q}) h h0" by (rule sameI) (simp_all add: bd0, auto simp: h0_def)
  have "reach h R \<subseteq> dom (parts h) - {q}" using sub far by auto
  then have smR: "same (reach h R) h h0" by (rule same_subset [OF sm0])
  have lk0: "locks h0 = locks h" using bs(3) by (auto simp: locks_def h0_def split: if_splits)
  have lkr: "locks h0 \<subseteq> reach h0 (add_mset f R)" using lk lk0 reach_same [OF smR] reach_add(1) [of h0 R f] by auto
  from release_ok [OF ok0 lkr] obtain h2 where h2: "msg_part_decref (mp_next mq) h0 = Some h2" "heap_ok (add_mset f R) h2"
    "same (reach h0 (add_mset f R)) h0 h2" "framed (add_mset f R) h0 h2" by blast
  have noway: "(s, q) \<notin> (links h0)\<^sup>*" if "mp_next mq = Some s" for s
  proof
    assume "(s, q) \<in> (links h0)\<^sup>*"
    moreover have "links h0 \<subseteq> links h" by (auto simp: links_def h0_def split: if_splits)
    ultimately have "(s, q) \<in> (links h)\<^sup>*" using rtrancl_mono by blast
    moreover have "(q, s) \<in> links h" using bs(3) that by (auto simp: links_def)
    ultimately have "(q, q) \<in> (links h)\<^sup>+" by (rule rtrancl_into_trancl2 [rotated])
    then show False using heap_okD(1) [OF ok] by (simp add: refs_ok_def acyclic_def)
  qed
  have cm: "msg_part_decref (mp_next mq) (h0\<lparr>parts := (parts h0)(q \<mapsto> ?me)\<rparr>) = Some (h2\<lparr>parts := (parts h2)(q \<mapsto> ?me)\<rparr>)" "parts h2 q = parts h0 q"
    using msg_part_decref_commute [OF h2(1), of q ?me] noway by blast+
  have "h0\<lparr>parts := (parts h0)(q \<mapsto> ?me)\<rparr> = h1" by (simp add: h0_def h1_def)
  then have "do { h \<leftarrow> msg_part_decref (mp_next mq) h1; upd_part q (\<lambda>mp. mp\<lparr>mp_next := None\<rparr>) h } =
      Some (h2\<lparr>parts := (parts h2)(q \<mapsto> ?m0)\<rparr>)" using cm(1) by (simp add: upd_part_def)
  moreover have q2: "parts h2 q = Some ?m0" using cm(2) by (simp add: h0_def)
  then have "h2\<lparr>parts := (parts h2)(q \<mapsto> ?m0)\<rparr> = h2" by (simp add: fun_upd_idem)
  ultimately have run2: "do { h \<leftarrow> msg_part_decref (mp_next mq) h1; upd_part q (\<lambda>mp. mp\<lparr>mp_next := None\<rparr>) h } = Some h2" by simp
  have "reach h R \<subseteq> reach h0 (add_mset f R)" using reach_add(1) [of h0 R f] reach_same [OF smR] by simp
  then have sm2: "same (reach h R) h h2" by (rule same_trans [OF smR same_subset [OF h2(3)]])
  have sx: "set xs \<subseteq> dom (parts h) - {q}" using seg_part [OF sg0] dist by (auto simp: part_at_def)
  have "pre h0 xs q ?fo bs1 fo'"
  proof (rule pre_cong [OF _ _ bs(2)])
    show "\<exists>mp'. part_at h0 u mp' d \<and> mp_next mp' = mp_next mp \<and> mp_offset mp' = mp_offset mp \<and> mp_data_end mp' = mp_data_end mp"
      if u: "u \<in> set xs" "part_at h u mp d" for u mp d
    proof -
      obtain mp' where "part_at h0 u mp' d" "core mp' = core mp" using same_part_at [OF sm0 _ u(2)] u(1) sx by blast
      then show ?thesis using core_eqD [of mp' mp] by blast
    qed
  qed (use bs(3) in \<open>auto simp: h0_def\<close>)
  moreover have "seg h0 [q] fo' ?lo bs2"
    unfolding q(4) by (rule seg_last [of h0 q ?m0]) (use q bd0 in \<open>auto simp: part_at_def h0_def\<close>)
  ultimately have s0: "seg h0 (xs @ [q]) ?fo ?lo bs" unfolding seg_split using bs(1) by blast
  have "set (xs @ [q]) \<subseteq> reach h0 (add_mset f R)" using seg_reach [OF s0] lst(2) by simp
  then have "seg h2 (xs @ [q]) ?fo ?lo bs" using seg_hext [OF same_hext [OF h2(3) heap_okD(2) [OF ok0]] s0] by simp
  then have "denotes h2 r bs" using f lst tot by (auto simp: denotes_def intro!: exI [of _ "xs @ [q]"])
  moreover have lk2: "locks h2 \<subseteq> locks h" using h2(4) lk0 by (simp add: framed_def)
  ultimately have "view R h2 r bs" using h2(2) f lk unfolding view_def reach_same [OF sm2] by auto
  moreover have "closed h2 r" using q2 lst by (simp add: closed_def)
  ultimately have "forked R h r bs h2 r" using sm2 lk2 lst far f by (simp add: forked_def reach_same [OF sm2])
  with u1 ql run2 len show ?thesis by (intro that [of h1 h2])
qed

subsection \<open>The fork as a whole\<close>

text \<open>What the fork does after the offset of the first part was set.\<close>

definition fork_from :: "bool \<Rightarrow> nat \<Rightarrow> raw_message \<Rightarrow> msg_heap \<Rightarrow> (raw_message \<times> msg_heap) option" where
  "fork_from ok f raw h = do {
     (p, pred, rest) \<leftarrow> (if ok then fork_skip (rm_last raw) f None (int (rm_total raw)) h else Some (f, None, int (rm_total raw)));
     mp \<leftarrow> parts h p;
     if \<not> ok \<or> mp_refcnt mp \<noteq> 1 \<or> Some p \<noteq> rm_last raw then do {
       (rest, raw, h) \<leftarrow> fork_copy p pred rest raw h;
       h \<leftarrow> msg_part_decref (Some p) h;
       if rest = 0 then Some (raw, h) else None
     }
     else if mp_locked mp then None
     else do {
       h \<leftarrow> upd_part p (\<lambda>mp. mp\<lparr>mp_data_end := rm_last_offset raw\<rparr>) h;
       h \<leftarrow> msg_part_decref (mp_next mp) h;
       h \<leftarrow> upd_part p (\<lambda>mp. mp\<lparr>mp_next := None\<rparr>) h;
       if rest - (int (rm_last_offset raw) - int (mp_offset mp)) = 0 then Some (raw, h) else None
     }
   }"

lemma fork_message_chain_from:
  assumes "rm_first r = Some f" "parts h f = Some mp"
  shows "fork_message_chain r h =
    (if rm_first_offset r = mp_offset mp then fork_from True f r h
     else if mp_refcnt mp = 1 then fork_from True f r (h\<lparr>parts := (parts h)(f \<mapsto> mp\<lparr>mp_offset := rm_first_offset r\<rparr>)\<rparr>)
     else fork_from False f r h)"
  using assms by (simp add: fork_message_chain_def fork_from_def Let_def upd_part_def)

lemma fork_from_ok:
  assumes v: "view R h r bs" and f: "rm_first r = Some f" and op: "opened h r"
  obtains r' h' where "fork_from True f r h = Some (r', h')" "forked R h r bs h' r'"
proof -
  let ?fo = "rm_first_offset r" and ?lo = "rm_last_offset r"
  from v f have ok: "heap_ok (add_mset f R) h" and d: "denotes h r bs" and lk: "locks h \<subseteq> reach h R" by (simp_all add: view_def)
  have tot: "rm_total r = length bs" using d by (simp add: denotes_def)
  obtain ps where ps: "seg h ps ?fo ?lo bs" "hd ps = f" "rm_last r = Some (last ps)" "ps \<noteq> []"
    by (rule denotesE [OF d f])
  then obtain qs where qs: "ps = f # qs" by (cases ps) auto
  have dist: "distinct (f # qs)" using seg_distinct [OF ps(1) heap_okD(1) [OF ok]] qs by simp
  from op f obtain mp where mp: "parts h f = Some mp" "mp_offset mp = ?fo" by (auto simp: opened_def)
  have free: "set xs \<inter> locks h = {}" if "f # qs = xs @ q # zs" "\<forall>x\<in>set xs. owned h x" for xs q zs
  proof -
    have "seg h (xs @ q # zs) ?fo ?lo bs" "hd (xs @ q # zs) = f" using ps(1) qs that(1) by (simp, metis list.sel(1))
    then have "set xs \<inter> reach h R = {}" by (rule owned_prefix [OF heap_okD(1) [OF ok] _ _ that(2)])
    then show ?thesis using lk by blast
  qed
  have "\<exists>xs q zs mq bs1 bs2. f # qs = xs @ q # zs \<and> (\<forall>x\<in>set xs. owned h x) \<and> (q = last (f # qs) \<or> \<not> owned h q) \<and>
    parts h q = Some mq \<and> bs = bs1 @ bs2 \<and> pre h xs q (mp_offset mp) bs1 (mp_offset mq) \<and> seg h (q # zs) (mp_offset mq) ?lo bs2 \<and>
    fork_skip (Some (last (f # qs))) f None (int (rm_total r)) h =
      Some (q, if xs = [] then None else Some (last xs), int (rm_total r) - int (length bs1))"
    by (rule fork_skip_ok [OF _ mp(1) dist heap_okD(2) [OF ok] free]) (use ps(1) qs mp(2) in simp_all)
  then obtain xs q zs mq bs1 bs2 where s: "f # qs = xs @ q # zs" "\<forall>x\<in>set xs. owned h x" "q = last (f # qs) \<or> \<not> owned h q"
    "parts h q = Some mq" "bs = bs1 @ bs2" "pre h xs q ?fo bs1 (mp_offset mq)" "seg h (q # zs) (mp_offset mq) ?lo bs2"
    "fork_skip (rm_last r) f None (int (rm_total r)) h = Some (q, if xs = [] then None else Some (last xs), int (length bs2))"
    using tot mp(2) ps(3) qs by (metis add_diff_cancel_left' length_append of_nat_add)
  have hd: "hd (xs @ q # zs) = f" and lst: "rm_last r = Some (last (xs @ q # zs))" using s(1) ps(3) qs by (metis list.sel(1), simp)
  have ql: "q = last (f # qs) \<longleftrightarrow> zs = []"
    using dist unfolding s(1) by (cases "zs = []") auto
  show ?thesis
  proof (cases "owned h q \<and> zs = []")
    case True
    then have own: "\<forall>x\<in>set (xs @ [q]). owned h x" using s(2) by simp
    obtain h1 h2 where c: "upd_part q (\<lambda>mp. mp\<lparr>mp_data_end := ?lo\<rparr>) h = Some h1" "q \<notin> locks h"
      "do { h \<leftarrow> msg_part_decref (mp_next mq) h1; upd_part q (\<lambda>mp. mp\<lparr>mp_next := None\<rparr>) h } = Some h2"
      "forked R h r bs h2 r" "int (length bs2) = int ?lo - int (mp_offset mq)"
      by (rule fork_cut_ok [OF v f _ _ own s(5,6,4)]) (use lst hd True s(7) in simp_all)
    have unl: "\<not> mp_locked mq" using c(2) s(4) by (auto simp: locks_def)
    have "mp_refcnt mq = 1" using True ownedD s(4) by blast
    then have "fork_from True f r h = do {
        h \<leftarrow> do { h \<leftarrow> msg_part_decref (mp_next mq) h1; upd_part q (\<lambda>mp. mp\<lparr>mp_next := None\<rparr>) h };
        if int (length bs2) - (int ?lo - int (mp_offset mq)) = 0 then Some (r, h) else None }"
      using s(4,8) lst True unl c(1) by (simp add: fork_from_def Let_def)
    then have "fork_from True f r h = Some (r, h2)" unfolding c(3) using c(5) by simp
    then show ?thesis using c(4) by (rule that)
  next
    case False
    have "Some q = rm_last r \<longleftrightarrow> zs = []" using ql lst s(1) by simp
    moreover have "owned h q \<longleftrightarrow> mp_refcnt mq = 1" using s(4) by (simp add: owned_def)
    ultimately have cond: "mp_refcnt mq \<noteq> 1 \<or> Some q \<noteq> rm_last r" using False by blast
    obtain r' h1 h2 where c: "fork_copy q (if xs = [] then None else Some (last xs)) (int (length bs2)) r h = Some (0, r', h1)"
      "msg_part_decref (Some q) h1 = Some h2" "forked R h r bs h2 r'"
    proof (cases "xs = []")
      case True
      have "q = f" "bs2 = bs" using True s(1,5,6) by auto
      obtain r' h1 h2 where "fork_copy f None (int (rm_total r)) r h = Some (0, r', h1)" "msg_part_decref (Some f) h1 = Some h2"
        "forked R h r bs h2 r'" by (rule fork_copy_all_ok [OF v f])
      then show ?thesis using True tot \<open>q = f\<close> \<open>bs2 = bs\<close> by (intro that [of r' h1 h2]) simp_all
    next
      case ne: False
      obtain r' h1 h2 where "fork_copy q (Some (last xs)) (int (length bs2)) r h = Some (0, r', h1)" "msg_part_decref (Some q) h1 = Some h2"
        "forked R h r bs h2 r'" by (rule fork_copy_rest_ok [OF v f lst hd ne s(2,5,6,4,7)])
      then show ?thesis using ne by (intro that [of r' h1 h2]) simp_all
    qed
    then have "fork_from True f r h = Some (r', h2)" using s(4,8) cond by (auto simp: fork_from_def Let_def)
    then show ?thesis using c(3) by (rule that)
  qed
qed

lemma forked_trans:
  assumes "same (reach h R) h h1" "locks h1 = locks h" "forked R h1 r bs h' r'"
  shows "forked R h r bs h' r'"
  using assms unfolding forked_def reach_same [OF assms(1)] by (auto intro: same_trans)

lemma fork_ok:
  assumes v: "view R h r bs" and f: "rm_first r = Some f"
  obtains r' h' where "fork_message_chain r h = Some (r', h')" "forked R h r bs h' r'"
proof -
  from v f have ok: "heap_ok (add_mset f R) h" by (simp_all add: view_def)
  obtain mp where mp: "parts h f = Some mp" using heap_okD(1) [OF ok] by (auto simp: refs_ok_def)
  note eq = fork_message_chain_from [OF f mp]
  show ?thesis
  proof (cases "rm_first_offset r = mp_offset mp")
    case True
    then have "opened h r" using f mp by (simp add: opened_def)
    then show ?thesis using fork_from_ok [OF v f] eq True that by auto
  next
    case differs: False
    show ?thesis
    proof (cases "mp_refcnt mp = 1")
      case True
      note own = own_offset_ok [OF v f mp True]
      obtain r' h' where "fork_from True f r (h\<lparr>parts := (parts h)(f \<mapsto> mp\<lparr>mp_offset := rm_first_offset r\<rparr>)\<rparr>) = Some (r', h')"
        "forked R h r bs h' r'" using fork_from_ok [OF own(1) f own(4)] forked_trans [OF own(2,3)] by metis
      then show ?thesis using eq True differs by (intro that [of r' h']) simp_all
    next
      case False
      obtain r' h1 h2 where "fork_copy f None (int (rm_total r)) r h = Some (0, r', h1)" "msg_part_decref (Some f) h1 = Some h2"
        "forked R h r bs h2 r'" by (rule fork_copy_all_ok [OF v f])
      then show ?thesis using eq differs False mp by (intro that [of r' h2]) (simp_all add: fork_from_def)
    qed
  qed
qed

end
