(* ===== verification/Msg_Push.thy ===== *)
theory Msg_Push
  imports Msg_Fork
begin

text \<open>Appending to a message.\<close>

subsection \<open>Locking the last part\<close>

lemma set_locked_ok:
  fixes b :: bool
  assumes ok: "heap_ok R h" and l: "parts h l = Some ml"
  defines "h' \<equiv> h\<lparr>parts := (parts h)(l \<mapsto> ml\<lparr>mp_locked := b\<rparr>)\<rparr>"
  shows "heap_ok R h'" "same (dom (parts h)) h h'" "locks h' = (if b then insert l (locks h) else locks h - {l})" "bufs h' = bufs h" "links h' = links h"
    "upd_part l (\<lambda>mp. mp\<lparr>mp_locked := b\<rparr>) h = Some h'"
proof -
  let ?m = "ml\<lparr>mp_locked := b\<rparr>"
  have "part_in_buffer h ?m" using data_okD(4) [OF heap_okD(2) [OF ok] l] by (simp add: part_in_buffer_iff)
  then show "heap_ok R h'"
    using refs_ok_upd [OF heap_okD(1) [OF ok] l, of ?m] data_ok_upd [OF heap_okD(2) [OF ok] l, of ?m] by (simp add: heap_ok_def h'_def)
  show "same (dom (parts h)) h h'" using l by (auto simp: same_def h'_def bdata_def)
  show "locks h' = (if b then insert l (locks h) else locks h - {l})" using l by (auto simp: locks_def h'_def)
  show "links h' = links h" using links_same_next [OF l, of ?m] by (simp add: h'_def)
qed (simp_all add: h'_def upd_part_def l)

text \<open>After this the message ends with its last part, which is locked or not reachable by others.\<close>

definition prepared :: "nat multiset \<Rightarrow> msg_heap \<Rightarrow> raw_message \<Rightarrow> bytes \<Rightarrow> nat option \<Rightarrow> msg_heap \<Rightarrow> raw_message \<Rightarrow> bool" where
  "prepared R h r bs lk h' r' \<longleftrightarrow> rm_first r' \<noteq> None \<and> heap_ok (R + root (rm_first r')) h' \<and> denotes h' r' bs \<and> closed h' r' \<and>
     same (reach h R) h h' \<and> locks h' \<subseteq> locks h \<union> set_option lk \<and> rm_total r' = rm_total r \<and> rm_last_offset r' = rm_last_offset r \<and>
     (case lk of None \<Rightarrow> (\<exists>l. rm_last r' = Some l \<and> l \<notin> reach h' R) | Some l \<Rightarrow> r' = r \<and> rm_last r = Some l \<and> l \<notin> locks h \<and> l \<in> locks h')"

lemma lock_last_ok:
  assumes v: "view R h r bs" and f: "rm_first r = Some f"
  obtains lk r' h' where "rwm_lock_last_part r h = Some (lk, r', h')" "prepared R h r bs lk h' r'"
proof -
  from v f have ok: "heap_ok (add_mset f R) h" and d: "denotes h r bs" and lk: "locks h \<subseteq> reach h R" by (simp_all add: view_def)
  obtain ps where ps: "seg h ps (rm_first_offset r) (rm_last_offset r) bs" "hd ps = f" "rm_last r = Some (last ps)" "ps \<noteq> []"
    by (rule denotesE [OF d f])
  obtain us where us: "ps = us @ [last ps]" using ps(4) by (metis append_butlast_last_id)
  then have "\<exists>fo bs'. seg h [last ps] fo (rm_last_offset r) bs'" using ps(1) seg_split [of h us "last ps" "[]"] by metis
  then obtain ml where ml: "parts h (last ps) = Some ml" "rm_last_offset r \<le> mp_data_end ml" by (auto elim!: seg_singleE simp: part_at_def)
  obtain r' h' where fk: "fork_message_chain r h = Some (r', h')" "forked R h r bs h' r'" by (rule fork_ok [OF v f])
  show ?thesis
  proof (cases "mp_next ml \<noteq> None \<or> rm_last_offset r \<noteq> mp_data_end ml \<or> mp_locked ml")
    case True
    have "prepared R h r bs None h' r'" using fk(2) by (auto simp: prepared_def forked_def view_def)
    moreover have "rwm_lock_last_part r h = Some (None, r', h')" using True ml f ps(3) fk(1) by (auto simp: rwm_lock_last_part_def)
    ultimately show ?thesis by (intro that)
  next
    case False
    let ?h = "h\<lparr>parts := (parts h)(last ps \<mapsto> ml\<lparr>mp_locked := True\<rparr>)\<rparr>"
    note sl = set_locked_ok [OF ok ml(1), of True]
    have sub: "reach h (add_mset f R) \<subseteq> dom (parts h)" using reach_dom [OF heap_okD(1) [OF ok]] by auto
    then have "reach h R \<subseteq> dom (parts h)" using reach_add(1) by blast
    then have "same (reach h R) h ?h" by (rule same_subset [OF sl(2)])
    moreover have "denotes h r bs \<Longrightarrow> denotes ?h r bs"
      by (rule denotes_hext [OF _ same_hext [OF same_subset [OF sl(2) sub] heap_okD(2) [OF ok]]]) (use f in simp_all)
    moreover have "closed ?h r" using False ml ps(3) by (simp add: closed_def)
    moreover have "last ps \<notin> locks h" using False ml by (simp add: locks_def)
    ultimately have "prepared R h r bs (Some (last ps)) ?h r"
      using sl(1,3) d f ps(3) by (auto simp: prepared_def)
    moreover have "rwm_lock_last_part r h = Some (Some (last ps), r, ?h)"
      using False ml f ps(3) by (simp add: rwm_lock_last_part_def upd_part_def)
    ultimately show ?thesis by (intro that)
  qed
qed

subsection \<open>Parts with new buffers\<close>

lemma overwrite_length [simp]: "off + length bs \<le> length d \<Longrightarrow> length (overwrite off bs d) = length d"
  by (simp add: overwrite_def)

lemma overwrite_slice: "off + length bs \<le> length d \<Longrightarrow> slice off (off + length bs) (overwrite off bs d) = bs"
  by (simp add: overwrite_def slice_def)

lemma overwrite_slice_before: "e \<le> off \<Longrightarrow> off \<le> length d \<Longrightarrow> slice a e (overwrite off bs d) = slice a e d"
  by (auto simp: overwrite_def slice_def take_drop min_def)

lemma overwrite_slice_behind: "off + length bs \<le> a \<Longrightarrow> off + length bs \<le> length d \<Longrightarrow> slice a e (overwrite off bs d) = slice a e d"
  by (auto simp: overwrite_def slice_def)

text \<open>A new buffer, a new part for some bytes written into it.\<close>

definition out_of_buffers :: "nat \<Rightarrow> buffer_pool \<Rightarrow> bool" where
  "out_of_buffers hint p \<longleftrightarrow> pool_full p (size_index (int hint) 4)"

definition with_part :: "buffer_pool \<Rightarrow> buffer_ptr \<Rightarrow> nat \<Rightarrow> bytes \<Rightarrow> msg_part \<Rightarrow> msg_heap \<Rightarrow> msg_heap" where
  "with_part p' b off bs mp h = h\<lparr>pool := p', bufs := (bufs h)(b \<mapsto> \<lparr>buf_refcnt = 1, buf_data = overwrite off bs (replicate (ptr_size p' b) 0)\<rparr>),
     next_part := next_part h + 1, parts := (parts h)(next_part h \<mapsto> mp)\<rparr>"

lemma new_data_part_ok:
  assumes ok: "heap_ok R h" and nb: "\<And>b. nb = Some b \<Longrightarrow> b \<in> dom (bufs h)"
  obtains "new_buffer nb hint h = Some (None, h)" "out_of_buffers hint (pool h)"
  | b p' h1 where "new_buffer nb hint h = Some (Some b, h1)"
    "h1 = h\<lparr>pool := p', bufs := (bufs h)(b \<mapsto> \<lparr>buf_refcnt = 1, buf_data = replicate (ptr_size p' b) 0\<rparr>)\<rparr>"
    "0 < ptr_size p' b" "hint \<le> 262144 \<longrightarrow> hint \<le> ptr_size p' b"
    "\<forall>off bs e. off + length bs \<le> ptr_size p' b \<longrightarrow> e = off + length bs \<longrightarrow>
       heap_ok (add_mset (next_part h) R) (with_part p' b off bs (fresh_part b None off e) h) \<and>
       added (next_part h) (fresh_part b None off e) h (with_part p' b off bs (fresh_part b None off e) h) \<and>
       links (with_part p' b off bs (fresh_part b None off e) h) = links h"
proof -
  note D = data_okD [OF heap_okD(2) [OF ok]]
  have nb': "b \<in> used (pool h)" if "nb = Some b" for b using nb [OF that] D(2) by simp
  obtain r p' where r: "alloc_msg_buffer nb (int hint) (pool h) = Some (r, p')" "alloc_result (int hint) (pool h) r p'"
    by (rule alloc_msg_buffer_ok [OF D(1) nb'])
  show ?thesis
  proof (cases r)
    case None
    then have "p' = pool h" "out_of_buffers hint (pool h)" using r(2) by (simp_all add: alloc_result_def out_of_buffers_def)
    then show ?thesis using r(1) None by (intro that(1)) (simp_all add: new_buffer_def)
  next
    case (Some b)
    with r(2) have p': "pool_ok p'" "b \<notin> used (pool h)" "used p' = insert b (used (pool h))" "\<forall>b\<in>used (pool h). ptr_size p' b = ptr_size (pool h) b"
      "hint \<le> 262144 \<longrightarrow> hint \<le> ptr_size p' b" by (auto simp: alloc_result_def)
    have pos: "0 < ptr_size p' b"
      using msg_pool.alloc_law [OF D(1), of nb "int hint"] nb' r(1) Some by auto
    have far: "mp_part mx \<noteq> b" if "parts h x = Some mx" for x mx using D(5) [OF that] D(2) p'(2) by auto
    have "heap_ok (add_mset (next_part h) R) (with_part p' b off bs (fresh_part b None off (off + length bs)) h) \<and>
       added (next_part h) (fresh_part b None off (off + length bs)) h (with_part p' b off bs (fresh_part b None off (off + length bs)) h) \<and>
       links (with_part p' b off bs (fresh_part b None off (off + length bs)) h) = links h"
      if fits: "off + length bs \<le> ptr_size p' b" for off bs
    proof -
      let ?fp = "fresh_part b None off (off + length bs)"
      let ?h = "with_part p' b off bs ?fp h"
      note new = refs_ok_new [OF heap_okD(1) [OF ok], of ?fp, simplified]
      have "refs_ok (add_mset (next_part h) R) ?h" using refs_ok_heap [OF new(1), of ?h] by (simp add: with_part_def)
      moreover have "data_ok ?h"
        unfolding with_part_def
        by (rule data_ok_new [OF heap_okD(2) [OF ok] new(3) p'(1-3)]) (use p'(4) fits in simp_all)
      moreover have "links ?h = links h" using new(2) by (simp add: with_part_def links_def)
      moreover have "added (next_part h) ?fp h ?h"
        using new(3) far by (auto simp: added_def with_part_def bdata_def)
      ultimately show ?thesis by (simp add: heap_ok_def)
    qed
    then show ?thesis using r(1) Some pos p'(5) by (intro that(2)) (auto simp: new_buffer_def)
  qed
qed

lemma with_part_simps [simp]:
  "parts (with_part p' b off bs mp h) = (parts h)(next_part h \<mapsto> mp)"
  "bdata (with_part p' b off bs mp h) b = Some (overwrite off bs (replicate (ptr_size p' b) 0))"
  by (simp_all add: with_part_def bdata_def)

subsection \<open>Bytes behind the end\<close>

lemma seg_append:
  assumes "seg h (xs @ [l]) fo lo bs" "parts h l = Some ml" "mp_data_end ml = lo" "mp_next ml = Some p" "parts h p = Some mp"
    "seg h (p # ys) (mp_offset mp) lo' bs'"
  shows "seg h (xs @ l # p # ys) fo lo' (bs @ bs')"
proof -
  from assms(1) obtain b1 b2 fo' where b: "bs = b1 @ b2" "pre h xs l fo b1 fo'" "seg h [l] fo' lo b2" unfolding seg_split by blast
  from b(3) obtain d where d: "part_at h l ml d" "mp_offset ml \<le> fo'" "fo' \<le> lo" "b2 = slice fo' lo d"
    by (rule seg_singleE) (use assms(2) in \<open>auto simp: part_at_def\<close>)
  have "seg h (l # p # ys) fo' lo' (slice fo' (mp_data_end ml) d @ bs')"
    using d assms(3-6) by (intro seg_cons [of h l ml d fo' p mp ys]) simp_all
  then show ?thesis unfolding seg_split using b d(4) assms(3)
    by (intro exI [of _ b1] exI [of _ "b2 @ bs'"] exI [of _ fo']) simp
qed

lemma seg_grow:
  assumes s: "seg h (xs @ [l]) fo lo bs" and h: "hext (set (xs @ [l])) h h'"
    and l: "part_at h' l ml d" "lo \<le> lo'" "lo' \<le> mp_data_end ml"
  shows "seg h' (xs @ [l]) fo lo' (bs @ slice lo lo' d)"
proof -
  have "seg h' (xs @ [l]) fo lo bs" using seg_hext [OF h s] by simp
  then obtain b1 b2 fo' where b: "bs = b1 @ b2" "pre h' xs l fo b1 fo'" "seg h' [l] fo' lo b2" unfolding seg_split by blast
  from b(3) have d: "mp_offset ml \<le> fo'" "fo' \<le> lo" "b2 = slice fo' lo d"
    by (auto elim!: seg_singleE) (use l(1) in \<open>auto simp: part_at_def\<close>)
  have "b2 @ slice lo lo' d = slice fo' lo' d" unfolding d(3) by (rule slice_append [OF d(2) l(2)])
  moreover have "seg h' [l] fo' lo' (slice fo' lo' d)" using d l by (intro seg_last [of h' l ml]) simp_all
  ultimately show ?thesis unfolding seg_split using b(1,2)
    by (intro exI [of _ b1] exI [of _ "b2 @ slice lo lo' d"] exI [of _ fo']) simp
qed

text \<open>A message that ends with its last part, without regard to locks.\<close>

definition appendable :: "nat multiset \<Rightarrow> msg_heap \<Rightarrow> raw_message \<Rightarrow> bytes \<Rightarrow> bool" where
  "appendable R h r bs \<longleftrightarrow> rm_first r \<noteq> None \<and> heap_ok (R + root (rm_first r)) h \<and> denotes h r bs \<and> closed h r"

lemma appendableE:
  assumes "appendable R h r bs"
  obtains f xs l ml where "rm_first r = Some f" "rm_last r = Some l" "parts h l = Some ml" "mp_next ml = None" "mp_data_end ml = rm_last_offset r"
    "seg h (xs @ [l]) (rm_first_offset r) (rm_last_offset r) bs" "hd (xs @ [l]) = f" "rm_total r = length bs" "heap_ok (add_mset f R) h"
proof -
  from assms obtain f where f: "rm_first r = Some f" "denotes h r bs" "heap_ok (add_mset f R) h" by (auto simp: appendable_def)
  from assms obtain l ml where l: "rm_last r = Some l" "parts h l = Some ml" "mp_next ml = None" "mp_data_end ml = rm_last_offset r"
    by (auto simp: appendable_def closed_def)
  obtain ps where ps: "seg h ps (rm_first_offset r) (rm_last_offset r) bs" "hd ps = f" "rm_last r = Some (last ps)" "ps \<noteq> []"
    by (rule denotesE [OF f(2,1)])
  then have "ps = butlast ps @ [l]" using l(1) by simp
  then show ?thesis using f l ps that [of f l ml "butlast ps"] by (simp add: denotes_def)
qed

lemma added_hext: "added n mp h h' \<Longrightarrow> data_ok h \<Longrightarrow> hext (dom (parts h)) h h'"
  by (rule same_hext [OF added_same])

text \<open>One part more.\<close>

lemma push_part_ok:
  assumes a: "appendable R h r bs" and l: "rm_last r = Some l"
    and ok: "heap_ok (add_mset (next_part h) (R + root (rm_first r))) (with_part p' b 0 ds (fresh_part b None 0 (length ds)) h)"
    and ad: "added (next_part h) (fresh_part b None 0 (length ds)) h (with_part p' b 0 ds (fresh_part b None 0 (length ds)) h)"
    and fits: "length ds \<le> ptr_size p' b"
  obtains ml h' where "parts h l = Some ml" "h' = (with_part p' b 0 ds (fresh_part b None 0 (length ds)) h)
      \<lparr>parts := (parts h)(next_part h \<mapsto> fresh_part b None 0 (length ds), l \<mapsto> ml\<lparr>mp_next := Some (next_part h)\<rparr>)\<rparr>"
    "appendable R h' (r\<lparr>rm_last := Some (next_part h), rm_total := rm_total r + length ds, rm_last_offset := length ds\<rparr>) (bs @ ds)"
    "hext (dom (parts h)) h h'" "locks h' = locks h" "dom (parts h) \<subseteq> dom (parts h')"
proof -
  let ?n = "next_part h" and ?fp = "fresh_part b None 0 (length ds)"
  let ?h1 = "with_part p' b 0 ds ?fp h"
  obtain f xs ml where e: "rm_first r = Some f" "parts h l = Some ml" "mp_next ml = None" "mp_data_end ml = rm_last_offset r"
    "seg h (xs @ [l]) (rm_first_offset r) (rm_last_offset r) bs" "hd (xs @ [l]) = f" "rm_total r = length bs" "heap_ok (add_mset f R) h"
    using appendableE [OF a] l by (metis option.inject)
  define h' where "h' = ?h1\<lparr>parts := (parts h)(?n \<mapsto> ?fp, l \<mapsto> ml\<lparr>mp_next := Some ?n\<rparr>)\<rparr>"
  have none: "parts h ?n = None" using ad by (simp add: added_def)
  have ln: "l \<noteq> ?n" using none e(2) by auto
  have l1: "parts ?h1 l = Some ml" and n1: "parts ?h1 ?n = Some ?fp" using e(2) ln by simp_all
  have ok1: "heap_ok (add_mset ?n (add_mset f R)) ?h1" using ok e(1) by simp
  have "(?n, l) \<notin> (links ?h1)\<^sup>*" using terminal_reach [OF n1, of l] ln by auto
  note lf = link_fresh_ok [OF ok1 l1 e(3) this]
  have h': "?h1\<lparr>parts := (parts ?h1)(l \<mapsto> ml\<lparr>mp_next := Some ?n\<rparr>)\<rparr> = h'" by (simp add: h'_def)
  note lf = lf [unfolded h']
  have hx: "hext (dom (parts h)) h h'"
    unfolding hext_def
  proof
    fix x assume "x \<in> dom (parts h)"
    then obtain mx where mx: "parts h x = Some mx" by auto
    obtain d where d: "bdata h (mp_part mx) = Some d" using data_okD(4) [OF heap_okD(2) [OF e(8)] mx] by (auto simp: part_in_buffer_iff)
    have "bdata h' (mp_part mx) = Some d" using ad mx d lf(3) by (simp add: added_def)
    moreover have "x \<noteq> ?n" using none mx by auto
    ultimately show "\<exists>mp d mp' d'. part_at h x mp d \<and> part_at h' x mp' d' \<and> ext mp d mp' d'"
      using mx d e(2,3) by (cases "x = l") (auto simp: part_at_def h'_def ext_def)
  qed
  have sub: "set (xs @ [l]) \<subseteq> dom (parts h)" using seg_part [OF e(5)] by (auto simp: part_at_def)
  have s1: "seg h' (xs @ [l]) (rm_first_offset r) (rm_last_offset r) bs"
    using seg_hext [OF hext_subset [OF hx sub] e(5)] by simp
  have "part_at h' ?n ?fp (overwrite 0 ds (replicate (ptr_size p' b) 0))"
    unfolding part_at_def lf(3) using ln by (simp add: h'_def)
  from seg_last [OF this, of 0 "length ds"] have "seg h' [?n] 0 (length ds) (slice 0 (length ds) (overwrite 0 ds (replicate (ptr_size p' b) 0)))" by simp
  then have s2: "seg h' [?n] 0 (length ds) ds" using overwrite_slice [of 0 ds] fits by simp
  have s3: "seg h' (xs @ l # [?n]) (rm_first_offset r) (length ds) (bs @ ds)"
    by (rule seg_append [OF s1, of "ml\<lparr>mp_next := Some ?n\<rparr>" ?n ?fp]) (use ln e(4) s2 in \<open>simp_all add: h'_def\<close>)
  let ?r = "r\<lparr>rm_last := Some ?n, rm_total := rm_total r + length ds, rm_last_offset := length ds\<rparr>"
  have hd: "hd (xs @ l # [?n]) = f" using e(6) by (cases xs) auto
  have "denotes h' ?r (bs @ ds)" using s3 hd e(1,7) by (auto simp: denotes_def intro!: exI [of _ "xs @ l # [?n]"])
  moreover have "closed h' ?r" using ln by (simp add: closed_def h'_def)
  ultimately have ap: "appendable R h' ?r (bs @ ds)" using lf(1) e(1) by (simp add: appendable_def)
  have lk: "locks h' = locks h" using lf(4) added_locks [OF ad] by simp
  have "dom (parts h) \<subseteq> dom (parts h')" by (auto simp: h'_def)
  with e(2) h'_def ap hx lk show ?thesis by (rule that)
qed


lemma appendable_denotes: "appendable R h r bs \<Longrightarrow> rm_total r = length bs"
  by (simp add: appendable_def denotes_def)

lemma write_buf_with_part:
  assumes "h1 = h\<lparr>pool := p', bufs := (bufs h)(b \<mapsto> \<lparr>buf_refcnt = 1, buf_data = replicate (ptr_size p' b) 0\<rparr>)\<rparr>"
    "off + length ds \<le> ptr_size p' b"
  shows "write_buf b off ds (h1\<lparr>next_part := next_part h + 1, parts := P\<rparr>) = Some ((with_part p' b off ds mp h)\<lparr>parts := P\<rparr>)"
    "buffer_room b h1 = Some (ptr_size p' b)"
  using assms(2) unfolding assms(1) by (simp_all add: write_buf_def with_part_def buffer_room_def)

text \<open>The loop ends; it adds a prefix of the bytes, all of them unless there are no more buffers.\<close>

definition pushed :: "nat multiset \<Rightarrow> msg_heap \<Rightarrow> raw_message \<Rightarrow> bytes \<Rightarrow> bytes \<Rightarrow> nat \<Rightarrow> nat \<Rightarrow> nat \<Rightarrow> raw_message \<Rightarrow> msg_heap \<Rightarrow> bool" where
  "pushed R h r bs ds small std k r' h' \<longleftrightarrow> k \<le> length ds \<and> appendable R h' r' (bs @ take k ds) \<and> hext (dom (parts h)) h h' \<and>
     locks h' = locks h \<and> dom (parts h) \<subseteq> dom (parts h') \<and>
     (k < length ds \<longrightarrow> out_of_buffers small (pool h') \<or> out_of_buffers std (pool h'))"

lemma pushed_trans:
  assumes "appendable R h r bs" "hext (dom (parts h)) h h1" "locks h1 = locks h" "dom (parts h) \<subseteq> dom (parts h1)"
    "pushed R h1 r1 (bs @ take n ds) (drop n ds) small std k r' h'" "n \<le> length ds"
  shows "pushed R h r bs ds small std (n + k) r' h'"
proof -
  note p = assms(5) [unfolded pushed_def]
  have "hext (dom (parts h)) h h'" using p assms(4) by (intro hext_trans [OF assms(2) hext_subset]) auto
  moreover have "take (n + k) ds = take n ds @ take k (drop n ds)" by (rule take_add)
  moreover have "dom (parts h) \<subseteq> dom (parts h')" using p assms(4) by (blast intro: order_trans)
  moreover have "n + k \<le> length ds" "n + k < length ds \<Longrightarrow> k < length (drop n ds)" using conjunct1 [OF p] assms(6) by simp_all
  ultimately show ?thesis unfolding pushed_def using p assms(3) by (intro conjI) simp_all
qed

lemma push_parts_ok:
  "appendable R h r bs \<Longrightarrow> rm_last r = Some l \<Longrightarrow>
   \<exists>k r' h'. push_parts small std l ds res r h = Some (res + k, r', h') \<and> pushed R h r bs ds small std k r' h'"
proof (induction "length ds" arbitrary: ds res r h bs l rule: less_induct)
  case less
  obtain f xs ml where e: "rm_first r = Some f" "parts h l = Some ml" "heap_ok (add_mset f R) h"
    using appendableE [OF less.prems(1)] less.prems(2) by (metis option.inject)
  have refl: "hext (dom (parts h)) h h" by (rule same_hext [OF same_refl heap_okD(2) [OF e(3)]]) simp
  let ?hint = "if rm_total r + length ds \<ge> std then std else small"
  show ?case
  proof (cases "ds = []")
    case True
    then show ?thesis using less.prems refl
      by (intro exI [of _ 0] exI [of _ r] exI [of _ h]) (simp add: push_parts.simps pushed_def)
  next
    case False
    have ok: "heap_ok (R + root (rm_first r)) h" using e by simp
    have nb: "b \<in> dom (bufs h)" if "Some (mp_part ml) = Some b" for b
      using data_okD(5) [OF heap_okD(2) [OF ok] e(2)] that by auto
    show ?thesis
    proof (rule new_data_part_ok [OF ok, of "Some (mp_part ml)" ?hint])
      show "b \<in> dom (bufs h)" if "Some (mp_part ml) = Some b" for b by (rule nb [OF that])
    next
      assume 1: "new_buffer (Some (mp_part ml)) ?hint h = Some (None, h)" "out_of_buffers ?hint (pool h)"
      then have "push_parts small std l ds res r h = Some (res, r, h)" using False e(2) by (subst push_parts.simps) simp
      moreover have "pushed R h r bs ds small std 0 r h" using less.prems(1) refl 1(2) by (auto simp: pushed_def split: if_splits)
      ultimately show ?thesis by (intro exI [of _ 0] exI [of _ r] exI [of _ h]) simp
    next
      fix b p' h1
      assume 2: "new_buffer (Some (mp_part ml)) ?hint h = Some (Some b, h1)"
        "h1 = h\<lparr>pool := p', bufs := (bufs h)(b \<mapsto> \<lparr>buf_refcnt = 1, buf_data = replicate (ptr_size p' b) 0\<rparr>)\<rparr>"
        "0 < ptr_size p' b" "?hint \<le> 262144 \<longrightarrow> ?hint \<le> ptr_size p' b"
        "\<forall>off bs e. off + length bs \<le> ptr_size p' b \<longrightarrow> e = off + length bs \<longrightarrow>
           heap_ok (add_mset (next_part h) (R + root (rm_first r))) (with_part p' b off bs (fresh_part b None off e) h) \<and>
           added (next_part h) (fresh_part b None off e) h (with_part p' b off bs (fresh_part b None off e) h) \<and>
           links (with_part p' b off bs (fresh_part b None off e) h) = links h"
      define n where "n = min (ptr_size p' b) (length ds)"
      have n: "0 < n" "n \<le> length ds" "n \<le> ptr_size p' b" "length (take n ds) = n" using 2(3) False by (auto simp: n_def)
      note w = 2(5) [rule_format, of 0 "take n ds" n]
      let ?n = "next_part h" and ?fp = "fresh_part b None 0 n"
      have w': "heap_ok (add_mset ?n (R + root (rm_first r))) (with_part p' b 0 (take n ds) (fresh_part b None 0 (length (take n ds))) h)"
        "added ?n (fresh_part b None 0 (length (take n ds))) h (with_part p' b 0 (take n ds) (fresh_part b None 0 (length (take n ds))) h)"
        "length (take n ds) \<le> ptr_size p' b"
        using w n unfolding n(4) by simp_all
      obtain ml' h2 where p: "parts h l = Some ml'" "h2 = (with_part p' b 0 (take n ds) (fresh_part b None 0 (length (take n ds))) h)
          \<lparr>parts := (parts h)(?n \<mapsto> fresh_part b None 0 (length (take n ds)), l \<mapsto> ml'\<lparr>mp_next := Some ?n\<rparr>)\<rparr>"
        "appendable R h2 (r\<lparr>rm_last := Some ?n, rm_total := rm_total r + length (take n ds), rm_last_offset := length (take n ds)\<rparr>) (bs @ take n ds)"
        "hext (dom (parts h)) h h2" "locks h2 = locks h" "dom (parts h) \<subseteq> dom (parts h2)"
        by (rule push_part_ok [OF less.prems w'])
      note p = p [unfolded n(4)]
      let ?r = "r\<lparr>rm_last := Some ?n, rm_total := rm_total r + n, rm_last_offset := n\<rparr>"
      have "ml' = ml" using p(1) e(2) by simp
      note wb = write_buf_with_part [OF 2(2), of 0 "take n ds", unfolded n(4) add_0, OF n(3)]
      have ln: "l \<noteq> ?n" using w'(2) e(2) by (auto simp: added_def)
      have h1: "next_part h1 = ?n" "parts h1 = parts h" unfolding 2(2) by simp_all
      have up: "upd_part l (\<lambda>m. m\<lparr>mp_next := Some ?n\<rparr>) (h1\<lparr>next_part := ?n + 1, parts := (parts h)(?n \<mapsto> ?fp)\<rparr>) =
          Some (h1\<lparr>next_part := ?n + 1, parts := (parts h)(?n \<mapsto> ?fp, l \<mapsto> ml\<lparr>mp_next := Some ?n\<rparr>)\<rparr>)"
        using e(2) ln by (simp add: upd_part_def)
      have "push_parts small std l ds res r h = push_parts small std ?n (drop n ds) (res + n) ?r h2"
        using False e(2) 2(1) wb(2)
        by (subst push_parts.simps) (simp add: Let_def new_msg_part_eq h1 n_def [symmetric] up [unfolded Suc_eq_plus1 [symmetric]] wb(1) [where mp = ?fp, unfolded Suc_eq_plus1 [symmetric]] p(2) \<open>ml' = ml\<close>)
      moreover obtain k r' h' where "push_parts small std ?n (drop n ds) (res + n) ?r h2 = Some (res + n + k, r', h')"
        "pushed R h2 ?r (bs @ take n ds) (drop n ds) small std k r' h'"
        using less.hyps [OF _ p(3), of "drop n ds" ?n "res + n"] n False by auto
      moreover from this have "pushed R h r bs ds small std (n + k) r' h'"
        using pushed_trans [OF less.prems(1) p(4-6) _ n(2)] by blast
      ultimately show ?thesis by (intro exI [of _ "n + k"] exI [of _ r'] exI [of _ h']) simp
    qed
  qed
qed

subsection \<open>Appending bytes\<close>

text \<open>Room that is left in the last buffer is used, if no other part uses this buffer.\<close>

lemma fill_last_ok:
  assumes a: "appendable R h r bs" and l: "rm_last r = Some l" and ml: "parts h l = Some ml" and mb: "bufs h (mp_part ml) = Some mb"
    and n: "n = (if buf_refcnt mb = 1 then min (length (buf_data mb) - rm_last_offset r) (length ds) else 0)"
  obtains h1 h2 where "write_buf (mp_part ml) (rm_last_offset r) (take n ds) h = Some h1"
    "upd_part l (\<lambda>m. m\<lparr>mp_data_end := mp_data_end m + n\<rparr>) h1 = Some h2"
    "appendable R h2 (r\<lparr>rm_total := rm_total r + n, rm_last_offset := rm_last_offset r + n\<rparr>) (bs @ take n ds)"
    "hext (dom (parts h)) h h2" "locks h2 = locks h" "dom (parts h2) = dom (parts h)" "n \<le> length ds" "rm_last_offset r = mp_data_end ml" "mp_next ml = None"
proof -
  let ?lo = "rm_last_offset r" and ?b = "mp_part ml" and ?ml = "ml\<lparr>mp_data_end := mp_data_end ml + n\<rparr>"
  obtain f xs where e: "rm_first r = Some f" "mp_next ml = None" "mp_data_end ml = ?lo"
    "seg h (xs @ [l]) (rm_first_offset r) ?lo bs" "hd (xs @ [l]) = f" "rm_total r = length bs" "heap_ok (add_mset f R) h"
    using appendableE [OF a] l ml by (metis option.inject)
  note D = data_okD [OF heap_okD(2) [OF e(7)]]
  have in_buf: "mp_offset ml \<le> ?lo" "?lo \<le> length (buf_data mb)" using D(4) [OF ml] mb e(3) by (auto simp: part_in_buffer_def)
  have nle: "n \<le> length ds" "?lo + length (take n ds) \<le> length (buf_data mb)" "length (take n ds) = n" using n in_buf(2) by auto
  let ?d = "overwrite ?lo (take n ds) (buf_data mb)"
  define h1 where "h1 = h\<lparr>bufs := (bufs h)(?b \<mapsto> mb\<lparr>buf_data := ?d\<rparr>)\<rparr>"
  define h2 where "h2 = h1\<lparr>parts := (parts h)(l \<mapsto> ?ml)\<rparr>"
  have w1: "write_buf ?b ?lo (take n ds) h = Some h1" using mb nle(2) by (simp add: write_buf_def h1_def)
  have w2: "upd_part l (\<lambda>m. m\<lparr>mp_data_end := mp_data_end m + n\<rparr>) h1 = Some h2" using ml by (simp add: upd_part_def h1_def h2_def)
  have "data_ok h1" unfolding h1_def by (rule data_ok_write [OF heap_okD(2) [OF e(7)] mb]) (rule overwrite_length [OF nle(2)])
  moreover have "parts h1 = parts h" by (simp add: h1_def)
  moreover have "part_in_buffer h1 ?ml" using in_buf nle e(3) by (simp add: part_in_buffer_def h1_def)
  ultimately have "data_ok h2" using data_ok_upd [of h1 l ml ?ml] ml by (simp add: h2_def)
  moreover have "refs_ok (add_mset f R) h2"
    using refs_ok_heap [OF refs_ok_upd [OF heap_okD(1) [OF e(7)] ml, of ?ml], of h2] by (simp add: h2_def h1_def)
  ultimately have ok2: "heap_ok (add_mset f R) h2" by (simp add: heap_ok_def)
  have others: "n = 0 \<or> mp_part mx \<noteq> ?b" if "parts h x = Some mx" "x \<noteq> l" for x mx
  proof (cases "n = 0")
    case False
    then have "buf_refcnt mb = 1" using n by (auto split: if_splits)
    then have "card (users h ?b) = 1" using D(3) [OF mb] by (simp add: buf_counted_def)
    then obtain y where "users h ?b = {y}" by (auto simp: card_1_singleton_iff)
    moreover have "l \<in> users h ?b" using ml by (simp add: users_def)
    ultimately show ?thesis using that by (auto simp: users_def)
  qed simp
  have d0: "n = 0 \<Longrightarrow> ?d = buf_data mb" by (simp add: overwrite_def)
  have hx: "hext (dom (parts h)) h h2"
    unfolding hext_def
  proof
    fix x assume "x \<in> dom (parts h)"
    then obtain mx where mx: "parts h x = Some mx" by auto
    obtain d where d: "bdata h (mp_part mx) = Some d" using D(4) [OF mx] by (auto simp: part_in_buffer_iff)
    show "\<exists>mp d mp' d'. part_at h x mp d \<and> part_at h2 x mp' d' \<and> ext mp d mp' d'"
    proof (cases "x = l")
      case True
      then have "mx = ml" "d = buf_data mb" using mx ml d mb by (simp_all add: bdata_def)
      moreover have "slice (mp_offset ml) ?lo ?d = slice (mp_offset ml) ?lo (buf_data mb)"
        using in_buf(2) by (intro overwrite_slice_before) simp_all
      ultimately show ?thesis using True mx d e(2,3)
        by (intro exI [of _ ml] exI [of _ d] exI [of _ ?ml] exI [of _ ?d]) (simp add: part_at_def h2_def h1_def bdata_def ext_def)
    next
      case False
      have "bdata h2 (mp_part mx) = bdata h (mp_part mx)"
        using others [OF mx False] d0 mb by (cases "mp_part mx = ?b") (auto simp: bdata_def h2_def h1_def)
      then show ?thesis using False mx d
        by (intro exI [of _ mx] exI [of _ d] exI [of _ mx] exI [of _ d]) (simp add: part_at_def h2_def)
    qed
  qed
  have sub: "set (xs @ [l]) \<subseteq> dom (parts h)" using seg_part [OF e(4)] by (auto simp: part_at_def)
  have pl: "part_at h2 l ?ml ?d" by (simp add: part_at_def h2_def h1_def bdata_def)
  have "slice ?lo (?lo + n) ?d = take n ds" using overwrite_slice [OF nle(2)] nle(3) by simp
  then have sg: "seg h2 (xs @ [l]) (rm_first_offset r) (?lo + n) (bs @ take n ds)"
    using seg_grow [OF e(4) hext_subset [OF hx sub] pl, of "?lo + n"] e(3) by simp
  let ?r = "r\<lparr>rm_total := rm_total r + n, rm_last_offset := ?lo + n\<rparr>"
  have "denotes h2 ?r (bs @ take n ds)" using sg e(1,5,6) l nle(3) by (auto simp: denotes_def intro!: exI [of _ "xs @ [l]"])
  moreover have "closed h2 ?r" using l e(2,3) by (simp add: closed_def h2_def)
  ultimately have "appendable R h2 ?r (bs @ take n ds)" using ok2 e(1) by (simp add: appendable_def)
  moreover have "locks h2 = locks h" using ml by (auto simp: locks_def h2_def h1_def split: if_splits)
  moreover have "dom (parts h2) = dom (parts h)" using ml by (auto simp: h2_def)
  ultimately show ?thesis using w1 w2 hx nle(1) e(2,3) by (intro that [of h1 h2]) simp_all
qed

text \<open>The first part of an empty message.\<close>

lemma first_part_ok:
  assumes ok: "heap_ok R h"
    and new: "heap_ok (add_mset (next_part h) R) (with_part p' b off ds (fresh_part b None off e) h)"
      "added (next_part h) (fresh_part b None off e) h (with_part p' b off ds (fresh_part b None off e) h)"
    and fits: "off + length ds \<le> ptr_size p' b" "e = off + length ds"
  defines "h' \<equiv> with_part p' b off ds (fresh_part b None off e) h"
  shows "appendable R h' \<lparr>rm_first = Some (next_part h), rm_last = Some (next_part h), rm_total = length ds, rm_first_offset = off, rm_last_offset = e\<rparr> ds"
    "hext (dom (parts h)) h h'" "locks h' = locks h" "dom (parts h) \<subseteq> dom (parts h')"
proof -
  let ?n = "next_part h" and ?fp = "fresh_part b None off e"
  have "part_at h' ?n ?fp (overwrite off ds (replicate (ptr_size p' b) 0))" by (simp add: part_at_def h'_def)
  from seg_last [OF this, of off e] have "seg h' [?n] off e ds" using overwrite_slice [of off ds] fits by simp
  then show "appendable R h' \<lparr>rm_first = Some ?n, rm_last = Some ?n, rm_total = length ds, rm_first_offset = off, rm_last_offset = e\<rparr> ds"
    using new(1) by (auto simp: appendable_def denotes_def closed_def h'_def intro!: exI [of _ "[?n]"])
  show "hext (dom (parts h)) h h'" unfolding h'_def by (rule added_hext [OF new(2) heap_okD(2) [OF ok]])
  show "locks h' = locks h" unfolding h'_def by (rule added_locks [OF new(2)]) simp
qed (auto simp: h'_def)

lemma unlock_ok:
  assumes "appendable R h r bs" "set_option lk \<subseteq> dom (parts h)"
  obtains h' where "unlock_part lk h = Some h'" "appendable R h' r bs" "hext (dom (parts h)) h h'" "locks h' = locks h - set_option lk"
    "pool h' = pool h"
proof (cases lk)
  case None
  have "heap_ok (R + root (rm_first r)) h" using assms(1) by (simp add: appendable_def)
  then have "hext (dom (parts h)) h h" by (intro same_hext [OF same_refl heap_okD(2)]) simp_all
  then show ?thesis using None assms(1) by (intro that [of h]) (simp_all add: unlock_part_def)
next
  case (Some l)
  then obtain ml where ml: "parts h l = Some ml" using assms(2) by auto
  obtain f where f: "rm_first r = Some f" and ok: "heap_ok (add_mset f R) h" and d: "denotes h r bs" and c: "closed h r"
    using assms(1) by (auto simp: appendable_def)
  define h' where "h' = h\<lparr>parts := (parts h)(l \<mapsto> ml\<lparr>mp_locked := False\<rparr>)\<rparr>"
  note sl = set_locked_ok [OF ok ml, of False, folded h'_def]
  have hx: "hext (dom (parts h)) h h'" by (rule same_hext [OF sl(2) heap_okD(2) [OF ok]])
  have "reach h (add_mset f R) \<subseteq> dom (parts h)" using reach_dom [OF heap_okD(1) [OF ok]] by auto
  then have "denotes h' r bs" using denotes_hext [OF d hext_subset [OF hx]] f by simp
  moreover have "closed h' r" using c ml by (auto simp: closed_def h'_def)
  ultimately have "appendable R h' r bs" using sl(1) f by (simp add: appendable_def)
  moreover have "unlock_part lk h = Some h'" using sl(6) Some by (simp add: unlock_part_def)
  moreover have "pool h' = pool h" by (simp add: h'_def)
  ultimately show ?thesis using hx sl(3) Some by (intro that [of h']) simp_all
qed

definition push_params :: "nat \<Rightarrow> nat \<Rightarrow> nat \<Rightarrow> bool" where
  "push_params prepend small std \<longleftrightarrow> prepend \<le> std \<and> small \<le> 262144 \<and> std \<le> 262144"

text \<open>Appending to a message that has parts.\<close>

lemma push_more_ok:
  assumes v: "view R h r bs" and f: "rm_first r = Some f" and ne: "ds \<noteq> []"
  obtains k r' h' where "rwm_push_data_ext r ds prepend small std h = Some (k, r', h')" "k \<le> length ds" "view R h' r' (bs @ take k ds)" "framed R h h'"
    "k < length ds \<longrightarrow> out_of_buffers small (pool h') \<or> out_of_buffers std (pool h')" "closed h' r'"
proof -
  have lk: "locks h \<subseteq> reach h R" using v by (simp add: view_def)
  obtain lp r1 h1 where l: "rwm_lock_last_part r h = Some (lp, r1, h1)" "prepared R h r bs lp h1 r1" by (rule lock_last_ok [OF v f])
  note P = l(2) [unfolded prepared_def]
  have a: "appendable R h1 r1 bs" using P by (simp add: appendable_def)
  obtain f1 xs x mx where e: "rm_first r1 = Some f1" "rm_last r1 = Some x" "parts h1 x = Some mx" "mp_next mx = None" "mp_data_end mx = rm_last_offset r1"
    "seg h1 (xs @ [x]) (rm_first_offset r1) (rm_last_offset r1) bs" "hd (xs @ [x]) = f1" "rm_total r1 = length bs" "heap_ok (add_mset f1 R) h1"
    by (rule appendableE [OF a])
  obtain mb where mb: "bufs h1 (mp_part mx) = Some mb" using data_okD(5) [OF heap_okD(2) [OF e(9)] e(3)] by blast
  define n where "n = (if buf_refcnt mb = 1 then min (length (buf_data mb) - rm_last_offset r1) (length ds) else 0)"
  obtain h2 h3 where w: "write_buf (mp_part mx) (rm_last_offset r1) (take n ds) h1 = Some h2"
    "upd_part x (\<lambda>m. m\<lparr>mp_data_end := mp_data_end m + n\<rparr>) h2 = Some h3"
    "appendable R h3 (r1\<lparr>rm_total := rm_total r1 + n, rm_last_offset := rm_last_offset r1 + n\<rparr>) (bs @ take n ds)"
    "hext (dom (parts h1)) h1 h3" "locks h3 = locks h1" "dom (parts h3) = dom (parts h1)" "n \<le> length ds"
    by (rule fill_last_ok [OF a e(2,3) mb n_def])
  let ?r = "r1\<lparr>rm_total := rm_total r1 + n, rm_last_offset := rm_last_offset r1 + n\<rparr>"
  have "\<exists>k r' h'. push_parts small std x (drop n ds) n ?r h3 = Some (n + k, r', h') \<and> pushed R h3 ?r (bs @ take n ds) (drop n ds) small std k r' h'"
    by (rule push_parts_ok [OF w(3)]) (simp add: e(2))
  then obtain k r' h4 where p: "push_parts small std x (drop n ds) n ?r h3 = Some (n + k, r', h4)"
    "pushed R h3 ?r (bs @ take n ds) (drop n ds) small std k r' h4" by blast
  have "pushed R h1 r1 bs ds small std (n + k) r' h4" by (rule pushed_trans [OF a w(4,5) _ p(2) w(7)]) (simp add: w(6))
  note Q = this [unfolded pushed_def]
  have "set_option lp \<subseteq> dom (parts h1)" using P by (cases lp) (auto simp: locks_def)
  then have lp: "set_option lp \<subseteq> dom (parts h4)" using Q by (blast intro: order_trans)
  have "appendable R h4 r' (bs @ take (n + k) ds)" using Q by blast
  from unlock_ok [OF this lp] obtain h5 where u: "unlock_part lp h4 = Some h5" "appendable R h5 r' (bs @ take (n + k) ds)" "hext (dom (parts h4)) h4 h5"
    "locks h5 = locks h4 - set_option lp" "pool h5 = pool h4" .
  have ev: "rwm_push_data_ext r ds prepend small std h = Some (n + k, r', h5)"
    using ne f l(1) e(2-5) mb w(1,2) p(1) u(1) unfolding n_def
    by (cases "buf_refcnt mb = 1") (simp_all add: rwm_push_data_ext_def Let_def)
  have sub: "reach h R \<subseteq> dom (parts h1)" using P by (auto simp: same_def)
  have "framed R h h5"
  proof -
    have d4: "dom (parts h1) \<subseteq> dom (parts h4)" using Q by blast
    have "hext (dom (parts h1)) h1 h4" using Q by blast
    then have "hext (dom (parts h1)) h1 h5" by (rule hext_trans [OF _ hext_subset [OF u(3) d4]])
    moreover have "hext (reach h R) h h1" using P same_hext v by (auto simp: view_def heap_ok_def)
    ultimately have "hext (reach h R) h h5" by (blast intro: hext_trans hext_subset [OF _ sub])
    moreover have "locks h5 \<subseteq> locks h" using u(4) Q P by auto
    ultimately show ?thesis by (simp add: framed_def)
  qed
  moreover from framed_locks [OF this lk] have "view R h5 r' (bs @ take (n + k) ds)" using u(2) by (simp add: view_def appendable_def)
  moreover have "closed h5 r'" using u(2) by (simp add: appendable_def)
  ultimately show ?thesis using ev Q u(5) by (intro that [of "n + k" r' h5]) simp_all
qed

text \<open>Appending to an empty message.\<close>

lemma with_part_id [simp]: "(with_part p' b off bs mp h)\<lparr>parts := (parts h)(next_part h \<mapsto> mp)\<rparr> = with_part p' b off bs mp h"
  by (simp add: with_part_def)

lemma push_first_ok:
  assumes v: "view R h r []" and f: "rm_first r = None" and ne: "ds \<noteq> []" and pp: "push_params prepend small std"
  obtains k r' h' where "rwm_push_data_ext r ds prepend small std h = Some (k, r', h')" "k \<le> length ds" "view R h' r' (take k ds)" "framed R h h'"
    "k < length ds \<longrightarrow> out_of_buffers small (pool h') \<or> out_of_buffers std (pool h')"
    "prepend + length ds < small \<longrightarrow> \<not> out_of_buffers small (pool h) \<longrightarrow> k = length ds"
proof -
  have ok: "heap_ok R h" and lk: "locks h \<subseteq> reach h R" using v f by (simp_all add: view_def)
  have sub: "reach h R \<subseteq> dom (parts h)" using reach_dom [OF heap_okD(1) [OF ok]] by auto
  have still: "framed R h h" using same_hext [OF same_refl [OF sub] heap_okD(2) [OF ok]] by (simp add: framed_def)
  let ?hint = "if int (length ds) \<ge> int small - int prepend then std else small"
  let ?off = "if length ds \<le> std \<and> prepend > std - length ds then std - length ds else prepend"
  show ?thesis
  proof (rule new_data_part_ok [OF ok, of None ?hint])
    assume 1: "new_buffer None ?hint h = Some (None, h)" "out_of_buffers ?hint (pool h)"
    then have "rwm_push_data_ext r ds prepend small std h = Some (0, r, h)" using ne f by (simp add: rwm_push_data_ext_def)
    then show thesis by (rule that) (use v still 1(2) in \<open>auto split: if_splits\<close>)
  next
    fix b p' h1
    assume 2: "new_buffer None ?hint h = Some (Some b, h1)"
      "h1 = h\<lparr>pool := p', bufs := (bufs h)(b \<mapsto> \<lparr>buf_refcnt = 1, buf_data = replicate (ptr_size p' b) 0\<rparr>)\<rparr>"
      "0 < ptr_size p' b" "?hint \<le> 262144 \<longrightarrow> ?hint \<le> ptr_size p' b"
      "\<forall>off bs e. off + length bs \<le> ptr_size p' b \<longrightarrow> e = off + length bs \<longrightarrow>
         heap_ok (add_mset (next_part h) R) (with_part p' b off bs (fresh_part b None off e) h) \<and>
         added (next_part h) (fresh_part b None off e) h (with_part p' b off bs (fresh_part b None off e) h) \<and>
         links (with_part p' b off bs (fresh_part b None off e) h) = links h"
    have room: "?hint \<le> ptr_size p' b" using 2(4) pp by (auto simp: push_params_def)
    have off: "?off \<le> ptr_size p' b" using room pp by (auto simp: push_params_def split: if_splits)
    define off where "off = ?off"
    define n where "n = min (ptr_size p' b - off) (length ds)"
    have n: "n \<le> length ds" "length (take n ds) = n" "off + length (take n ds) \<le> ptr_size p' b" using \<open>?off \<le> _\<close> by (auto simp: n_def off_def)
    let ?n = "next_part h" and ?fp = "fresh_part b None off (off + n)"
    let ?h = "with_part p' b off (take n ds) ?fp h"
    let ?r = "\<lparr>rm_first = Some ?n, rm_last = Some ?n, rm_total = length (take n ds), rm_first_offset = off, rm_last_offset = off + n\<rparr>"
    note w0 = 2(5) [rule_format, OF n(3) refl, unfolded n(2)]
    have w: "heap_ok (add_mset ?n R) ?h" "added ?n ?fp h ?h" using w0 by (rule conjunct1, blast)
    note fp = first_part_ok [OF ok w n(3), unfolded n(2), OF refl]
    have a: "appendable R ?h ?r (take n ds)" using fp(1) n(2) by simp
    have "\<exists>k r' h'. push_parts small std ?n (drop n ds) n ?r ?h = Some (n + k, r', h') \<and> pushed R ?h ?r (take n ds) (drop n ds) small std k r' h'"
      by (rule push_parts_ok [OF a]) simp
    then obtain k r' h' where p: "push_parts small std ?n (drop n ds) n ?r ?h = Some (n + k, r', h')"
      "pushed R ?h ?r (take n ds) (drop n ds) small std k r' h'" by blast
    note Q = p(2) [unfolded pushed_def]
    have hx: "hext (dom (parts h)) h h'" using Q by (intro hext_trans [OF fp(2) hext_subset [OF _ fp(4)]]) blast
    have fr: "framed R h h'" using hext_subset [OF hx sub] Q fp(3) by (simp add: framed_def)
    have tk: "take n ds @ take k (drop n ds) = take (n + k) ds" by (simp add: take_add)
    have vw: "view R h' r' (take (n + k) ds)" using framed_locks [OF fr lk] Q tk by (simp add: view_def appendable_def)
    have h1: "next_part h1 = ?n" "parts h1 = parts h" unfolding 2(2) by simp_all
    note wb = write_buf_with_part [OF 2(2) n(3)]
    have off: "\<not> off > ptr_size p' b" using off by (simp add: off_def)
    have req: "r\<lparr>rm_first := Some ?n, rm_last := Some ?n, rm_first_offset := off, rm_total := n, rm_last_offset := off + n\<rparr> = ?r"
      using n(2) by simp
    have "rwm_push_data_ext r ds prepend small std h = do {
        size \<leftarrow> buffer_room b h1;
        if off > size then None
        else do {
          let n = min (size - off) (length ds);
          let (p, h) = new_msg_part b None off (off + n) h1;
          h \<leftarrow> write_buf b off (take n ds) h;
          let raw = r\<lparr>rm_first := Some p, rm_last := Some p, rm_first_offset := off, rm_total := n, rm_last_offset := off + n\<rparr>;
          push_parts small std p (drop n ds) n raw h
        } }"
      unfolding rwm_push_data_ext_def off_def using ne f 2(1) by (simp add: Let_def)
    also have "\<dots> = push_parts small std ?n (drop n ds) n ?r ?h"
      unfolding wb(2) new_msg_part_eq h1 using off req
      by (simp add: Let_def n_def [symmetric] wb(1) [where mp = ?fp, unfolded Suc_eq_plus1 [symmetric]])
    finally have ev: "rwm_push_data_ext r ds prepend small std h = Some (n + k, r', h')" unfolding p(1) .
    have le: "n + k \<le> length ds" "n + k < length ds \<Longrightarrow> k < length (drop n ds)" using conjunct1 [OF Q] n(1) by simp_all
    have full: "n = length ds" if "prepend + length ds < small"
    proof -
      have "?hint = small" "off \<le> prepend" using that by (auto simp: off_def)
      then show ?thesis using that room by (simp add: n_def)
    qed
    show thesis using ev vw fr Q le full by (intro that [of "n + k" r' h']) auto
  qed simp
qed


lemma reach_parts:
  assumes "heap_ok (R + S) h"
  shows "reach h R \<subseteq> dom (parts h)"
proof
  fix x assume "x \<in> reach h R"
  then have "x \<in> reach h (R + S)" using reach_add(2) [of h R S] by auto
  then show "x \<in> dom (parts h)" using reach_dom [OF heap_okD(1) [OF assms]] by blast
qed

lemma view_still:
  assumes "view R h r bs"
  shows "framed R h h"
proof -
  have ok: "heap_ok (R + root (rm_first r)) h" using assms by (simp add: view_def)
  have "hext (reach h R) h h" by (rule same_hext [OF same_refl [OF reach_parts [OF ok]] heap_okD(2) [OF ok]])
  then show ?thesis by (simp add: framed_def)
qed

lemma push_ext_ok:
  assumes v: "view R h r bs" and pp: "push_params prepend small std"
  obtains k r' h' where "rwm_push_data_ext r ds prepend small std h = Some (k, r', h')" "k \<le> length ds" "view R h' r' (bs @ take k ds)"
    "framed R h h'" "k < length ds \<longrightarrow> out_of_buffers small (pool h') \<or> out_of_buffers std (pool h')"
proof (cases "ds = []")
  case True
  then show ?thesis using v view_still [OF v] by (intro that [of 0 r h]) (simp_all add: rwm_push_data_ext_def)
next
  case ne: False
  show ?thesis
  proof (cases "rm_first r")
    case None
    then have "bs = []" using v denotes_None by (auto simp: view_def)
    then show ?thesis using push_first_ok [OF _ None ne pp, of R h] v that by auto
  next
    case (Some f)
    then show ?thesis using push_more_ok [OF v Some ne, of prepend small std] that by auto
  qed
qed

end
