(* ===== verification/Msg_Read.thy ===== *)
theory Msg_Read
  imports Msg_Push
begin

text \<open>Reading a message and removing bytes at its ends.\<close>

subsection \<open>Removing a prefix or a suffix\<close>

definition kept :: "nat multiset \<Rightarrow> msg_heap \<Rightarrow> msg_heap \<Rightarrow> bool" where
  "kept R h h' \<longleftrightarrow> same (reach h R) h h' \<and> locks h' \<subseteq> locks h"

lemma kept_trans: "kept R h h' \<Longrightarrow> kept R h' h'' \<Longrightarrow> kept R h h''"
  using reach_same [of h R h'] by (auto simp: kept_def intro: same_trans)

lemma kept_framed: "kept R h h' \<Longrightarrow> data_ok h \<Longrightarrow> framed R h h'"
  by (simp add: kept_def framed_def same_hext)

lemma kept_locks: "kept R h h' \<Longrightarrow> locks h \<subseteq> reach h R \<Longrightarrow> locks h' \<subseteq> reach h' R"
  using reach_same [of h R h'] by (auto simp: kept_def)

lemma kept_refl: "heap_ok (R + S) h \<Longrightarrow> kept R h h"
  by (simp add: kept_def same_refl reach_parts)

lemma viewI:
  assumes "heap_ok (add_mset f R) h" "seg h ps (rm_first_offset r) (rm_last_offset r) bs" "rm_first r = Some f" "hd ps = f"
    "rm_last r = Some (last ps)" "rm_total r = length bs" "locks h \<subseteq> reach h R"
  shows "view R h r bs"
  using assms by (auto simp: view_def denotes_def)

lemma viewE:
  assumes "view R h r bs" "rm_first r = Some f"
  obtains ps where "heap_ok (add_mset f R) h" "seg h ps (rm_first_offset r) (rm_last_offset r) bs" "ps \<noteq> []" "hd ps = f" "rm_last r = Some (last ps)"
    "rm_total r = length bs" "locks h \<subseteq> reach h R" "distinct ps"
proof -
  from assms have v: "heap_ok (add_mset f R) h" "denotes h r bs" "locks h \<subseteq> reach h R" by (simp_all add: view_def)
  obtain ps where ps: "seg h ps (rm_first_offset r) (rm_last_offset r) bs" "hd ps = f" "rm_last r = Some (last ps)" "ps \<noteq> []"
    by (rule denotesE [OF v(2) assms(2)])
  show ?thesis using v ps seg_distinct [OF ps(1) heap_okD(1) [OF v(1)]] by (intro that [of ps]) (simp_all add: denotes_def)
qed

lemma move_first_ok:
  assumes v: "view R h r bs" and f: "rm_first r = Some f" and s: "seg h (q # zs) off (rm_last_offset r) bs'" "rm_last r = Some (last (q # zs))"
  defines "r' \<equiv> r\<lparr>rm_first := Some q, rm_first_offset := off, rm_total := length bs'\<rparr>"
  obtains h1 h2 where "incref_part q h = Some h1" "msg_part_decref (Some f) h1 = Some h2" "view R h2 r' bs'" "kept R h h2"
proof -
  from v f have ok: "heap_ok (add_mset f R) h" and lk: "locks h \<subseteq> reach h R" by (simp_all add: view_def)
  obtain mq where mq: "parts h q = Some mq" using seg_part [OF s(1), of q] by (auto simp: part_at_def)
  obtain h1 where h1: "incref_part q h = Some h1" "heap_ok (add_mset q (add_mset f R)) h1" "same (dom (parts h)) h h1" "locks h1 = locks h"
    using incref_ok [OF ok mq] by blast
  have sm1: "same (reach h R) h h1" using same_subset [OF h1(3) reach_parts [of R "{#f#}"]] ok by simp
  have "locks h1 \<subseteq> reach h1 (add_mset q R)" using lk h1(4) reach_same [OF sm1] reach_add(1) [of h1 R q] by auto
  moreover have "heap_ok (add_mset q R + root (Some f)) h1" using h1(2) by (simp add: add_mset_commute)
  ultimately obtain h2 where h2: "msg_part_decref (Some f) h1 = Some h2" "heap_ok (add_mset q R) h2" "same (reach h1 (add_mset q R)) h1 h2"
    "framed (add_mset q R) h1 h2" by (metis release_ok)
  have "reach h R \<subseteq> reach h1 (add_mset q R)" using reach_add(1) [of h1 R q] reach_same [OF sm1] by simp
  then have sm2: "same (reach h R) h h2" by (rule same_trans [OF sm1 same_subset [OF h2(3)]])
  have "set (q # zs) \<subseteq> dom (parts h)" using seg_part [OF s(1)] by (auto simp: part_at_def)
  then have s1: "seg h1 (q # zs) off (rm_last_offset r) bs'"
    using seg_hext [OF same_hext [OF h1(3) heap_okD(2) [OF ok]] s(1)] by simp
  have "set (q # zs) \<subseteq> reach h1 (add_mset q R)" using seg_reach [OF s1] by simp
  then have s2: "seg h2 (q # zs) off (rm_last_offset r) bs'"
    using seg_hext [OF same_hext [OF h2(3) heap_okD(2) [OF h1(2)]] s1] by simp
  have k: "kept R h h2" using sm2 h2(4) h1(4) by (simp add: kept_def framed_def)
  have "view R h2 r' bs'"
    by (rule viewI [OF h2(2), of "q # zs"]) (use s2 s(2) kept_locks [OF k lk] in \<open>simp_all add: r'_def\<close>)
  with h1(1) h2(1) show ?thesis using k by (rule that)
qed

text \<open>The end is moved without a change of the heap.\<close>

lemma move_last_ok:
  assumes v: "view R h r bs" and f: "rm_first r = Some f" and s: "seg h (xs @ [q]) (rm_first_offset r) lo bs'" "hd (xs @ [q]) = f"
  shows "view R h (r\<lparr>rm_total := length bs', rm_last := Some q, rm_last_offset := lo\<rparr>) bs'"
  by (rule viewI [of f R h "xs @ [q]"]) (use v f s in \<open>simp_all add: view_def\<close>)

lemma clear_ok:
  assumes v: "view R h r bs"
  obtains h' where "rwm_clear r h = Some (empty_rwm, h')" "view R h' empty_rwm []" "kept R h h'" "msg_part_decref (rm_first r) h = Some h'"
proof -
  from v have ok: "heap_ok (R + root (rm_first r)) h" and lk: "locks h \<subseteq> reach h R" by (simp_all add: view_def)
  obtain h' where h': "msg_part_decref (rm_first r) h = Some h'" "heap_ok R h'" "same (reach h R) h h'" "framed R h h'" by (rule release_ok [OF ok lk])
  then have k: "kept R h h'" by (simp add: kept_def framed_def)
  have "view R h' empty_rwm []" using h'(2) kept_locks [OF k lk] by (simp add: view_def denotes_def empty_rwm_def)
  with h'(1) k show ?thesis by (intro that [of h']) (simp_all add: rwm_clear_def)
qed

text \<open>
  A point inside a message: the bytes before it are those of the parts \<open>xs\<close> and the beginning of the part \<open>q\<close> up to the
  offset \<open>off\<close>.
\<close>

definition point :: "msg_heap \<Rightarrow> raw_message \<Rightarrow> nat list \<Rightarrow> nat \<Rightarrow> nat list \<Rightarrow> nat \<Rightarrow> bytes \<Rightarrow> bytes \<Rightarrow> bool" where
  "point h r xs q zs off bs1 bs2 \<longleftrightarrow> seg h (xs @ [q]) (rm_first_offset r) off bs1 \<and> seg h (q # zs) off (rm_last_offset r) bs2"

lemma seg_cut_here:
  assumes "seg h (q # zs) fo lo bs" "data_ok h" "n \<le> length bs"
    "\<forall>mq. parts h q = Some mq \<longrightarrow> fo + n \<le> (if zs = [] then lo else mp_data_end mq)"
  shows "seg h [q] fo (fo + n) (take n bs) \<and> seg h (q # zs) (fo + n) lo (drop n bs)"
  using assms(1)
proof (cases rule: seg_headE)
  case (1 p mp d)
  then have n: "fo + n \<le> lo" "q = p" "zs = []" using assms(4) by (auto simp: part_at_def)
  have eq: "bs = slice fo (fo + n) d @ slice (fo + n) lo d" using slice_append [of fo "fo + n" lo d] n(1) 1(6) by simp
  have "length (slice fo (fo + n) d) = n" using slice_part_length [OF assms(2) 1(2), of "fo + n" fo] n(1) 1(5) by simp
  then have "take n bs = slice fo (fo + n) d" "drop n bs = slice (fo + n) lo d" unfolding eq by simp_all
  then show ?thesis using 1 n by (auto intro: seg_last [of h p mp d])
next
  case (2 p q' qs mp d mq bs')
  then have n: "fo + n \<le> mp_data_end mp" "q = p" "zs = q' # qs" using assms(4) by (auto simp: part_at_def)
  have eq: "bs = slice fo (fo + n) d @ slice (fo + n) (mp_data_end mp) d @ bs'"
    using slice_append [of fo "fo + n" "mp_data_end mp" d] n(1) 2(8) by simp
  have "length (slice fo (fo + n) d) = n" using slice_part_length [OF assms(2) 2(2), of "fo + n" fo] n(1) by simp
  then have "take n bs = slice fo (fo + n) d" "drop n bs = slice (fo + n) (mp_data_end mp) d @ bs'" unfolding eq by simp_all
  moreover have "seg h (p # q' # qs) (fo + n) lo (slice (fo + n) (mp_data_end mp) d @ bs')"
    using 2 n(1) by (intro seg_cons [of h p mp d _ q' mq]) simp_all
  moreover have "seg h [p] fo (fo + n) (slice fo (fo + n) d)" using 2 n(1) by (intro seg_last [of h p mp d]) simp_all
  ultimately show ?thesis using n(2,3) by simp
qed


lemma seg_prepend:
  assumes "part_at h p mp d" "mp_offset mp \<le> fo" "fo \<le> mp_data_end mp" "mp_next mp = Some q" "parts h q = Some mq"
    "seg h ps (mp_offset mq) lo bs" "hd ps = q"
  shows "seg h (p # ps) fo lo (slice fo (mp_data_end mp) d @ bs)"
proof -
  obtain qs where "ps = q # qs" using assms(6,7) by (cases ps) auto
  then show ?thesis using assms seg_cons by auto
qed

subsection \<open>Finding a place and processing from there\<close>

text \<open>The offset from which the part \<open>p\<close> of a message is used.\<close>

definition start_of :: "msg_heap \<Rightarrow> raw_message \<Rightarrow> nat \<Rightarrow> nat \<Rightarrow> bool" where
  "start_of h r p fo \<longleftrightarrow> (\<exists>mp. parts h p = Some mp \<and> fo = (if Some p = rm_first r then rm_first_offset r else mp_offset mp))"

lemma seek_part_ok:
  assumes "seg h (p # ys) fo (rm_last_offset r) bs" "offset \<le> length bs" "data_ok h" "distinct (p # ys)" "rm_last r = Some (last (p # ys))"
    "start_of h r p fo" "rm_first r \<notin> Some ` set ys"
  shows "\<exists>xs q zs off. p # ys = xs @ q # zs \<and> seek_part p offset ok r h = Some (q, off, ok \<and> (\<forall>x\<in>set (xs @ [q]). owned h x)) \<and>
    seg h (xs @ [q]) fo off (take offset bs) \<and> seg h (q # zs) off (rm_last_offset r) (drop offset bs)"
  using assms
proof (induction ys arbitrary: p fo bs offset ok)
  case Nil
  from Nil.prems(1) obtain mp d where m: "part_at h p mp d" "mp_offset mp \<le> fo" "fo \<le> rm_last_offset r" "rm_last_offset r \<le> mp_data_end mp"
    "bs = slice fo (rm_last_offset r) d" by (rule seg_singleE)
  have len: "length bs = rm_last_offset r - fo" using slice_part_length [OF Nil.prems(3) m(1,4)] m(5) by simp
  have fit: "fo + offset \<le> rm_last_offset r" using len Nil.prems(2) m(3) by simp
  then have cut: "seg h [p] fo (fo + offset) (take offset bs) \<and> seg h [p] (fo + offset) (rm_last_offset r) (drop offset bs)"
    by (intro seg_cut_here [OF Nil.prems(1,3,2)]) simp
  have "seek_part p offset ok r h = Some (p, fo + offset, ok \<and> owned h p)"
    using Nil.prems(5,6) m(1,3) fit by (subst seek_part.simps) (auto simp: start_of_def part_at_def owned_def Let_def)
  with cut show ?case by (intro exI [of _ "[]"] exI [of _ p] exI [of _ "fo + offset"]) simp
next
  case (Cons q ys)
  from Cons.prems(1) obtain mp d mq bs' where m: "part_at h p mp d" "mp_offset mp \<le> fo" "fo \<le> mp_data_end mp" "mp_next mp = Some q"
    "parts h q = Some mq" "seg h (q # ys) (mp_offset mq) (rm_last_offset r) bs'" "bs = slice fo (mp_data_end mp) d @ bs'"
    by (rule seg_consE)
  have mp: "parts h p = Some mp" using m(1) by (simp add: part_at_def)
  have len: "length (slice fo (mp_data_end mp) d) = mp_data_end mp - fo" using slice_part_length [OF Cons.prems(3) m(1)] by simp
  have nl: "Some p \<noteq> rm_last r" using Cons.prems(4,5) by (metis distinct.simps(2) last_ConsR last_in_set list.distinct(1) option.inject)
  have st: "(if Some p = rm_first r then rm_first_offset r else mp_offset mp) = fo" using Cons.prems(6) mp by (simp add: start_of_def)
  show ?case
  proof (cases "offset \<le> mp_data_end mp - fo")
    case True
    then have "fo + offset \<le> mp_data_end mp" using m(3) by simp
    then have cut: "seg h [p] fo (fo + offset) (take offset bs) \<and> seg h (p # q # ys) (fo + offset) (rm_last_offset r) (drop offset bs)"
      using mp by (intro seg_cut_here [OF Cons.prems(1,3,2)]) simp
    have "seek_part p offset ok r h = Some (p, fo + offset, ok \<and> owned h p)"
      using mp nl st True by (subst seek_part.simps) (simp add: owned_def Let_def)
    with cut show ?thesis by (intro exI [of _ "[]"] exI [of _ p] exI [of _ "q # ys"] exI [of _ "fo + offset"]) simp
  next
    case False
    let ?n = "mp_data_end mp - fo"
    have st': "start_of h r q (mp_offset mq)" using m(5) Cons.prems(7) by (auto simp: start_of_def)
    have "\<exists>xs q' zs off. q # ys = xs @ q' # zs \<and> seek_part q (offset - ?n) (ok \<and> owned h p) r h = Some (q', off, (ok \<and> owned h p) \<and> (\<forall>x\<in>set (xs @ [q']). owned h x)) \<and>
      seg h (xs @ [q']) (mp_offset mq) off (take (offset - ?n) bs') \<and> seg h (q' # zs) off (rm_last_offset r) (drop (offset - ?n) bs')"
      by (rule Cons.IH [OF m(6) _ Cons.prems(3) _ _ st']) (use Cons.prems m(7) len in auto)
    then obtain xs q' zs off where ih: "q # ys = xs @ q' # zs"
      "seek_part q (offset - ?n) (ok \<and> owned h p) r h = Some (q', off, (ok \<and> owned h p) \<and> (\<forall>x\<in>set (xs @ [q']). owned h x))"
      "seg h (xs @ [q']) (mp_offset mq) off (take (offset - ?n) bs')" "seg h (q' # zs) off (rm_last_offset r) (drop (offset - ?n) bs')" by blast
    have "hd (xs @ [q']) = q" using ih(1) by (cases xs) auto
    then have "seg h (p # xs @ [q']) fo off (slice fo (mp_data_end mp) d @ take (offset - ?n) bs')"
      by (rule seg_prepend [OF m(1-5) ih(3)])
    moreover have "take offset bs = slice fo (mp_data_end mp) d @ take (offset - ?n) bs'" "drop offset bs = drop (offset - ?n) bs'"
      using m(7) len False by simp_all
    moreover have "seek_part p offset ok r h = seek_part q (offset - ?n) (ok \<and> owned h p) r h"
      using mp nl st False m(4) by (subst seek_part.simps) (simp add: owned_def Let_def)
    ultimately show ?thesis using ih by (intro exI [of _ "p # xs"] exI [of _ q'] exI [of _ zs] exI [of _ off]) auto
  qed
qed


text \<open>What the block function has made of a sequence of blocks; a negative code is the last one.\<close>

fun process_blocks :: "('x \<Rightarrow> bytes \<Rightarrow> int \<times> 'x) \<Rightarrow> 'x \<Rightarrow> bytes list \<Rightarrow> int \<times> 'x" where
  "process_blocks f x [] = (0, x)"
| "process_blocks f x (b # bs) = (let (r, x') = f x b in if r < 0 \<or> bs = [] then (r, x') else process_blocks f x' bs)"

text \<open>The blocks are the bytes in order, all of them unless the function stops.\<close>

definition processed :: "('x \<Rightarrow> bytes \<Rightarrow> int \<times> 'x) \<Rightarrow> 'x \<Rightarrow> bytes \<Rightarrow> int \<Rightarrow> 'x \<Rightarrow> bool" where
  "processed f x bs r x' \<longleftrightarrow> (\<exists>blks m. process_blocks f x blks = (r, x') \<and> [] \<notin> set blks \<and> concat blks = take m bs \<and> (r \<ge> 0 \<longrightarrow> m \<ge> length bs))"

lemma processed_one: "bs \<noteq> [] \<Longrightarrow> f x bs = (r, x') \<Longrightarrow> processed f x bs r x'"
  by (auto simp: processed_def intro!: exI [of _ "[bs]"] exI [of _ "length bs"])

lemma processed_more:
  assumes "processed f x1 bs r x'" "f x b = (r1, x1)" "r1 \<ge> 0" "b \<noteq> []" "bs \<noteq> []"
  shows "processed f x (b @ bs) r x'"
proof -
  from assms(1) obtain blks m where p: "process_blocks f x1 blks = (r, x')" "[] \<notin> set blks" "concat blks = take m bs" "r \<ge> 0 \<longrightarrow> m \<ge> length bs"
    by (auto simp: processed_def)
  show ?thesis
  proof (cases "blks = []")
    case True
    then have "r = 0" "x' = x1" "m = 0 \<or> bs = []" using p(1,3) by auto
    then show ?thesis using p(4) assms(5) by auto
  next
    case False
    then have "process_blocks f x (b # blks) = (r, x')" using p(1) assms(2,3) by simp
    then show ?thesis using p(2-4) assms(4) unfolding processed_def
      by (intro exI [of _ "b # blks"] exI [of _ "length b + m"]) auto
  qed
qed

lemma processed_stop: "f x b = (r, x') \<Longrightarrow> r < 0 \<Longrightarrow> b \<noteq> [] \<Longrightarrow> processed f x (b @ bs) r x'"
  by (auto simp: processed_def intro!: exI [of _ "[b]"] exI [of _ "length b"])

lemma process_blocks_memcpy: "process_blocks process_memcpy d blks = (0, d @ concat blks)"
  by (induction blks arbitrary: d) (auto simp: process_memcpy_def)

lemma processed_memcpy: "processed process_memcpy d bs r d' \<Longrightarrow> r = 0 \<and> d' = d @ bs"
  by (auto simp: processed_def process_blocks_memcpy)

lemma read_part:
  assumes "data_ok h" "part_at h p mp d" "start + n \<le> mp_data_end mp"
  shows "read_buf (mp_part mp) start n h = Some (slice start (start + n) d)"
proof -
  have "mp_data_end mp \<le> length d" using assms(2) data_okD(4) [OF assms(1), of p mp] by (auto simp: part_at_def part_in_buffer_iff)
  then show ?thesis using assms(2,3) by (auto simp: read_buf_def slice_def part_at_def bdata_def)
qed

lemma process_parts_ok:
  assumes "seg h (p # ys) start (rm_last_offset rw) bs" "0 < bytes" "bytes \<le> length bs" "data_ok h" "distinct (p # ys)"
    "rm_last rw = Some (last (p # ys))" "rm_first rw \<notin> Some ` set ys"
  shows "\<exists>xs q zs off r x'. p # ys = xs @ q # zs \<and>
    process_parts f x p start bytes ok rw h = Some (r, x', q, off, ok \<and> (\<forall>y\<in>set (tl (xs @ [q])). owned h y)) \<and>
    processed f x (take bytes bs) r x' \<and> (r \<ge> 0 \<longrightarrow> seg h (q # zs) off (rm_last_offset rw) (drop bytes bs))"
  using assms
proof (induction ys arbitrary: p start bs bytes ok x)
  case Nil
  let ?lo = "rm_last_offset rw"
  from Nil.prems(1) obtain mp d where m: "part_at h p mp d" "mp_offset mp \<le> start" "start \<le> ?lo" "?lo \<le> mp_data_end mp"
    "bs = slice start ?lo d" by (rule seg_singleE)
  have len: "length bs = ?lo - start" using slice_part_length [OF Nil.prems(4) m(1,4)] m(5) by simp
  have fit: "start + bytes \<le> ?lo" using len Nil.prems(3) m(3) by simp
  then have cut: "seg h [p] (start + bytes) ?lo (drop bytes bs)"
    using seg_cut_here [OF Nil.prems(1,4,3)] by simp
  have blk: "take bytes bs = slice start (start + bytes) d" using fit m(5) by (simp add: slice_def min_def)
  obtain r x' where r: "f x (take bytes bs) = (r, x')" by force
  have "process_parts f x p start bytes ok rw h = Some (r, x', p, start + bytes, ok)"
    using Nil.prems(2,3,6) m(1,3) fit read_part [OF Nil.prems(4) m(1), of start bytes] m(4) r blk len
    by (subst process_parts.simps) (simp add: part_at_def Let_def min_absorb2)
  moreover have "processed f x (take bytes bs) r x'" using Nil.prems(2,3) r by (intro processed_one) auto
  ultimately show ?case using cut
    by (intro exI [of _ "[]"] exI [of _ p] exI [of _ "start + bytes"] exI [of _ r] exI [of _ x']) simp
next
  case (Cons q ys)
  let ?lo = "rm_last_offset rw"
  from Cons.prems(1) obtain mp d mq bs' where m: "part_at h p mp d" "mp_offset mp \<le> start" "start \<le> mp_data_end mp" "mp_next mp = Some q"
    "parts h q = Some mq" "seg h (q # ys) (mp_offset mq) ?lo bs'" "bs = slice start (mp_data_end mp) d @ bs'"
    by (rule seg_consE)
  have mp: "parts h p = Some mp" using m(1) by (simp add: part_at_def)
  have len: "length (slice start (mp_data_end mp) d) = mp_data_end mp - start" using slice_part_length [OF Cons.prems(4) m(1)] by simp
  have nl: "Some p \<noteq> rm_last rw" using Cons.prems(5,6) by (metis distinct.simps(2) last_ConsR last_in_set list.distinct(1) option.inject)
  show ?case
  proof (cases "bytes \<le> mp_data_end mp - start")
    case True
    then have fit: "start + bytes \<le> mp_data_end mp" using m(3) by simp
    then have cut: "seg h (p # q # ys) (start + bytes) ?lo (drop bytes bs)"
      using seg_cut_here [OF Cons.prems(1,4,3)] mp by simp
    have blk: "take bytes bs = slice start (start + bytes) d" using True m(7) len by (simp add: slice_def min_def)
    obtain r x' where r: "f x (take bytes bs) = (r, x')" by force
    have "process_parts f x p start bytes ok rw h = Some (r, x', p, start + bytes, ok)"
      using Cons.prems(2) nl mp True fit read_part [OF Cons.prems(4) m(1) fit] r blk
      by (subst process_parts.simps) (simp add: Let_def min_def)
    moreover have "processed f x (take bytes bs) r x'" using Cons.prems(2,3) r by (intro processed_one) auto
    ultimately show ?thesis using cut
      by (intro exI [of _ "[]"] exI [of _ p] exI [of _ "q # ys"] exI [of _ "start + bytes"] exI [of _ r] exI [of _ x']) simp
  next
    case False
    let ?n = "mp_data_end mp - start"
    let ?b = "slice start (mp_data_end mp) d"
    have fit: "start + ?n \<le> mp_data_end mp" "start + ?n = mp_data_end mp" using m(3) by simp_all
    have rd: "read_buf (mp_part mp) start ?n h = Some ?b" using read_part [OF Cons.prems(4) m(1) fit(1)] unfolding fit(2) .
    have tk: "take bytes bs = ?b @ take (bytes - ?n) bs'" "drop bytes bs = drop (bytes - ?n) bs'" using m(7) len False by simp_all
    have b0: "?b = [] \<longleftrightarrow> ?n = 0" using len by (metis length_0_conv)
    obtain r1 x1 where r1: "(if ?n > 0 then f x ?b else (0, x)) = (r1, x1)" by force
    have q: "Some q \<noteq> rm_first rw" using Cons.prems(7) by auto
    show ?thesis
    proof (cases "r1 < 0")
      case True
      then have fx: "f x ?b = (r1, x1)" "?b \<noteq> []" using r1 b0 by (auto split: if_splits)
      have "process_parts f x p start bytes ok rw h = Some (r1, x1, p, start + ?n, ok)"
        using nl mp False rd r1 True by (subst process_parts.simps) (simp add: Let_def min_def)
      moreover have "processed f x (take bytes bs) r1 x1" unfolding tk(1) by (rule processed_stop [where f = f and x = x, OF fx(1) True fx(2)])
      ultimately show ?thesis using True
        by (intro exI [of _ "[]"] exI [of _ p] exI [of _ "q # ys"] exI [of _ "start + ?n"] exI [of _ r1] exI [of _ x1]) simp
    next
      case pos: False
      have "process_parts f x p start bytes ok rw h = process_parts f x1 q (mp_offset mq) (bytes - ?n) (ok \<and> owned h q) rw h"
        using nl mp False rd r1 pos m(4,5) q by (subst process_parts.simps) (simp add: Let_def min_def owned_def)
      moreover have "\<exists>xs q' zs off r x'. q # ys = xs @ q' # zs \<and>
          process_parts f x1 q (mp_offset mq) (bytes - ?n) (ok \<and> owned h q) rw h = Some (r, x', q', off, (ok \<and> owned h q) \<and> (\<forall>y\<in>set (tl (xs @ [q'])). owned h y)) \<and>
          processed f x1 (take (bytes - ?n) bs') r x' \<and> (r \<ge> 0 \<longrightarrow> seg h (q' # zs) off ?lo (drop (bytes - ?n) bs'))"
        by (rule Cons.IH [OF m(6) _ _ Cons.prems(4)]) (use Cons.prems m(7) len False in auto)
      then obtain xs q' zs off r x' where ih: "q # ys = xs @ q' # zs"
        "process_parts f x1 q (mp_offset mq) (bytes - ?n) (ok \<and> owned h q) rw h = Some (r, x', q', off, (ok \<and> owned h q) \<and> (\<forall>y\<in>set (tl (xs @ [q'])). owned h y))"
        "processed f x1 (take (bytes - ?n) bs') r x'" "r \<ge> 0 \<longrightarrow> seg h (q' # zs) off ?lo (drop (bytes - ?n) bs')" by blast
      moreover have "processed f x (take bytes bs) r x'"
      proof (cases "?n = 0")
        case True
        then show ?thesis using ih(3) r1 b0 unfolding tk(1) by simp
      next
        case pn: False
        have "take (bytes - ?n) bs' \<noteq> []" using False Cons.prems(3) m(7) len by auto
        then show ?thesis unfolding tk(1) using processed_more [OF ih(3), of x ?b r1] r1 pn pos b0 by auto
      qed
      moreover have "xs @ [q'] = q # tl (xs @ [q'])" using ih(1) by (cases xs) auto
      then have "(owned h q \<and> (\<forall>y\<in>set (tl (xs @ [q'])). owned h y)) \<longleftrightarrow> (\<forall>y\<in>set (xs @ [q']). owned h y)"
        by (metis list.set_intros(1) set_ConsD set_subset_Cons subsetD)
      ultimately show ?thesis unfolding tk(2)
        by (intro exI [of _ "p # xs"] exI [of _ q'] exI [of _ zs] exI [of _ off] exI [of _ r] exI [of _ x']) auto
    qed
  qed
qed


subsection \<open>Processing and removing\<close>

lemma advance_ok:
  assumes v: "view R h r bs" and f: "rm_first r = Some f" and ps: "seg h (xs @ q # zs) (rm_first_offset r) (rm_last_offset r) bs" "hd (xs @ q # zs) = f"
    "rm_last r = Some (last (q # zs))"
    and s: "seg h (q # zs) off (rm_last_offset r) bs'" "length bs = cnt + length bs'" "ok \<longrightarrow> (\<forall>y\<in>set (xs @ [q]). owned h y)"
  obtains r' h' where "process_advance q off ok cnt r h = Some (r', h')" "view R h' r' bs'" "kept R h h'"
proof (cases "cnt = rm_total r")
  case True
  then have "bs' = []" using s(2) v by (simp add: view_def denotes_def)
  then show ?thesis using clear_ok [OF v] True that by (metis process_advance_def)
next
  case False
  from v f have ok: "heap_ok (add_mset f R) h" and tot: "rm_total r = length bs" by (simp_all add: view_def denotes_def)
  let ?r = "r\<lparr>rm_first := Some q, rm_first_offset := off, rm_total := length bs'\<rparr>"
  obtain h1 where h1: "(if Some q \<noteq> rm_first r then do { h \<leftarrow> incref_part q h; msg_part_decref (rm_first r) h } else Some h) = Some h1"
    "view R h1 ?r bs'" "kept R h h1"
  proof (cases "q = f")
    case True
    have "view R h ?r bs'" by (rule viewI [of f R h "q # zs"]) (use v f True s(1) ps(3) in \<open>simp_all add: view_def\<close>)
    then show ?thesis using True f kept_refl [of R "{#f#}" h] ok by (intro that [of h]) simp_all
  next
    case False
    obtain h1 h2 where "incref_part q h = Some h1" "msg_part_decref (Some f) h1 = Some h2" "view R h2 ?r bs'" "kept R h h2"
      by (rule move_first_ok [OF v f s(1) ps(3)])
    then show ?thesis using False f by (intro that [of h2]) simp_all
  qed
  show ?thesis
  proof (cases ok)
    case True
    obtain mq where mq: "parts h1 q = Some mq"
      using h1(2) by (auto simp: view_def denotes_def heap_ok_def refs_ok_def)
    have own: "\<forall>y\<in>set (xs @ [q]). owned h y" using s(3) True by blast
    have "seg h ((xs @ [q]) @ zs) (rm_first_offset r) (rm_last_offset r) bs" using ps(1) by simp
    from seg_path [OF this] seg_distinct [OF this heap_okD(1) [OF ok]]
    have path: "successively (\<lambda>p q. (p, q) \<in> links h) (xs @ [q])" "distinct (xs @ [q])"
      unfolding successively_append_iff [of _ "xs @ [q]" zs] by simp_all
    have "hd (xs @ [q]) = f" using ps(2) by (cases xs) auto
    from owned_path [OF heap_okD(1) [OF ok] path(1) this path(2) own] have "q \<notin> reach h R" by auto
    then have far: "q \<notin> reach h1 R" using reach_same [of h R h1] h1(3) by (simp add: kept_def)
    let ?h = "h1\<lparr>parts := (parts h1)(q \<mapsto> mq\<lparr>mp_offset := rm_first_offset ?r\<rparr>)\<rparr>"
    note so = set_offset_ok [OF h1(2) _ mq far, simplified]
    have "kept R h ?h" using so(2,3) by (intro kept_trans [OF h1(3)]) (simp add: kept_def)
    moreover have "process_advance q off ok cnt r h = Some (?r, ?h)"
      unfolding process_advance_def h1(1) using False True mq tot s(2) by (simp add: upd_part_def)
    ultimately show ?thesis using so(1) by (intro that [of ?r ?h]) simp_all
  next
    case nok: False
    have "process_advance q off ok cnt r h = Some (?r, h1)"
      unfolding process_advance_def h1(1) using False nok tot s(2) by simp
    then show ?thesis using h1(2,3) by (rule that)
  qed
qed

lemma truncate_ok:
  assumes v: "view R h r bs" and f: "rm_first r = Some f" and s: "seg h (xs @ [q]) (rm_first_offset r) off bs'" "hd (xs @ [q]) = f"
    and own: "ok \<longrightarrow> (\<forall>y\<in>set (xs @ [q]). owned h y)"
  obtains r' h' where "process_truncate q off ok (length bs') r h = Some (r', h')" "view R h' r' bs'" "kept R h h'"
proof (cases "bs' = []")
  case True
  then show ?thesis using clear_ok [OF v] that by (metis list.size(3) process_truncate_def)
next
  case False
  let ?r = "r\<lparr>rm_total := length bs', rm_last := Some q, rm_last_offset := off\<rparr>"
  have v': "view R h ?r bs'" using move_last_ok [OF v f s] by simp
  have ok: "heap_ok (add_mset f R) h" using v f by (simp add: view_def)
  show ?thesis
  proof (cases ok)
    case True
    from s(1) obtain bs1 bs2 fo' where b: "bs' = bs1 @ bs2" "pre h xs q (rm_first_offset r) bs1 fo'" "seg h [q] fo' off bs2"
      unfolding seg_split by blast
    obtain mq where mq: "parts h q = Some mq" using seg_part [OF b(3)] by (auto simp: part_at_def)
    obtain h1 h2 where c: "upd_part q (\<lambda>mp. mp\<lparr>mp_data_end := rm_last_offset ?r\<rparr>) h = Some h1"
      "do { h \<leftarrow> msg_part_decref (mp_next mq) h1; upd_part q (\<lambda>mp. mp\<lparr>mp_next := None\<rparr>) h } = Some h2" "forked R h ?r bs' h2 ?r"
      by (rule fork_cut_ok [OF v', of f q xs bs1 bs2 fo' mq]) (use f s(2) own True b mq in simp_all)
    have p1: "parts h1 q = Some (mq\<lparr>mp_data_end := off\<rparr>)" using c(1) mq by (auto simp: upd_part_def)
    have "process_truncate q off ok (length bs') r h = do { h2 \<leftarrow> do { h \<leftarrow> msg_part_decref (mp_next mq) h1; upd_part q (\<lambda>mp. mp\<lparr>mp_next := None\<rparr>) h }; Some (?r, h2) }"
      using False True c(1) p1 by (simp add: process_truncate_def)
    then have "process_truncate q off ok (length bs') r h = Some (?r, h2)" unfolding c(2) by simp
    moreover have "view R h2 ?r bs'" "kept R h h2" using c(3) by (simp_all add: forked_def kept_def)
    ultimately show ?thesis by (rule that)
  next
    case nok: False
    then have "process_truncate q off ok (length bs') r h = Some (?r, h)" using False by (simp add: process_truncate_def)
    then show ?thesis using v' kept_refl [of R "{#f#}" h] ok by (intro that [of ?r h]) simp_all
  qed
qed


text \<open>What is left of the bytes.\<close>

definition process_rest :: "process_flag \<Rightarrow> nat \<Rightarrow> nat \<Rightarrow> bytes \<Rightarrow> bytes" where
  "process_rest flag offset n bs = (case flag of Keep \<Rightarrow> bs | Advance \<Rightarrow> drop (offset + n) bs | Truncate \<Rightarrow> take offset bs)"

lemma seg_last_part:
  assumes "seg h ps fo lo bs" "data_ok h" "parts h (last ps) = Some ml" "y \<le> lo - mp_offset ml" "y \<le> length bs"
  obtains "seg h [last ps] (lo - y) lo (drop (length bs - y) bs)" "seg h ps fo (lo - y) (take (length bs - y) bs)" "lo \<le> mp_data_end ml" "y \<le> lo"
proof -
  have ne: "ps \<noteq> []" using assms(1) by auto
  let ?l = "last ps" and ?xs = "butlast ps"
  have eq: "ps = ?xs @ [?l]" using ne by simp
  from assms(1) obtain b1 b2 fo' where b: "bs = b1 @ b2" "pre h ?xs ?l fo b1 fo'" "seg h [?l] fo' lo b2"
    by (subst (asm) eq) (auto simp: seg_split)
  from b(3) obtain d where d: "part_at h ?l ml d" "mp_offset ml \<le> fo'" "fo' \<le> lo" "lo \<le> mp_data_end ml" "b2 = slice fo' lo d"
    by (rule seg_singleE) (use assms(3) in \<open>auto simp: part_at_def\<close>)
  have len: "length b2 = lo - fo'" using slice_part_length [OF assms(2) d(1,4)] d(5) by simp
  have y: "y \<le> length b2"
  proof (cases "?xs = []")
    case True
    then have "b1 = []" using b(2) by simp
    then show ?thesis using assms(5) b(1) by simp
  next
    case False
    then have "fo' = mp_offset ml" using pre_offset [OF b(2) _ assms(3)] by simp
    then show ?thesis using assms(4) len by simp
  qed
  have fo': "fo' \<le> lo - y" using y len d(3) by simp
  let ?n = "length b2 - y"
  have n: "fo' + ?n = lo - y" using len fo' y d(3) by simp
  have cut: "seg h [?l] fo' (lo - y) (take ?n b2) \<and> seg h [?l] (lo - y) lo (drop ?n b2)"
    using seg_cut_here [OF b(3) assms(2), of ?n] n by simp
  have "drop (length bs - y) bs = drop ?n b2" "take (length bs - y) bs = b1 @ take ?n b2" using b(1) y by simp_all
  moreover from this have "seg h (?xs @ [?l]) fo (lo - y) (take (length bs - y) bs)"
    unfolding seg_split using b(2) cut by (intro exI [of _ b1] exI [of _ "take ?n b2"] exI [of _ fo']) simp
  ultimately show ?thesis using cut d(4) eq y len by (intro that) simp_all
qed

definition process_done :: "nat multiset \<Rightarrow> msg_heap \<Rightarrow> raw_message \<Rightarrow> bytes \<Rightarrow> nat \<Rightarrow> nat \<Rightarrow> process_flag \<Rightarrow> ('x \<Rightarrow> bytes \<Rightarrow> int \<times> 'x) \<Rightarrow> 'x \<Rightarrow>
    (int \<times> 'x \<times> raw_message \<times> msg_heap) option \<Rightarrow> bool" where
  "process_done R h r bs n offset flag f x res \<longleftrightarrow> (\<exists>code c x' r' h'. res = Some (c, x', r', h') \<and> processed f x (take n (drop offset bs)) code x' \<and>
     (code < 0 \<longrightarrow> c = code \<and> r' = r \<and> h' = h) \<and>
     (code \<ge> 0 \<longrightarrow> c = int n \<and> view R h' r' (process_rest flag offset n bs) \<and> kept R h h'))"

lemma process_done_stop:
  "processed f x (take n (drop offset bs)) code x' \<Longrightarrow> code < 0 \<Longrightarrow> process_done R h r bs n offset flag f x (Some (code, x', r, h))"
  by (auto simp: process_done_def)

lemma process_done_ok:
  "processed f x (take n (drop offset bs)) code x' \<Longrightarrow> code \<ge> 0 \<Longrightarrow> view R h' r' (process_rest flag offset n bs) \<Longrightarrow> kept R h h' \<Longrightarrow>
   process_done R h r bs n offset flag f x (Some (int n, x', r', h'))"
  unfolding process_done_def by (intro exI [of _ code] exI [of _ "int n"] exI [of _ x'] exI [of _ r'] exI [of _ h']) simp

text \<open>The case that all bytes from the offset on are in the last part.\<close>

lemma process_ex_last_ok:
  assumes v: "view R h r bs" and fst: "rm_first r = Some fr" and lst: "rm_last r = Some l" "parts h l = Some ml"
    and y: "length bs - offset \<le> rm_last_offset r - mp_offset ml" and n: "0 < n" "offset + n \<le> length bs"
  shows "process_done R h r bs n offset flag f x (rwm_process_ex r n offset flag f x h)"
proof -
  obtain ps where ps: "heap_ok (add_mset fr R) h" "seg h ps (rm_first_offset r) (rm_last_offset r) bs" "ps \<noteq> []" "hd ps = fr" "rm_last r = Some (last ps)"
    "rm_total r = length bs" by (rule viewE [OF v fst])
  let ?y = "length bs - offset" and ?lo = "rm_last_offset r"
  have l: "l = last ps" using ps(5) lst(1) by simp
  have D: "data_ok h" using heap_okD(2) [OF ps(1)] .
  have ob: "length bs - ?y = offset" using n by simp
  obtain s: "seg h [l] (?lo - ?y) ?lo (drop offset bs)" "seg h ps (rm_first_offset r) (?lo - ?y) (take offset bs)" "?lo \<le> mp_data_end ml" "?y \<le> ?lo"
    using seg_last_part [OF ps(2) D _ y] lst(2) l ob by auto
  from s(1) obtain d where d: "part_at h l ml d" "drop offset bs = slice (?lo - ?y) ?lo d"
    by (rule seg_singleE) (use lst(2) in \<open>auto simp: part_at_def\<close>)
  have fit: "?lo - ?y + n \<le> ?lo" using n s(4) by simp
  have blk: "take n (drop offset bs) = slice (?lo - ?y) (?lo - ?y + n) d" unfolding d(2) using fit by (simp add: slice_def min_def)
  have rd: "read_buf (mp_part ml) (?lo - ?y) n h = Some (take n (drop offset bs))"
    unfolding blk by (rule read_part [OF D d(1)]) (use fit s(3) in simp)
  obtain c x' where c: "f x (take n (drop offset bs)) = (c, x')" by force
  have pr: "processed f x (take n (drop offset bs)) c x'" using n c by (intro processed_one) auto
  note base = lst ps(6) fst rd c n y
  show ?thesis
  proof (cases "c < 0")
    case True
    have "rwm_process_ex r n offset flag f x h = Some (c, x', r, h)" using base True by (simp add: rwm_process_ex_def Let_def)
    then show ?thesis using process_done_stop [OF pr True] by simp
  next
    case False
    then have pos: "c \<ge> 0" by simp
    show ?thesis
    proof (cases flag)
      case Keep
      then have "rwm_process_ex r n offset flag f x h = Some (int n, x', r, h)" using base False by (simp add: rwm_process_ex_def Let_def)
      then show ?thesis using process_done_ok [OF pr pos, of R h r flag] v kept_refl ps(1) Keep by (simp add: process_rest_def kept_refl [of R "{#fr#}"])
    next
      case Advance
      have s': "seg h [l] (?lo - ?y + n) ?lo (drop (offset + n) bs)"
        using seg_cut_here [OF s(1) D, of n] fit n by (simp add: add.commute)
      let ?r = "r\<lparr>rm_first := Some l, rm_first_offset := ?lo - ?y + n, rm_total := length (drop (offset + n) bs)\<rparr>"
      obtain h1 h2 where m: "incref_part l h = Some h1" "msg_part_decref (Some fr) h1 = Some h2" "view R h2 ?r (drop (offset + n) bs)" "kept R h h2"
        by (rule move_first_ok [OF v fst s']) (use lst in simp)
      have "rwm_process_ex r n offset flag f x h = Some (int n, x', ?r, h2)"
        using base False Advance m(1,2) by (simp add: rwm_process_ex_def Let_def)
      then show ?thesis using process_done_ok [OF pr pos, of R h2 ?r flag] m(3,4) Advance by (simp add: process_rest_def)
    next
      case Truncate
      let ?r = "r\<lparr>rm_total := rm_total r - ?y, rm_last_offset := ?lo - ?y\<rparr>"
      have "view R h ?r (take offset bs)"
        by (rule viewI [OF ps(1), of ps]) (use s(2) fst ps(4-6) v n in \<open>simp_all add: view_def\<close>)
      moreover have "rwm_process_ex r n offset flag f x h = Some (int n, x', ?r, h)"
        using base False Truncate by (simp add: rwm_process_ex_def Let_def)
      ultimately show ?thesis using process_done_ok [OF pr pos, of R h ?r flag] kept_refl [of R "{#fr#}" h] ps(1) Truncate by (simp add: process_rest_def)
    qed
  qed
qed


lemma clear_if_empty_ok:
  assumes "view R h r bs"
  obtains r' h' where "(if rm_total r = 0 then rwm_clear r h else Some (r, h)) = Some (r', h')" "view R h' r' bs" "kept R h h'"
proof (cases "rm_total r = 0")
  case True
  then have "bs = []" using assms by (simp add: view_def denotes_def)
  then show ?thesis using clear_ok [OF assms] True that by metis
next
  case False
  have "kept R h h" using assms by (intro kept_refl [of R "root (rm_first r)"]) (simp add: view_def)
  then show ?thesis using False assms by (intro that [of r h]) simp_all
qed

text \<open>The case of several parts.\<close>

lemma process_ex_parts_ok:
  assumes v: "view R h r bs" and fst: "rm_first r = Some fr" and lst: "rm_last r = Some l" "parts h l = Some ml"
    and y: "\<not> length bs - offset \<le> rm_last_offset r - mp_offset ml" and n: "0 < n" "offset + n \<le> length bs"
  shows "process_done R h r bs n offset flag f x (rwm_process_ex r n offset flag f x h)"
proof -
  let ?fo = "rm_first_offset r" and ?lo = "rm_last_offset r"
  obtain ps where ps: "heap_ok (add_mset fr R) h" "seg h ps ?fo ?lo bs" "ps \<noteq> []" "hd ps = fr" "rm_last r = Some (last ps)"
    "rm_total r = length bs" "distinct ps" by (rule viewE [OF v fst])
  obtain ys where ys: "ps = fr # ys" using ps(3,4) by (cases ps) auto
  have D: "data_ok h" using heap_okD(2) [OF ps(1)] .
  have st: "start_of h r fr ?fo" using heap_okD(1) [OF ps(1)] fst by (auto simp: start_of_def refs_ok_def)
  have "\<exists>xs q zs off. fr # ys = xs @ q # zs \<and> seek_part fr offset True r h = Some (q, off, True \<and> (\<forall>x\<in>set (xs @ [q]). owned h x)) \<and>
    seg h (xs @ [q]) ?fo off (take offset bs) \<and> seg h (q # zs) off ?lo (drop offset bs)"
    by (rule seek_part_ok [OF _ _ D _ _ st]) (use ps ys fst n in auto)
  then obtain xs q zs off where sk: "fr # ys = xs @ q # zs" "seek_part fr offset True r h = Some (q, off, \<forall>x\<in>set (xs @ [q]). owned h x)"
    "seg h (xs @ [q]) ?fo off (take offset bs)" "seg h (q # zs) off ?lo (drop offset bs)" by auto
  have psq: "ps = xs @ q # zs" using ys sk(1) by simp
  have nz: "rm_first r \<notin> Some ` set zs"
    using ps(7) fst sk(1) unfolding psq by (cases xs) auto
  have "\<exists>xs' q' zs' off' c x'. q # zs = xs' @ q' # zs' \<and>
    process_parts f x q off n (\<forall>x\<in>set (xs @ [q]). owned h x) r h =
      Some (c, x', q', off', (\<forall>x\<in>set (xs @ [q]). owned h x) \<and> (\<forall>y\<in>set (tl (xs' @ [q'])). owned h y)) \<and>
    processed f x (take n (drop offset bs)) c x' \<and> (c \<ge> 0 \<longrightarrow> seg h (q' # zs') off' ?lo (drop n (drop offset bs)))"
    by (rule process_parts_ok [OF sk(4) n(1) _ D _ _ nz]) (use n ps(5,7) psq in auto)
  then obtain xs' q' zs' off' c x' where pp: "q # zs = xs' @ q' # zs'"
    "process_parts f x q off n (\<forall>x\<in>set (xs @ [q]). owned h x) r h =
      Some (c, x', q', off', (\<forall>x\<in>set (xs @ [q]). owned h x) \<and> (\<forall>y\<in>set (tl (xs' @ [q'])). owned h y))"
    "processed f x (take n (drop offset bs)) c x'" "c \<ge> 0 \<longrightarrow> seg h (q' # zs') off' ?lo (drop (offset + n) bs)"
    by (auto simp: add.commute)
  note base = lst ps(6) fst n y sk(2) pp(2)
  show ?thesis
  proof (cases "c < 0")
    case True
    have "rwm_process_ex r n offset flag f x h = Some (c, x', r, h)" using base True by (simp add: rwm_process_ex_def Let_def)
    then show ?thesis using process_done_stop [OF pp(3) True] by simp
  next
    case False
    then have pos: "c \<ge> 0" by simp
    have step: "rwm_process_ex r n offset flag f x h = do {
        (r, h) \<leftarrow> (case flag of Keep \<Rightarrow> Some (r, h)
          | Advance \<Rightarrow> process_advance q' off' ((\<forall>x\<in>set (xs @ [q]). owned h x) \<and> (\<forall>y\<in>set (tl (xs' @ [q'])). owned h y)) (offset + n) r h
          | Truncate \<Rightarrow> process_truncate q off (\<forall>x\<in>set (xs @ [q]). owned h x) offset r h);
        (r, h) \<leftarrow> (if rm_total r = 0 then rwm_clear r h else Some (r, h));
        Some (int n, x', r, h) }"
      using base False by (simp add: rwm_process_ex_def Let_def split: process_flag.split)
    have "\<exists>r1 h1. (case flag of Keep \<Rightarrow> Some (r, h)
          | Advance \<Rightarrow> process_advance q' off' ((\<forall>x\<in>set (xs @ [q]). owned h x) \<and> (\<forall>y\<in>set (tl (xs' @ [q'])). owned h y)) (offset + n) r h
          | Truncate \<Rightarrow> process_truncate q off (\<forall>x\<in>set (xs @ [q]). owned h x) offset r h) = Some (r1, h1) \<and>
        view R h1 r1 (process_rest flag offset n bs) \<and> kept R h h1"
    proof (cases flag)
      case Keep
      then show ?thesis using v kept_refl [of R "{#fr#}" h] ps(1) by (simp add: process_rest_def)
    next
      case Advance
      have path: "ps = (xs @ xs') @ q' # zs'" using psq pp(1) by simp
      have eq: "xs' @ [q'] = q # tl (xs' @ [q'])" using pp(1) by (cases xs') auto
      then have set: "set ((xs @ xs') @ [q']) = set (xs @ [q]) \<union> set (tl (xs' @ [q']))"
        by (metis Un_insert_left Un_insert_right append.assoc list.simps(15) set_append sup_bot.right_neutral list.set(1))
      obtain r1 h1 where "process_advance q' off' ((\<forall>x\<in>set (xs @ [q]). owned h x) \<and> (\<forall>y\<in>set (tl (xs' @ [q'])). owned h y)) (offset + n) r h = Some (r1, h1)"
        "view R h1 r1 (drop (offset + n) bs)" "kept R h h1"
        by (rule advance_ok [OF v fst, of "xs @ xs'" q' zs' off' "drop (offset + n) bs" "offset + n"
              "(\<forall>x\<in>set (xs @ [q]). owned h x) \<and> (\<forall>y\<in>set (tl (xs' @ [q'])). owned h y)"])
          (use ps(2,4,5) path pos pp(4) n set in \<open>auto simp: ball_Un\<close>)
      then show ?thesis using Advance by (simp add: process_rest_def)
    next
      case Truncate
      have "hd (xs @ [q]) = fr" using sk(1) by (cases xs) auto
      from truncate_ok [OF v fst sk(3) this, of "\<forall>x\<in>set (xs @ [q]). owned h x"] obtain r1 h1 where
        "process_truncate q off (\<forall>x\<in>set (xs @ [q]). owned h x) (length (take offset bs)) r h = Some (r1, h1)" "view R h1 r1 (take offset bs)" "kept R h h1"
        by blast
      moreover have "length (take offset bs) = offset" using n by simp
      ultimately show ?thesis using Truncate by (simp add: process_rest_def)
    qed
    then obtain r1 h1 where r1: "(case flag of Keep \<Rightarrow> Some (r, h)
          | Advance \<Rightarrow> process_advance q' off' ((\<forall>x\<in>set (xs @ [q]). owned h x) \<and> (\<forall>y\<in>set (tl (xs' @ [q'])). owned h y)) (offset + n) r h
          | Truncate \<Rightarrow> process_truncate q off (\<forall>x\<in>set (xs @ [q]). owned h x) offset r h) = Some (r1, h1)"
        "view R h1 r1 (process_rest flag offset n bs)" "kept R h h1" by blast
    obtain r2 h2 where r2: "(if rm_total r1 = 0 then rwm_clear r1 h1 else Some (r1, h1)) = Some (r2, h2)"
      "view R h2 r2 (process_rest flag offset n bs)" "kept R h1 h2" by (rule clear_if_empty_ok [OF r1(2)])
    have "rwm_process_ex r n offset flag f x h = Some (int n, x', r2, h2)" unfolding step r1(1) using r2(1) by simp
    then show ?thesis using process_done_ok [OF pp(3) pos r2(2) kept_trans [OF r1(3) r2(3)]] by simp
  qed
qed

text \<open>The general statement.\<close>

lemma process_ex_ok:
  assumes v: "view R h r bs" and n: "n = min bytes (length bs - offset)" "0 < n"
  shows "process_done R h r bs n offset flag f x (rwm_process_ex r bytes offset flag f x h)"
proof -
  have tot: "rm_total r = length bs" using v by (simp add: view_def denotes_def)
  have cut: "rwm_process_ex r bytes offset flag f x h = rwm_process_ex r n offset flag f x h"
  proof -
    have "(if bytes + offset > rm_total r then rm_total r - offset else bytes) = n"
      "(if n + offset > rm_total r then rm_total r - offset else n) = n" using n tot by auto
    then show ?thesis by (simp only: rwm_process_ex_def)
  qed
  have le: "offset + n \<le> length bs" using n by (auto simp: min_def split: if_splits)
  obtain fr where fr: "rm_first r = Some fr" using v denotes_None [of h r bs] n by (cases "rm_first r") (auto simp: view_def)
  obtain ps where ps: "heap_ok (add_mset fr R) h" "seg h ps (rm_first_offset r) (rm_last_offset r) bs" "ps \<noteq> []" "hd ps = fr" "rm_last r = Some (last ps)"
    by (rule viewE [OF v fr])
  obtain ml where ml: "parts h (last ps) = Some ml" using seg_part [OF ps(2), of "last ps"] ps(3) by (auto simp: part_at_def)
  show ?thesis
  proof (cases "length bs - offset \<le> rm_last_offset r - mp_offset ml")
    case True
    then show ?thesis unfolding cut by (rule process_ex_last_ok [OF v fr ps(5) ml _ n(2) le])
  next
    case False
    then show ?thesis unfolding cut by (rule process_ex_parts_ok [OF v fr ps(5) ml _ n(2) le])
  qed
qed

lemma process_ex_none:
  "view R h r bs \<Longrightarrow> min bytes (length bs - offset) = 0 \<Longrightarrow> rwm_process_ex r bytes offset flag f x h = Some (0, x, r, h)"
  by (auto simp: rwm_process_ex_def Let_def view_def denotes_def min_def split: if_splits)


subsection \<open>The operations that read\<close>

lemma view_kept: "view R h r bs \<Longrightarrow> kept R h h"
  by (rule kept_refl [of R "root (rm_first r)"]) (simp add: view_def)

lemma process_memcpy_ok:
  fixes bytes offset :: nat
  assumes v: "view R h r bs"
  defines "n \<equiv> min bytes (length bs - offset)"
  shows "\<exists>r' h'. rwm_process_ex r bytes offset flag process_memcpy [] h = Some (int n, take n (drop offset bs), r', h') \<and>
    view R h' r' (if n = 0 then bs else process_rest flag offset n bs) \<and> kept R h h'"
proof (cases "n = 0")
  case True
  then have "min bytes (length bs - offset) = 0" by (simp add: n_def)
  from process_ex_none [OF v this, of flag process_memcpy "[]"] show ?thesis using True v view_kept [OF v] by simp
next
  case False
  then have "process_done R h r bs n offset flag process_memcpy [] (rwm_process_ex r bytes offset flag process_memcpy [] h)"
    by (intro process_ex_ok [OF v]) (simp_all add: n_def)
  then show ?thesis using False by (auto simp: process_done_def dest!: processed_memcpy)
qed

lemma fetch_data_ok:
  assumes "view R h r bs"
  shows "\<exists>r' h'. rwm_fetch_data r n h = Some (int (min n (length bs)), take n bs, r', h') \<and> view R h' r' (drop n bs) \<and> kept R h h'"
proof -
  have eq: "take (min n (length bs)) bs = take n bs" "drop (min n (length bs)) bs = drop n bs" by (simp_all add: min_def)
  have "min n (length bs) = 0 \<Longrightarrow> drop n bs = bs" by (auto simp: min_def split: if_splits)
  then show ?thesis using process_memcpy_ok [OF assms, of n 0 Advance] eq
    by (auto simp: rwm_fetch_data_def process_rest_def split: if_splits)
qed

lemma fetch_lookup_ok:
  assumes "view R h r bs"
  shows "\<exists>r' h'. rwm_fetch_lookup r n h = Some (int (min n (length bs)), take n bs, r', h') \<and> view R h' r' bs \<and> kept R h h'"
proof -
  have eq: "take (min n (length bs)) bs = take n bs" by (simp add: min_def)
  then show ?thesis using process_memcpy_ok [OF assms, of n 0 Keep]
    by (auto simp: rwm_fetch_lookup_def process_rest_def split: if_splits)
qed

lemma process_blocks_skip: "process_blocks (\<lambda>x blk. (0, ())) () blks = (0, ())"
  by (induction blks) auto

lemma skip_data_ok:
  assumes v: "view R h r bs"
  shows "\<exists>r' h'. rwm_skip_data r n h = Some (int (min n (length bs)), (), r', h') \<and> view R h' r' (drop n bs) \<and> kept R h h'"
proof (cases "min n (length bs) = 0")
  case True
  then have "drop n bs = bs" by (auto simp: min_def split: if_splits)
  moreover have "rwm_process_ex r n 0 Advance (\<lambda>x blk. (0, x)) () h = Some (0, (), r, h)"
    using process_ex_none [OF v, of n 0 Advance "\<lambda>x blk. (0, x)" "()"] True by simp
  ultimately show ?thesis using True v view_kept [OF v] unfolding rwm_skip_data_def by simp
next
  case False
  let ?n = "min n (length bs)"
  have "process_done R h r bs ?n 0 Advance (\<lambda>x blk. (0, x)) () (rwm_process_ex r n 0 Advance (\<lambda>x blk. (0, x)) () h)"
    using False by (intro process_ex_ok [OF v]) simp_all
  moreover have "drop ?n bs = drop n bs" by (simp add: min_def)
  ultimately show ?thesis
    by (auto simp: rwm_skip_data_def process_done_def process_rest_def processed_def process_blocks_skip)
qed

lemma fetch_data_back_ok:
  assumes v: "view R h r bs"
  shows "\<exists>r' h'. rwm_fetch_data_back r n h = Some (int (min n (length bs)), drop (length bs - n) bs, r', h') \<and>
    view R h' r' (take (length bs - n) bs) \<and> kept R h h'"
proof -
  have tot: "rm_total r = length bs" using v by (simp add: view_def denotes_def)
  let ?n = "min n (length bs)"
  have off: "length bs - ?n = length bs - n" "min ?n (length bs - (length bs - ?n)) = ?n" by (auto simp: min_def)
  show ?thesis
  proof (cases "?n = 0")
    case True
    then have "take (length bs - n) bs = bs" "drop (length bs - n) bs = []" by (auto simp: min_def split: if_splits)
    then show ?thesis using True tot v view_kept [OF v] by (auto simp: rwm_fetch_data_back_def Let_def)
  next
    case False
    then have "rwm_fetch_data_back r n h = rwm_process_ex r ?n (length bs - ?n) Truncate process_memcpy [] h"
      unfolding rwm_fetch_data_back_def Let_def tot by (rule if_not_P)
    moreover have "take ?n (drop (length bs - ?n) bs) = drop (length bs - n) bs" using off by simp
    moreover obtain r' h' where "rwm_process_ex r ?n (length bs - ?n) Truncate process_memcpy [] h = Some (int ?n, take ?n (drop (length bs - ?n) bs), r', h')"
      "view R h' r' (take (length bs - ?n) bs)" "kept R h h'"
      using process_memcpy_ok [OF v, of ?n "length bs - ?n" Truncate, unfolded off(2)] False by (auto simp: process_rest_def)
    ultimately show ?thesis unfolding off(1) by auto
  qed
qed

lemma trunc_ok:
  assumes v: "view R h r bs"
  shows "\<exists>r' h'. rwm_trunc r n h = Some (min n (length bs), r', h') \<and> view R h' r' (take n bs) \<and> kept R h h'"
proof -
  have tot: "rm_total r = length bs" using v by (simp add: view_def denotes_def)
  show ?thesis
  proof (cases "n \<ge> length bs")
    case True
    then show ?thesis using tot v view_kept [OF v] by (simp add: rwm_trunc_def)
  next
    case False
    then have "length bs - (length bs - n) = n" by simp
    then show ?thesis using fetch_data_back_ok [OF v, of "length bs - n"] False tot by (auto simp: rwm_trunc_def)
  qed
qed

end
