(* ===== verification/Msg_Whole.thy ===== *)
theory Msg_Whole
  imports Msg_Read
begin

text \<open>Operations that make one message of two or two of one.\<close>

subsection \<open>Two messages\<close>

definition pair :: "nat multiset \<Rightarrow> msg_heap \<Rightarrow> raw_message \<Rightarrow> bytes \<Rightarrow> raw_message \<Rightarrow> bytes \<Rightarrow> bool" where
  "pair R h r1 bs1 r2 bs2 \<longleftrightarrow> heap_ok (R + root (rm_first r1) + root (rm_first r2)) h \<and> denotes h r1 bs1 \<and> denotes h r2 bs2 \<and>
     locks h \<subseteq> reach h R"

lemma pair_view:
  assumes "pair R h r1 bs1 r2 bs2"
  shows "view (R + root (rm_first r2)) h r1 bs1" "view (R + root (rm_first r1)) h r2 bs2"
  using assms reach_add(2) [of h R "root (rm_first r1)"] reach_add(2) [of h R "root (rm_first r2)"]
  by (auto simp: pair_def view_def ac_simps)

lemma clone_ok:
  assumes v: "view R h r bs"
  obtains h' where "rwm_clone r h = Some (r, h')" "pair R h' r bs r bs" "kept R h h'"
proof (cases "rm_first r")
  case None
  then show ?thesis using v view_kept [OF v] by (intro that [of h]) (simp_all add: rwm_clone_def pair_def view_def)
next
  case (Some f)
  from v Some have ok: "heap_ok (add_mset f R) h" and d: "denotes h r bs" and lk: "locks h \<subseteq> reach h R" by (simp_all add: view_def)
  obtain mp where mp: "parts h f = Some mp" using heap_okD(1) [OF ok] by (auto simp: refs_ok_def)
  obtain h' where h': "incref_part f h = Some h'" "heap_ok (add_mset f (add_mset f R)) h'" "same (dom (parts h)) h h'" "framed (add_mset f R) h h'"
    "locks h' = locks h" using incref_ok [OF ok mp] by blast
  have "same (reach h R) h h'" using same_subset [OF h'(3) reach_parts [of R "{#f#}"]] ok by simp
  then have k: "kept R h h'" using h'(5) by (simp add: kept_def)
  have "denotes h' r bs" using denotes_hext [OF d, of "add_mset f R"] h'(4) Some by (simp add: framed_def)
  then have "pair R h' r bs r bs" using h'(2) Some kept_locks [OF k lk] by (simp add: pair_def)
  then show ?thesis using h'(1) Some k by (intro that [of h']) (simp_all add: rwm_clone_def)
qed

lemma free_ok:
  assumes v: "view R h r bs"
  obtains h' where "rwm_free r h = Some h'" "heap_ok R h'" "kept R h h'"
proof -
  from v have ok: "heap_ok (R + root (rm_first r)) h" and lk: "locks h \<subseteq> reach h R" by (simp_all add: view_def)
  obtain h' where h': "msg_part_decref (rm_first r) h = Some h'" "heap_ok R h'" "same (reach h R) h h'" "framed R h h'" by (rule release_ok [OF ok lk])
  then show ?thesis by (intro that [of h']) (simp_all add: kept_def framed_def rwm_free_def)
qed

subsection \<open>Splitting\<close>

lemma split_at_seek:
  "seek_part p n ok r h = Some res \<Longrightarrow> split_at p n r h = Some (fst res, fst (snd res))"
proof (induction rule: seek_part.raw_induct [rotated, consumes 1, case_names step])
  case (step rec p n ok r h res)
  from step(2) obtain mp where mp: "parts h p = Some mp" by (auto split: option.splits)
  show ?case
    using step(2) mp by (subst split_at.simps) (auto simp: Let_def dest!: step(1) split: if_splits option.splits)
qed

lemma denotesI:
  assumes "seg h ps (rm_first_offset r) (rm_last_offset r) bs" "rm_first r = Some (hd ps)" "rm_last r = Some (last ps)" "rm_total r = length bs"
  shows "denotes h r bs"
  using assms by (auto simp: denotes_def)

lemma share_ok:
  assumes v: "view R h r bs" and fr: "rm_first r = Some fr"
    and s1: "seg h (xs @ [q]) (rm_first_offset r) off bs1" "hd (xs @ [q]) = fr"
    and s2: "seg h (q # zs) off (rm_last_offset r) bs2" "rm_last r = Some (last (q # zs))"
  obtains h' where "incref_part q h = Some h'" "kept R h h'"
    "pair R h' (r\<lparr>rm_total := length bs1, rm_last := Some q, rm_last_offset := off\<rparr>) bs1
       \<lparr>rm_first = Some q, rm_last = rm_last r, rm_total = length bs2, rm_first_offset = off, rm_last_offset = rm_last_offset r\<rparr> bs2"
proof -
  from v fr have ok: "heap_ok (add_mset fr R) h" and lk: "locks h \<subseteq> reach h R" by (simp_all add: view_def)
  obtain mq where mq: "parts h q = Some mq" using seg_part [OF s2(1), of q] by (auto simp: part_at_def)
  obtain h' where h': "incref_part q h = Some h'" "heap_ok (add_mset q (add_mset fr R)) h'" "same (dom (parts h)) h h'" "locks h' = locks h"
    using incref_ok [OF ok mq] by blast
  have "same (reach h R) h h'" using same_subset [OF h'(3) reach_parts [of R "{#fr#}"]] ok by simp
  then have k: "kept R h h'" using h'(4) by (simp add: kept_def)
  have hx: "hext (dom (parts h)) h h'" by (rule same_hext [OF h'(3) heap_okD(2) [OF ok]])
  have sub: "set (xs @ [q]) \<subseteq> dom (parts h)" "set (q # zs) \<subseteq> dom (parts h)"
    using seg_part [OF s1(1)] seg_part [OF s2(1)] by (auto simp: part_at_def)
  have "denotes h' (r\<lparr>rm_total := length bs1, rm_last := Some q, rm_last_offset := off\<rparr>) bs1"
    by (rule denotesI [of h' "xs @ [q]"]) (use seg_hext [OF hx s1(1) sub(1)] fr s1(2) in simp_all)
  moreover have "denotes h' \<lparr>rm_first = Some q, rm_last = rm_last r, rm_total = length bs2, rm_first_offset = off, rm_last_offset = rm_last_offset r\<rparr> bs2"
    by (rule denotesI [of h' "q # zs"]) (use seg_hext [OF hx s2(1) sub(2)] s2(2) in simp_all)
  ultimately have "pair R h' (r\<lparr>rm_total := length bs1, rm_last := Some q, rm_last_offset := off\<rparr>) bs1
       \<lparr>rm_first = Some q, rm_last = rm_last r, rm_total = length bs2, rm_first_offset = off, rm_last_offset = rm_last_offset r\<rparr> bs2"
    using h'(2) fr kept_locks [OF k lk] by (simp add: pair_def)
  with h'(1) k show ?thesis by (rule that)
qed

lemma split_ok:
  assumes v: "view R h r bs" and n: "n = 0 \<longrightarrow> rm_first r = rm_last r"
  obtains c hd_r tl_r h' where "rwm_split r tl0 n h = Some (c, hd_r, tl_r, h')" "pair R h' hd_r (take n bs) tl_r (drop n bs)" "kept R h h'"
    "c = (if n \<le> length bs then 0 else - 1)"
proof (cases "n \<ge> length bs")
  case True
  have "rwm_split r tl0 n h = Some (if n = length bs then 0 else - 1, r, empty_rwm, h)"
    using True v by (simp add: rwm_split_def view_def denotes_def)
  moreover have "pair R h r (take n bs) empty_rwm (drop n bs)" using v True by (simp add: pair_def view_def denotes_def empty_rwm_def)
  ultimately show ?thesis using view_kept [OF v] True by (intro that) auto
next
  case False
  have tot: "rm_total r = length bs" using v by (simp add: view_def denotes_def)
  obtain fr where fr: "rm_first r = Some fr" using v False denotes_None [of h r bs] by (cases "rm_first r") (auto simp: view_def)
  obtain ps where ps: "heap_ok (add_mset fr R) h" "seg h ps (rm_first_offset r) (rm_last_offset r) bs" "ps \<noteq> []" "hd ps = fr" "rm_last r = Some (last ps)"
    "rm_total r = length bs" "locks h \<subseteq> reach h R" "distinct ps" by (rule viewE [OF v fr])
  let ?l = "last ps" and ?lo = "rm_last_offset r" and ?y = "length bs - n"
  have D: "data_ok h" by (rule heap_okD(2) [OF ps(1)])
  obtain ml where ml: "parts h ?l = Some ml" using seg_part [OF ps(2), of ?l] ps(3) by (auto simp: part_at_def)
  show ?thesis
  proof (cases "?y \<le> ?lo - mp_offset ml")
    case True
    have y: "length bs - ?y = n" using False by simp
    obtain s: "seg h [?l] (?lo - ?y) ?lo (drop n bs)" "seg h ps (rm_first_offset r) (?lo - ?y) (take n bs)" "?lo \<le> mp_data_end ml" "?y \<le> ?lo"
      using seg_last_part [OF ps(2) D ml True] y by auto
    have eq: "ps = butlast ps @ [?l]" using ps(3) by simp
    obtain h' where h': "incref_part ?l h = Some h'" "kept R h h'"
      "pair R h' (r\<lparr>rm_total := length (take n bs), rm_last := Some ?l, rm_last_offset := ?lo - ?y\<rparr>) (take n bs)
       \<lparr>rm_first = Some ?l, rm_last = rm_last r, rm_total = length (drop n bs), rm_first_offset = ?lo - ?y, rm_last_offset = ?lo\<rparr> (drop n bs)"
      by (rule share_ok [OF v fr, of "butlast ps" ?l "?lo - ?y" "take n bs" "[]" "drop n bs"]) (use s eq ps(4,5) in simp_all)
    have "rwm_split r tl0 n h = Some (0, r\<lparr>rm_total := length (take n bs), rm_last := Some ?l, rm_last_offset := ?lo - ?y\<rparr>,
       \<lparr>rm_first = Some ?l, rm_last = rm_last r, rm_total = length (drop n bs), rm_first_offset = ?lo - ?y, rm_last_offset = ?lo\<rparr>, h')"
      using False tot ps(5) ml True h'(1) s(4) by (simp add: rwm_split_def Let_def)
    then show ?thesis by (rule that) (use h' False in simp_all)
  next
    case mult: False
    have n0: "n \<noteq> 0"
    proof
      assume "n = 0"
      then have "fr = ?l" using n fr ps(5) by simp
      then have "ps = [?l]" using ps(3,4,8) by (cases ps) (auto split: if_splits)
      then have "seg h [?l] (rm_first_offset r) ?lo bs" using ps(2) by simp
      then obtain d where "part_at h ?l ml d" "mp_offset ml \<le> rm_first_offset r" "?lo \<le> mp_data_end ml" "bs = slice (rm_first_offset r) ?lo d"
        by (rule seg_singleE) (use ml in \<open>auto simp: part_at_def\<close>)
      then have "length bs \<le> ?lo - mp_offset ml" using slice_part_length [OF D, of ?l ml d ?lo "rm_first_offset r"] by simp
      then show False using mult \<open>n = 0\<close> by simp
    qed
    obtain ys where ys: "ps = fr # ys" using ps(3,4) by (cases ps) auto
    have st: "start_of h r fr (rm_first_offset r)" using heap_okD(1) [OF ps(1)] fr by (auto simp: start_of_def refs_ok_def)
    have "\<exists>xs q zs off. fr # ys = xs @ q # zs \<and> seek_part fr n True r h = Some (q, off, True \<and> (\<forall>x\<in>set (xs @ [q]). owned h x)) \<and>
      seg h (xs @ [q]) (rm_first_offset r) off (take n bs) \<and> seg h (q # zs) off ?lo (drop n bs)"
      by (rule seek_part_ok [OF _ _ D _ _ st]) (use ps ys fr False in auto)
    then obtain xs q zs off where sk: "fr # ys = xs @ q # zs" "seek_part fr n True r h = Some (q, off, \<forall>x\<in>set (xs @ [q]). owned h x)"
      "seg h (xs @ [q]) (rm_first_offset r) off (take n bs)" "seg h (q # zs) off ?lo (drop n bs)" by auto
    have sp: "split_at fr n r h = Some (q, off)" using split_at_seek [OF sk(2)] by simp
    have hdq: "hd (xs @ [q]) = fr" "last (q # zs) = ?l" using sk(1) ys by (cases xs, auto)
    obtain h' where h': "incref_part q h = Some h'" "kept R h h'"
      "pair R h' (r\<lparr>rm_total := length (take n bs), rm_last := Some q, rm_last_offset := off\<rparr>) (take n bs)
       \<lparr>rm_first = Some q, rm_last = rm_last r, rm_total = length (drop n bs), rm_first_offset = off, rm_last_offset = ?lo\<rparr> (drop n bs)"
      by (rule share_ok [OF v fr sk(3) hdq(1) sk(4)]) (use hdq ps(5) in simp)
    have "rwm_split r tl0 n h = Some (0, r\<lparr>rm_total := length (take n bs), rm_last := Some q, rm_last_offset := off\<rparr>,
       \<lparr>rm_first = Some q, rm_last = rm_last r, rm_total = length (drop n bs), rm_first_offset = off, rm_last_offset = ?lo\<rparr>, h')"
      using False tot ps(5) ml mult h'(1) n0 fr sp by (simp add: rwm_split_def Let_def)
    then show ?thesis by (rule that) (use h' False in simp_all)
  qed
qed


subsection \<open>Joining\<close>

lemma terminal_unique:
  assumes "(x, l) \<in> (links h)\<^sup>*" "(x, t) \<in> (links h)\<^sup>*" "parts h l = Some ml" "mp_next ml = None" "parts h t = Some mt" "mp_next mt = None"
  shows "l = t"
proof -
  have "(l, t) \<in> (links h)\<^sup>* \<or> (t, l) \<in> (links h)\<^sup>*"
    using assms(1,2) single_valued_confluent [of "links h"] links_fun by (metis single_valuedI single_valued_confluent)
  then show ?thesis using terminal_reach assms(3-6) by metis
qed

lemma unlock_same:
  assumes ok: "heap_ok R h" and lk: "set_option lk \<subseteq> dom (parts h)"
  obtains h' where "unlock_part lk h = Some h'" "heap_ok R h'" "same (dom (parts h)) h h'" "locks h' = locks h - set_option lk" "next_part h' = next_part h"
proof (cases lk)
  case None
  then show ?thesis using ok same_refl by (intro that [of h]) (simp_all add: unlock_part_def)
next
  case (Some l)
  then obtain ml where ml: "parts h l = Some ml" using lk by auto
  note sl = set_locked_ok [OF ok ml, of False]
  show ?thesis using sl Some by (intro that [of "h\<lparr>parts := (parts h)(l \<mapsto> ml\<lparr>mp_locked := False\<rparr>)\<rparr>"]) (simp_all add: unlock_part_def)
qed


lemma carry:
  assumes d: "denotes h r bs" "rm_first r = Some f" "closed h r \<or> \<not> cl" and D: "data_ok h" and sm: "same S h h'" and f: "reach h {#f#} \<subseteq> S"
  shows "denotes h' r bs" "closed h' r \<or> \<not> cl"
proof -
  have sm': "same (reach h {#f#}) h h'" by (rule same_subset [OF sm f])
  then show "denotes h' r bs" using denotes_hext [OF d(1) same_hext [OF _ D]] d(2) by simp
  show "closed h' r \<or> \<not> cl"
  proof (cases "closed h r")
    case True
    then obtain l ml where l: "rm_last r = Some l" "parts h l = Some ml" "mp_next ml = None" "mp_data_end ml = rm_last_offset r"
      by (auto simp: closed_def)
    obtain ps where ps: "seg h ps (rm_first_offset r) (rm_last_offset r) bs" "hd ps = f" "rm_last r = Some (last ps)" "ps \<noteq> []"
      by (rule denotesE [OF d(1,2)])
    have "set ps \<subseteq> reach h {#f#}" using seg_reach [OF ps(1)] ps(2) by simp
    then have "l \<in> reach h {#f#}" using ps(3,4) l(1) last_in_set by fastforce
    then obtain ml' where "parts h' l = Some ml'" "core ml' = core ml" by (rule sameD [OF sm' _ l(2)])
    then show ?thesis using l core_eqD [of ml' ml] by (simp add: closed_def)
  qed (use d(3) in blast)
qed

lemma last_reach:
  assumes "denotes h r bs" "rm_first r = Some f" "rm_last r = Some l"
  shows "(f, l) \<in> (links h)\<^sup>*"
proof -
  obtain ps where ps: "seg h ps (rm_first_offset r) (rm_last_offset r) bs" "hd ps = f" "rm_last r = Some (last ps)" "ps \<noteq> []"
    by (rule denotesE [OF assms(1,2)])
  then show ?thesis using path_reach [OF seg_path [OF ps(1)], of l] assms(3) by auto
qed

text \<open>The state of the two messages after the locks: both end with their last part, these differ, and the second begins with its first part.\<close>

lemma union_prepare:
  assumes p: "pair R h r1 bs1 r2 bs2" and f: "rm_first r1 = Some f1" "rm_first r2 = Some f2"
  obtains lk1 s1 h1 lk2 s2 h2 h3 t2 h4 g1 g2 l1 where
    "rwm_lock_last_part r1 h = Some (lk1, s1, h1)" "rwm_lock_last_part r2 h1 = Some (lk2, s2, h2)" "unlock_part lk2 h2 = Some h3"
    "rwm_lock_first_part s2 h3 = Some (t2, h4)" "rm_first s1 = Some g1" "rm_first t2 = Some g2"
    "heap_ok (add_mset g2 (add_mset g1 R)) h4" "denotes h4 s1 bs1" "closed h4 s1" "denotes h4 t2 bs2" "closed h4 t2" "opened h4 t2"
    "same (reach h R) h h4" "locks h4 \<subseteq> locks h \<union> set_option lk1" "set_option lk1 \<subseteq> dom (parts h4)" "rm_last s1 = Some l1" "rm_last t2 \<noteq> Some l1"
proof -
  have v1: "view (add_mset f2 R) h r1 bs1" and lk: "locks h \<subseteq> reach h R" using pair_view(1) [OF p] f p by (simp_all add: pair_def)
  have d2: "denotes h r2 bs2" and D: "data_ok h" using p by (simp_all add: pair_def heap_ok_def)
  obtain lk1 s1 h1 where q1: "rwm_lock_last_part r1 h = Some (lk1, s1, h1)" "prepared (add_mset f2 R) h r1 bs1 lk1 h1 s1"
    by (rule lock_last_ok [OF v1 f(1)])
  note P1 = q1(2) [unfolded prepared_def]
  obtain g1 where g1: "rm_first s1 = Some g1" using P1 by blast
  obtain l1 where l1: "rm_last s1 = Some l1" using P1 by (auto simp: closed_def)
  have ok1: "heap_ok (add_mset g1 (add_mset f2 R)) h1" "denotes h1 s1 bs1" "closed h1 s1" using P1 g1 by simp_all
  have sm1: "same (reach h (add_mset f2 R)) h h1" using P1 by blast
  have sm1R: "same (reach h R) h h1" by (rule same_subset [OF sm1 reach_add(1)])
  have d21: "denotes h1 r2 bs2" by (rule carry(1) [OF d2 f(2) _ D sm1, of False]) (simp_all add: reach_mono)
  have reach1: "reach h1 R = reach h R" by (rule reach_same [OF sm1R])
  have l1r: "(g1, l1) \<in> (links h1)\<^sup>*" by (rule last_reach [OF ok1(2) g1 l1])
  then have l1R: "l1 \<in> reach h1 (add_mset g1 R)" by (auto simp: reach_def)
  have lkl: "set_option lk1 \<subseteq> {l1}" using P1 l1 by (cases lk1) auto
  have lk1: "locks h1 \<subseteq> reach h1 (add_mset g1 R)"
    using P1 lk lkl l1R reach1 reach_add(1) [of h1 R g1] by blast
  have v2: "view (add_mset g1 R) h1 r2 bs2" using ok1(1) d21 lk1 f(2) by (simp add: view_def add_mset_commute)
  obtain lk2 s2 h2 where q2: "rwm_lock_last_part r2 h1 = Some (lk2, s2, h2)" "prepared (add_mset g1 R) h1 r2 bs2 lk2 h2 s2"
    by (rule lock_last_ok [OF v2 f(2)])
  note P2 = q2(2) [unfolded prepared_def]
  obtain e2 where e2: "rm_first s2 = Some e2" using P2 by blast
  obtain l2 where l2: "rm_last s2 = Some l2" using P2 by (auto simp: closed_def)
  have ok2: "heap_ok (add_mset g1 R + root (rm_first s2)) h2" "denotes h2 s2 bs2" "closed h2 s2" using P2 by simp_all
  have sm2: "same (reach h1 (add_mset g1 R)) h1 h2" using P2 by blast
  have reach2: "reach h2 (add_mset g1 R) = reach h1 (add_mset g1 R)" by (rule reach_same [OF sm2])
  have ne: "l1 \<noteq> l2"
  proof (cases lk2)
    case None
    then have "l2 \<notin> reach h2 (add_mset g1 R)" using P2 l2 by auto
    then show ?thesis using l1R reach2 by auto
  next
    case (Some t)
    then have t: "t = l2" "s2 = r2" "l2 \<notin> locks h1" using P2 l2 by auto
    show ?thesis
    proof (cases lk1)
      case None
      then have far: "l1 \<notin> reach h1 (add_mset f2 R)" using P1 l1 by auto
      have "(f2, l2) \<in> (links h1)\<^sup>*" using last_reach [OF d21 f(2)] l2 t(2) by simp
      then have "l2 \<in> reach h1 (add_mset f2 R)" by (auto simp: reach_def)
      then show ?thesis using far by auto
    next
      case (Some u)
      then show ?thesis using P1 l1 t(3) by auto
    qed
  qed
  have "set_option lk2 \<subseteq> dom (parts h2)" using P2 by (cases lk2) (auto simp: locks_def)
  from unlock_same [OF ok2(1) this] obtain h3 where u: "unlock_part lk2 h2 = Some h3" "heap_ok (add_mset g1 R + root (rm_first s2)) h3"
    "same (dom (parts h2)) h2 h3" "locks h3 = locks h2 - set_option lk2" "next_part h3 = next_part h2" .
  have sub2: "reach h2 S \<subseteq> dom (parts h2)" if "S + S' = add_mset g1 R + root (rm_first s2)" for S S'
    using reach_parts [of S S' h2] ok2(1) that by simp
  have sm3: "same (reach h2 (add_mset g1 R)) h2 h3" by (rule same_subset [OF u(3) sub2 [OF refl]])
  have sm13: "same (reach h1 (add_mset g1 R)) h1 h3" using sm2 sm3 unfolding reach2 by (rule same_trans)
  have reach3: "reach h3 (add_mset g1 R) = reach h1 (add_mset g1 R)" by (rule reach_same [OF sm13])
  have e2s: "reach h2 {#e2#} \<subseteq> dom (parts h2)" by (rule sub2 [of _ "add_mset g1 R"]) (simp add: e2)
  have d23: "denotes h3 s2 bs2" "closed h3 s2 \<or> \<not> True"
    using carry [OF ok2(2) e2 _ heap_okD(2) [OF ok2(1)] u(3) e2s, of True] ok2(3) by simp_all
  have lk3: "locks h3 \<subseteq> locks h1" using u(4) P2 by auto
  have v3: "view (add_mset g1 R) h3 s2 bs2" using u(2) d23(1) lk3 lk1 reach3 by (auto simp: view_def)
  obtain t2 h4 where q4: "rwm_lock_first_part s2 h3 = Some (t2, h4)" "view (add_mset g1 R) h4 t2 bs2" "same (reach h3 (add_mset g1 R)) h3 h4"
    "locks h4 \<subseteq> locks h3" "opened h4 t2" "closed h3 s2 \<longrightarrow> closed h4 t2" "rm_first t2 \<noteq> None" "rm_last t2 = rm_last s2 \<or> rm_last t2 = Some (next_part h3)"
    by (rule lock_first_ok [OF v3 e2])
  obtain g2 where g2: "rm_first t2 = Some g2" using q4(7) by blast
  have ok4: "heap_ok (add_mset g2 (add_mset g1 R)) h4" "denotes h4 t2 bs2" using q4(2) g2 by (simp_all add: view_def)
  have sm14: "same (reach h1 (add_mset g1 R)) h1 h4" using same_trans [OF sm13] q4(3) unfolding reach3 by blast
  have gsub: "reach h1 {#g1#} \<subseteq> reach h1 (add_mset g1 R)" by (rule reach_mono) simp
  have d14: "denotes h4 s1 bs1" "closed h4 s1 \<or> \<not> True"
    using carry [OF ok1(2) g1 _ heap_okD(2) [OF ok1(1)] sm14 gsub, of True] ok1(3) by simp_all
  have smR: "same (reach h R) h h4"
    using same_trans [OF sm1R same_subset [OF sm14]] reach1 reach_add(1) [of h1 R g1] by simp
  have "l1 \<in> dom (parts h3)" using sm13 l1R by (auto simp: same_def)
  then have "l1 \<noteq> next_part h3" using refs_okD [OF heap_okD(1) [OF u(2)]] by (fastforce simp: counted_def)
  then have last: "rm_last t2 \<noteq> Some l1" using q4(8) l2 ne by auto
  have "l1 \<in> dom (parts h4)" using sm14 l1R by (auto simp: same_def)
  then have lkd: "set_option lk1 \<subseteq> dom (parts h4)" using lkl by auto
  have lk4: "locks h4 \<subseteq> locks h \<union> set_option lk1" using q4(4) lk3 P1 by auto
  have c4: "closed h4 s1" "closed h4 t2" using d14(2) d23(2) q4(6) by simp_all
  show ?thesis
    by (rule that [OF q1(1) q2(1) u(1) q4(1) g1 g2 ok4(1) d14(1) c4(1) ok4(2) c4(2) q4(5) smR lk4 lkd l1 last])
qed


lemma union_ok:
  assumes p: "pair R h r1 bs1 r2 bs2"
  obtains r' h' where "rwm_union r1 r2 h = Some (r', h')" "view R h' r' (bs1 @ bs2)" "framed R h h'"
proof (cases "rm_first r1")
  case None
  then have e: "rm_last r1 = None" "bs1 = []" using p denotes_None by (auto simp: pair_def)
  have v: "view R h r2 bs2" using pair_view(2) [OF p] None by simp
  show ?thesis using e v view_still [OF v] by (intro that [of r2 h]) (simp_all add: rwm_union_def)
next
  case f1: (Some f1)
  have l1: "rm_last r1 \<noteq> None" using p f1 by (auto simp: pair_def denotes_def)
  show ?thesis
  proof (cases "rm_first r2")
    case None
    then have "bs2 = []" using p denotes_None by (auto simp: pair_def)
    moreover have v: "view R h r1 bs1" using pair_view(1) [OF p] None by simp
    moreover have "rwm_union r1 r2 h = Some (r1, h)" using None l1 by (auto simp: rwm_union_def rwm_free_def msg_part_decref.simps)
    ultimately show ?thesis using view_still [OF v] by (intro that [of r1 h]) simp_all
  next
    case f2: (Some f2)
    have D: "data_ok h" and lk: "locks h \<subseteq> reach h R" using p by (simp_all add: pair_def heap_ok_def)
    obtain lk1 s1 h1 lk2 s2 h2 h3 t2 h4 g1 g2 l where
      q: "rwm_lock_last_part r1 h = Some (lk1, s1, h1)" "rwm_lock_last_part r2 h1 = Some (lk2, s2, h2)" "unlock_part lk2 h2 = Some h3"
      "rwm_lock_first_part s2 h3 = Some (t2, h4)" and g: "rm_first s1 = Some g1" "rm_first t2 = Some g2"
      and ok: "heap_ok (add_mset g2 (add_mset g1 R)) h4" and m1: "denotes h4 s1 bs1" "closed h4 s1"
      and m2: "denotes h4 t2 bs2" "closed h4 t2" "opened h4 t2" and sm: "same (reach h R) h h4"
      and lk4: "locks h4 \<subseteq> locks h \<union> set_option lk1" "set_option lk1 \<subseteq> dom (parts h4)"
      and l: "rm_last s1 = Some l" "rm_last t2 \<noteq> Some l" by (rule union_prepare [OF p f1 f2])
    obtain ml where ml: "parts h4 l = Some ml" "mp_next ml = None" "mp_data_end ml = rm_last_offset s1" using m1(2) l(1) by (auto simp: closed_def)
    obtain t mt where t: "rm_last t2 = Some t" "parts h4 t = Some mt" "mp_next mt = None" using m2(2) by (auto simp: closed_def)
    have nocycle: "(g2, l) \<notin> (links h4)\<^sup>*"
      using terminal_unique [OF _ last_reach [OF m2(1) g(2) t(1)] ml(1,2) t(2,3)] t(1) l(2) by auto
    define h5 where "h5 = h4\<lparr>parts := (parts h4)(l \<mapsto> ml\<lparr>mp_next := Some g2\<rparr>)\<rparr>"
    note lf = link_fresh_ok [OF ok ml(1,2) nocycle, folded h5_def]
    obtain mg where mg: "parts h4 g2 = Some mg" "mp_offset mg = rm_first_offset t2" using m2(3) g(2) by (auto simp: opened_def)
    have gl: "g2 \<noteq> l" using nocycle by auto
    then have mg5: "parts h5 g2 = Some mg" using mg(1) by (simp add: h5_def)
    have pos: "mp_refcnt mg > 0" using refs_okD [OF heap_okD(1) [OF ok] mg(1)] by (simp add: counted_def)
    have updl: "upd_part l (\<lambda>mp. mp\<lparr>mp_next := Some g2\<rparr>) h4 = Some h5" using ml(1) by (simp add: upd_part_def h5_def)
    let ?h6 = "h5\<lparr>parts := (parts h5)(g2 \<mapsto> mg\<lparr>mp_refcnt := mp_refcnt mg + 1\<rparr>)\<rparr>"
    have inc: "incref_part g2 h5 = Some ?h6" using mg5 by (simp add: incref_part_def upd_part_def)
    have dec: "msg_part_decref (Some g2) ?h6 = Some h5"
      using pos mg5 by (subst msg_part_decref.simps) (simp add: fun_upd_idem)
    have hx: "hext (dom (parts h4)) h4 h5"
      unfolding hext_def
    proof
      fix x assume "x \<in> dom (parts h4)"
      then obtain mx where mx: "parts h4 x = Some mx" by auto
      obtain d where d: "bdata h4 (mp_part mx) = Some d" using data_okD(4) [OF heap_okD(2) [OF ok] mx] by (auto simp: part_in_buffer_iff)
      show "\<exists>mp d mp' d'. part_at h4 x mp d \<and> part_at h5 x mp' d' \<and> ext mp d mp' d'"
        using mx d ml(1,2) lf(3) by (cases "x = l") (auto simp: part_at_def ext_def h5_def)
    qed
    obtain ps1 where ps1: "seg h4 ps1 (rm_first_offset s1) (rm_last_offset s1) bs1" "hd ps1 = g1" "rm_last s1 = Some (last ps1)" "ps1 \<noteq> []"
      by (rule denotesE [OF m1(1) g(1)])
    obtain ps2 where ps2: "seg h4 ps2 (rm_first_offset t2) (rm_last_offset t2) bs2" "hd ps2 = g2" "rm_last t2 = Some (last ps2)" "ps2 \<noteq> []"
      by (rule denotesE [OF m2(1) g(2)])
    obtain ys where ys: "ps2 = g2 # ys" using ps2(2,4) by (cases ps2) auto
    have eq1: "ps1 = butlast ps1 @ [l]" using ps1(3,4) l(1) by simp
    have sub: "set ps1 \<subseteq> dom (parts h4)" "set ps2 \<subseteq> dom (parts h4)" using seg_part [OF ps1(1)] seg_part [OF ps2(1)] by (auto simp: part_at_def)
    have "seg h5 (butlast ps1 @ [l]) (rm_first_offset s1) (rm_last_offset s1) bs1" using seg_hext [OF hx ps1(1) sub(1)] eq1 by simp
    moreover have "seg h5 (g2 # ys) (mp_offset mg) (rm_last_offset t2) bs2" using seg_hext [OF hx ps2(1) sub(2)] ys mg(2) by simp
    ultimately have sg: "seg h5 (butlast ps1 @ l # g2 # ys) (rm_first_offset s1) (rm_last_offset t2) (bs1 @ bs2)"
      by (intro seg_append [of h5 "butlast ps1" l _ "rm_last_offset s1" bs1 "ml\<lparr>mp_next := Some g2\<rparr>" g2 mg])
        (use ml(3) mg5 in \<open>simp_all add: h5_def\<close>)
    define r' where "r' = s1\<lparr>rm_last_offset := rm_last_offset t2, rm_last := rm_last t2, rm_total := rm_total s1 + rm_total t2\<rparr>"
    have "hd (butlast ps1 @ l # g2 # ys) = g1" using ps1(2) eq1 by (cases "butlast ps1") auto
    moreover have "last (butlast ps1 @ l # g2 # ys) = last ps2" using ys by simp
    ultimately have d5: "denotes h5 r' (bs1 @ bs2)"
      using m1(1) m2(1) by (intro denotesI [of h5 "butlast ps1 @ l # g2 # ys"]) (simp_all add: r'_def g ps2(3) denotes_def sg)
    have "set_option lk1 \<subseteq> dom (parts h5)" using lk4(2) by (auto simp: h5_def)
    from unlock_same [OF lf(1) this] obtain h6 where u: "unlock_part lk1 h5 = Some h6" "heap_ok (add_mset g1 R) h6"
      "same (dom (parts h5)) h5 h6" "locks h6 = locks h5 - set_option lk1" .
    have hx6: "hext (dom (parts h5)) h5 h6" by (rule same_hext [OF u(3) heap_okD(2) [OF lf(1)]])
    have dom5: "dom (parts h4) \<subseteq> dom (parts h5)" by (auto simp: h5_def)
    have "hext (dom (parts h4)) h4 h6" by (rule hext_trans [OF hx hext_subset [OF hx6 dom5]])
    moreover have "reach h R \<subseteq> dom (parts h4)" using sm by (auto simp: same_def)
    ultimately have "hext (reach h R) h h6" using same_hext [OF sm D] by (blast intro: hext_trans hext_subset)
    moreover have "locks h6 \<subseteq> locks h" using u(4) lf(4) lk4(1) by auto
    ultimately have fr: "framed R h h6" by (simp add: framed_def)
    have "reach h5 (add_mset g1 R) \<subseteq> dom (parts h5)" using reach_dom [OF heap_okD(1) [OF lf(1)]] by auto
    then have d6: "denotes h6 r' (bs1 @ bs2)" using denotes_hext [OF d5 hext_subset [OF hx6]] g(1) by (simp add: r'_def)
    have "view R h6 r' (bs1 @ bs2)" using u(2) d6 framed_locks [OF fr lk] g(1) by (simp add: view_def r'_def)
    moreover have "rwm_union r1 r2 h = Some (r', h6)"
      using l1 f2 q l(1) g updl inc dec u(1) by (auto simp: rwm_union_def Let_def rwm_free_def r'_def)
    ultimately show ?thesis using fr by (intro that [of r' h6])
  qed
qed

end
