(* ===== verification/Msg_Front.thy ===== *)
theory Msg_Front
  imports Msg_Whole
begin

text \<open>Bytes in front of a message.\<close>

subsection \<open>New parts in front\<close>

text \<open>The offset in the structure of the message may be behind that of the part: the loop sets it at its end.\<close>

definition prependable :: "nat multiset \<Rightarrow> msg_heap \<Rightarrow> raw_message \<Rightarrow> bytes \<Rightarrow> bool" where
  "prependable R h r bs \<longleftrightarrow> (case rm_first r of None \<Rightarrow> view R h r bs
     | Some f \<Rightarrow> \<exists>mf. parts h f = Some mf \<and> view R h (r\<lparr>rm_first_offset := mp_offset mf\<rparr>) bs)"

lemma prependable_view:
  assumes "prependable R h r bs"
  shows "heap_ok (R + root (rm_first r)) h" "locks h \<subseteq> reach h R"
  using assms by (auto simp: prependable_def view_def split: option.splits)

lemma opened_prependable: "view R h r bs \<Longrightarrow> rm_first r = Some f \<Longrightarrow> opened h r \<Longrightarrow> prependable R h r bs"
  by (cases r) (auto simp: prependable_def opened_def)

lemma front_part_ok:
  assumes p: "prependable R h r bs"
    and new: "heap_ok (add_mset (next_part h) (R + root (rm_first r))) (with_part p' b off ds (fresh_part b None off e) h)"
      "added (next_part h) (fresh_part b None off e) h (with_part p' b off ds (fresh_part b None off e) h)"
      "links (with_part p' b off ds (fresh_part b None off e) h) = links h"
    and fits: "off + length ds \<le> ptr_size p' b" "e = off + length ds"
  defines "h' \<equiv> with_part p' b off ds (fresh_part b (rm_first r) off e) h"
    and "r' \<equiv> (if rm_last r = None then r\<lparr>rm_first := Some (next_part h), rm_total := rm_total r + length ds, rm_last := Some (next_part h), rm_last_offset := e\<rparr>
               else r\<lparr>rm_first := Some (next_part h), rm_total := rm_total r + length ds\<rparr>)"
  shows "prependable R h' r' (ds @ bs)" "view R h' (r'\<lparr>rm_first_offset := off\<rparr>) (ds @ bs)" "framed R h h'"
proof -
  let ?n = "next_part h" and ?fp = "fresh_part b (rm_first r) off e" and ?d = "overwrite off ds (replicate (ptr_size p' b) 0)"
  let ?h1 = "with_part p' b off ds (fresh_part b None off e) h"
  note pv = prependable_view [OF p]
  have none: "parts h ?n = None" using new(2) by (simp add: added_def)
  have n': "parts h' ?n = Some ?fp" by (simp add: h'_def)
  have h': "h' = ?h1\<lparr>parts := (parts ?h1)(?n \<mapsto> ?fp)\<rparr>" by (simp add: h'_def with_part_def)
  have bd: "bdata h' = bdata ?h1" unfolding h' by (simp add: bdata_def fun_eq_iff)
  have bdn: "bdata h' b = Some ?d" by (simp add: h'_def)
  have sm: "same (dom (parts h)) h h'"
  proof (rule sameI)
    show "parts h' x = parts h x" if "x \<in> dom (parts h)" for x using that none by (auto simp: h'_def)
    show "bdata h' (mp_part mx) = bdata h (mp_part mx)" if "parts h x = Some mx" for x mx
      unfolding bd using new(2) that by (simp add: added_def)
  qed simp
  have lk: "locks h' = locks h" using none by (auto simp: locks_def h'_def split: if_splits)
  have sub: "reach h R \<subseteq> dom (parts h)" by (rule reach_parts [OF pv(1)])
  have smR: "same (reach h R) h h'" by (rule same_subset [OF sm sub])
  have D: "data_ok h" by (rule heap_okD(2) [OF pv(1)])
  show fr: "framed R h h'" using same_hext [OF smR D] lk by (simp add: framed_def)
  have ok: "heap_ok (add_mset ?n R) h'"
  proof (cases "rm_first r")
    case None
    then show ?thesis using new(1) by (simp add: h'_def)
  next
    case (Some f)
    have ok1: "heap_ok (add_mset f (add_mset ?n R)) ?h1" using new(1) Some by (simp add: add_mset_commute)
    have "f \<in> dom (parts h)" using heap_okD(1) [OF pv(1)] Some by (auto simp: refs_ok_def)
    then have "f \<noteq> ?n" using none by auto
    then have "(f, ?n) \<notin> (links ?h1)\<^sup>*" unfolding new(3) by (rule unreferenced [OF heap_okD(1) [OF pv(1)] none])
    from link_fresh_ok(1) [OF ok1 _ _ this, of "fresh_part b None off e"] show ?thesis unfolding h' using Some by simp
  qed
  have pa: "part_at h' ?n ?fp ?d" using n' bdn by (simp add: part_at_def)
  have sl: "slice off e ?d = ds" using overwrite_slice [of off ds "replicate (ptr_size p' b) 0"] fits by simp
  have oe: "off \<le> e" using fits by simp
  have lkr: "locks h' \<subseteq> reach h' R" using lk pv(2) reach_same [OF smR] by simp
  show v: "view R h' (r'\<lparr>rm_first_offset := off\<rparr>) (ds @ bs)"
  proof (cases "rm_first r")
    case None
    then have vr: "denotes h r bs" using p by (simp add: prependable_def view_def)
    then have e0: "rm_last r = None" "bs = []" "rm_total r = 0" using denotes_None None by auto
    have "seg h' [?n] off e ds" using seg_last [OF pa, of off e] oe sl by simp
    then show ?thesis by (intro viewI [OF ok, of "[?n]"]) (use e0 lkr in \<open>simp_all add: r'_def\<close>)
  next
    case (Some f)
    with p obtain mf where mf: "parts h f = Some mf" "view R h (r\<lparr>rm_first_offset := mp_offset mf\<rparr>) bs" by (auto simp: prependable_def)
    obtain ps where ps: "seg h ps (mp_offset mf) (rm_last_offset r) bs" "ps \<noteq> []" "hd ps = f" "rm_last r = Some (last ps)" "rm_total r = length bs"
      using viewE [OF mf(2), of f] Some by auto
    have "set ps \<subseteq> dom (parts h)" using seg_part [OF ps(1)] by (auto simp: part_at_def)
    then have s1: "seg h' ps (mp_offset mf) (rm_last_offset r) bs" using seg_hext [OF same_hext [OF sm D] ps(1)] by simp
    have "parts h' f = Some mf" using mf(1) none by (auto simp: h'_def)
    then have "seg h' (?n # ps) off (rm_last_offset r) (slice off e ?d @ bs)"
      using seg_prepend [OF pa, of off f mf ps] s1 ps(3) oe Some by simp
    then show ?thesis by (intro viewI [OF ok, of "?n # ps"]) (use ps sl lkr in \<open>simp_all add: r'_def\<close>)
  qed
  have "rm_first r' = Some ?n" by (simp add: r'_def)
  then show "prependable R h' r' (ds @ bs)" using v n' by (simp add: prependable_def)
qed

lemma push_front_parts_ok:
  "prependable R h r bs \<Longrightarrow> ds \<noteq> [] \<Longrightarrow>
   (\<exists>h'. push_front_parts ds r h = Some (Inl h') \<and> (out_of_buffers MSG_SMALL_BUFFER (pool h') \<or> out_of_buffers MSG_STD_BUFFER (pool h')) \<and> framed R h h') \<or>
   (\<exists>r' h'. push_front_parts ds r h = Some (Inr (r', h')) \<and> view R h' r' (ds @ bs) \<and> framed R h h')"
proof (induction "length ds" arbitrary: ds r h bs rule: less_induct)
  case less
  let ?hint = "if length ds \<ge> MSG_SMALL_BUFFER then MSG_STD_BUFFER else MSG_SMALL_BUFFER"
  note pv = prependable_view [OF less.prems(1)]
  have still: "framed R h h" using same_hext [OF same_refl [OF reach_parts [OF pv(1)]] heap_okD(2) [OF pv(1)]] by (simp add: framed_def)
  obtain nb where nb: "(case rm_first r of None \<Rightarrow> Some None | Some f \<Rightarrow> map_option (\<lambda>m. Some (mp_part m)) (parts h f)) = Some nb"
    "\<And>b. nb = Some b \<Longrightarrow> b \<in> dom (bufs h)"
  proof (cases "rm_first r")
    case (Some f)
    then obtain mf where mf: "parts h f = Some mf" using heap_okD(1) [OF pv(1)] by (auto simp: refs_ok_def)
    then show ?thesis using Some data_okD(5) [OF heap_okD(2) [OF pv(1)] mf] by (intro that [of "Some (mp_part mf)"]) auto
  qed (auto intro: that [of None])
  show ?case
  proof (rule new_data_part_ok [OF pv(1), of nb ?hint])
    assume 1: "new_buffer nb ?hint h = Some (None, h)" "out_of_buffers ?hint (pool h)"
    then have "push_front_parts ds r h = Some (Inl h)" using nb(1) by (subst push_front_parts.simps) simp
    then show ?thesis using 1(2) still by (auto split: if_splits)
  next
    fix b p' h1
    assume 2: "new_buffer nb ?hint h = Some (Some b, h1)"
      "h1 = h\<lparr>pool := p', bufs := (bufs h)(b \<mapsto> \<lparr>buf_refcnt = 1, buf_data = replicate (ptr_size p' b) 0\<rparr>)\<rparr>"
      "0 < ptr_size p' b" "?hint \<le> 262144 \<longrightarrow> ?hint \<le> ptr_size p' b"
      "\<forall>off bs e. off + length bs \<le> ptr_size p' b \<longrightarrow> e = off + length bs \<longrightarrow>
         heap_ok (add_mset (next_part h) (R + root (rm_first r))) (with_part p' b off bs (fresh_part b None off e) h) \<and>
         added (next_part h) (fresh_part b None off e) h (with_part p' b off bs (fresh_part b None off e) h) \<and>
         links (with_part p' b off bs (fresh_part b None off e) h) = links h"
    define size where "size = ptr_size p' b"
    define n where "n = min size (length ds)"
    define sfx where "sfx = drop (length ds - n) ds"
    have n: "0 < n" "n \<le> size" "n \<le> length ds" "length sfx = n" using 2(3) less.prems(2) by (auto simp: n_def size_def sfx_def)
    have fit: "(size - n) + length sfx \<le> ptr_size p' b" "size = (size - n) + length sfx" using n by (simp_all add: size_def)
    note w = 2(5) [rule_format, OF fit]
    note fp = front_part_ok [OF less.prems(1) conjunct1 [OF w] conjunct1 [OF conjunct2 [OF w]] conjunct2 [OF conjunct2 [OF w]] fit]
    let ?n = "next_part h" and ?h = "with_part p' b (size - n) sfx (fresh_part b (rm_first r) (size - n) size) h"
    define r' where "r' = (if rm_last r = None then r\<lparr>rm_first := Some ?n, rm_total := rm_total r + n, rm_last := Some ?n, rm_last_offset := size\<rparr>
               else r\<lparr>rm_first := Some ?n, rm_total := rm_total r + n\<rparr>)"
    note fp = fp [unfolded n(4), folded r'_def]
    have h1: "next_part h1 = ?n" "parts h1 = parts h" unfolding 2(2) by simp_all
    note wb = write_buf_with_part [OF 2(2) fit(1)]
    have step: "push_front_parts ds r h = (if length ds > size then push_front_parts (take (length ds - n) ds) r' ?h else Some (Inr (r'\<lparr>rm_first_offset := size - n\<rparr>, ?h)))"
      using nb(1) 2(1) wb(2)
      by (subst push_front_parts.simps)
        (simp add: Let_def new_msg_part_eq h1 size_def [symmetric] n_def [symmetric] sfx_def [symmetric] r'_def
          wb(1) [where mp = "fresh_part b (rm_first r) (size - n) size", unfolded Suc_eq_plus1 [symmetric]])
    show ?thesis
    proof (cases "length ds > size")
      case False
      then have "n = length ds" by (simp add: n_def)
      then have "sfx = ds" by (simp add: sfx_def)
      then show ?thesis using step False fp(2,3) by auto
    next
      case True
      let ?ds = "take (length ds - n) ds"
      have "?ds @ sfx = ds" by (simp add: sfx_def)
      then have cat: "?ds @ sfx @ bs = ds @ bs" by (metis append.assoc)
      have "length ?ds < length ds" "?ds \<noteq> []" using n True 2(3) by (auto simp: n_def size_def)
      from less.hyps [OF this(1) fp(1) this(2)] show ?thesis unfolding cat using step True framed_trans [OF fp(3)] by auto
    qed
  qed (use nb(2) in auto)
qed


subsection \<open>Room in front of the first part\<close>

lemma fill_first_ok:
  assumes v: "view R h r bs" and f: "rm_first r = Some f" "parts h f = Some mf" "mp_refcnt mf = 1" "mp_offset mf = rm_first_offset r"
    and mb: "bufs h (mp_part mf) = Some mb" "buf_refcnt mb = 1" and ds: "length ds \<le> rm_first_offset r"
  defines "off \<equiv> rm_first_offset r - length ds"
  obtains h1 h2 where "write_buf (mp_part mf) off ds h = Some h1" "upd_part f (\<lambda>m. m\<lparr>mp_offset := off\<rparr>) h1 = Some h2"
    "view R h2 (r\<lparr>rm_first_offset := off, rm_total := rm_total r + length ds\<rparr>) (ds @ bs)" "kept R h h2"
    "opened h2 (r\<lparr>rm_first_offset := off, rm_total := rm_total r + length ds\<rparr>)"
proof -
  let ?fo = "rm_first_offset r" and ?b = "mp_part mf" and ?mf = "mf\<lparr>mp_offset := off\<rparr>" and ?d = "overwrite off ds (buf_data mb)"
  obtain ps where ps: "heap_ok (add_mset f R) h" "seg h ps ?fo (rm_last_offset r) bs" "ps \<noteq> []" "hd ps = f" "rm_last r = Some (last ps)"
    "rm_total r = length bs" "locks h \<subseteq> reach h R" "distinct ps" by (rule viewE [OF v f(1)])
  note D = data_okD [OF heap_okD(2) [OF ps(1)]]
  have in_buf: "?fo \<le> mp_data_end mf" "mp_data_end mf \<le> length (buf_data mb)" using D(4) [OF f(2)] mb f(4) by (auto simp: part_in_buffer_def)
  have fit: "off + length ds = ?fo" "off + length ds \<le> length (buf_data mb)" using ds in_buf by (simp_all add: off_def)
  define h1 where "h1 = h\<lparr>bufs := (bufs h)(?b \<mapsto> mb\<lparr>buf_data := ?d\<rparr>)\<rparr>"
  define h2 where "h2 = h1\<lparr>parts := (parts h)(f \<mapsto> ?mf)\<rparr>"
  have w1: "write_buf ?b off ds h = Some h1" using mb fit by (simp add: write_buf_def h1_def)
  have w2: "upd_part f (\<lambda>m. m\<lparr>mp_offset := off\<rparr>) h1 = Some h2" using f(2) by (simp add: upd_part_def h1_def h2_def)
  have "data_ok h1" unfolding h1_def by (rule data_ok_write [OF heap_okD(2) [OF ps(1)] mb(1)]) (rule overwrite_length [OF fit(2)])
  moreover have "parts h1 = parts h" by (simp add: h1_def)
  moreover have "part_in_buffer h1 ?mf" using in_buf fit by (simp add: part_in_buffer_def h1_def)
  ultimately have "data_ok h2" using data_ok_upd [of h1 f mf ?mf] f(2) by (simp add: h2_def)
  moreover have "refs_ok (add_mset f R) h2"
    using refs_ok_heap [OF refs_ok_upd [OF heap_okD(1) [OF ps(1)] f(2), of ?mf], of h2] by (simp add: h2_def h1_def)
  ultimately have ok2: "heap_ok (add_mset f R) h2" by (simp add: heap_ok_def)
  have others: "mp_part mx \<noteq> ?b" if "parts h x = Some mx" "x \<noteq> f" for x mx
  proof -
    have "card (users h ?b) = 1" using D(3) [OF mb(1)] mb(2) by (simp add: buf_counted_def)
    then obtain y where "users h ?b = {y}" by (auto simp: card_1_singleton_iff)
    moreover have "f \<in> users h ?b" using f(2) by (simp add: users_def)
    ultimately show ?thesis using that by (auto simp: users_def)
  qed
  have sm: "same (dom (parts h) - {f}) h h2"
    by (rule sameI) (use others in \<open>auto simp: h2_def h1_def bdata_def\<close>)
  have far: "f \<notin> reach h R" by (rule own_first [OF ps(1) f(2,3)])
  have "reach h R \<subseteq> dom (parts h) - {f}" using reach_parts [of R "{#f#}" h] ps(1) far by auto
  then have smR: "same (reach h R) h h2" by (rule same_subset [OF sm])
  have lk: "locks h2 = locks h" using f(2) by (auto simp: locks_def h2_def h1_def split: if_splits)
  have k: "kept R h h2" using smR lk by (simp add: kept_def)
  have pf: "part_at h2 f ?mf ?d" by (simp add: part_at_def h2_def h1_def bdata_def)
  have front: "slice off ?fo ?d = ds" using overwrite_slice [OF fit(2)] fit(1) by simp
  have behind: "slice ?fo e ?d = slice ?fo e (buf_data mb)" for e using overwrite_slice_behind [of off ds ?fo] fit by simp
  have join: "ds @ slice ?fo e (buf_data mb) = slice off e ?d" if "?fo \<le> e" for e
    using slice_append [of off ?fo e ?d] front behind fit(1) that by simp
  have "seg h2 ps off (rm_last_offset r) (ds @ bs)"
    using ps(2)
  proof (cases rule: seg_headE)
    case (1 p mp d)
    then have e: "p = f" "mp = mf" "d = buf_data mb" using ps(4) f(2) mb(1) by (auto simp: part_at_def bdata_def)
    show ?thesis unfolding 1(1,6) e join [OF 1(4)] by (rule seg_last [OF pf]) (use 1 e fit(1) in simp_all)
  next
    case (2 p q qs mp d mq bs')
    then have e: "p = f" "mp = mf" "d = buf_data mb" using ps(4) f(2) mb(1) by (auto simp: part_at_def bdata_def)
    have nf: "f \<notin> set (q # qs)" using ps(8) 2(1) e(1) by simp
    then have "set (q # qs) \<subseteq> dom (parts h) - {f}" using seg_part [OF 2(7)] by (auto simp: part_at_def)
    then have s2: "seg h2 (q # qs) (mp_offset mq) (rm_last_offset r) bs'"
      using seg_hext [OF same_hext [OF sm heap_okD(2) [OF ps(1)]] 2(7)] by simp
    have mq: "parts h2 q = Some mq" using 2(6) nf by (simp add: h2_def)
    have "seg h2 (f # q # qs) off (rm_last_offset r) (slice off (mp_data_end mf) ?d @ bs')"
      using seg_cons [OF pf, of off q mq qs "rm_last_offset r" bs'] 2 e fit(1) s2 mq by simp
    then show ?thesis unfolding 2(1,8) e join [OF in_buf(1), symmetric] by simp
  qed
  then have "view R h2 (r\<lparr>rm_first_offset := off, rm_total := rm_total r + length ds\<rparr>) (ds @ bs)"
    by (intro viewI [OF ok2, of ps]) (use f(1) ps(4-6) kept_locks [OF k ps(7)] in simp_all)
  moreover have "opened h2 (r\<lparr>rm_first_offset := off, rm_total := rm_total r + length ds\<rparr>)" using f(1) by (simp add: opened_def h2_def)
  ultimately show ?thesis using w1 w2 k by (intro that [of h1 h2])
qed

lemma push_front_ok:
  assumes v: "view R h r bs"
  shows "(\<exists>h'. rwm_push_data_front r ds h = Some (Inl h') \<and> (out_of_buffers MSG_SMALL_BUFFER (pool h') \<or> out_of_buffers MSG_STD_BUFFER (pool h')) \<and> framed R h h') \<or>
   (\<exists>r' h'. rwm_push_data_front r ds h = Some (Inr (r', h')) \<and> view R h' r' (ds @ bs) \<and> framed R h h')"
proof (cases "ds = []")
  case True
  then show ?thesis using v view_still [OF v] by (simp add: rwm_push_data_front_def)
next
  case ne: False
  show ?thesis
  proof (cases "rm_first r")
    case None
    then have "prependable R h r bs" using v by (simp add: prependable_def)
    then show ?thesis using push_front_parts_ok [of R h r bs ds] ne None by (simp add: rwm_push_data_front_def)
  next
    case (Some f)
    have D: "data_ok h" using v by (simp add: view_def heap_ok_def)
    obtain r1 h1 where l: "rwm_lock_first_part r h = Some (r1, h1)" "view R h1 r1 bs" "same (reach h R) h h1" "locks h1 \<subseteq> locks h"
      "opened h1 r1" "rm_first r1 \<noteq> None" by (rule lock_first_ok [OF v Some])
    have k1: "framed R h h1" using l(3,4) D by (intro kept_framed) (simp_all add: kept_def)
    obtain g where g: "rm_first r1 = Some g" using l(6) by blast
    obtain mg where mg: "parts h1 g = Some mg" "mp_offset mg = rm_first_offset r1" using l(5) g by (auto simp: opened_def)
    have D1: "data_ok h1" using l(2) by (simp add: view_def heap_ok_def)
    obtain mb where mb: "bufs h1 (mp_part mg) = Some mb" using data_okD(5) [OF D1 mg(1)] by blast
    note base = ne Some l(1) g mg mb
    show ?thesis
    proof (cases "buf_refcnt mb = 1 \<and> mp_refcnt mg = 1")
      case False
      then have "rwm_push_data_front r ds h = push_front_parts ds r1 h1" using base by (auto simp: rwm_push_data_front_def)
      then show ?thesis using push_front_parts_ok [OF opened_prependable [OF l(2) g l(5)] ne] framed_trans [OF k1] by auto
    next
      case own: True
      define n where "n = min (rm_first_offset r1) (length ds)"
      define sfx where "sfx = drop (length ds - n) ds"
      have n: "n \<le> length ds" "length sfx = n" "length sfx \<le> rm_first_offset r1" by (simp_all add: n_def sfx_def)
      let ?r = "r1\<lparr>rm_first_offset := rm_first_offset r1 - n, rm_total := rm_total r1 + n\<rparr>"
      obtain h2 h3 where w: "write_buf (mp_part mg) (rm_first_offset r1 - n) sfx h1 = Some h2"
        "upd_part g (\<lambda>m. m\<lparr>mp_offset := rm_first_offset r1 - n\<rparr>) h2 = Some h3" "view R h3 ?r (sfx @ bs)" "kept R h1 h3" "opened h3 ?r"
        using fill_first_ok [OF l(2) g mg(1) _ mg(2) mb _ n(3)] own unfolding n(2) by blast
      have k3: "framed R h h3" by (rule framed_trans [OF k1 kept_framed [OF w(4) D1]])
      have step: "rwm_push_data_front r ds h =
          (if length ds > n then push_front_parts (take (length ds - n) ds) ?r h3 else Some (Inr (?r, h3)))"
        using base own w(1,2) by (simp add: rwm_push_data_front_def Let_def n_def [symmetric] sfx_def [symmetric])
      show ?thesis
      proof (cases "length ds > n")
        case True
        let ?ds = "take (length ds - n) ds"
        have "?ds @ sfx = ds" by (simp add: sfx_def)
        then have cat: "?ds @ sfx @ bs = ds @ bs" by (metis append.assoc)
        have "prependable R h3 ?r (sfx @ bs)" by (rule opened_prependable [OF w(3) _ w(5)]) (use g in simp)
        moreover have "?ds \<noteq> []" using True by auto
        ultimately show ?thesis using push_front_parts_ok [of R h3 ?r "sfx @ bs" ?ds] step True framed_trans [OF k3] unfolding cat by auto
      next
        case False
        then have "sfx = ds" using n by (simp add: sfx_def)
        then show ?thesis using step False w(3) k3 by simp
      qed
    qed
  qed
qed

end
