(* ===== verification/Msg_System.thy ===== *)
theory Msg_System
  imports Msg_Front
begin

text \<open>All messages of a program together, and sequences of operations on them.\<close>

subsection \<open>Several messages\<close>

definition roots :: "raw_message list \<Rightarrow> nat multiset" where
  "roots rs = sum_list (map (\<lambda>r. root (rm_first r)) rs)"

text \<open>The messages \<open>rs\<close> stand for the byte sequences \<open>bss\<close>, and there are no other references to parts.\<close>

definition holds :: "raw_message list \<Rightarrow> bytes list \<Rightarrow> msg_heap \<Rightarrow> bool" where
  "holds rs bss h \<longleftrightarrow> heap_ok (roots rs) h \<and> list_all2 (denotes h) rs bss \<and> locks h = {}"

lemma holds_length: "holds rs bss h \<Longrightarrow> length bss = length rs"
  using list_all2_lengthD [of "denotes h" rs bss] by (simp add: holds_def)

lemma roots_simps [simp]: "roots [] = {#}" "roots (r # rs) = root (rm_first r) + roots rs" "roots (xs @ ys) = roots xs + roots ys"
  by (simp_all add: roots_def)

lemma empty_rwm_first [simp]: "rm_first empty_rwm = None"
  by (simp add: empty_rwm_def)

lemma roots_update: "i < length rs \<Longrightarrow> roots (rs[i := r]) = roots (rs[i := empty_rwm]) + root (rm_first r)"
  by (induction rs arbitrary: i) (auto split: nat.splits simp: ac_simps)

lemma roots_nth: "i < length rs \<Longrightarrow> roots rs = roots (rs[i := empty_rwm]) + root (rm_first (rs ! i))"
  using roots_update [of i rs "rs ! i"] by simp

lemma root_in_roots: "r \<in> set rs \<Longrightarrow> set_mset (root (rm_first r)) \<subseteq> set_mset (roots rs)"
  by (induction rs) auto

text \<open>The heap is changed within its frame: messages that were not touched keep their bytes.\<close>

lemma holds_frame:
  assumes h: "holds rs bss h" and fr: "framed R h h'" and ok: "heap_ok (roots rs') h'" and len: "length bss' = length rs'"
    and each: "\<And>j. j < length rs' \<Longrightarrow> denotes h' (rs' ! j) (bss' ! j) \<or>
      (j < length rs \<and> rs' ! j = rs ! j \<and> bss' ! j = bss ! j \<and> set_mset (root (rm_first (rs ! j))) \<subseteq> set_mset R)"
  shows "holds rs' bss' h'"
proof -
  have "denotes h' (rs' ! j) (bss' ! j)" if "j < length rs'" for j
    using each [OF that]
  proof
    assume j: "j < length rs \<and> rs' ! j = rs ! j \<and> bss' ! j = bss ! j \<and> set_mset (root (rm_first (rs ! j))) \<subseteq> set_mset R"
    then have "denotes h (rs ! j) (bss ! j)" using h by (auto simp: holds_def list_all2_conv_all_nth)
    then have "denotes h' (rs ! j) (bss ! j)" by (rule denotes_hext [where R = R]) (use fr j in \<open>simp_all add: framed_def\<close>)
    then show ?thesis using j by simp
  qed
  then show ?thesis using h fr ok len by (auto simp: holds_def list_all2_conv_all_nth framed_def)
qed

lemma holds_view:
  assumes "holds rs bss h" "i < length rs"
  shows "view (roots (rs[i := empty_rwm])) h (rs ! i) (bss ! i)"
  using assms roots_nth [OF assms(2), symmetric] by (simp add: holds_def view_def list_all2_conv_all_nth)

lemma root_other: "j < length rs \<Longrightarrow> j \<noteq> i \<Longrightarrow> set_mset (root (rm_first (rs ! j))) \<subseteq> set_mset (roots (rs[i := empty_rwm]))"
  using root_in_roots [of "rs ! j" "rs[i := empty_rwm]"] nth_mem [of j "rs[i := empty_rwm]"] by simp

lemma holds_update:
  assumes h: "holds rs bss h" and i: "i < length rs"
    and v: "view (roots (rs[i := empty_rwm])) h' r' bs'" and fr: "framed (roots (rs[i := empty_rwm])) h h'"
  shows "holds (rs[i := r']) (bss[i := bs']) h'"
proof (rule holds_frame [OF h fr])
  have len: "length bss = length rs" by (rule holds_length [OF h])
  show "heap_ok (roots (rs[i := r'])) h'" using v roots_update [OF i, of r'] by (simp add: view_def)
  show "length (bss[i := bs']) = length (rs[i := r'])" using len by simp
  fix j assume "j < length (rs[i := r'])"
  then show "denotes h' (rs[i := r'] ! j) (bss[i := bs'] ! j) \<or> (j < length rs \<and> rs[i := r'] ! j = rs ! j \<and> bss[i := bs'] ! j = bss ! j \<and>
      set_mset (root (rm_first (rs ! j))) \<subseteq> set_mset (roots (rs[i := empty_rwm])))"
    using v len i root_other [of j rs i] by (cases "i = j") (auto simp: view_def)
qed

text \<open>A message becomes two, the second of which is new.\<close>

lemma holds_extend:
  assumes h: "holds rs bss h" and i: "i < length rs"
    and p: "pair (roots (rs[i := empty_rwm])) h' r1 bs1 r2 bs2" and fr: "framed (roots (rs[i := empty_rwm])) h h'"
  shows "holds (rs[i := r1] @ [r2]) (bss[i := bs1] @ [bs2]) h'"
proof (rule holds_frame [OF h fr])
  have len: "length bss = length rs" by (rule holds_length [OF h])
  show "heap_ok (roots (rs[i := r1] @ [r2])) h'" using p roots_update [OF i, of r1] by (simp add: pair_def)
  show "length (bss[i := bs1] @ [bs2]) = length (rs[i := r1] @ [r2])" using len by simp
  fix j assume "j < length (rs[i := r1] @ [r2])"
  then show "denotes h' ((rs[i := r1] @ [r2]) ! j) ((bss[i := bs1] @ [bs2]) ! j) \<or> (j < length rs \<and> (rs[i := r1] @ [r2]) ! j = rs ! j \<and>
      (bss[i := bs1] @ [bs2]) ! j = bss ! j \<and> set_mset (root (rm_first (rs ! j))) \<subseteq> set_mset (roots (rs[i := empty_rwm])))"
    using p len i root_other [of j rs i] by (cases "i = j") (auto simp: pair_def nth_append less_Suc_eq)
qed

text \<open>A new message.\<close>

lemma holds_empty:
  assumes "holds rs bss h"
  shows "holds (rs @ [empty_rwm]) (bss @ [[]]) h"
proof -
  have "denotes h empty_rwm []" by (simp add: denotes_def empty_rwm_def)
  then have "list_all2 (denotes h) (rs @ [empty_rwm]) (bss @ [[]])" using assms by (intro list_all2_appendI) (simp_all add: holds_def)
  then show ?thesis using assms by (simp add: holds_def)
qed

lemma holds_pair:
  assumes "holds rs bss h" "i < length rs" "j < length rs" "i \<noteq> j"
  shows "pair (roots (rs[i := empty_rwm, j := empty_rwm])) h (rs ! i) (bss ! i) (rs ! j) (bss ! j)"
proof -
  have "roots rs = roots (rs[i := empty_rwm, j := empty_rwm]) + root (rm_first (rs ! j)) + root (rm_first (rs ! i))"
    using roots_nth [OF assms(2)] roots_nth [of j "rs[i := empty_rwm]"] assms(3,4) by simp
  then show ?thesis using assms by (simp add: holds_def pair_def list_all2_conv_all_nth add.commute add.left_commute)
qed

text \<open>Two messages become one.\<close>

lemma holds_join:
  assumes h: "holds rs bss h" and ij: "i < length rs" "j < length rs" "i \<noteq> j"
    and v: "view (roots (rs[i := empty_rwm, j := empty_rwm])) h' r' bs'" and fr: "framed (roots (rs[i := empty_rwm, j := empty_rwm])) h h'"
  shows "holds (rs[i := r', j := empty_rwm]) (bss[i := bs', j := []]) h'"
proof (rule holds_frame [OF h fr])
  let ?rs = "rs[j := empty_rwm]"
  have len: "length bss = length rs" by (rule holds_length [OF h])
  have "roots (?rs[i := r']) = roots (?rs[i := empty_rwm]) + root (rm_first r')" using ij by (intro roots_update) simp
  then show "heap_ok (roots (rs[i := r', j := empty_rwm])) h'" using v ij(3) by (simp add: view_def list_update_swap)
  show "length (bss[i := bs', j := []]) = length (rs[i := r', j := empty_rwm])" using len by simp
  fix k assume "k < length (rs[i := r', j := empty_rwm])"
  moreover have "k \<noteq> i \<Longrightarrow> k \<noteq> j \<Longrightarrow> k < length rs \<Longrightarrow> set_mset (root (rm_first (rs ! k))) \<subseteq> set_mset (roots (rs[i := empty_rwm, j := empty_rwm]))"
    using root_other [of k "rs[i := empty_rwm]" j] by simp
  moreover have "denotes h' empty_rwm []" by (simp add: denotes_def empty_rwm_def)
  ultimately show "denotes h' (rs[i := r', j := empty_rwm] ! k) (bss[i := bs', j := []] ! k) \<or>
      (k < length rs \<and> rs[i := r', j := empty_rwm] ! k = rs ! k \<and> bss[i := bs', j := []] ! k = bss ! k \<and>
      set_mset (root (rm_first (rs ! k))) \<subseteq> set_mset (roots (rs[i := empty_rwm, j := empty_rwm])))"
    using v len ij by (cases "k = j"; cases "k = i") (auto simp: view_def)
qed

text \<open>Without messages there is nothing in the heap.\<close>

lemma heap_ok_empty:
  assumes "heap_ok {#} h"
  shows "parts h = Map.empty" "used (pool h) = {}"
proof -
  note ok = heap_okD [OF assms]
  have fin: "finite (links h)" using ok(1)
    by (intro finite_subset [of "links h" "dom (parts h) \<times> dom (parts h)"]) (force simp: refs_ok_def links_def, simp add: refs_ok_def)
  have wf: "wf (links h)" by (rule finite_acyclic_wf [OF fin]) (use ok(1) in \<open>simp add: refs_ok_def\<close>)
  have "parts h p = None" for p
    using wf
  proof (induction p rule: wf_induct_rule)
    case (less p)
    show ?case
    proof (rule ccontr)
      assume "parts h p \<noteq> None"
      then obtain mp where mp: "parts h p = Some mp" by blast
      then have "0 < card (preds h p)" using refs_okD [OF ok(1) mp] by (simp add: counted_def refcount_def)
      then obtain q where "(q, p) \<in> links h" by (auto simp: card_gt_0_iff preds_def)
      moreover from this have "parts h q \<noteq> None" by (auto simp: links_def)
      ultimately show False using less.IH by simp
    qed
  qed
  then show e: "parts h = Map.empty" by auto
  have "bufs h b = None" for b
  proof (rule ccontr)
    assume "bufs h b \<noteq> None"
    then obtain mb where mb: "bufs h b = Some mb" by blast
    then show False using data_okD(3) [OF ok(2) mb] e by (simp add: buf_counted_def users_def)
  qed
  then have "dom (bufs h) = {}" by auto
  then show "used (pool h) = {}" using data_okD(2) [OF ok(2)] by simp
qed


subsection \<open>Operations on the messages of a program\<close>

datatype rwm_op =
    Create bytes
  | Clone nat
  | Free nat
  | Push nat bytes
  | Push_front nat bytes
  | Fetch nat nat
  | Lookup nat nat
  | Skip nat nat
  | Fetch_back nat nat
  | Trunc nat nat
  | Split nat nat
  | Union nat nat

text \<open>An operation on the message with the given index; new messages are added at the end.\<close>

fun rwm_step :: "rwm_op \<Rightarrow> raw_message list \<times> msg_heap \<Rightarrow> (bytes \<times> raw_message list \<times> msg_heap) option" where
  "rwm_step (Create bs) (rs, h) = do { (k, r, h) \<leftarrow> rwm_create bs h; Some ([], rs @ [r], h) }"
| "rwm_step (Clone i) (rs, h) = do { (r, h) \<leftarrow> rwm_clone (rs ! i) h; Some ([], rs @ [r], h) }"
| "rwm_step (Free i) (rs, h) = do { h \<leftarrow> rwm_free (rs ! i) h; Some ([], rs[i := empty_rwm], h) }"
| "rwm_step (Push i bs) (rs, h) = do { (k, r, h) \<leftarrow> rwm_push_data (rs ! i) bs h; Some ([], rs[i := r], h) }"
| "rwm_step (Push_front i bs) (rs, h) = do {
     res \<leftarrow> rwm_push_data_front (rs ! i) bs h;
     case res of Inl h \<Rightarrow> None | Inr (r, h) \<Rightarrow> Some ([], rs[i := r], h)
   }"
| "rwm_step (Fetch i n) (rs, h) = do { (k, bs, r, h) \<leftarrow> rwm_fetch_data (rs ! i) n h; Some (bs, rs[i := r], h) }"
| "rwm_step (Lookup i n) (rs, h) = do { (k, bs, r, h) \<leftarrow> rwm_fetch_lookup (rs ! i) n h; Some (bs, rs[i := r], h) }"
| "rwm_step (Skip i n) (rs, h) = do { (k, u, r, h) \<leftarrow> rwm_skip_data (rs ! i) n h; Some ([], rs[i := r], h) }"
| "rwm_step (Fetch_back i n) (rs, h) = do { (k, bs, r, h) \<leftarrow> rwm_fetch_data_back (rs ! i) n h; Some (bs, rs[i := r], h) }"
| "rwm_step (Trunc i n) (rs, h) = do { (k, r, h) \<leftarrow> rwm_trunc (rs ! i) n h; Some ([], rs[i := r], h) }"
| "rwm_step (Split i n) (rs, h) = do { (c, r, t, h) \<leftarrow> rwm_split (rs ! i) empty_rwm n h; Some ([], rs[i := r] @ [t], h) }"
| "rwm_step (Union i j) (rs, h) = do { (r, h) \<leftarrow> rwm_union (rs ! i) (rs ! j) h; Some ([], rs[i := r, j := empty_rwm], h) }"

text \<open>The same on byte sequences.\<close>

fun bytes_step :: "rwm_op \<Rightarrow> bytes list \<Rightarrow> bytes \<times> bytes list" where
  "bytes_step (Create bs) ms = ([], ms @ [bs])"
| "bytes_step (Clone i) ms = ([], ms @ [ms ! i])"
| "bytes_step (Free i) ms = ([], ms[i := []])"
| "bytes_step (Push i bs) ms = ([], ms[i := ms ! i @ bs])"
| "bytes_step (Push_front i bs) ms = ([], ms[i := bs @ ms ! i])"
| "bytes_step (Fetch i n) ms = (take n (ms ! i), ms[i := drop n (ms ! i)])"
| "bytes_step (Lookup i n) ms = (take n (ms ! i), ms)"
| "bytes_step (Skip i n) ms = ([], ms[i := drop n (ms ! i)])"
| "bytes_step (Fetch_back i n) ms = (drop (length (ms ! i) - n) (ms ! i), ms[i := take (length (ms ! i) - n) (ms ! i)])"
| "bytes_step (Trunc i n) ms = ([], ms[i := take n (ms ! i)])"
| "bytes_step (Split i n) ms = ([], ms[i := take n (ms ! i)] @ [drop n (ms ! i)])"
| "bytes_step (Union i j) ms = ([], ms[i := ms ! i @ ms ! j, j := []])"

text \<open>
  What has to hold before an operation: the messages exist, those joined are different, a message is not split at
  its beginning, and for operations that need memory, that there was enough of it.
\<close>

fun rwm_op_ok :: "rwm_op \<Rightarrow> raw_message list \<times> msg_heap \<Rightarrow> bool" where
  "rwm_op_ok (Create bs) (rs, h) \<longleftrightarrow> (case rwm_create bs h of None \<Rightarrow> True | Some (k, r, h) \<Rightarrow> k = length bs)"
| "rwm_op_ok (Push i bs) (rs, h) \<longleftrightarrow> i < length rs \<and> (case rwm_push_data (rs ! i) bs h of None \<Rightarrow> True | Some (k, r, h) \<Rightarrow> k = length bs)"
| "rwm_op_ok (Push_front i bs) (rs, h) \<longleftrightarrow> i < length rs \<and> (case rwm_push_data_front (rs ! i) bs h of Some (Inl h) \<Rightarrow> False | _ \<Rightarrow> True)"
| "rwm_op_ok (Split i n) (rs, h) \<longleftrightarrow> i < length rs \<and> 0 < n"
| "rwm_op_ok (Union i j) (rs, h) \<longleftrightarrow> i < length rs \<and> j < length rs \<and> i \<noteq> j"
| "rwm_op_ok (Clone i) (rs, h) \<longleftrightarrow> i < length rs"
| "rwm_op_ok (Free i) (rs, h) \<longleftrightarrow> i < length rs"
| "rwm_op_ok (Fetch i n) (rs, h) \<longleftrightarrow> i < length rs"
| "rwm_op_ok (Lookup i n) (rs, h) \<longleftrightarrow> i < length rs"
| "rwm_op_ok (Skip i n) (rs, h) \<longleftrightarrow> i < length rs"
| "rwm_op_ok (Fetch_back i n) (rs, h) \<longleftrightarrow> i < length rs"
| "rwm_op_ok (Trunc i n) (rs, h) \<longleftrightarrow> i < length rs"

subsection \<open>Each operation\<close>

lemma holds_data: "holds rs bss h \<Longrightarrow> data_ok h"
  by (simp add: holds_def heap_ok_def)

lemma holds_keep:
  assumes h: "holds rs bss h" and i: "i < length rs"
    and v: "view (roots (rs[i := empty_rwm])) h' r' bs'" and k: "kept (roots (rs[i := empty_rwm])) h h'"
  shows "holds (rs[i := r']) (bss[i := bs']) h'"
  by (rule holds_update [OF h i v kept_framed [OF k holds_data [OF h]]])

lemma push_at:
  assumes h: "holds rs bss h" and i: "i < length rs" and pp: "push_params prepend small std"
  obtains k r' h' where "rwm_push_data_ext (rs ! i) ds prepend small std h = Some (k, r', h')" "k \<le> length ds"
    "holds (rs[i := r']) (bss[i := bss ! i @ take k ds]) h'" "k < length ds \<longrightarrow> out_of_buffers small (pool h') \<or> out_of_buffers std (pool h')"
proof -
  obtain k r' h' where "rwm_push_data_ext (rs ! i) ds prepend small std h = Some (k, r', h')" "k \<le> length ds"
    "view (roots (rs[i := empty_rwm])) h' r' (bss ! i @ take k ds)" "framed (roots (rs[i := empty_rwm])) h h'"
    "k < length ds \<longrightarrow> out_of_buffers small (pool h') \<or> out_of_buffers std (pool h')"
    by (rule push_ext_ok [OF holds_view [OF h i] pp])
  then show ?thesis using holds_update [OF h i] by (intro that) blast+
qed

lemma push_data_params: "push_params RM_PREPEND_RESERVE MSG_SMALL_BUFFER MSG_STD_BUFFER"
  by (simp add: push_params_def RM_PREPEND_RESERVE_def MSG_SMALL_BUFFER_def MSG_STD_BUFFER_def)

lemma create_at:
  assumes h: "holds rs bss h"
  obtains k r' h' where "rwm_create ds h = Some (k, r', h')" "k \<le> length ds" "holds (rs @ [r']) (bss @ [take k ds]) h'"
    "k < length ds \<longrightarrow> out_of_buffers MSG_SMALL_BUFFER (pool h') \<or> out_of_buffers MSG_STD_BUFFER (pool h')"
proof -
  have len: "length bss = length rs" by (rule holds_length [OF h])
  note e = holds_empty [OF h]
  have i: "length rs < length (rs @ [empty_rwm])" by simp
  obtain k r' h' where p: "rwm_push_data_ext ((rs @ [empty_rwm]) ! length rs) ds RM_PREPEND_RESERVE MSG_SMALL_BUFFER MSG_STD_BUFFER h = Some (k, r', h')" "k \<le> length ds"
    "holds ((rs @ [empty_rwm])[length rs := r']) ((bss @ [[]])[length rs := (bss @ [[]]) ! length rs @ take k ds]) h'"
    "k < length ds \<longrightarrow> out_of_buffers MSG_SMALL_BUFFER (pool h') \<or> out_of_buffers MSG_STD_BUFFER (pool h')"
    by (rule push_at [OF e i push_data_params])
  have "(bss @ [[]])[length rs := (bss @ [[]]) ! length rs @ take k ds] = bss @ [take k ds]" unfolding len [symmetric] by simp
  then show ?thesis using p by (intro that [of k r' h']) (simp_all add: rwm_create_def rwm_push_data_def)
qed


lemma clone_at:
  assumes h: "holds rs bss h" and i: "i < length rs"
  obtains h' where "rwm_clone (rs ! i) h = Some (rs ! i, h')" "holds (rs @ [rs ! i]) (bss @ [bss ! i]) h'"
proof -
  obtain h' where c: "rwm_clone (rs ! i) h = Some (rs ! i, h')" "pair (roots (rs[i := empty_rwm])) h' (rs ! i) (bss ! i) (rs ! i) (bss ! i)"
    "kept (roots (rs[i := empty_rwm])) h h'" by (rule clone_ok [OF holds_view [OF h i]])
  have "holds (rs[i := rs ! i] @ [rs ! i]) (bss[i := bss ! i] @ [bss ! i]) h'"
    by (rule holds_extend [OF h i c(2) kept_framed [OF c(3) holds_data [OF h]]])
  then show ?thesis using c(1) by (intro that) simp_all
qed

lemma free_at:
  assumes h: "holds rs bss h" and i: "i < length rs"
  obtains h' where "rwm_free (rs ! i) h = Some h'" "holds (rs[i := empty_rwm]) (bss[i := []]) h'"
proof -
  obtain h' where f: "rwm_free (rs ! i) h = Some h'" "heap_ok (roots (rs[i := empty_rwm])) h'" "kept (roots (rs[i := empty_rwm])) h h'"
    by (rule free_ok [OF holds_view [OF h i]])
  have "locks h' = {}" using f(3) h by (simp add: kept_def holds_def)
  then have "view (roots (rs[i := empty_rwm])) h' empty_rwm []" using f(2) by (simp add: view_def denotes_def empty_rwm_def)
  then show ?thesis using f(1) holds_keep [OF h i _ f(3)] by (intro that) blast+
qed

lemma split_at_ok:
  assumes h: "holds rs bss h" and i: "i < length rs" and n: "n = 0 \<longrightarrow> rm_first (rs ! i) = rm_last (rs ! i)"
  obtains r t h' where "rwm_split (rs ! i) tl0 n h = Some (if n \<le> length (bss ! i) then 0 else - 1, r, t, h')"
    "holds (rs[i := r] @ [t]) (bss[i := take n (bss ! i)] @ [drop n (bss ! i)]) h'"
proof -
  obtain c r t h' where s: "rwm_split (rs ! i) tl0 n h = Some (c, r, t, h')" "pair (roots (rs[i := empty_rwm])) h' r (take n (bss ! i)) t (drop n (bss ! i))"
    "kept (roots (rs[i := empty_rwm])) h h'" "c = (if n \<le> length (bss ! i) then 0 else - 1)"
    by (rule split_ok [OF holds_view [OF h i] n])
  then show ?thesis using holds_extend [OF h i s(2) kept_framed [OF s(3) holds_data [OF h]]] by (intro that) simp_all
qed

lemma union_at:
  assumes h: "holds rs bss h" and ij: "i < length rs" "j < length rs" "i \<noteq> j"
  obtains r h' where "rwm_union (rs ! i) (rs ! j) h = Some (r, h')" "holds (rs[i := r, j := empty_rwm]) (bss[i := bss ! i @ bss ! j, j := []]) h'"
proof -
  obtain r h' where "rwm_union (rs ! i) (rs ! j) h = Some (r, h')" "view (roots (rs[i := empty_rwm, j := empty_rwm])) h' r (bss ! i @ bss ! j)"
    "framed (roots (rs[i := empty_rwm, j := empty_rwm])) h h'" by (rule union_ok [OF holds_pair [OF h ij]])
  then show ?thesis using holds_join [OF h ij] by (intro that) blast+
qed

lemma push_front_at:
  assumes h: "holds rs bss h" and i: "i < length rs"
  obtains h' where "rwm_push_data_front (rs ! i) ds h = Some (Inl h')" "out_of_buffers MSG_SMALL_BUFFER (pool h') \<or> out_of_buffers MSG_STD_BUFFER (pool h')"
  | r h' where "rwm_push_data_front (rs ! i) ds h = Some (Inr (r, h'))" "holds (rs[i := r]) (bss[i := ds @ bss ! i]) h'"
  using push_front_ok [OF holds_view [OF h i], of ds] holds_update [OF h i] by blast

text \<open>The refinement of one operation.\<close>

lemma rwm_step_sim:
  assumes h: "holds rs bss h" and ok: "rwm_op_ok opn (rs, h)"
  shows "\<exists>rs' h'. rwm_step opn (rs, h) = Some (fst (bytes_step opn bss), rs', h') \<and> holds rs' (snd (bytes_step opn bss)) h'"
proof (cases opn)
  case (Create ds)
  obtain k r' h' where "rwm_create ds h = Some (k, r', h')" "k \<le> length ds" "holds (rs @ [r']) (bss @ [take k ds]) h'" by (rule create_at [OF h])
  then show ?thesis using Create ok by simp
next
  case (Clone i)
  then have i: "i < length rs" using ok by simp
  obtain h' where "rwm_clone (rs ! i) h = Some (rs ! i, h')" "holds (rs @ [rs ! i]) (bss @ [bss ! i]) h'" by (rule clone_at [OF h i])
  then show ?thesis using Clone by simp
next
  case (Free i)
  then have i: "i < length rs" using ok by simp
  obtain h' where "rwm_free (rs ! i) h = Some h'" "holds (rs[i := empty_rwm]) (bss[i := []]) h'" by (rule free_at [OF h i])
  then show ?thesis using Free by simp
next
  case (Push i ds)
  then have i: "i < length rs" using ok by simp
  obtain k r' h' where "rwm_push_data_ext (rs ! i) ds RM_PREPEND_RESERVE MSG_SMALL_BUFFER MSG_STD_BUFFER h = Some (k, r', h')" "k \<le> length ds"
    "holds (rs[i := r']) (bss[i := bss ! i @ take k ds]) h'" by (rule push_at [OF h i push_data_params])
  then show ?thesis using Push ok by (simp add: rwm_push_data_def)
next
  case (Push_front i ds)
  then have i: "i < length rs" using ok by simp
  show ?thesis by (rule push_front_at [OF h i, of ds]) (use Push_front ok in simp_all)
next
  case (Fetch i n)
  then have i: "i < length rs" using ok by simp
  from fetch_data_ok [OF holds_view [OF h i], of n] show ?thesis using Fetch holds_keep [OF h i] by auto
next
  case (Lookup i n)
  then have i: "i < length rs" using ok by simp
  from fetch_lookup_ok [OF holds_view [OF h i], of n] show ?thesis using Lookup holds_keep [OF h i, where bs' = "bss ! i"] by auto
next
  case (Skip i n)
  then have i: "i < length rs" using ok by simp
  from skip_data_ok [OF holds_view [OF h i], of n] show ?thesis using Skip holds_keep [OF h i] by auto
next
  case (Fetch_back i n)
  then have i: "i < length rs" using ok by simp
  from fetch_data_back_ok [OF holds_view [OF h i], of n] show ?thesis using Fetch_back holds_keep [OF h i] by auto
next
  case (Trunc i n)
  then have i: "i < length rs" using ok by simp
  from trunc_ok [OF holds_view [OF h i], of n] show ?thesis using Trunc holds_keep [OF h i] by auto
next
  case (Split i n)
  then have i: "i < length rs" "n = 0 \<longrightarrow> rm_first (rs ! i) = rm_last (rs ! i)" using ok by simp_all
  obtain r t h' where "rwm_split (rs ! i) empty_rwm n h = Some (if n \<le> length (bss ! i) then 0 else - 1, r, t, h')"
    "holds (rs[i := r] @ [t]) (bss[i := take n (bss ! i)] @ [drop n (bss ! i)]) h'" by (rule split_at_ok [OF h i])
  then show ?thesis using Split by simp
next
  case (Union i j)
  then have ij: "i < length rs" "j < length rs" "i \<noteq> j" using ok by simp_all
  obtain r h' where "rwm_union (rs ! i) (rs ! j) h = Some (r, h')" "holds (rs[i := r, j := empty_rwm]) (bss[i := bss ! i @ bss ! j, j := []]) h'"
    by (rule union_at [OF h ij])
  then show ?thesis using Union by simp
qed

definition messages_rel :: "raw_message list \<times> msg_heap \<Rightarrow> bytes list \<Rightarrow> bool" where
  "messages_rel s bss \<longleftrightarrow> holds (fst s) bss (snd s)"

interpretation raw_messages: simulation messages_rel rwm_step bytes_step rwm_op_ok
proof
  fix s bss opn
  assume a: "messages_rel s bss" "rwm_op_ok opn s"
  obtain rs h where s: "s = (rs, h)" by force
  from rwm_step_sim [of rs bss h opn] a show "\<exists>s'. rwm_step opn s = Some (fst (bytes_step opn bss), s') \<and> messages_rel s' (snd (bytes_step opn bss))"
    unfolding s messages_rel_def by fastforce
qed

text \<open>The heap at the start of the program.\<close>

definition init_heap :: "nat \<Rightarrow> (nat \<Rightarrow> nat) \<Rightarrow> msg_heap" where
  "init_heap max_chunks rnd = \<lparr>parts = Map.empty, bufs = Map.empty, pool = init_pool max_chunks rnd, next_part = 0\<rparr>"

lemma init_heap_holds:
  assumes "\<And>n. rnd n < 2 ^ 31"
  shows "holds [] [] (init_heap max_chunks rnd)"
  using init_pool_ok [of rnd max_chunks, OF assms]
  by (simp add: holds_def heap_ok_def refs_ok_def data_ok_def links_def locks_def acyclic_def init_heap_def init_pool_unused)


lemma view_alone: "view {#} h r bs \<longleftrightarrow> holds [r] [bs] h"
  by (auto simp: view_def holds_def reach_def)

lemma sample_message:
  obtains r h where "rwm_create [1, 2, 3, 4] (init_heap 1 (\<lambda>_. 7)) = Some (4, r, h)" "holds [r] [[1, 2, 3, 4]] h"
proof -
  let ?h = "init_heap 1 (\<lambda>_. 7)"
  have "holds [empty_rwm] [[]] ?h" using holds_empty [OF init_heap_holds, of "\<lambda>_. 7" 1] by simp
  then have v: "view {#} ?h empty_rwm []" by (simp add: view_alone)
  have room: "\<not> out_of_buffers MSG_SMALL_BUFFER (pool ?h)" by (simp add: out_of_buffers_def pool_full_def init_heap_def init_pool_def)
  obtain k r' h' where p: "rwm_push_data_ext empty_rwm [1, 2, 3, 4] RM_PREPEND_RESERVE MSG_SMALL_BUFFER MSG_STD_BUFFER ?h = Some (k, r', h')"
    "view {#} h' r' (take k [1, 2, 3, 4])"
    "RM_PREPEND_RESERVE + length ([1, 2, 3, 4] :: bytes) < MSG_SMALL_BUFFER \<longrightarrow> \<not> out_of_buffers MSG_SMALL_BUFFER (pool ?h) \<longrightarrow> k = length ([1, 2, 3, 4] :: bytes)"
    by (rule push_first_ok [OF v _ _ push_data_params, of "[1, 2, 3, 4]"]) simp_all
  have k: "k = 4" using p(3) room by (simp add: RM_PREPEND_RESERVE_def MSG_SMALL_BUFFER_def)
  have "view {#} h' r' [1, 2, 3, 4]" using p(2) k by simp
  then have "holds [r'] [[1, 2, 3, 4]] h'" by (simp add: view_alone)
  moreover have "rwm_create [1, 2, 3, 4] ?h = Some (4, r', h')" using p(1) k by (simp add: rwm_create_def rwm_push_data_def)
  ultimately show ?thesis by (intro that)
qed

subsection \<open>Raw messages are byte sequences\<close>

text \<open>
  C4: Whatever the sequence of operations on raw messages (creating, copying, freeing, appending, prepending, reading, cutting,
  splitting, joining), and however they share parts and buffers, each message stands for the bytes that the same
  operations on plain byte sequences give: no operation fails an assertion, follows a dangling pointer, reads or writes outside
  a buffer or changes another message. When all messages are freed or empty, no part and no buffer is left.
\<close>

theorem raw_messages_as_bytes:
  assumes "\<forall>n. rnd n < 2 ^ 31" "run_pre rwm_step rwm_op_ok ops ([], init_heap max_chunks rnd)"
  shows "\<exists>rs h. run rwm_step ops ([], init_heap max_chunks rnd) = Some (fst (arun bytes_step ops []), rs, h) \<and>
    holds rs (snd (arun bytes_step ops [])) h \<and>
    ((\<forall>r\<in>set rs. rm_first r = None) \<longrightarrow> parts h = Map.empty \<and> used (pool h) = {})"
proof -
  have "messages_rel ([], init_heap max_chunks rnd) []" using init_heap_holds [of rnd] assms(1) by (simp add: messages_rel_def)
  from raw_messages.run_sim [OF this assms(2)] obtain rs h where
    r: "run rwm_step ops ([], init_heap max_chunks rnd) = Some (fst (arun bytes_step ops []), rs, h)" "holds rs (snd (arun bytes_step ops [])) h"
    by (auto simp: messages_rel_def)
  have "parts h = Map.empty \<and> used (pool h) = {}" if "\<forall>r\<in>set rs. rm_first r = None"
  proof -
    have "roots rs = {#}" using that by (induction rs) simp_all
    then show ?thesis using heap_ok_empty [of h] r(2) by (simp add: holds_def)
  qed
  with r show ?thesis by blast
qed

lemma raw_messages_as_bytes_witness:
  "\<exists>rs h. run rwm_step [Create [1, 2, 3, 4], Clone 0, Fetch 0 3, Trunc 1 2, Union 0 1, Free 0] ([], init_heap 1 (\<lambda>_. 7)) =
     Some ([[], [], [1, 2, 3], [], [], []], rs, h) \<and> holds rs [[], []] h"
proof -
  let ?ops = "[Create [1, 2, 3, 4], Clone 0, Fetch 0 3, Trunc 1 2, Union 0 1, Free 0]"
  obtain r h where r: "rwm_create [1, 2, 3, 4] (init_heap 1 (\<lambda>_. 7)) = Some (4, r, h)" "holds [r] [[1, 2, 3, 4]] h" by (rule sample_message)
  have "run_pre rwm_step rwm_op_ok ?ops ([], init_heap 1 (\<lambda>_. 7))"
    using r(1) by (auto split: option.splits simp: bind_eq_Some_conv)
  from raw_messages_as_bytes [OF _ this] obtain rs h where
    "run rwm_step ?ops ([], init_heap 1 (\<lambda>_. 7)) = Some (fst (arun bytes_step ?ops []), rs, h)" "holds rs (snd (arun bytes_step ?ops [])) h" by auto
  moreover have "arun bytes_step ?ops [] = ([[], [], [1, 2, 3], [], [], []], [[], []])" by simp
  ultimately show ?thesis by (metis fst_conv snd_conv)
qed


text \<open>
  C9: Appending returns without a failed assertion. It adds the bytes at the end of the message, all of them unless the
  allocator has no more buffers, and returns their number; all other messages keep their bytes, also those that share parts or
  buffers with this one.
\<close>

theorem rwm_push_data_appends:
  assumes "holds rs bss h" "i < length rs" "prepend \<le> std" "small \<le> 262144" "std \<le> 262144"
  shows "\<exists>k r' h'. rwm_push_data_ext (rs ! i) ds prepend small std h = Some (k, r', h') \<and> k \<le> length ds \<and>
    holds (rs[i := r']) (bss[i := bss ! i @ take k ds]) h' \<and>
    (k < length ds \<longrightarrow> out_of_buffers small (pool h') \<or> out_of_buffers std (pool h'))"
proof -
  have "push_params prepend small std" using assms by (simp add: push_params_def)
  from push_at [OF assms(1,2) this, of ds] show ?thesis by metis
qed

lemma rwm_push_data_appends_witness:
  "\<exists>r h k r' h'. holds [r, r] [[1, 2, 3, 4], [1, 2, 3, 4]] h \<and> rwm_push_data_ext r [5, 6] 128 512 2048 h = Some (k, r', h') \<and>
     holds [r', r] [[1, 2, 3, 4] @ take k [5, 6], [1, 2, 3, 4]] h'"
proof -
  obtain r h where "holds [r] [[1, 2, 3, 4]] h" by (rule sample_message)
  from clone_at [OF this, of 0] obtain h1 where h1: "holds [r, r] [[1, 2, 3, 4], [1, 2, 3, 4]] h1" by auto
  from rwm_push_data_appends [OF this, of 0 128 2048 512 "[5, 6]"] h1 show ?thesis by (simp, blast)
qed

text \<open>
  C34: Prepending returns, with the bytes in front of the message and all other messages undisturbed; only when
  the allocator has no more buffers the program ends with a failed assertion.
\<close>

theorem rwm_push_data_front_prepends:
  assumes "holds rs bss h" "i < length rs"
  shows "(\<exists>r' h'. rwm_push_data_front (rs ! i) ds h = Some (Inr (r', h')) \<and> holds (rs[i := r']) (bss[i := ds @ bss ! i]) h') \<or>
    (\<exists>h'. rwm_push_data_front (rs ! i) ds h = Some (Inl h') \<and>
      (out_of_buffers MSG_SMALL_BUFFER (pool h') \<or> out_of_buffers MSG_STD_BUFFER (pool h')))"
  using push_front_at [OF assms, of ds] by blast

lemma rwm_push_data_front_prepends_witness:
  "\<exists>r h. holds [r] [[1, 2, 3, 4]] h \<and>
     ((\<exists>r' h'. rwm_push_data_front r [9] h = Some (Inr (r', h')) \<and> holds [r'] [[9, 1, 2, 3, 4]] h') \<or>
      (\<exists>h'. rwm_push_data_front r [9] h = Some (Inl h') \<and>
        (out_of_buffers MSG_SMALL_BUFFER (pool h') \<or> out_of_buffers MSG_STD_BUFFER (pool h'))))"
proof -
  obtain r h where "holds [r] [[1, 2, 3, 4]] h" by (rule sample_message)
  with rwm_push_data_front_prepends [OF this, of 0 "[9]"] show ?thesis by (intro exI [of _ r] exI [of _ h]) simp
qed

text \<open>
  C13: A block function is given the requested bytes of a message in order and without empty blocks, up to the block for which it
  returns a negative code. After a negative code the message is as before; otherwise the bytes are kept, removed
  together with all before them, or removed together with all behind them, as the flag says. Other messages are undisturbed.
\<close>

theorem rwm_process_ex_in_order:
  fixes f :: "'x \<Rightarrow> bytes \<Rightarrow> int \<times> 'x"
  assumes "holds rs bss h" "i < length rs" "n = min bytes (length (bss ! i) - offset)" "0 < n"
  shows "\<exists>code c x' r' h'. rwm_process_ex (rs ! i) bytes offset flag f x h = Some (c, x', r', h') \<and>
    processed f x (take n (drop offset (bss ! i))) code x' \<and>
    (code < 0 \<longrightarrow> c = code \<and> r' = rs ! i \<and> h' = h) \<and>
    (code \<ge> 0 \<longrightarrow> c = int n \<and> holds (rs[i := r']) (bss[i := process_rest flag offset n (bss ! i)]) h')"
proof -
  from process_ex_ok [OF holds_view [OF assms(1,2)] assms(3,4), of flag f x] obtain code c x' r' h' where
    p: "rwm_process_ex (rs ! i) bytes offset flag f x h = Some (c, x', r', h')" "processed f x (take n (drop offset (bss ! i))) code x'"
      "code < 0 \<longrightarrow> c = code \<and> r' = rs ! i \<and> h' = h"
      "code \<ge> 0 \<longrightarrow> c = int n \<and> view (roots (rs[i := empty_rwm])) h' r' (process_rest flag offset n (bss ! i)) \<and> kept (roots (rs[i := empty_rwm])) h h'"
    by (auto simp: process_done_def)
  moreover have "code \<ge> 0 \<longrightarrow> holds (rs[i := r']) (bss[i := process_rest flag offset n (bss ! i)]) h'"
    using p(4) holds_keep [OF assms(1,2)] by blast
  ultimately show ?thesis by blast
qed

lemma rwm_process_ex_in_order_witness:
  "\<exists>r h c x' r' h'. holds [r] [[1, 2, 3, 4]] h \<and> rwm_process_ex r 2 1 Advance process_memcpy [] h = Some (c, x', r', h') \<and>
     c = 2 \<and> x' = [2, 3] \<and> holds [r'] [[4]] h'"
proof -
  obtain r h where h: "holds [r] [[1, 2, 3, 4]] h" by (rule sample_message)
  have i: "0 < length [r]" by simp
  have n: "(2 :: nat) = min 2 (length ([[1, 2, 3, 4]] ! 0 :: bytes) - 1)" by simp
  from rwm_process_ex_in_order [OF h i n, of Advance process_memcpy "[]"] obtain code c x' r' h' where
    p: "rwm_process_ex r 2 1 Advance process_memcpy [] h = Some (c, x', r', h')" "processed process_memcpy [] [2, 3] code x'"
      "code \<ge> 0 \<longrightarrow> c = 2 \<and> holds [r'] [process_rest Advance 1 2 [1, 2, 3, 4]] h'" by auto
  from processed_memcpy [OF p(2)] have "code = 0" "x' = [2, 3]" by simp_all
  with p h show ?thesis by (auto simp: process_rest_def)
qed

text \<open>
  Splitting gives two messages, with the first bytes and with the rest, that share parts; all other messages are undisturbed. A
  split behind the end leaves the message and is reported. (A split at the beginning is only right for a message with one part.)
\<close>

theorem rwm_split_shares:
  assumes "holds rs bss h" "i < length rs" "n = 0 \<longrightarrow> rm_first (rs ! i) = rm_last (rs ! i)"
  shows "\<exists>r t h'. rwm_split (rs ! i) tl0 n h = Some (if n \<le> length (bss ! i) then 0 else - 1, r, t, h') \<and>
    holds (rs[i := r] @ [t]) (bss[i := take n (bss ! i)] @ [drop n (bss ! i)]) h'"
  using split_at_ok [OF assms, of tl0] by metis

lemma rwm_split_shares_witness:
  "\<exists>r h r' t h'. holds [r] [[1, 2, 3, 4]] h \<and> rwm_split r empty_rwm 1 h = Some (0, r', t, h') \<and> holds [r', t] [[1], [2, 3, 4]] h'"
proof -
  obtain r h where h: "holds [r] [[1, 2, 3, 4]] h" by (rule sample_message)
  from rwm_split_shares [OF h, of 0 1 empty_rwm] h show ?thesis by (simp, blast)
qed

text \<open>
  C10: Joining two messages passes all assertions and never closes a cycle, also when the two share their last part: the first message
  stands for the bytes of both, the second one is given up, and all other messages are undisturbed.
\<close>

theorem rwm_union_joins:
  assumes "holds rs bss h" "i < length rs" "j < length rs" "i \<noteq> j"
  shows "\<exists>r h'. rwm_union (rs ! i) (rs ! j) h = Some (r, h') \<and>
    holds (rs[i := r, j := empty_rwm]) (bss[i := bss ! i @ bss ! j, j := []]) h'"
  using union_at [OF assms] by metis

lemma rwm_union_joins_witness:
  "\<exists>r h r' h'. holds [r, r] [[1, 2, 3, 4], [1, 2, 3, 4]] h \<and> rwm_union r r h = Some (r', h') \<and>
     holds [r', empty_rwm] [[1, 2, 3, 4, 1, 2, 3, 4], []] h'"
proof -
  obtain r h where "holds [r] [[1, 2, 3, 4]] h" by (rule sample_message)
  from clone_at [OF this, of 0] obtain h1 where h1: "holds [r, r] [[1, 2, 3, 4], [1, 2, 3, 4]] h1" by auto
  from rwm_union_joins [OF h1, of 0 1] h1 show ?thesis by auto
qed

end
