(* ===== verification/Spec2Isabelle.thy ===== *)
theory Spec2Isabelle
  imports Tls_Accept Direct_Dc Proxy_Protocol Transport Timers Drs Msg_System
begin

text \<open>
  A verification library for Teleproxy, a proxy for the MTProto protocol of Telegram written in C.

  \<^bold>\<open>The program.\<close> A client connects over TCP, possibly behind a load balancer that adds a PROXY header. The connection is
  recognised by its first bytes: a TLS ClientHello (fake TLS), a WebSocket upgrade, an HTTP stream, or a
  plain obfuscated2 header. The proxy finds the secret under which the handshake was made, checks the limits of that secret,
  and relays between the client and a data centre, in direct mode over an obfuscated2 connection that it opens itself.
  Everything the client sends before it has proved to know a secret is answered in such a way that the proxy looks like
  the web server of a configured domain.

  \<^bold>\<open>Conventions.\<close> Every C function is one definition with the name it has in the source, or a few definitions where it has
  several loops. A function that can fail an \<^verbatim>\<open>assert\<close> or access memory outside an object is in the option monad, with
  \<open>None\<close> for the faulting execution; that it does not fault is a theorem. Loops are structural recursion,
  functions with a termination proof, or \<^verbatim>\<open>partial_function (option)\<close>, where \<open>None\<close> also stands for a loop that
  does not end; theorems about them state that the result is \<open>Some\<close>. No fuel is used. Integers are \<open>int\<close> or \<open>nat\<close> where
  they cannot overflow and words where they can. Interfaces are locales, each interpreted on the
  model: \<^verbatim>\<open>keyed_table\<close>, \<^verbatim>\<open>simulation\<close> and \<^verbatim>\<open>invariant_machine\<close> of the prelude, the callback of a timer, the
  allocator of buffers.

  \<^bold>\<open>Parameters.\<close> OpenSSL (SHA-256, HMAC, AES-CTR key streams, big numbers, random bytes), the system calls, \<^verbatim>\<open>malloc\<close>
  addresses, the clock and the random-number generators are arguments of the definitions; what the
  program relies on is stated as hypotheses of the theorems, each with a witness.

  \<^bold>\<open>The theories and what they show.\<close>

    \<^item> \<^verbatim>\<open>Prelude\<close>, \<^verbatim>\<open>C_String\<close>: buffer accesses, executions without fault, tables, simulations, invariants, the C string
      functions.
    \<^item> \<^verbatim>\<open>Tls_Parse\<close> (\<^verbatim>\<open>net-tls-parse.c\<close>), \<^verbatim>\<open>Public_Key\<close>, \<^verbatim>\<open>Client_Hello\<close>, \<^verbatim>\<open>Server_Hello\<close>, \<^verbatim>\<open>Domain\<close>, \<^verbatim>\<open>Hello_Samples\<close>
      (\<^verbatim>\<open>net-tcp-rpc-ext-server.c\<close>, \<^verbatim>\<open>net-tcp-rpc-ext-domain.c\<close>): the parsers never read outside their buffer and accept exactly the
      hello messages described; the ClientHello of the probe is understood by the parser of the server, the ServerHello of
      the proxy by the check of the probe; generated public keys are on the curve; the domain
      table refines a map with wildcard patterns.
    \<^item> \<^verbatim>\<open>Replay\<close>: the cache of client randoms on an explicit heap. No random is accepted twice in the
      time it is remembered, and its invariant holds under insertion and expiry.
    \<^item> \<^verbatim>\<open>Obfs2\<close> (\<^verbatim>\<open>net-obfs2-parse.c\<close> and the frame code of the server): header and frame formats, with round trips
      and the equivalence of two parsers.
    \<^item> \<^verbatim>\<open>Uniq_Bloom\<close>, \<^verbatim>\<open>Top_Ips\<close>, \<^verbatim>\<open>Secrets\<close>, \<^verbatim>\<open>Drain\<close>, \<^verbatim>\<open>Accept\<close>, \<^verbatim>\<open>Tls_Accept\<close>: statistics per secret, limits, reload of the
      configuration, acceptance of connections. The machine of accepts, closes, reloads and sweeps keeps exact
      counts and limits; a TLS reply is only given to an authenticated hello.
    \<^item> \<^verbatim>\<open>Ip_Acl\<close>, \<^verbatim>\<open>Proxy_Protocol\<close>: address lists decide by prefix; PROXY headers are parsed independently of
      how they are cut and round-trip.
    \<^item> \<^verbatim>\<open>Transport\<close> (\<^verbatim>\<open>net-websocket.c\<close>, the CTR loops of \<^verbatim>\<open>net-tcp-connections.c\<close>), \<^verbatim>\<open>Drs\<close> (\<^verbatim>\<open>net-tcp-drs.c\<close>): input gives the same bytes
      however it is cut into reads; output is a sequence of frames or records that carries its encryption, and is sent
      completely although records are delayed.
    \<^item> \<^verbatim>\<open>Dc_Table\<close>, \<^verbatim>\<open>Direct_Dc\<close> (\<^verbatim>\<open>mtproto-dc-table.c\<close>, \<^verbatim>\<open>net-tcp-direct-dc.c\<close>): addresses of data centres, retries,
      the header sent to them, SOCKS5, and accounting of the relayed bytes.
    \<^item> \<^verbatim>\<open>Timers\<close> (\<^verbatim>\<open>net-timers.c\<close>, timers of \<^verbatim>\<open>jobs.c\<close>): the heap of timers fires what is due, in order.
    \<^item> \<^verbatim>\<open>Msg_Buffers\<close> (\<^verbatim>\<open>net-msg-buffers.c\<close>): the allocator of message buffers hands out free buffers only.
    \<^item> \<^verbatim>\<open>Raw_Msg\<close> (\<^verbatim>\<open>net-msg.c\<close>): the raw messages in which all traffic is kept, chains of parts with reference counts that share
      buffers, on an explicit heap. \<^verbatim>\<open>Msg_Chain\<close> and \<^verbatim>\<open>Msg_View\<close> give the chain of a message, the bytes it stands for and the
      invariant that every reference count is exact; \<^verbatim>\<open>Msg_Ops\<close>, \<^verbatim>\<open>Msg_Fork\<close>, \<^verbatim>\<open>Msg_Push\<close>, \<^verbatim>\<open>Msg_Read\<close>, \<^verbatim>\<open>Msg_Whole\<close> and
      \<^verbatim>\<open>Msg_Front\<close> prove one group of operations each; \<^verbatim>\<open>Msg_System\<close> shows that any sequence of operations on
      any number of messages refines operations on byte sequences, disturbs no other message and leaks nothing.

  \<^bold>\<open>Not modelled.\<close> Threads and their synchronisation (\<^verbatim>\<open>jobs.c\<close>, \<^verbatim>\<open>mp-queue.c\<close>; each component is modelled as one thread
  executes it), of \<^verbatim>\<open>net-msg.c\<close> the temporary messages, the allocation in front and behind, the block
  pointers and the encryption in place, sockets and events (\<^verbatim>\<open>net-connections.c\<close>, \<^verbatim>\<open>net-events.c\<close>), the protocol of middle proxies with its RPC,
  checksums and key exchange, the HTTP statistics page, the parsing of configuration files, the main program, and text
  output. The reasons are that they are input and output, concern the memory model, or are not reached in direct mode.
\<close>

end
